(* ===== verification/Lwip_Prelude.thy ===== *)
theory Lwip_Prelude
  imports Main "HOL-Library.Word" "HOL-Library.Monad_Syntax"
begin

text \<open>
  Shared vocabulary of the development: the C integer types the stack uses, the error codes of
  \<^verbatim>\<open>lwip/err.h\<close>, the assertion macro, the integer conversions of C on natural numbers, byte
  memory with \<^verbatim>\<open>MEMCPY\<close>, and C strings.

  A C function that may fail to return is modelled by a function into \<^typ>\<open>'a option\<close>:
  \<^term>\<open>None\<close> says that the call does not return normally, because an \<^verbatim>\<open>LWIP_ASSERT\<close> fails (the
  default \<^verbatim>\<open>LWIP_PLATFORM_ASSERT\<close> of \<^verbatim>\<open>lwip/arch.h\<close> calls \<^verbatim>\<open>abort\<close>), because a pointer with no
  object behind it is dereferenced, or because a loop does not end.  Error codes and null pointers
  the code returns are ordinary values.

  Fields and locals of type \<^verbatim>\<open>u16_t\<close>, \<^verbatim>\<open>mem_size_t\<close> and \<^verbatim>\<open>size_t\<close> that hold lengths are natural
  numbers, and every narrowing cast of the code is written out (\<open>u16_of\<close>, \<open>u16_sub\<close>, \<open>u8_of\<close>,
  \<open>u32_sub\<close>); values that the code treats bitwise are machine words.
\<close>

unbundle bit_operations_syntax

section \<open>Machine types and result codes\<close>

type_synonym u8 = "8 word"
type_synonym u16 = "16 word"
type_synonym u32 = "32 word"

datatype err_t =
    ERR_OK | ERR_MEM | ERR_BUF | ERR_TIMEOUT | ERR_RTE | ERR_INPROGRESS | ERR_VAL
  | ERR_WOULDBLOCK | ERR_USE | ERR_ALREADY | ERR_ISCONN | ERR_CONN | ERR_IF
  | ERR_ABRT | ERR_RST | ERR_CLSD | ERR_ARG

named_theorems cast_simps \<open>integer conversions whose argument is in range\<close>
named_theorems mem_simps \<open>byte memory\<close>

section \<open>Assertions\<close>

definition lwip_assert :: "bool \<Rightarrow> unit option" where
  "lwip_assert b = (if b then Some () else None)"

lemma lwip_assert_simps [simp]:
  "lwip_assert True = Some ()"
  "lwip_assert False = None"
  by (simp_all add: lwip_assert_def)

lemma lwip_assert_bind [simp]:
  "(lwip_assert b \<bind> f = Some y) \<longleftrightarrow> b \<and> f () = Some y"
  by (simp add: lwip_assert_def)

section \<open>Integer conversions on natural numbers\<close>

definition u8_of :: "nat \<Rightarrow> nat" where
  "u8_of x = x mod 2 ^ 8"

definition u16_of :: "nat \<Rightarrow> nat" where
  "u16_of x = x mod 2 ^ 16"

definition u16_sub :: "nat \<Rightarrow> nat \<Rightarrow> nat" where
  "u16_sub a b = (a + 2 ^ 16 - b) mod 2 ^ 16"

definition u32_sub :: "nat \<Rightarrow> nat \<Rightarrow> nat" where
  "u32_sub a b = (a + 2 ^ 32 - b) mod 2 ^ 32"

lemma sub_wrap_id: "b \<le> a \<Longrightarrow> a < w \<Longrightarrow> (a + w - b) mod w = a - b" for a b w :: nat
proof -
  assume "b \<le> a" "a < w"
  then have eq: "a + w - b = (a - b) + w" by simp
  show ?thesis unfolding eq mod_add_self2 using \<open>a < w\<close> by (intro mod_less) simp
qed

lemma u8_of_id [cast_simps]: "x < 256 \<Longrightarrow> u8_of x = x"
  by (simp add: u8_of_def)

lemma u16_of_id [cast_simps]: "x < 65536 \<Longrightarrow> u16_of x = x"
  by (simp add: u16_of_def)

lemma u16_of_less [simp]: "u16_of x < 65536"
  by (simp add: u16_of_def)

lemma u16_sub_id [cast_simps]: "b \<le> a \<Longrightarrow> a < 65536 \<Longrightarrow> u16_sub a b = a - b"
  unfolding u16_sub_def by (rule sub_wrap_id) simp_all

lemma u16_sub_less [simp]: "u16_sub a b < 65536"
  by (simp add: u16_sub_def)

lemma u32_sub_id [cast_simps]: "b \<le> a \<Longrightarrow> a < 2 ^ 32 \<Longrightarrow> u32_sub a b = a - b"
  unfolding u32_sub_def by (rule sub_wrap_id)

section \<open>Word operations on natural numbers\<close>

lemma or_push_bit_nat: "a < 2 ^ n \<Longrightarrow> a OR push_bit n b = a + 2 ^ n * b" for a b n :: nat
proof -
  assume "a < 2 ^ n"
  then have "take_bit n a = a" by (simp add: take_bit_nat_eq_self_iff)
  then have "\<not> bit a k \<or> \<not> bit (push_bit n b) k" for k
    by (metis bit_push_bit_iff bit_take_bit_iff not_less)
  then have "a + push_bit n b = a OR push_bit n b" by (intro disjunctive_add) auto
  then show ?thesis by (simp add: push_bit_eq_mult mult.commute)
qed

lemma unat_push_bit: "unat w * 2 ^ n < 2 ^ LENGTH('a) \<Longrightarrow> unat (push_bit n w) = unat w * 2 ^ n"
  for w :: "'a::len word"
  unfolding unsigned_push_bit_eq unfolding push_bit_eq_mult by (simp only: take_bit_nat_eq_self_iff)

lemma unat_drop_bit: "unat (drop_bit n w) = unat w div 2 ^ n" for w :: "'a::len word"
  unfolding unsigned_drop_bit_eq unfolding drop_bit_eq_div
  by (simp only: take_bit_nat_eq_self unsigned_less)

lemma unat_and_mask: "unat (w AND mask n) = unat w mod 2 ^ n" for w :: "'a::len word"
  unfolding take_bit_eq_mask [symmetric] unsigned_take_bit_eq unfolding take_bit_eq_mod ..

lemma unat_plus_id: "unat x + unat y < 2 ^ LENGTH('a) \<Longrightarrow> unat (x + y) = unat x + unat y"
  for x y :: "'a::len word"
  by (simp add: unat_word_ariths)

section \<open>Byte memory\<close>

text \<open>
  Memory maps the addresses of existing objects to bytes.  \<^verbatim>\<open>MEMCPY\<close> reads its source before it
  writes, which is what the C function does on the disjoint buffers it is specified for.
\<close>

type_synonym addr = nat
type_synonym byte_mem = "addr \<rightharpoonup> u8"

primrec load_bytes :: "byte_mem \<Rightarrow> addr \<Rightarrow> nat \<Rightarrow> u8 list option" where
  "load_bytes m a 0 = Some []"
| "load_bytes m a (Suc n) =
     do { b \<leftarrow> m a; bs \<leftarrow> load_bytes m (Suc a) n; Some (b # bs) }"

fun store_bytes :: "byte_mem \<Rightarrow> addr \<Rightarrow> u8 list \<Rightarrow> byte_mem option" where
  "store_bytes m a [] = Some m"
| "store_bytes m a (b # bs) =
     do { _ \<leftarrow> m a; store_bytes (m(a \<mapsto> b)) (Suc a) bs }"

definition memcpy :: "byte_mem \<Rightarrow> addr \<Rightarrow> addr \<Rightarrow> nat \<Rightarrow> byte_mem option" where
  "memcpy m dst src n = do { bs \<leftarrow> load_bytes m src n; store_bytes m dst bs }"

definition range_mapped :: "byte_mem \<Rightarrow> addr \<Rightarrow> nat \<Rightarrow> bool" where
  "range_mapped m a n \<longleftrightarrow> (\<forall>i<n. m (a + i) \<noteq> None)"

definition bytes_at :: "byte_mem \<Rightarrow> addr \<Rightarrow> nat \<Rightarrow> u8 list" where
  "bytes_at m a n = map (\<lambda>i. the (m (a + i))) [0..<n]"

lemma length_bytes_at [simp]: "length (bytes_at m a n) = n"
  by (simp add: bytes_at_def)

lemma bytes_at_Suc: "bytes_at m a (Suc n) = the (m a) # bytes_at m (Suc a) n"
  by (rule nth_equalityI) (auto simp: bytes_at_def nth_Cons' simp del: upt_Suc)

lemma bytes_at_0 [simp]: "bytes_at m a 0 = []"
  by (simp add: bytes_at_def)

lemma nth_bytes_at [simp]: "i < n \<Longrightarrow> bytes_at m a n ! i = the (m (a + i))"
  by (simp add: bytes_at_def)

lemma bytes_at_add: "bytes_at m a (n + k) = bytes_at m a n @ bytes_at m (a + n) k"
  by (rule nth_equalityI) (auto simp: nth_append add.assoc)

lemma take_bytes_at [simp]: "take k (bytes_at m a n) = bytes_at m a (min k n)"
  by (rule nth_equalityI) auto

lemma drop_bytes_at [simp]: "drop k (bytes_at m a n) = bytes_at m (a + k) (n - k)"
  by (rule nth_equalityI) (auto simp: add.assoc)

lemma range_mapped_0 [simp]: "range_mapped m a 0"
  by (simp add: range_mapped_def)

lemma range_mapped_Suc: "range_mapped m a (Suc n) \<longleftrightarrow> m a \<noteq> None \<and> range_mapped m (Suc a) n"
proof
  assume "range_mapped m a (Suc n)"
  then have *: "i < Suc n \<Longrightarrow> m (a + i) \<noteq> None" for i by (simp add: range_mapped_def)
  have "m (Suc a + i) \<noteq> None" if "i < n" for i using * [of "Suc i"] that by simp
  then show "m a \<noteq> None \<and> range_mapped m (Suc a) n"
    using * [of 0] by (simp add: range_mapped_def)
next
  assume *: "m a \<noteq> None \<and> range_mapped m (Suc a) n"
  show "range_mapped m a (Suc n)"
    unfolding range_mapped_def
  proof (intro allI impI)
    fix i assume "i < Suc n"
    with * show "m (a + i) \<noteq> None"
      by (cases i) (auto simp: range_mapped_def)
  qed
qed

lemma range_mapped_mono: "range_mapped m a n \<Longrightarrow> k + j \<le> n \<Longrightarrow> range_mapped m (a + k) j"
proof -
  assume *: "range_mapped m a n" "k + j \<le> n"
  show ?thesis
    unfolding range_mapped_def
  proof (intro allI impI)
    fix i assume "i < j"
    with *(2) have "k + i < n" by simp
    with *(1) have "m (a + (k + i)) \<noteq> None" by (simp add: range_mapped_def)
    then show "m (a + k + i) \<noteq> None" by (simp add: add.assoc)
  qed
qed

lemma range_mapped_prefix: "range_mapped m a n \<Longrightarrow> j \<le> n \<Longrightarrow> range_mapped m a j"
  by (simp add: range_mapped_def)

lemma load_bytes_mapped [mem_simps]:
  "range_mapped m a n \<Longrightarrow> load_bytes m a n = Some (bytes_at m a n)"
  by (induction n arbitrary: a) (auto simp: range_mapped_Suc bytes_at_Suc)

lemma load_bytes_unmapped: "\<not> range_mapped m a n \<Longrightarrow> load_bytes m a n = None"
  by (induction n arbitrary: a) (auto simp: range_mapped_Suc split: Option.bind_splits)

lemma load_bytes_Some: "load_bytes m a n = Some bs \<longleftrightarrow> range_mapped m a n \<and> bs = bytes_at m a n"
  by (cases "range_mapped m a n") (auto simp: load_bytes_mapped load_bytes_unmapped)

definition mem_upd :: "byte_mem \<Rightarrow> addr \<Rightarrow> u8 list \<Rightarrow> byte_mem" where
  "mem_upd m a bs = (\<lambda>x. if a \<le> x \<and> x < a + length bs then Some (bs ! (x - a)) else m x)"

lemma mem_upd_Nil [simp]: "mem_upd m a [] = m"
  by (rule ext) (auto simp: mem_upd_def)

lemma mem_upd_Cons: "mem_upd m a (b # bs) = mem_upd (m(a \<mapsto> b)) (Suc a) bs"
  by (rule ext) (auto simp: mem_upd_def nth_Cons' )

lemma range_mapped_upd1: "m a \<noteq> None \<Longrightarrow> range_mapped (m(a \<mapsto> b)) x n = range_mapped m x n"
  by (auto simp: range_mapped_def)

lemma store_bytes_mapped [mem_simps]:
  "range_mapped m a (length bs) \<Longrightarrow> store_bytes m a bs = Some (mem_upd m a bs)"
  by (induction bs arbitrary: m a) (auto simp: range_mapped_Suc mem_upd_Cons range_mapped_upd1)

lemma store_bytes_Some:
  "store_bytes m a bs = Some m' \<longleftrightarrow> range_mapped m a (length bs) \<and> m' = mem_upd m a bs"
  by (induction bs arbitrary: m a)
    (auto simp: range_mapped_Suc mem_upd_Cons range_mapped_upd1 split: Option.bind_splits)

lemma range_mapped_mem_upd [simp]:
  "range_mapped m a (length bs) \<Longrightarrow> range_mapped (mem_upd m a bs) x n = range_mapped m x n"
proof -
  assume r: "range_mapped m a (length bs)"
  have "mem_upd m a bs y \<noteq> None \<longleftrightarrow> m y \<noteq> None" for y
  proof (cases "a \<le> y \<and> y < a + length bs")
    case True
    define i where "i = y - a"
    with True have "y = a + i" "i < length bs" by auto
    with r show ?thesis by (auto simp: mem_upd_def range_mapped_def)
  qed (auto simp: mem_upd_def)
  then show ?thesis by (simp add: range_mapped_def)
qed

lemma bytes_at_mem_upd_same [simp]: "bytes_at (mem_upd m a bs) a (length bs) = bs"
  by (rule nth_equalityI) (auto simp: mem_upd_def)

lemma bytes_at_mem_upd_other:
  "x + n \<le> a \<or> a + length bs \<le> x \<Longrightarrow> bytes_at (mem_upd m a bs) x n = bytes_at m x n"
  by (rule nth_equalityI) (auto simp: mem_upd_def)

lemma memcpy_mapped [mem_simps]:
  "range_mapped m src n \<Longrightarrow> range_mapped m dst n \<Longrightarrow>
   memcpy m dst src n = Some (mem_upd m dst (bytes_at m src n))"
  by (simp add: memcpy_def load_bytes_mapped store_bytes_mapped)

section \<open>First index with a property\<close>

definition is_first :: "(nat \<Rightarrow> bool) \<Rightarrow> nat option \<Rightarrow> bool" where
  "is_first P res = (case res of None \<Rightarrow> \<forall>k. \<not> P k | Some k \<Rightarrow> P k \<and> (\<forall>m<k. \<not> P m))"

lemma is_first_0 [intro]: "P 0 \<Longrightarrow> is_first P (Some 0)"
  by (simp add: is_first_def)

lemma is_first_None [intro]: "(\<And>k. \<not> P k) \<Longrightarrow> is_first P None"
  by (simp add: is_first_def)

lemma is_first_Suc: "\<not> P 0 \<Longrightarrow> is_first (\<lambda>k. P (Suc k)) res \<Longrightarrow> is_first P (map_option Suc res)"
proof (cases res)
  case None
  assume "\<not> P 0" "is_first (\<lambda>k. P (Suc k)) res"
  then have "\<not> P k" for k by (cases k) (auto simp: is_first_def None)
  then show ?thesis by (simp add: is_first_def None)
next
  case (Some k)
  assume "\<not> P 0" "is_first (\<lambda>k. P (Suc k)) res"
  then have "\<not> P m" if "m < Suc k" for m
    using that by (cases m) (auto simp: is_first_def Some)
  with \<open>is_first (\<lambda>k. P (Suc k)) res\<close> show ?thesis by (simp add: is_first_def Some)
qed

lemma is_first_cong: "(\<And>k. P k = Q k) \<Longrightarrow> is_first P res = is_first Q res"
  by (cases res) (simp_all add: is_first_def)

section \<open>C strings\<close>

text \<open>
  A pointer into a character array is the list of bytes from that position to the end of the array.
  Reading past the end of the array is \<^term>\<open>None\<close>; \<^verbatim>\<open>strlen\<close> looks for the terminating zero.
\<close>

fun strlen :: "u8 list \<Rightarrow> nat option" where
  "strlen [] = None"
| "strlen (c # cs) = (if c = 0 then Some 0 else map_option Suc (strlen cs))"

text \<open>\<open>strncmp_eq s t n\<close> is the test \<^verbatim>\<open>strncmp(s, t, n) == 0\<close> of the C library.\<close>

fun strncmp_eq :: "u8 list \<Rightarrow> u8 list \<Rightarrow> nat \<Rightarrow> bool option" where
  "strncmp_eq s t 0 = Some True"
| "strncmp_eq (a # s) (b # t) (Suc n) =
     (if a \<noteq> b then Some False else if a = 0 then Some True else strncmp_eq s t n)"
| "strncmp_eq _ _ (Suc n) = None"

text \<open>The characters of the string stored at a pointer.\<close>

definition cstring :: "u8 list \<Rightarrow> u8 list" where
  "cstring s = takeWhile (\<lambda>c. c \<noteq> 0) s"

definition terminated :: "u8 list \<Rightarrow> bool" where
  "terminated s \<longleftrightarrow> 0 \<in> set s"

lemma terminatedE:
  assumes "terminated s"
  obtains xs r where "s = xs @ 0 # r" "0 \<notin> set xs" "cstring s = xs"
proof -
  from assms obtain xs r where s: "s = xs @ 0 # r" "0 \<notin> set xs"
    unfolding terminated_def by (meson split_list_first)
  then have "cstring s = xs"
    by (auto simp: cstring_def takeWhile_append)
  with s that show thesis by blast
qed

lemma cstring_append_0: "0 \<notin> set xs \<Longrightarrow> cstring (xs @ 0 # r) = xs"
  by (auto simp: cstring_def takeWhile_append)

lemma strlen_append_0: "0 \<notin> set xs \<Longrightarrow> strlen (xs @ 0 # r) = Some (length xs)"
  by (induction xs) auto

lemma strlen_cstring: "terminated s \<Longrightarrow> strlen s = Some (length (cstring s))"
  by (elim terminatedE) (simp add: strlen_append_0)

end
