(* ===== verification/Lwip_Def.thy ===== *)
theory Lwip_Def
  imports Lwip_Prelude
begin

text \<open>
  The helper functions of \<^verbatim>\<open>lwip/src/core/def.c\<close>: byte order conversion on a little-endian host,
  the string search \<^verbatim>\<open>lwip_strnstr\<close>, the case-insensitive comparisons and \<^verbatim>\<open>lwip_itoa\<close>.
  String arguments are byte lists that reach to the end of their array; the functions return
  \<^term>\<open>None\<close> when they read behind it.
\<close>

section \<open>Byte order\<close>

definition lwip_htons :: "u16 \<Rightarrow> u16" where
  "lwip_htons n = push_bit 8 (n AND 0x00ff) OR drop_bit 8 (n AND 0xff00)"

definition lwip_htonl :: "u32 \<Rightarrow> u32" where
  "lwip_htonl n =
     push_bit 24 (n AND 0x000000ff) OR push_bit 8 (n AND 0x0000ff00) OR
     drop_bit 8 (n AND 0x00ff0000) OR drop_bit 24 (n AND 0xff000000)"

definition LWIP_MAKEU32 :: "u8 \<Rightarrow> u8 \<Rightarrow> u8 \<Rightarrow> u8 \<Rightarrow> u32" where
  "LWIP_MAKEU32 a b c d =
     push_bit 24 (ucast a) OR push_bit 16 (ucast b) OR push_bit 8 (ucast c) OR ucast d"

section \<open>String search and comparison\<close>

fun strnstr_loop :: "u8 list \<Rightarrow> u8 list \<Rightarrow> nat \<Rightarrow> nat \<Rightarrow> nat \<Rightarrow> nat option option" where
  "strnstr_loop [] token tokenlen n i = None"
| "strnstr_loop (c # cs) token tokenlen n i =
     (if c \<noteq> 0 \<and> i + tokenlen \<le> n then
        (case token of
           [] \<Rightarrow> None
         | t # _ \<Rightarrow>
             if c = t then
               (case strncmp_eq (c # cs) token tokenlen of
                  None \<Rightarrow> None
                | Some True \<Rightarrow> Some (Some i)
                | Some False \<Rightarrow> strnstr_loop cs token tokenlen n (Suc i))
             else strnstr_loop cs token tokenlen n (Suc i))
      else Some None)"

definition lwip_strnstr :: "u8 list \<Rightarrow> u8 list \<Rightarrow> nat \<Rightarrow> nat option option" where
  "lwip_strnstr buffer token n =
     do {
       tokenlen \<leftarrow> strlen token;
       if tokenlen = 0 then Some (Some 0)
       else strnstr_loop buffer token tokenlen n 0
     }"

fun lwip_stricmp :: "u8 list \<Rightarrow> u8 list \<Rightarrow> int option" where
  "lwip_stricmp (c1 # str1) (c2 # str2) =
     (if c1 \<noteq> c2 then
        (let c1_upc = c1 OR 0x20 in
         if 0x61 \<le> c1_upc \<and> c1_upc \<le> 0x7a then
           (let c2_upc = c2 OR 0x20 in
            if c1_upc \<noteq> c2_upc then Some 1
            else if c1 \<noteq> 0 then lwip_stricmp str1 str2 else Some 0)
         else Some 1)
      else if c1 \<noteq> 0 then lwip_stricmp str1 str2 else Some 0)"
| "lwip_stricmp _ _ = None"

definition size_dec :: "nat \<Rightarrow> nat" where
  "size_dec len = (len + 2 ^ 64 - 1) mod 2 ^ 64"

fun lwip_strnicmp :: "u8 list \<Rightarrow> u8 list \<Rightarrow> nat \<Rightarrow> int option" where
  "lwip_strnicmp (c1 # str1) (c2 # str2) len =
     (let len' = size_dec len;
          continue = (if len' \<noteq> 0 \<and> c1 \<noteq> 0 then lwip_strnicmp str1 str2 len' else Some 0)
      in
      if c1 \<noteq> c2 then
        (let c1_upc = c1 OR 0x20 in
         if 0x61 \<le> c1_upc \<and> c1_upc \<le> 0x7a then
           (let c2_upc = c2 OR 0x20 in
            if c1_upc \<noteq> c2_upc then Some 1 else continue)
         else Some 1)
      else continue)"
| "lwip_strnicmp _ _ _ = None"

section \<open>Integer to string\<close>

text \<open>
  The buffer \<^verbatim>\<open>result\<close> is an array of \<^verbatim>\<open>bufsize\<close> bytes; \<^verbatim>\<open>res\<close> and \<^verbatim>\<open>tmp\<close> are indices into it.
  Negating the smallest \<^verbatim>\<open>int\<close> overflows, which C leaves undefined.
\<close>

function itoa_loop :: "u8 list \<Rightarrow> nat \<Rightarrow> nat \<Rightarrow> nat \<Rightarrow> u8 list \<times> nat \<times> nat" where
  "itoa_loop buf n tmp res =
     (if n \<noteq> 0 \<and> tmp > res
      then itoa_loop (buf[tmp - 1 := of_nat (48 + n mod 10)]) (n div 10) (tmp - 1) res
      else (buf, n, tmp))"
  by pat_completeness auto
termination
  by (relation "measure (\<lambda>(buf, n, tmp, res). n)") auto

definition lwip_itoa :: "u8 list \<Rightarrow> int \<Rightarrow> u8 list option" where
  "lwip_itoa result number =
     (let bufsize = length result in
      if number = - (2 ^ 31) then None
      else if bufsize < 2 then
        (if bufsize = 1 then Some (result[0 := 0]) else Some result)
      else
        let n = nat (if number \<ge> 0 then number else - number);
            (buf0, res) = (if number < 0 then (result[0 := 0x2d], 1) else (result, 0));
            buf1 = buf0[bufsize - 1 := 0];
            (buf2, n', tmp) = itoa_loop buf1 n (bufsize - 1) res
        in
        if n' \<noteq> 0 then Some (buf2[0 := 0])
        else if buf2 ! tmp = 0 then Some (buf2[res := 0x30, Suc res := 0])
        else Some (take res buf2 @ drop tmp buf2 @ drop (res + (bufsize - tmp)) buf2))"

declare itoa_loop.simps [simp del]

section \<open>Byte order: lemmas\<close>

lemma u16_masks: "(0x00ff :: u16) = mask 8" "(0xff00 :: u16) = push_bit 8 (mask 8)"
  by (simp_all add: mask_eq_exp_minus_1 push_bit_eq_mult)

lemma u32_masks:
  "(0x000000ff :: u32) = mask 8" "(0x0000ff00 :: u32) = push_bit 8 (mask 8)"
  "(0x00ff0000 :: u32) = push_bit 16 (mask 8)" "(0xff000000 :: u32) = push_bit 24 (mask 8)"
  by (simp_all add: mask_eq_exp_minus_1 push_bit_eq_mult)

lemmas bit_ops = bit_or_iff bit_and_iff bit_xor_iff bit_push_bit_iff bit_drop_bit_eq o_def bit_mask_iff bit_ucast_iff

lemma bit_htons: "bit (lwip_htons n) i \<longleftrightarrow> i < 16 \<and> bit n (if i < 8 then i + 8 else i - 8)"
  unfolding lwip_htons_def u16_masks
  by (simp only: bit_ops) (auto dest: bit_imp_le_length simp: add.commute)

lemma htons_involutive: "lwip_htons (lwip_htons n) = n"
  by (rule bit_word_eqI) (auto simp: bit_htons)

lemma bit_htonl: "bit (lwip_htonl n) i \<longleftrightarrow>
   (if i < 8 then bit n (i + 24) else if i < 16 then bit n (i + 8) else if i < 24 then bit n (i - 8)
    else i < 32 \<and> bit n (i - 24))"
  unfolding lwip_htonl_def u32_masks
  by (simp only: bit_ops) (auto dest: bit_imp_le_length simp: add.commute)

lemma htonl_involutive: "lwip_htonl (lwip_htonl n) = n"
  by (rule bit_word_eqI) (auto simp: bit_htonl)

lemma bit_MAKEU32: "bit (LWIP_MAKEU32 a b c d) i \<longleftrightarrow>
   (if i < 8 then bit d i else if i < 16 then bit c (i - 8) else if i < 24 then bit b (i - 16)
    else i < 32 \<and> bit a (i - 24))"
  unfolding LWIP_MAKEU32_def
  using bit_imp_le_length [of d i] bit_imp_le_length [of c "i - 8"] bit_imp_le_length [of b "i - 16"]
    bit_imp_le_length [of a "i - 24"]
  by (simp only: bit_ops) auto

lemma htonl_MAKEU32: "lwip_htonl (LWIP_MAKEU32 a b c d) = LWIP_MAKEU32 d c b a"
  by (rule bit_word_eqI) (auto simp: bit_htonl bit_MAKEU32)

section \<open>String search\<close>

lemma strncmp_eq_prefix:
  assumes "0 \<notin> set xs" "0 \<notin> set t"
  shows "strncmp_eq (xs @ 0 # r) (t @ 0 # r') (length t) = Some (take (length t) xs = t)"
  using assms
proof (induction t arbitrary: xs)
  case (Cons b t)
  then show ?case by (cases xs) auto
qed simp

definition occurs_at :: "u8 list \<Rightarrow> u8 list \<Rightarrow> nat \<Rightarrow> nat \<Rightarrow> bool" where
  "occurs_at s t n i \<longleftrightarrow> i + length t \<le> n \<and> take (length t) (drop i s) = t"

lemma map_option_add_0: "map_option ((+) 0) res = (res :: nat option)"
  by (cases res) auto

lemma strnstr_loop_step:
  assumes "0 \<notin> set (c # s)" "0 \<notin> set t" "t \<noteq> []"
  shows "strnstr_loop ((c # s) @ 0 # r) (t @ 0 # r') (length t) n i =
    (if n < i + length t then Some None
     else if take (length t) (c # s) = t then Some (Some i)
     else strnstr_loop (s @ 0 # r) (t @ 0 # r') (length t) n (Suc i))"
  using assms strncmp_eq_prefix [of "c # s" t r r'] by (cases t) auto

lemma strnstr_loop_search:
  assumes "0 \<notin> set s" "0 \<notin> set t" "t \<noteq> []"
  shows "\<exists>res. strnstr_loop (s @ 0 # r) (t @ 0 # r') (length t) n i = Some (map_option ((+) i) res) \<and>
     is_first (\<lambda>k. i + k + length t \<le> n \<and> take (length t) (drop k s) = t) res"
  using assms
proof (induction s arbitrary: i)
  case (Cons c s)
  let ?P = "\<lambda>k. i + k + length t \<le> n \<and> take (length t) (drop k (c # s)) = t"
  obtain res where res:
    "strnstr_loop (s @ 0 # r) (t @ 0 # r') (length t) n (Suc i) = Some (map_option ((+) (Suc i)) res)"
    "is_first (\<lambda>k. Suc i + k + length t \<le> n \<and> take (length t) (drop k s) = t) res"
    using Cons.IH [of "Suc i"] Cons.prems unfolding list.set insert_iff by blast
  have tail: "is_first ?P (map_option Suc res)" if "\<not> ?P 0"
    using that res(2) by (intro is_first_Suc [of ?P]) simp_all
  have shift: "map_option ((+) (Suc i)) res = map_option ((+) i) (map_option Suc res)"
    by (cases res) auto
  show ?case
    unfolding strnstr_loop_step [OF Cons.prems] res(1) shift
  proof (cases "n < i + length t"; cases "take (length t) (c # s) = t")
    assume "\<not> n < i + length t" "take (length t) (c # s) = t"
    then have "is_first ?P (Some 0)" by (intro is_first_0) simp
    with \<open>\<not> n < i + length t\<close> \<open>take (length t) (c # s) = t\<close>
    show "\<exists>r. (if n < i + length t then Some None else if take (length t) (c # s) = t then Some (Some i)
        else Some (map_option ((+) i) (map_option Suc res))) = Some (map_option ((+) i) r) \<and> is_first ?P r"
      by (intro exI [of _ "Some 0"]) simp
  next
    assume "\<not> n < i + length t" "take (length t) (c # s) \<noteq> t"
    with tail show "\<exists>r. (if n < i + length t then Some None else if take (length t) (c # s) = t then Some (Some i)
        else Some (map_option ((+) i) (map_option Suc res))) = Some (map_option ((+) i) r) \<and> is_first ?P r"
      by (intro exI [of _ "map_option Suc res"]) simp
  qed (auto intro!: exI [of _ None] is_first_None)
qed (auto intro!: is_first_None)

text \<open>
  \<^verbatim>\<open>lwip_strnstr\<close> returns on terminated arguments, without reading behind either terminator, and
  finds the first occurrence of the token that ends within the first \<open>n\<close> bytes of the string, or
  reports that there is none; the empty token is found at the start.
\<close>

theorem strnstr_first_occurrence:
  assumes "terminated buffer" "terminated token"
  shows "\<exists>res. lwip_strnstr buffer token n = Some res \<and>
     (if cstring token = [] then res = Some 0
      else is_first (occurs_at (cstring buffer) (cstring token) n) res)"
proof -
  obtain s r where s: "buffer = s @ 0 # r" "0 \<notin> set s" "cstring buffer = s"
    using assms(1) by (rule terminatedE)
  obtain t r' where t: "token = t @ 0 # r'" "0 \<notin> set t" "cstring token = t"
    using assms(2) by (rule terminatedE)
  have len: "strlen token = Some (length t)"
    using assms(2) t by (simp add: strlen_cstring)
  show ?thesis
  proof (cases "t = []")
    case True
    with len t show ?thesis by (simp add: lwip_strnstr_def)
  next
    case False
    with len have "lwip_strnstr buffer token n = strnstr_loop (s @ 0 # r) (t @ 0 # r') (length t) n 0"
      by (simp add: lwip_strnstr_def s(1) t(1))
    with strnstr_loop_search [OF s(2) t(2) False, of r r' n 0] False show ?thesis
      by (auto simp: s(3) t(3) occurs_at_def [abs_def] map_option_add_0)
  qed
qed

theorem strnstr_first_occurrence_witness:
  "\<exists>res. lwip_strnstr [1, 2, 3, 2, 3, 0] [2, 3, 0] 6 = Some res \<and>
     is_first (occurs_at [1, 2, 3, 2, 3] [2, 3] 6) res"
  using strnstr_first_occurrence [of "[1, 2, 3, 2, 3, 0]" "[2, 3, 0]" 6]
  by (simp add: terminated_def cstring_def)

section \<open>Case-insensitive comparison\<close>

definition tolower :: "u8 \<Rightarrow> u8" where
  "tolower c = (if 0x41 \<le> c \<and> c \<le> 0x5a then c + 0x20 else c)"

definition icmp_char :: "u8 \<Rightarrow> u8 \<Rightarrow> bool" where
  "icmp_char c1 c2 \<longleftrightarrow> c1 = c2 \<or>
     (0x61 \<le> c1 OR 0x20 \<and> c1 OR 0x20 \<le> 0x7a \<and> c1 OR 0x20 = c2 OR 0x20)"


lemma unat_u8_less [simp]: "unat (c :: u8) < 256"
  using unsigned_less [of c] by simp

lemma unat_or_0x20: "unat (c OR 0x20 :: u8) = (if odd (unat c div 32) then unat c else unat c + 32)"
proof -
  have "c OR 0x20 = set_bit 5 c" by (simp add: set_bit_eq_or)
  also have "\<dots> = c + of_bool (\<not> bit c 5) * 2 ^ 5" by (rule set_bit_eq)
  finally have eq: "c OR 0x20 = (if bit c 5 then c else c + 32)" by simp
  have bit: "bit c 5 \<longleftrightarrow> odd (unat c div 32)"
    by (simp add: bit_iff_odd_drop_bit drop_bit_eq_div word_arith_nat_div even_word_iff)
  have "unat c + 32 < 256" if "even (unat c div 32)"
  proof -
    have "unat c div 32 < 8" using unat_u8_less [of c] by linarith
    moreover have "unat c div 32 \<noteq> 7" using that by auto
    ultimately show ?thesis by linarith
  qed
  then show ?thesis by (simp add: eq bit unat_word_ariths)
qed

lemma tolower_0 [simp]: "tolower c = 0 \<longleftrightarrow> c = 0"
  by (auto simp: tolower_def word_unat_eq_iff word_le_nat_alt unat_word_ariths split: if_splits)

lemma tolower_zero [simp]: "tolower 0 = 0" "0 = tolower c \<longleftrightarrow> c = 0"
  by (auto simp: eq_commute [of 0 "tolower _"])

lemma unat_tolower: "unat (tolower c) = (if 65 \<le> unat c \<and> unat c \<le> 90 then unat c + 32 else unat c)"
  by (auto simp: tolower_def word_le_nat_alt unat_word_ariths)

lemma or_0x20_alpha:
  "if 0x61 \<le> c OR 0x20 \<and> c OR 0x20 \<le> 0x7a
   then tolower c = c OR 0x20 else tolower c = c \<and> \<not> (0x61 \<le> c \<and> c \<le> 0x7a)"
proof -
  define u where "u = unat c"
  have up: "65 \<le> u \<and> u \<le> 90 \<Longrightarrow> u div 32 = 2" and lo: "97 \<le> u \<and> u \<le> 122 \<Longrightarrow> u div 32 = 3"
    by auto
  show ?thesis
    unfolding word_unat_eq_iff word_le_nat_alt unat_or_0x20 unat_tolower u_def [symmetric]
    using up lo by auto
qed

lemma icmp_char_tolower: "icmp_char c1 c2 \<longleftrightarrow> tolower c1 = tolower c2"
proof (cases "0x61 \<le> c1 OR 0x20 \<and> c1 OR 0x20 \<le> 0x7a")
  case True
  then have "tolower c1 = c1 OR 0x20" using or_0x20_alpha [of c1] by simp
  with True or_0x20_alpha [of c2] show ?thesis by (auto simp: icmp_char_def split: if_splits)
next
  case False
  then have "tolower c1 = c1" "\<not> (0x61 \<le> c1 \<and> c1 \<le> 0x7a)" using or_0x20_alpha [of c1] by auto
  with False or_0x20_alpha [of c2] show ?thesis by (auto simp: icmp_char_def split: if_splits)
qed

lemma lwip_stricmp_step:
  "lwip_stricmp (c1 # s) (c2 # t) =
     (if icmp_char c1 c2 then (if c1 \<noteq> 0 then lwip_stricmp s t else Some 0) else Some 1)"
  by (auto simp: icmp_char_def Let_def)

lemma lwip_strnicmp_step:
  "lwip_strnicmp (c1 # s) (c2 # t) len =
     (if icmp_char c1 c2
      then (if size_dec len \<noteq> 0 \<and> c1 \<noteq> 0 then lwip_strnicmp s t (size_dec len) else Some 0)
      else Some 1)"
  by (auto simp: icmp_char_def Let_def)

declare lwip_stricmp.simps(1) [simp del] lwip_strnicmp.simps(1) [simp del]

lemma cstring_simps [simp]: "cstring (0 # r) = []" "c \<noteq> 0 \<Longrightarrow> cstring (c # r) = c # cstring r"
  by (simp_all add: cstring_def)

lemma terminated_simps [simp]:
  "\<not> terminated []" "terminated (0 # r)" "c \<noteq> 0 \<Longrightarrow> terminated (c # r) = terminated r"
  by (auto simp: terminated_def)

lemma stricmp_cstring:
  assumes "terminated s" "terminated t"
  shows "lwip_stricmp s t = Some (if map tolower (cstring s) = map tolower (cstring t) then 0 else 1)"
  using assms
proof (induction s arbitrary: t)
  case (Cons c1 s)
  obtain c2 t' where t: "t = c2 # t'" using Cons.prems(2) by (cases t) auto
  show ?case
    using Cons.IH [of t'] Cons.prems
    by (cases "c1 = 0"; cases "c2 = 0") (auto simp: t lwip_stricmp_step icmp_char_tolower)
qed simp

text \<open>
  On terminated strings \<^verbatim>\<open>lwip_stricmp\<close> returns, and it returns 0 exactly when the strings are
  equal up to the case of the letters A to Z, and 1 otherwise.
\<close>

theorem stricmp_correct:
  assumes "terminated s" "terminated t"
  shows "lwip_stricmp s t = Some (if map tolower (cstring s) = map tolower (cstring t) then 0 else 1)"
  using assms by (rule stricmp_cstring)

theorem stricmp_correct_witness:
  "lwip_stricmp [0x41, 0x62, 0] [0x61, 0x42, 0, 7] = Some 0 \<and> terminated [0x41, 0x62, 0 :: u8]"
proof -
  have "terminated [0x41, 0x62, 0 :: u8]" "terminated [0x61, 0x42, 0, 7 :: u8]" by simp_all
  from stricmp_correct [OF this] this show ?thesis by (simp add: tolower_def)
qed

lemma size_dec_wrap: "0 < N \<Longrightarrow> N \<le> 2 ^ 64 \<Longrightarrow> size_dec (N mod 2 ^ 64) = N - 1"
proof (cases "N = 2 ^ 64")
  case False
  assume "0 < N" "N \<le> 2 ^ 64"
  with False have "N < 2 ^ 64" by simp
  with \<open>0 < N\<close> show ?thesis
    using sub_wrap_id [of 1 N "2 ^ 64"] by (simp only: size_dec_def mod_less)
qed (simp add: size_dec_def)

lemma strnicmp_bounded:
  assumes "terminated s" "terminated t" "0 < N" "N \<le> 2 ^ 64"
  shows "lwip_strnicmp s t (N mod 2 ^ 64) =
    Some (if map tolower (take N (cstring s)) = map tolower (take N (cstring t)) then 0 else 1)"
  using assms
proof (induction s arbitrary: t N)
  case (Cons c1 s)
  obtain c2 t' where t: "t = c2 # t'" using Cons.prems(2) by (cases t) auto
  obtain M where N: "N = Suc M" using Cons.prems(3) by (cases N) auto
  have dec: "size_dec (N mod 2 ^ 64) = M" using size_dec_wrap Cons.prems(3,4) N by fastforce
  have M: "M mod 2 ^ 64 = M" using Cons.prems(4) N by (intro mod_less) simp
  have IH: "c1 \<noteq> 0 \<Longrightarrow> c2 \<noteq> 0 \<Longrightarrow> M \<noteq> 0 \<Longrightarrow> lwip_strnicmp s t' M =
    Some (if map tolower (take M (cstring s)) = map tolower (take M (cstring t')) then 0 else 1)"
    using Cons.IH [of t' M] Cons.prems N t M by simp
  show ?case
    unfolding t lwip_strnicmp_step dec icmp_char_tolower unfolding N
    using IH by (cases "c1 = 0"; cases "c2 = 0"; cases "M = 0") auto
qed simp

text \<open>
  For a length of at least 1, \<^verbatim>\<open>lwip_strnicmp\<close> returns on terminated strings and compares at
  most \<open>len\<close> characters of each, ignoring the case of letters.
\<close>

theorem strnicmp_correct:
  assumes "terminated s" "terminated t" "0 < len" "len < 2 ^ 64"
  shows "lwip_strnicmp s t len =
    Some (if map tolower (take len (cstring s)) = map tolower (take len (cstring t)) then 0 else 1)"
  using strnicmp_bounded [OF assms(1,2,3)] assms(4) by simp

theorem strnicmp_correct_witness:
  "lwip_strnicmp [0x41, 0x62, 0] [0x61, 0x63, 0] 1 = Some 0"
  using strnicmp_correct [of "[0x41, 0x62, 0]" "[0x61, 0x63, 0]" 1] by (simp add: tolower_def)

text \<open>
  With a length of 0, for which there is nothing to compare, \<^verbatim>\<open>lwip_strnicmp\<close> decrements the
  length below zero and compares the whole strings.
\<close>

theorem strnicmp_len_zero:
  assumes "terminated s" "terminated t" "length s \<le> 2 ^ 64" "length t \<le> 2 ^ 64"
  shows "lwip_strnicmp s t 0 = lwip_stricmp s t"
proof -
  have "length (cstring s) \<le> 2 ^ 64" "length (cstring t) \<le> 2 ^ 64"
    using assms(3,4) length_takeWhile_le [of _ s] length_takeWhile_le [of _ t]
    unfolding cstring_def by (meson le_trans)+
  then show ?thesis
    using strnicmp_bounded [OF assms(1,2), of "2 ^ 64"] stricmp_cstring [OF assms(1,2)] by simp
qed

theorem strnicmp_len_zero_witness:
  "lwip_strnicmp [0x61, 0] [0x62, 0] 0 = lwip_stricmp [0x61, 0] [0x62, 0] \<and>
   lwip_stricmp [0x61, 0] [0x62, 0] \<noteq> Some 0"
proof
  show "lwip_strnicmp [0x61, 0] [0x62, 0] 0 = lwip_stricmp [0x61, 0] [0x62, 0]"
    by (rule strnicmp_len_zero) (simp_all add: terminated_def)
qed code_simp


section \<open>Integer to string: correctness\<close>

text \<open>The decimal digits of a positive number, most significant first; nothing for 0.\<close>

fun dec_str :: "nat \<Rightarrow> u8 list" where
  "dec_str n = (if n = 0 then [] else dec_str (n div 10) @ [of_nat (48 + n mod 10)])"

declare dec_str.simps [simp del]

definition int_str :: "int \<Rightarrow> u8 list" where
  "int_str k = (if k < 0 then 0x2d # dec_str (nat (- k)) else if k = 0 then [0x30] else dec_str (nat k))"

lemma dec_str_0 [simp]: "dec_str 0 = []"
  by (simp add: dec_str.simps)

lemma dec_str_pos: "0 < n \<Longrightarrow> dec_str n = dec_str (n div 10) @ [of_nat (48 + n mod 10)]"
  by (simp add: dec_str.simps [of n])

lemma dec_str_Nil [simp]: "dec_str n = [] \<longleftrightarrow> n = 0"
  by (simp add: dec_str.simps [of n])

lemma unat_digit: "unat (of_nat (48 + n mod 10) :: u8) = 48 + n mod 10"
proof -
  have "n mod 10 < 10" by simp
  then have "48 + n mod 10 < 256" by linarith
  then show ?thesis unfolding unat_of_nat by simp
qed

lemma digit_nonzero: "(of_nat (48 + n mod 10) :: u8) \<noteq> 0"
  using unat_digit [of n] by (metis add_is_0 unat_0 zero_neq_numeral)

lemma dec_str_no_zero [simp]: "0 \<notin> set (dec_str n)"
proof (induction n rule: dec_str.induct)
  case (1 n)
  then show ?case using digit_nonzero [of n] by (cases "n = 0") (auto simp: dec_str_pos)
qed

text \<open>Reading the digits back gives the number.\<close>

lemma dec_str_value: "foldl (\<lambda>a c. 10 * a + (unat c - 48)) 0 (dec_str n) = n"
proof (induction n rule: dec_str.induct)
  case (1 n)
  show ?case
  proof (cases "n = 0")
    case False
    then have "dec_str n = dec_str (n div 10) @ [of_nat (48 + n mod 10)]" by (simp add: dec_str_pos)
    then show ?thesis using "1.IH" False unat_digit [of n] by simp
  qed simp
qed

lemma itoa_loop_fits:
  assumes "length (dec_str n) \<le> tmp - res" "tmp < length buf"
  shows "itoa_loop buf n tmp res =
    (take (tmp - length (dec_str n)) buf @ dec_str n @ drop tmp buf, 0, tmp - length (dec_str n))"
  using assms
proof (induction buf n tmp res rule: itoa_loop.induct)
  case (1 buf n tmp res)
  show ?case
  proof (cases "n = 0")
    case False
    let ?d = "of_nat (48 + n mod 10) :: u8"
    have ds: "dec_str n = dec_str (n div 10) @ [?d]" using False by (simp add: dec_str_pos)
    with "1.prems" have tmp: "res < tmp" "length (dec_str (n div 10)) \<le> tmp - 1 - res" by auto
    let ?buf = "buf[tmp - 1 := ?d]" and ?k = "length (dec_str (n div 10))"
    have "itoa_loop buf n tmp res = itoa_loop ?buf (n div 10) (tmp - 1) res"
      using False tmp by (simp add: itoa_loop.simps [of buf])
    also have "\<dots> = (take (tmp - 1 - ?k) ?buf @ dec_str (n div 10) @ drop (tmp - 1) ?buf, 0, tmp - 1 - ?k)"
      using "1.IH" False tmp "1.prems" by simp
    also have "take (tmp - 1 - ?k) ?buf = take (tmp - length (dec_str n)) buf"
      using tmp by (simp add: ds)
    also have "drop (tmp - 1) ?buf = ?d # drop tmp buf"
    proof -
      have "drop (tmp - 1) ?buf = ?buf ! (tmp - 1) # drop (Suc (tmp - 1)) ?buf"
        using "1.prems"(2) by (intro Cons_nth_drop_Suc [symmetric]) simp
      with tmp "1.prems"(2) show ?thesis by simp
    qed
    finally show ?thesis by (simp add: ds)
  qed (simp add: itoa_loop.simps [of buf])
qed

lemma itoa_loop_overflow:
  assumes "tmp - res < length (dec_str n)" "tmp < length buf"
  shows "\<exists>buf' n' tmp'. itoa_loop buf n tmp res = (buf', n', tmp') \<and> n' \<noteq> 0 \<and> length buf' = length buf"
  using assms
proof (induction buf n tmp res rule: itoa_loop.induct)
  case (1 buf n tmp res)
  then have "n \<noteq> 0" by (cases "n = 0") auto
  show ?case
  proof (cases "res < tmp")
    case True
    have "dec_str n = dec_str (n div 10) @ [of_nat (48 + n mod 10)]" using \<open>n \<noteq> 0\<close> by (simp add: dec_str_pos)
    with "1.prems" True have "tmp - 1 - res < length (dec_str (n div 10))" by simp
    with "1.IH" True \<open>n \<noteq> 0\<close> "1.prems" show ?thesis by (simp add: itoa_loop.simps [of buf])
  qed (use \<open>n \<noteq> 0\<close> in \<open>simp add: itoa_loop.simps [of buf]\<close>)
qed

lemma itoa_frame:
  assumes "2 \<le> length result" "number \<noteq> - (2 ^ 31)"
    and "buf0 = (if number < 0 then result[0 := 0x2d] else result)"
    and "res = (if number < 0 then 1 else 0)"
    and "itoa_loop (buf0[length result - 1 := 0]) (nat \<bar>number\<bar>) (length result - 1) res = (buf2, n', tmp)"
  shows "lwip_itoa result number =
    (if n' \<noteq> 0 then Some (buf2[0 := 0])
     else if buf2 ! tmp = 0 then Some (buf2[res := 0x30, Suc res := 0])
     else Some (take res buf2 @ drop tmp buf2 @ drop (res + (length result - tmp)) buf2))"
proof -
  have abs: "(if number \<ge> 0 then number else - number) = \<bar>number\<bar>" by simp
  show ?thesis
    using assms unfolding lwip_itoa_def Let_def abs by (simp split: if_splits)
qed

lemma itoa_loop_0: "itoa_loop buf 0 tmp res = (buf, 0, tmp)"
  by (simp add: itoa_loop.simps [of buf])

text \<open>The buffer after the sign and the terminator are written, and the start of the digits.\<close>

definition itoa_start :: "u8 list \<Rightarrow> int \<Rightarrow> u8 list" where
  "itoa_start result number =
     (if number < 0 then result[0 := 0x2d] else result)[length result - 1 := 0]"

lemma length_itoa_start [simp]: "length (itoa_start result number) = length result"
  by (simp add: itoa_start_def)

lemmas itoa_run = itoa_frame [OF _ _ refl refl, folded itoa_start_def]

lemma itoa_zero:
  assumes "2 \<le> length result"
  shows "\<exists>buf. lwip_itoa result 0 = Some buf \<and> length buf = length result \<and> cstring buf = [0x30]"
proof -
  let ?b = "itoa_start result 0"
  have "lwip_itoa result 0 = Some (?b[0 := 0x30, 1 := 0])"
    using itoa_run [OF assms, of 0 ?b 0 "length result - 1"] assms
    by (simp add: itoa_loop_0 itoa_start_def)
  moreover obtain x y r where "?b = x # y # r"
    using assms by (metis Suc_le_length_iff length_itoa_start numeral_2_eq_2)
  ultimately show ?thesis using length_itoa_start [of result 0] by (simp add: cstring_def)
qed

lemma itoa_overflows:
  assumes "2 \<le> length result" "- (2 ^ 31) < number" "length result \<le> length (int_str number)" "number \<noteq> 0"
  shows "\<exists>buf. lwip_itoa result number = Some buf \<and> length buf = length result \<and> cstring buf = []"
proof -
  let ?res = "if number < 0 then 1 else 0" and ?b = "itoa_start result number"
  have "length result - 1 - ?res < length (dec_str (nat \<bar>number\<bar>))"
    using assms by (auto simp: int_str_def split: if_splits)
  from itoa_loop_overflow [OF this, of ?b] assms(1) obtain buf' n' tmp' where
    *: "itoa_loop ?b (nat \<bar>number\<bar>) (length result - 1) ?res = (buf', n', tmp')" "n' \<noteq> 0"
      "length buf' = length result" by force
  have "cstring (buf'[0 := 0]) = []" using *(3) assms(1) by (cases buf') (auto simp: cstring_def)
  with itoa_run [OF assms(1) _ *(1)] * assms(2) show ?thesis by simp
qed

lemma drop_last_update: "xs \<noteq> [] \<Longrightarrow> drop (length xs - 1) (xs[length xs - 1 := y]) = [y]"
  by (cases xs rule: rev_cases) auto

lemma itoa_fits:
  assumes "2 \<le> length result" "- (2 ^ 31) < number" "length (int_str number) < length result" "number \<noteq> 0"
  shows "\<exists>buf. lwip_itoa result number = Some buf \<and> length buf = length result \<and>
    cstring buf = int_str number"
proof -
  define res where "res = (if number < 0 then 1 else 0 :: nat)"
  define L where "L = length result - 1"
  define b where "b = itoa_start result number"
  define ds where "ds = dec_str (nat \<bar>number\<bar>)"
  have "result \<noteq> []" using assms(1) by auto
  then have L: "length b = Suc L" "drop L b = [0]"
    using assms(1) drop_last_update [of "if number < 0 then result[0 := 0x2d] else result" 0]
    by (auto simp: b_def L_def itoa_start_def)
  have hd: "take res b @ ds = int_str number"
    using assms(1,4) by (cases result) (auto simp: b_def res_def ds_def itoa_start_def int_str_def
        nth_list_update split: nat.split)
  have fit: "length ds + res \<le> L" and "ds \<noteq> []"
    using assms by (auto simp: ds_def L_def res_def int_str_def split: if_splits)
  let ?buf2 = "take (L - length ds) b @ ds @ drop L b"
  have loop: "itoa_loop b (nat \<bar>number\<bar>) L res = (?buf2, 0, L - length ds)"
    using itoa_loop_fits [of "nat \<bar>number\<bar>" L res b] fit L by (simp add: ds_def)
  have "0 \<notin> set ds" by (simp add: ds_def)
  then have "?buf2 ! (L - length ds) \<noteq> 0"
    using \<open>ds \<noteq> []\<close> L by (cases ds) (auto simp: nth_append)
  moreover have "drop (L - length ds) ?buf2 = ds @ [0]" "take res ?buf2 = take res b"
    using L fit by auto
  ultimately have run: "lwip_itoa result number =
      Some ((take res b @ ds) @ 0 # drop (res + Suc (length ds)) ?buf2)"
    using itoa_run [OF assms(1) _ loop [unfolded b_def L_def res_def]] assms fit
    by (simp add: b_def L_def res_def)
  have "length ((take res b @ ds) @ 0 # drop (res + Suc (length ds)) ?buf2) = length result"
    using fit L assms(1) by (auto simp: L_def)
  moreover have "0 \<notin> set (take res b @ ds)" by (simp add: hd int_str_def)
  ultimately show ?thesis using run hd cstring_append_0 by metis
qed

text \<open>
  \<^verbatim>\<open>lwip_itoa\<close> on a buffer of at least two bytes returns for every number above \<^verbatim>\<open>INT_MIN\<close>,
  keeps the buffer length, and leaves the decimal representation of the number in the buffer when
  it fits with its terminator and the empty string otherwise.
\<close>

theorem itoa_correct:
  assumes "2 \<le> length result" "- (2 ^ 31) < number"
  shows "\<exists>buf. lwip_itoa result number = Some buf \<and> length buf = length result \<and>
    cstring buf = (if length (int_str number) < length result then int_str number else [])"
  using itoa_zero [OF assms(1)] itoa_fits [OF assms] itoa_overflows [OF assms] assms(1)
  by (cases "number = 0"; cases "length (int_str number) < length result") (auto simp: int_str_def)

theorem itoa_correct_witness:
  "\<exists>buf. lwip_itoa (replicate 4 7) (-25) = Some buf \<and> cstring buf = [0x2d, 0x32, 0x35]"
proof -
  have "int_str (-25) = [0x2d, 0x32, 0x35]"
    by (simp add: int_str_def dec_str_pos)
  then show ?thesis
    using itoa_correct [of "replicate 4 7" "-25"] by auto
qed

end
