(* ===== verification/Inet_Chksum.thy ===== *)
theory Inet_Chksum
  imports Lwip_Def
begin

text \<open>
  The Internet checksum routines of \<^verbatim>\<open>lwip/src/core/inet_chksum.c\<close>: the three versions of
  \<^verbatim>\<open>lwip_standard_chksum\<close> that \<^verbatim>\<open>LWIP_CHKSUM_ALGORITHM\<close> selects and \<^verbatim>\<open>inet_chksum\<close>.  The \<^verbatim>\<open>len\<close>
  bytes at \<^verbatim>\<open>dataptr\<close> are a list, and the address matters for versions 2 and 3, which read 16-bit
  and 32-bit units of a little-endian host at aligned addresses.  All three versions are shown to
  compute the one's complement sum of the byte pairs.
\<close>

section \<open>Macros\<close>

definition FOLD_U32T :: "u32 \<Rightarrow> u32" where
  "FOLD_U32T u = drop_bit 16 u + (u AND 0x0000ffff)"

definition SWAP_BYTES_IN_WORD :: "u32 \<Rightarrow> u32" where
  "SWAP_BYTES_IN_WORD w = push_bit 8 (w AND 0xff) OR drop_bit 8 (w AND 0xff00)"

text \<open>The 16-bit and 32-bit units a little-endian host reads, and stores to one byte of a \<^verbatim>\<open>u16_t\<close>.\<close>

definition load_u16 :: "u8 \<Rightarrow> u8 \<Rightarrow> u16" where
  "load_u16 b0 b1 = ucast b0 OR push_bit 8 (ucast b1)"

definition load_u32 :: "u8 \<Rightarrow> u8 \<Rightarrow> u8 \<Rightarrow> u8 \<Rightarrow> u32" where
  "load_u32 b0 b1 b2 b3 =
     ucast b0 OR push_bit 8 (ucast b1) OR push_bit 16 (ucast b2) OR push_bit 24 (ucast b3)"

definition set_byte0 :: "u16 \<Rightarrow> u8 \<Rightarrow> u16" where
  "set_byte0 t b = (t AND 0xff00) OR ucast b"

definition set_byte1 :: "u16 \<Rightarrow> u8 \<Rightarrow> u16" where
  "set_byte1 t b = (t AND 0x00ff) OR push_bit 8 (ucast b)"

section \<open>Version 1\<close>

fun chksum1_loop :: "u32 \<Rightarrow> u8 list \<Rightarrow> u32" where
  "chksum1_loop acc (b0 # b1 # bs) =
     (let src = push_bit 8 (ucast b0) :: u16;
          src = src OR ucast b1
      in chksum1_loop (acc + ucast src) bs)"
| "chksum1_loop acc [b] = (let src = push_bit 8 (ucast b) :: u16 in acc + ucast src)"
| "chksum1_loop acc [] = acc"

definition lwip_standard_chksum1 :: "addr \<Rightarrow> u8 list \<Rightarrow> u16" where
  "lwip_standard_chksum1 dataptr bs =
     (let acc = chksum1_loop 0 bs;
          acc = drop_bit 16 acc + (acc AND 0x0000ffff);
          acc = (if acc AND 0xffff0000 \<noteq> 0 then drop_bit 16 acc + (acc AND 0x0000ffff) else acc)
      in lwip_htons (ucast acc))"

section \<open>Version 2\<close>

text \<open>The \<^verbatim>\<open>while (len > 1)\<close> loop: the sum, and the bytes that remain.\<close>

fun add_u16s :: "u32 \<Rightarrow> u8 list \<Rightarrow> u32 \<times> u8 list" where
  "add_u16s sm (b0 # b1 # bs) = add_u16s (sm + ucast (load_u16 b0 b1)) bs"
| "add_u16s sm bs = (sm, bs)"

definition head_byte :: "addr \<Rightarrow> u8 list \<Rightarrow> addr \<times> u16 \<times> u8 list" where
  "head_byte pb bs =
     (case bs of
        b # r \<Rightarrow> if odd pb then (Suc pb, set_byte1 0 b, r) else (pb, 0, bs)
      | [] \<Rightarrow> (pb, 0, []))"

definition tail_byte :: "u16 \<Rightarrow> u8 list \<Rightarrow> u16" where
  "tail_byte t bs = (case bs of b # _ \<Rightarrow> set_byte0 t b | [] \<Rightarrow> t)"

definition chksum_finish :: "addr \<Rightarrow> u32 \<Rightarrow> u16" where
  "chksum_finish dataptr sm =
     (let sm = FOLD_U32T sm;
          sm = FOLD_U32T sm
      in ucast (if odd dataptr then SWAP_BYTES_IN_WORD sm else sm))"

definition lwip_standard_chksum2 :: "addr \<Rightarrow> u8 list \<Rightarrow> u16" where
  "lwip_standard_chksum2 dataptr bs =
     (let (ps, t, bs) = head_byte dataptr bs;
          (sm, bs) = add_u16s 0 bs;
          t = tail_byte t bs
      in chksum_finish dataptr (sm + ucast t))"

section \<open>Version 3\<close>

definition add_carry :: "u32 \<Rightarrow> u32 \<Rightarrow> u32" where
  "add_carry sm x = (let tmp = sm + x in if tmp < sm then tmp + 1 else tmp)"

fun add_u32s :: "u32 \<Rightarrow> u8 list \<Rightarrow> u32 \<times> u8 list" where
  "add_u32s sm (b0 # b1 # b2 # b3 # b4 # b5 # b6 # b7 # bs) =
     (let tmp = add_carry sm (load_u32 b0 b1 b2 b3);
          sm = add_carry tmp (load_u32 b4 b5 b6 b7)
      in add_u32s sm bs)"
| "add_u32s sm bs = (sm, bs)"

definition align_u32 :: "addr \<Rightarrow> u8 list \<Rightarrow> u32 \<times> u8 list" where
  "align_u32 ps bs =
     (case bs of
        b0 # b1 # r \<Rightarrow> if ps mod 4 \<noteq> 0 then (0 + ucast (load_u16 b0 b1), r) else (0, bs)
      | _ \<Rightarrow> (0, bs))"

definition lwip_standard_chksum3 :: "addr \<Rightarrow> u8 list \<Rightarrow> u16" where
  "lwip_standard_chksum3 dataptr bs =
     (let (ps, t, bs) = head_byte dataptr bs;
          (sm, bs) = align_u32 ps bs;
          (sm, bs) = add_u32s sm bs;
          sm = FOLD_U32T sm;
          (sm, bs) = add_u16s sm bs;
          t = tail_byte t bs
      in chksum_finish dataptr (sm + ucast t))"

text \<open>\<^verbatim>\<open>inet_chksum\<close>, for whichever routine \<^verbatim>\<open>LWIP_CHKSUM\<close> names.\<close>

definition inet_chksum :: "(addr \<Rightarrow> u8 list \<Rightarrow> u16) \<Rightarrow> addr \<Rightarrow> u8 list \<Rightarrow> u16" where
  "inet_chksum LWIP_CHKSUM dataptr bs = NOT (LWIP_CHKSUM dataptr bs)"

section \<open>The specification\<close>

text \<open>
  The sum of the little-endian byte pairs, an odd last byte padded with zero, and the representative
  of a sum modulo 65535 that end-around carries produce: 0 only for the sum 0.
\<close>

fun lesum :: "u8 list \<Rightarrow> nat" where
  "lesum (b0 # b1 # bs) = unat b0 + 256 * unat b1 + lesum bs"
| "lesum [b] = unat b"
| "lesum [] = 0"

definition oc :: "nat \<Rightarrow> nat" where
  "oc S = (if S = 0 then 0 else (S - 1) mod 65535 + 1)"

lemma oc_0 [simp]: "oc 0 = 0"
  by (simp add: oc_def)

lemma oc_less [simp]: "oc S < 65536"
proof -
  have "(S - 1) mod 65535 < 65535" by simp
  then show ?thesis unfolding oc_def by simp
qed

lemma oc_eq_0 [simp]: "oc S = 0 \<longleftrightarrow> S = 0"
  by (simp add: oc_def)

lemma oc_mod: "oc S mod 65535 = S mod 65535"
  by (cases S) (simp_all add: oc_def mod_Suc_eq)

text \<open>Two sums with the same residue, both zero or both positive, have the same representative.\<close>

lemma oc_cong: "S mod 65535 = T mod 65535 \<Longrightarrow> (S = 0 \<longleftrightarrow> T = 0) \<Longrightarrow> oc S = oc T"
proof (cases "S = 0")
  case False
  assume *: "S mod 65535 = T mod 65535" "S = 0 \<longleftrightarrow> T = 0"
  then obtain s t where st: "S = Suc s" "T = Suc t" using False by (cases S; cases T) auto
  have "int s mod 65535 = int t mod 65535"
  proof -
    have "int S mod 65535 = int T mod 65535" using *(1) by (metis of_nat_mod of_nat_numeral)
    then have "(int S - 1) mod 65535 = (int T - 1) mod 65535" by (metis mod_diff_left_eq)
    then show ?thesis by (simp add: st)
  qed
  then have "s mod 65535 = t mod 65535" by (metis nat_int of_nat_mod of_nat_numeral)
  then show ?thesis by (simp add: oc_def st)
qed (auto simp: oc_def)

lemma oc_small: "S < 65536 \<Longrightarrow> oc S = S"
  by (cases S) (auto simp: oc_def)

section \<open>Word arithmetic of the macros\<close>

lemma u32_low_masks: "(0xff :: u32) = mask 8" "(0x0000ffff :: u32) = mask 16" "(0xff00 :: u32) = push_bit 8 (mask 8)"
  by (simp_all add: mask_eq_exp_minus_1)

lemma unat_ucast_u8 [simp]:
  "unat (ucast (b :: u8) :: u16) = unat b" "unat (ucast (b :: u8) :: u32) = unat b"
  by (simp_all add: unsigned_ucast_eq take_bit_nat_eq_self_iff, (rule order.strict_trans [OF unat_u8_less], simp)+)

lemma unat_shift_u8:
  "unat (push_bit 8 (ucast (b :: u8)) :: u16) = unat b * 2 ^ 8"
  "unat (push_bit 8 (ucast (b :: u8)) :: u32) = unat b * 2 ^ 8"
  "unat (push_bit 16 (ucast (b :: u8)) :: u32) = unat b * 2 ^ 16"
  "unat (push_bit 24 (ucast (b :: u8)) :: u32) = unat b * 2 ^ 24"
proof -
  have "unat b < 2 ^ 16" "unat b < 2 ^ 24" by (rule order.strict_trans [OF unat_u8_less], simp)+
  then show
    "unat (push_bit 8 (ucast b) :: u16) = unat b * 2 ^ 8" "unat (push_bit 8 (ucast b) :: u32) = unat b * 2 ^ 8"
    "unat (push_bit 16 (ucast b) :: u32) = unat b * 2 ^ 16" "unat (push_bit 24 (ucast b) :: u32) = unat b * 2 ^ 24"
    by (simp_all add: unat_push_bit)
qed

lemma unat_ucast_u16 [simp]: "unat (ucast (x :: u16) :: u32) = unat x"
  by (simp add: unsigned_ucast_eq take_bit_nat_eq_self_iff) (rule order.strict_trans [OF unsigned_less], simp)

lemma unat_ucast_u32_u16: "unat (ucast (x :: u32) :: u16) = unat x mod 65536"
  by (simp add: unsigned_ucast_eq take_bit_eq_mod)

lemma unat_load_u16: "unat (load_u16 b0 b1) = unat b0 + 256 * unat b1"
proof -
  have "unat (load_u16 b0 b1) = unat b0 OR push_bit 8 (unat b1)"
    unfolding load_u16_def unsigned_or_eq unat_shift_u8 unat_ucast_u8 unfolding push_bit_eq_mult ..
  also have "\<dots> = unat b0 + 256 * unat b1" using or_push_bit_nat [of "unat b0" 8 "unat b1"] by simp
  finally show ?thesis .
qed

lemma unat_be_u16: "unat (push_bit 8 (ucast (b0 :: u8)) OR ucast (b1 :: u8) :: u16) = unat b1 + 256 * unat b0"
  using unat_load_u16 [of b1 b0] by (simp add: load_u16_def or.commute)

lemma unat_FOLD_U32T: "unat (FOLD_U32T u) = unat u div 65536 + unat u mod 65536"
proof -
  have u: "unat u < 4294967296" using unsigned_less [of u] by simp
  have l: "unat (u AND 0x0000ffff) = unat u mod 65536"
    unfolding u32_low_masks unat_and_mask by simp
  have h: "unat (drop_bit 16 u) = unat u div 65536" unfolding unat_drop_bit by simp
  have "unat u div 65536 + unat u mod 65536 < 4294967296" using u by linarith
  then show ?thesis unfolding FOLD_U32T_def by (simp add: unat_word_ariths l h)
qed

lemma unat_SWAP: "unat w < 65536 \<Longrightarrow> unat (SWAP_BYTES_IN_WORD w) = unat w div 256 + 256 * (unat w mod 256)"
proof -
  assume w: "unat w < 65536"
  then have less: "unat w div 256 < 256" by linarith
  have "drop_bit 8 (w AND 0xff00) = drop_bit 8 w AND mask 8"
    by (rule bit_word_eqI) (simp only: u32_low_masks bit_ops, auto)
  then have h: "unat (drop_bit 8 (w AND 0xff00)) = unat w div 256"
    using less by (simp only: unat_and_mask) (simp add: unat_drop_bit)
  have l: "unat (push_bit 8 (w AND 0xff)) = (unat w mod 256) * 2 ^ 8"
    unfolding u32_low_masks by (subst unat_push_bit; simp add: unat_and_mask)
  have "unat (SWAP_BYTES_IN_WORD w) = unat w div 256 OR push_bit 8 (unat w mod 256)"
    unfolding SWAP_BYTES_IN_WORD_def unsigned_or_eq l h unfolding push_bit_eq_mult by (rule or.commute)
  also have "\<dots> = unat w div 256 + 256 * (unat w mod 256)"
    using or_push_bit_nat [of "unat w div 256" 8 "unat w mod 256"] less by simp
  finally show ?thesis .
qed

section \<open>Sums of byte pairs\<close>

lemma lesum_Cons_mod: "lesum (b # bs) mod 65535 = (unat b + 256 * lesum bs) mod 65535"
proof (induction bs arbitrary: b rule: lesum.induct)
  case (1 b0 b1 bs)
  have "256 * lesum (b1 # bs) mod 65535 = 256 * (unat b1 + 256 * lesum bs) mod 65535"
    using "1.IH" [of b1] by (intro mod_mult_cong) auto
  then have "(unat b + 256 * unat b0 + (256 * lesum (b1 # bs))) mod 65535 =
      (unat b + 256 * unat b0 + 256 * (unat b1 + 256 * lesum bs)) mod 65535"
    by (intro mod_add_cong) auto
  moreover have "(unat b + 256 * unat b0 + lesum (b1 # bs)) mod 65535 =
      (unat b + 256 * unat b0 + (unat b1 + 256 * lesum bs)) mod 65535"
    using "1.IH" [of b1] by (intro mod_add_cong) auto
  moreover have "unat b + 256 * (unat b0 + 256 * unat b1 + lesum bs) =
      unat b + 256 * unat b0 + (unat b1 + 256 * lesum bs) + 65535 * unat b1" by simp
  ultimately show ?case by (simp only: lesum.simps mod_mult_self2 mod_mult_self1)
qed simp_all

lemma lesum_eq_0: "lesum bs = 0 \<longleftrightarrow> (\<forall>b\<in>set bs. b = 0)"
  by (induction bs rule: lesum.induct) (auto simp: unsigned_eq_0_iff)

lemma lesum_bound: "lesum bs \<le> 65535 * ((length bs + 1) div 2)"
proof (induction bs rule: lesum.induct)
  case (1 b0 b1 bs)
  have "unat b0 + 256 * unat b1 \<le> 65535"
    using unat_u8_less [of b0] unat_u8_less [of b1] by linarith
  with 1 show ?case by simp
next
  case (2 b)
  have "unat b \<le> 65535" using unat_u8_less [of b] by linarith
  then show ?case by simp
qed simp

lemma lesum_append: "even (length xs) \<Longrightarrow> lesum (xs @ ys) = lesum xs + lesum ys"
  by (induction xs rule: lesum.induct) auto

lemma add_u16s_sum:
  assumes "unat s + lesum bs < 2 ^ 32"
  shows "\<exists>s' r. add_u16s s bs = (s', r) \<and> unat s' + lesum r = unat s + lesum bs \<and> length r \<le> 1"
  using assms
proof (induction s bs rule: add_u16s.induct)
  case (1 s b0 b1 bs)
  then have "unat (s + ucast (load_u16 b0 b1)) = unat s + unat b0 + 256 * unat b1"
    by (subst unat_plus_id) (simp_all add: unat_load_u16)
  with 1 show ?case by (simp add: add.assoc)
qed auto

section \<open>Folding and swapping\<close>

lemma FOLD_mod: "unat (FOLD_U32T u) mod 65535 = unat u mod 65535"
proof -
  have "unat u = unat u div 65536 + unat u mod 65536 + 65535 * (unat u div 65536)"
    using div_mult_mod_eq [of "unat u" 65536] by simp
  then show ?thesis unfolding unat_FOLD_U32T by (metis mod_mult_self2)
qed

lemma FOLD_eq_0: "unat (FOLD_U32T u) = 0 \<longleftrightarrow> unat u = 0"
  unfolding unat_FOLD_U32T by (auto simp: div_eq_0_iff)

lemma FOLD_less: "unat u < 131071 \<Longrightarrow> unat (FOLD_U32T u) < 65536"
proof -
  assume "unat u < 131071"
  then have "unat u < 65536 \<or> unat u div 65536 = 1 \<and> unat u mod 65536 = unat u - 65536"
    by (cases "unat u < 65536") (simp_all add: div_if mod_if)
  with \<open>unat u < 131071\<close> show ?thesis unfolding unat_FOLD_U32T by auto
qed

lemma FOLD_bound: "unat (FOLD_U32T u) < 131071"
proof -
  have "unat u < 65536 * 65536" using unsigned_less [of u] by simp
  then show ?thesis unfolding unat_FOLD_U32T by linarith
qed

lemma unat_FOLD_FOLD: "unat (FOLD_U32T (FOLD_U32T u)) = oc (unat u)"
proof -
  have "oc (unat (FOLD_U32T (FOLD_U32T u))) = oc (unat u)"
    by (intro oc_cong) (simp_all add: FOLD_mod FOLD_eq_0)
  then show ?thesis by (simp add: oc_small FOLD_less FOLD_bound)
qed

lemma unat_SWAP_oc:
  assumes "unat w < 65536"
  shows "unat (SWAP_BYTES_IN_WORD w) = oc (256 * unat w)"
proof -
  let ?s = "unat w div 256 + 256 * (unat w mod 256)"
  have "256 * unat w = ?s + 65535 * (unat w div 256)"
    using div_mult_mod_eq [of "unat w" 256] by linarith
  then have "?s mod 65535 = 256 * unat w mod 65535" by (metis mod_mult_self2)
  moreover have "?s = 0 \<longleftrightarrow> 256 * unat w = 0" by (auto simp: div_eq_0_iff)
  moreover have "?s < 65536"
  proof -
    have "unat w div 256 < 256" "unat w mod 256 < 256" using assms by (linarith, simp)
    then show ?thesis by linarith
  qed
  ultimately show ?thesis using oc_cong oc_small assms by (metis unat_SWAP)
qed

lemma oc_mult_oc: "oc (256 * oc S) = oc (256 * S)"
  by (intro oc_cong mod_mult_cong) (simp_all add: oc_mod)

lemma unat_chksum_finish: "unat (chksum_finish a s) = oc (if odd a then 256 * unat s else unat s)"
  by (simp add: chksum_finish_def unat_ucast_u32_u16 unat_SWAP_oc unat_FOLD_FOLD oc_mult_oc)

lemma oc_add_oc: "oc (oc S + T) = oc (S + T)"
  by (intro oc_cong mod_add_cong) (simp_all add: oc_mod)

section \<open>Version 2 computes the one's complement sum\<close>

lemma unat_set_byte:
  "unat (set_byte1 0 b) = 256 * unat b" "unat (set_byte0 0 b) = unat b"
  "unat (set_byte0 (set_byte1 0 b) c) = unat c + 256 * unat b"
proof -
  show "unat (set_byte1 0 b) = 256 * unat b" "unat (set_byte0 0 b) = unat b"
    using unat_load_u16 [of 0 b] by (simp_all add: set_byte1_def set_byte0_def load_u16_def)
  have "set_byte0 (set_byte1 0 b) c = load_u16 c b"
    unfolding set_byte0_def set_byte1_def load_u16_def u16_masks
    by (rule bit_word_eqI) (simp only: bit_ops, auto dest: bit_imp_le_length)
  then show "unat (set_byte0 (set_byte1 0 b) c) = unat c + 256 * unat b"
    by (simp add: unat_load_u16)
qed

lemma unat_tail_byte:
  "length r \<le> 1 \<Longrightarrow> t = 0 \<or> (\<exists>b. t = set_byte1 0 b) \<Longrightarrow> unat (tail_byte t r) = unat t + lesum r"
  by (cases r) (auto simp: tail_byte_def unat_set_byte)

text \<open>The value of the sum before the final folding, for a buffer at an odd or an even address.\<close>

definition pairs_from :: "addr \<Rightarrow> u8 list \<Rightarrow> nat" where
  "pairs_from a bs = (case bs of [] \<Rightarrow> 0 | b # r \<Rightarrow> if odd a then 256 * unat b + lesum r else lesum bs)"

lemma oc_pairs_from: "oc (if odd a then 256 * pairs_from a bs else pairs_from a bs) = oc (lesum bs)"
proof (cases "odd a \<and> bs \<noteq> []")
  case True
  then obtain b r where bs: "bs = b # r" by (cases bs) auto
  have "256 * (256 * unat b + lesum r) = unat b + 256 * lesum r + 65535 * unat b" by simp
  then have "256 * (256 * unat b + lesum r) mod 65535 = lesum (b # r) mod 65535"
    unfolding lesum_Cons_mod by (metis mod_mult_self2)
  moreover have "256 * (256 * unat b + lesum r) = 0 \<longleftrightarrow> lesum (b # r) = 0"
    by (auto simp: lesum_eq_0 unsigned_eq_0_iff)
  ultimately show ?thesis using True by (auto simp: bs pairs_from_def intro: oc_cong)
qed (cases bs, auto simp: pairs_from_def)

lemma pairs_from_bound: "pairs_from a bs \<le> 65535 * ((length bs + 2) div 2)"
proof (cases bs)
  case (Cons b r)
  have "256 * unat b \<le> 65280" using unat_u8_less [of b] by linarith
  then show ?thesis
    using lesum_bound [of r] lesum_bound [of bs] unfolding Cons pairs_from_def by auto
qed (simp add: pairs_from_def)

lemma head_byte_sum:
  "\<exists>ps t r. head_byte a bs = (ps, t, r) \<and> (t = 0 \<or> (\<exists>b. t = set_byte1 0 b)) \<and>
     unat t + lesum r = pairs_from a bs"
  by (cases bs) (auto simp: head_byte_def pairs_from_def unat_set_byte)

lemma tail_sum:
  assumes "unat s + unat t + lesum bs < 2 ^ 32" "t = 0 \<or> (\<exists>b. t = set_byte1 0 b)"
  shows "\<exists>s' r. add_u16s s bs = (s', r) \<and> unat (s' + ucast (tail_byte t r)) = unat s + unat t + lesum bs"
proof -
  have "unat s + lesum bs < 2 ^ 32" using assms(1) by simp
  then obtain s' r where "add_u16s s bs = (s', r)" "unat s' + lesum r = unat s + lesum bs" "length r \<le> 1"
    using add_u16s_sum by blast
  moreover from this have "unat (s' + ucast (tail_byte t r)) = unat s + unat t + lesum bs"
    using assms by (subst unat_plus_id) (simp_all add: unat_tail_byte)
  ultimately show ?thesis by blast
qed

lemma chksum2_sum: "length bs \<le> 0x20000 \<Longrightarrow> unat (lwip_standard_chksum2 a bs) = oc (lesum bs)"
proof -
  assume "length bs \<le> 0x20000"
  then have "(length bs + 2) div 2 \<le> 65537" by simp
  then have "65535 * ((length bs + 2) div 2) < 2 ^ 32" by simp
  then have less: "pairs_from a bs < 2 ^ 32" using pairs_from_bound [of a bs] by (rule le_less_trans [rotated])
  obtain ps t r where h: "head_byte a bs = (ps, t, r)" "t = 0 \<or> (\<exists>b. t = set_byte1 0 b)"
    "unat t + lesum r = pairs_from a bs" using head_byte_sum by blast
  obtain s' r' where "add_u16s 0 r = (s', r')" "unat (s' + ucast (tail_byte t r')) = pairs_from a bs"
    using tail_sum [of 0 t r] h less by auto
  then have "unat (lwip_standard_chksum2 a bs) = oc (if odd a then 256 * pairs_from a bs else pairs_from a bs)"
    by (simp add: lwip_standard_chksum2_def h unat_chksum_finish)
  then show ?thesis by (simp only: oc_pairs_from)
qed

section \<open>Version 3 computes the one's complement sum\<close>

lemma add_carry_sum:
  "\<exists>k. unat x + unat y = unat (add_carry x y) + 65535 * k" "unat (add_carry x y) = 0 \<longleftrightarrow> unat x = 0 \<and> unat y = 0"
proof -
  let ?N = "4294967296 :: nat"
  have less: "unat x < ?N" "unat y < ?N" using unsigned_less [of x] unsigned_less [of y] by simp_all
  have val: "unat (add_carry x y) = (if unat x + unat y < ?N then unat x + unat y else unat x + unat y - (?N - 1))"
  proof (cases "unat x + unat y < ?N")
    case True
    then have "unat (x + y) = unat x + unat y" by (simp add: unat_plus_id)
    then show ?thesis using True by (simp add: add_carry_def word_less_nat_alt)
  next
    case False
    then have u: "unat (x + y) = unat x + unat y - ?N" using less by (simp add: unat_word_ariths mod_if)
    then have "x + y < x" using less False by (simp add: word_less_nat_alt)
    moreover have "unat (x + y + 1) = unat (x + y) + 1"
      using less u False by (subst unat_plus_id) simp_all
    ultimately show ?thesis using u False less by (simp add: add_carry_def)
  qed
  show "unat (add_carry x y) = 0 \<longleftrightarrow> unat x = 0 \<and> unat y = 0" unfolding val using less by auto
  have "unat x + unat y = unat (add_carry x y) + 65535 * (if unat x + unat y < ?N then 0 else 65537)"
    unfolding val using less by auto
  then show "\<exists>k. unat x + unat y = unat (add_carry x y) + 65535 * k" ..
qed

lemma oc_shift: "S = T + 65535 * k \<Longrightarrow> T = 0 \<longrightarrow> k = 0 \<Longrightarrow> oc T = oc S"
  by (rule oc_cong) auto

lemma oc_add_carry: "oc (unat (add_carry x y) + c) = oc (unat x + unat y + c)"
proof -
  obtain k where k: "unat x + unat y = unat (add_carry x y) + 65535 * k" using add_carry_sum(1) by blast
  then show ?thesis using add_carry_sum(2) [of x y] by (intro oc_shift [of _ _ k]) auto
qed

lemma unat_load_u32: "unat (load_u32 b0 b1 b2 b3) =
  unat b0 + 256 * unat b1 + (unat b2 + 256 * unat b3) + 65535 * (unat b2 + 256 * unat b3)"
proof -
  have eq: "load_u32 b0 b1 b2 b3 = ucast (load_u16 b0 b1) OR push_bit 16 (ucast (load_u16 b2 b3))"
    unfolding load_u32_def load_u16_def
    by (rule bit_word_eqI) (simp only: bit_ops, auto dest: bit_imp_le_length)
  have less: "unat (load_u16 b c) < 2 ^ 16" for b c using unsigned_less [of "load_u16 b c"] by simp
  have "unat (push_bit 16 (ucast (load_u16 b2 b3)) :: u32) = unat (load_u16 b2 b3) * 2 ^ 16"
    using less [of b2 b3] by (subst unat_push_bit) simp_all
  then have "unat (load_u32 b0 b1 b2 b3) = unat (load_u16 b0 b1) OR push_bit 16 (unat (load_u16 b2 b3))"
    unfolding eq unsigned_or_eq unat_ucast_u16 by (simp add: push_bit_eq_mult)
  also have "\<dots> = unat (load_u16 b0 b1) + 2 ^ 16 * unat (load_u16 b2 b3)"
    using less [of b0 b1] by (rule or_push_bit_nat)
  finally show ?thesis by (simp add: unat_load_u16)
qed

lemma oc_load_u32:
  "oc (unat (load_u32 b0 b1 b2 b3) + c) = oc (unat b0 + 256 * unat b1 + (unat b2 + 256 * unat b3) + c)"
  by (rule oc_shift [symmetric, of _ _ "unat b2 + 256 * unat b3"]) (auto simp: unat_load_u32)

lemma add_u32s_sum:
  "\<exists>s' r. add_u32s s bs = (s', r) \<and> oc (unat s' + lesum r + c) = oc (unat s + lesum bs + c) \<and> length r \<le> 7"
proof (induction s bs arbitrary: c rule: add_u32s.induct)
  case (1 s b0 b1 b2 b3 b4 b5 b6 b7 bs)
  have step: "oc (unat (add_carry s (load_u32 b0 b1 b2 b3)) + c) =
      oc (unat s + (unat b0 + 256 * unat b1 + (unat b2 + 256 * unat b3)) + c)" for s b0 b1 b2 b3 c
    unfolding oc_add_carry using oc_load_u32 [of b0 b1 b2 b3 "unat s + c"] by (simp add: ac_simps)
  show ?case
    using "1.IH" [OF refl refl, of c] by (simp add: step add.assoc)
qed auto

lemma align_u32_sum: "\<exists>s r. align_u32 ps bs = (s, r) \<and> unat s + lesum r = lesum bs"
  by (auto simp: align_u32_def unat_load_u16 split: list.split)

lemma chksum3_sum: "unat (lwip_standard_chksum3 a bs) = oc (lesum bs)"
proof -
  obtain ps t r where h: "head_byte a bs = (ps, t, r)" "t = 0 \<or> (\<exists>b. t = set_byte1 0 b)"
    "unat t + lesum r = pairs_from a bs" using head_byte_sum by blast
  obtain s r1 where s: "align_u32 ps r = (s, r1)" "unat s + lesum r1 = lesum r"
    using align_u32_sum by blast
  obtain s2 r2 where s2: "add_u32s s r1 = (s2, r2)" "oc (unat s2 + lesum r2 + unat t) = oc (unat s + lesum r1 + unat t)"
    "length r2 \<le> 7" using add_u32s_sum by blast
  let ?f = "FOLD_U32T s2"
  have "lesum r2 \<le> 65535 * 4"
    using s2(3) by (intro order_trans [OF lesum_bound]) simp
  moreover have "unat t < 65536" using unsigned_less [of t] by simp
  ultimately obtain s3 r3 where s3: "add_u16s ?f r2 = (s3, r3)"
    "unat (s3 + ucast (tail_byte t r3)) = unat ?f + unat t + lesum r2"
    using tail_sum [of ?f t r2] h(2) FOLD_bound [of s2] by auto
  have "oc (unat ?f + unat t + lesum r2) = oc (unat s2 + lesum r2 + unat t)"
    unfolding add.assoc [of _ _ "lesum r2"] add.assoc [of _ "lesum r2"] add.commute [of "lesum r2"]
    by (rule oc_cong) (auto simp: FOLD_eq_0 intro!: mod_add_cong FOLD_mod)
  also have "\<dots> = oc (pairs_from a bs)" by (simp only: s2(2) s(2)) (simp add: h(3) [symmetric] add.commute)
  finally have fin: "oc (unat (s3 + ucast (tail_byte t r3))) = oc (pairs_from a bs)"
    by (simp only: s3)
  have "oc (256 * unat (s3 + ucast (tail_byte t r3))) = oc (256 * pairs_from a bs)"
    using oc_mult_oc [of "unat (s3 + ucast (tail_byte t r3))"] oc_mult_oc [of "pairs_from a bs"]
    by (simp only: fin)
  with fin have "unat (lwip_standard_chksum3 a bs) =
      oc (if odd a then 256 * pairs_from a bs else pairs_from a bs)"
    unfolding lwip_standard_chksum3_def h(1) s(1) s2(1) s3(1) Let_def prod.case
    by (auto simp only: unat_chksum_finish split: if_split)
  then show ?thesis by (simp only: oc_pairs_from)
qed

section \<open>Version 1 computes the one's complement sum\<close>

fun besum :: "u8 list \<Rightarrow> nat" where
  "besum (b0 # b1 # bs) = unat b1 + 256 * unat b0 + besum bs"
| "besum [b] = 256 * unat b"
| "besum [] = 0"

lemma besum_pairs: "oc (besum bs + c) = oc (256 * lesum bs + c)"
proof (induction bs arbitrary: c rule: besum.induct)
  case (1 b0 b1 bs)
  have "oc (besum (b0 # b1 # bs) + c) = oc (256 * lesum bs + (unat b1 + 256 * unat b0 + c))"
    using "1.IH" [of "unat b1 + 256 * unat b0 + c"] by (simp add: ac_simps)
  also have "\<dots> = oc (256 * lesum (b0 # b1 # bs) + c)"
    by (rule oc_shift [of _ _ "unat b1"]) auto
  finally show ?case .
qed simp_all

lemma besum_bound: "besum bs \<le> 65535 * ((length bs + 1) div 2)"
proof (induction bs rule: besum.induct)
  case (1 b0 b1 bs)
  have "unat b1 + 256 * unat b0 \<le> 65535"
    using unat_u8_less [of b0] unat_u8_less [of b1] by linarith
  with 1 show ?case by simp
next
  case (2 b)
  have "256 * unat b \<le> 65535" using unat_u8_less [of b] by linarith
  then show ?case by simp
qed simp

lemma chksum1_loop_sum:
  "unat acc + besum bs < 2 ^ 32 \<Longrightarrow> unat (chksum1_loop acc bs) = unat acc + besum bs"
proof (induction acc bs rule: chksum1_loop.induct)
  case (1 acc b0 b1 bs)
  let ?src = "push_bit 8 (ucast b0) OR ucast b1 :: u16"
  have "unat (acc + ucast ?src) = unat acc + (unat b1 + 256 * unat b0)"
    using "1.prems" by (subst unat_plus_id) (simp_all add: unat_be_u16 del: push_bit_numeral)
  then show ?case using 1 by (simp add: ac_simps del: push_bit_numeral)
next
  case (2 acc b)
  then show ?case unfolding chksum1_loop.simps Let_def
    by (subst unat_plus_id) (simp_all only: unat_ucast_u16 unat_shift_u8, auto)
qed simp

lemma high_half_0: "u AND 0xffff0000 = 0 \<Longrightarrow> unat u < 65536" for u :: u32
proof -
  assume *: "u AND 0xffff0000 = 0"
  have "(0xffff0000 :: u32) = push_bit 16 (mask 16)" by (simp add: mask_eq_exp_minus_1)
  then have "u = (u AND mask 16) OR (u AND 0xffff0000)"
    by (intro bit_word_eqI) (simp only: bit_ops, auto)
  with * have "u = u AND mask 16" by simp
  then have "unat u = unat u mod 65536" using unat_and_mask [of u 16] by simp
  then show ?thesis by (metis mod_less_divisor zero_less_numeral)
qed

lemma htons_SWAP: "lwip_htons (ucast w) = ucast (SWAP_BYTES_IN_WORD w)"
  unfolding lwip_htons_def SWAP_BYTES_IN_WORD_def u16_masks u32_low_masks
  by (rule bit_word_eqI) (simp only: bit_ops, auto)

lemma unat_htons_oc: "unat w < 65536 \<Longrightarrow> unat (lwip_htons (ucast w)) = oc (256 * unat w)" for w :: u32
  by (simp add: htons_SWAP unat_ucast_u32_u16 unat_SWAP_oc)

lemma chksum1_sum: "length bs \<le> 0x20000 \<Longrightarrow> unat (lwip_standard_chksum1 a bs) = oc (lesum bs)"
proof -
  assume "length bs \<le> 0x20000"
  then have "besum bs < 2 ^ 32" by (intro le_less_trans [OF besum_bound]) simp
  then have acc: "unat (chksum1_loop 0 bs) = besum bs" using chksum1_loop_sum [of 0 bs] by simp
  let ?f = "FOLD_U32T (chksum1_loop 0 bs)"
  let ?g = "if ?f AND 0xffff0000 \<noteq> 0 then FOLD_U32T ?f else ?f"
  have g: "unat ?g = oc (besum bs)"
  proof (cases "?f AND 0xffff0000 = 0")
    case True
    have "oc (unat ?f) = oc (besum bs)"
      unfolding acc [symmetric] by (intro oc_cong FOLD_mod FOLD_eq_0)
    then show ?thesis using True by (simp add: oc_small high_half_0)
  qed (simp add: unat_FOLD_FOLD acc)
  have "unat (lwip_standard_chksum1 a bs) = unat (lwip_htons (ucast ?g))"
    unfolding lwip_standard_chksum1_def Let_def FOLD_U32T_def ..
  also have "\<dots> = oc (256 * oc (besum bs))" by (simp add: unat_htons_oc g del: if_not_P if_P)
  also have "\<dots> = oc (256 * (256 * lesum bs))"
    using besum_pairs [of bs 0] by (simp only: add_0_right oc_mult_oc)
  also have "\<dots> = oc (lesum bs)"
    by (rule oc_shift [symmetric, of _ _ "lesum bs"]) auto
  finally show ?thesis .
qed

section \<open>The checksum interface\<close>

text \<open>
  What the callers of \<^verbatim>\<open>LWIP_CHKSUM\<close> rely on, for buffers up to the largest packet: the routine
  computes the one's complement sum, at any address.  Each of the three versions provides it.
\<close>

lemma unat_NOT_u16: "unat (NOT x) = 65535 - unat x" for x :: u16
proof -
  have m: "unat (-1 :: u16) = 65535" by (simp add: unsigned_minus_1_eq_mask mask_eq_exp_minus_1)
  have n: "NOT x = -1 - x" unfolding not_eq_complement by (rule minus_diff_commute)
  have "unat (-1 - x) = unat (-1 :: u16) - unat x" by (rule unat_sub) (rule word_n1_ge)
  then show ?thesis by (simp only: n m)
qed

locale chksum_routine =
  fixes LWIP_CHKSUM :: "addr \<Rightarrow> u8 list \<Rightarrow> u16"
  assumes chksum_lesum: "length bs < 65536 \<Longrightarrow> unat (LWIP_CHKSUM a bs) = oc (lesum bs)"
begin

lemma unat_inet_chksum:
  "length bs < 65536 \<Longrightarrow> unat (inet_chksum LWIP_CHKSUM a bs) = 65535 - oc (lesum bs)"
  by (simp add: inet_chksum_def chksum_lesum unat_NOT_u16)

lemma chksum_any_address:
  "length bs < 65536 \<Longrightarrow> LWIP_CHKSUM a bs = LWIP_CHKSUM a' bs"
  by (simp add: word_unat_eq_iff chksum_lesum)

end

interpretation v1: chksum_routine lwip_standard_chksum1
  by unfold_locales (simp add: chksum1_sum)

interpretation v2: chksum_routine lwip_standard_chksum2
  by unfold_locales (simp add: chksum2_sum)

interpretation v3: chksum_routine lwip_standard_chksum3
  by unfold_locales (simp add: chksum3_sum)

text \<open>The low and the high byte of a 16-bit field, as a little-endian host stores it.\<close>

definition u16_bytes :: "u16 \<Rightarrow> u8 list" where
  "u16_bytes x = [ucast x, ucast (drop_bit 8 x)]"

lemma lesum_u16_bytes: "lesum (u16_bytes x) = unat x"
proof -
  have "unat (ucast x :: u8) = unat x mod 256" by (simp add: unsigned_ucast_eq take_bit_eq_mod)
  moreover have "unat (ucast (drop_bit 8 x) :: u8) = unat x div 256"
  proof -
    have "unat x < 65536" using unsigned_less [of x] by simp
    then have "unat x div 256 < 256" by linarith
    then show ?thesis by (simp only: unsigned_ucast_eq unat_drop_bit) (simp add: take_bit_eq_mod)
  qed
  ultimately show ?thesis by (simp add: u16_bytes_def)
qed

lemma lesum_field: "even (length xs) \<Longrightarrow> lesum (xs @ u16_bytes x @ ys) = lesum (xs @ [0, 0] @ ys) + unat x"
  using lesum_append [of xs] lesum_append [of "u16_bytes x"] lesum_u16_bytes [of x]
  by (simp add: u16_bytes_def)

lemma oc_complement: "oc (S + (65535 - oc S)) = 65535"
proof -
  have "oc S \<le> 65535" using oc_less [of S] by linarith
  obtain k where "S = oc S + 65535 * k"
  proof (cases S)
    case (Suc n)
    show ?thesis
      by (rule that [of "n div 65535"])
        (use mult_div_mod_eq [of 65535 n] in \<open>simp add: oc_def Suc\<close>)
  qed (use that [of 0] in simp)
  then have "S + (65535 - oc S) = 65535 + 65535 * k" using \<open>oc S \<le> 65535\<close> by linarith
  then show ?thesis using oc_shift [of "S + (65535 - oc S)" 65535 k] by (simp add: oc_small)
qed

lemma lesum_update:
  "i < length bs \<Longrightarrow>
   lesum (bs[i := b]) + (if even i then 1 else 256) * unat (bs ! i) =
   lesum bs + (if even i then 1 else 256) * unat b"
proof (induction bs arbitrary: i rule: lesum.induct)
  case (1 b0 b1 bs)
  consider "i = 0" | "i = 1" | j where "i = Suc (Suc j)" by (cases i; cases "i - 1") auto
  then show ?case using 1 by cases auto
next
  case (2 b)
  then show ?case by simp
qed simp

lemma oc_differ:
  assumes "oc S = oc T" "S < T" shows "65535 \<le> T - S"
proof -
  have "S mod 65535 = T mod 65535" using assms(1) oc_mod by metis
  then have "65535 dvd T - S" using assms(2) mod_eq_dvd_iff_nat [of S T 65535] by simp
  then show ?thesis using assms(2) by (intro dvd_imp_le) simp_all
qed

context chksum_routine
begin

lemma chksum_inserted:
  assumes "even (length xs)" "length xs + 2 + length ys < 65536"
  shows "inet_chksum LWIP_CHKSUM a' (xs @ u16_bytes (inet_chksum LWIP_CHKSUM a (xs @ [0, 0] @ ys)) @ ys) = 0"
proof -
  let ?c = "inet_chksum LWIP_CHKSUM a (xs @ [0, 0] @ ys)"
  have "unat ?c = 65535 - oc (lesum (xs @ [0, 0] @ ys))" using assms by (simp add: unat_inet_chksum)
  then have "oc (lesum (xs @ u16_bytes ?c @ ys)) = 65535"
    by (simp only: lesum_field [OF assms(1)] oc_complement)
  moreover have "length (xs @ u16_bytes ?c @ ys) < 65536" using assms by (simp add: u16_bytes_def)
  ultimately have "unat (inet_chksum LWIP_CHKSUM a' (xs @ u16_bytes ?c @ ys)) = 0"
    by (simp only: unat_inet_chksum)
  then show ?thesis by (simp only: unsigned_eq_0_iff)
qed

lemma chksum_detects_byte:
  assumes "i < length bs" "length bs < 65536" "b \<noteq> bs ! i"
  shows "inet_chksum LWIP_CHKSUM a (bs[i := b]) \<noteq> inet_chksum LWIP_CHKSUM a' bs"
proof
  assume "inet_chksum LWIP_CHKSUM a (bs[i := b]) = inet_chksum LWIP_CHKSUM a' bs"
  then have "LWIP_CHKSUM a (bs[i := b]) = LWIP_CHKSUM a' bs" by (simp add: inet_chksum_def)
  then have oc: "oc (lesum (bs[i := b])) = oc (lesum bs)"
    using assms chksum_lesum [of "bs[i := b]" a] chksum_lesum [of bs a'] by simp
  let ?w = "if even i then 1 else 256 :: nat"
  have le: "?w * unat x \<le> 65280" for x :: u8
  proof -
    have "unat x \<le> 255" using unat_u8_less [of x] by linarith
    then show ?thesis by simp
  qed
  have "unat b \<noteq> unat (bs ! i)" using assms(3) by (simp add: word_unat_eq_iff)
  then have "?w * unat b \<noteq> ?w * unat (bs ! i)" by auto
  then show False
    using lesum_update [OF assms(1), of b] oc_differ [OF oc] oc_differ [OF oc [symmetric]]
      le [of b] le [of "bs ! i"]
    by (cases "lesum bs < lesum (bs[i := b])") linarith+
qed

end

text \<open>
  C36: The three versions of \<^verbatim>\<open>lwip_standard_chksum\<close> compute the same sum at every address for buffers
  of up to 0x20000 bytes (the bound the source documents): the one's complement sum of the byte
  pairs.
\<close>

theorem chksum_versions_agree:
  assumes "length bs \<le> 0x20000"
  shows "unat (lwip_standard_chksum1 a bs) = oc (lesum bs) \<and>
    lwip_standard_chksum2 b bs = lwip_standard_chksum1 a bs \<and>
    lwip_standard_chksum3 c bs = lwip_standard_chksum1 a bs"
  using assms by (simp_all add: word_unat_eq_iff chksum1_sum chksum2_sum chksum3_sum)

theorem chksum_versions_agree_witness:
  "lwip_standard_chksum2 1 [0x12, 0x34, 0x56] = lwip_standard_chksum1 0 [0x12, 0x34, 0x56] \<and>
   lwip_standard_chksum3 2 [0x12, 0x34, 0x56] = lwip_standard_chksum1 0 [0x12, 0x34, 0x56]"
  using chksum_versions_agree [of "[0x12, 0x34, 0x56]" 0 1 2] by simp

text \<open>
  C39: A header whose 16-bit checksum field, at an even offset and zero before, is filled with
  \<^verbatim>\<open>inet_chksum\<close> of the header verifies: the checksum of the whole is 0, whichever version sums it
  and wherever the header is placed.
\<close>

theorem inet_chksum_inserted:
  assumes "chk \<in> {lwip_standard_chksum1, lwip_standard_chksum2, lwip_standard_chksum3}"
    and "even (length xs)" "length xs + 2 + length ys < 65536"
  shows "inet_chksum chk a' (xs @ u16_bytes (inet_chksum chk a (xs @ [0, 0] @ ys)) @ ys) = 0"
  using assms v1.chksum_inserted v2.chksum_inserted v3.chksum_inserted by auto

theorem inet_chksum_inserted_witness:
  "inet_chksum lwip_standard_chksum2 4
     ([0x45, 0] @ u16_bytes (inet_chksum lwip_standard_chksum2 3 ([0x45, 0] @ [0, 0] @ [0x12])) @ [0x12]) = 0"
  by (rule inet_chksum_inserted) simp_all

text \<open>
  A packet in which one byte has changed has a different checksum, so a receiver detects it.
\<close>

theorem inet_chksum_detects_byte:
  assumes "chk \<in> {lwip_standard_chksum1, lwip_standard_chksum2, lwip_standard_chksum3}"
    and "i < length bs" "length bs < 65536" "b \<noteq> bs ! i"
  shows "inet_chksum chk a (bs[i := b]) \<noteq> inet_chksum chk a' bs"
  using assms v1.chksum_detects_byte v2.chksum_detects_byte v3.chksum_detects_byte by auto

theorem inet_chksum_detects_byte_witness:
  "inet_chksum lwip_standard_chksum3 7 ([0, 0xff, 3][0 := 0xff]) \<noteq> inet_chksum lwip_standard_chksum3 8 [0, 0xff, 3]"
  by (rule inet_chksum_detects_byte) simp_all

end
