(* ===== verification/Mem.thy ===== *)
theory Mem
  imports Inet_Chksum
begin

text \<open>
  The heap allocator \<^verbatim>\<open>lwip/src/core/mem.c\<close> in its default configuration (own heap, no pools, no
  overflow guards, no \<^verbatim>\<open>mem_free\<close> from other contexts; the mutex makes every call atomic).

  The heap is the array \<^verbatim>\<open>ram\<close>; a \<^verbatim>\<open>struct mem\<close> lies in front of every block.  The state keeps the
  structs by their offset in \<^verbatim>\<open>ram\<close> (a struct that was merged away stays in the map, as it stays in
  memory) and the offset of \<^verbatim>\<open>lfree\<close>.  \<^verbatim>\<open>ram_end\<close> is the struct at offset \<^verbatim>\<open>MEM_SIZE_ALIGNED\<close>.
  Reading a struct that was never written is \<^term>\<open>None\<close>, as is a failed assertion;
  \<^verbatim>\<open>LWIP_MEM_ILLEGAL_FREE\<close> is an assertion that fails.
\<close>

section \<open>Configuration\<close>

record mem_cfg =
  MEM_ALIGNMENT :: nat
  MEM_SIZE :: nat
  MIN_SIZE :: nat
  sizeof_struct_mem :: nat
  LWIP_RAM_HEAP_POINTER :: addr

definition LWIP_MEM_ALIGN_SIZE :: "nat \<Rightarrow> nat \<Rightarrow> nat" where
  "LWIP_MEM_ALIGN_SIZE alignment sz =
     unat ((of_nat sz + of_nat alignment - 1) AND NOT (of_nat alignment - 1) :: u32)"

definition LWIP_MEM_ALIGN :: "nat \<Rightarrow> addr \<Rightarrow> addr" where
  "LWIP_MEM_ALIGN alignment a =
     unat ((of_nat a + of_nat alignment - 1) AND NOT (of_nat alignment - 1) :: 64 word)"

definition MIN_SIZE_ALIGNED :: "mem_cfg \<Rightarrow> nat" where
  "MIN_SIZE_ALIGNED c = LWIP_MEM_ALIGN_SIZE (MEM_ALIGNMENT c) (MIN_SIZE c)"

definition SIZEOF_STRUCT_MEM :: "mem_cfg \<Rightarrow> nat" where
  "SIZEOF_STRUCT_MEM c = LWIP_MEM_ALIGN_SIZE (MEM_ALIGNMENT c) (sizeof_struct_mem c)"

definition MEM_SIZE_ALIGNED :: "mem_cfg \<Rightarrow> nat" where
  "MEM_SIZE_ALIGNED c = LWIP_MEM_ALIGN_SIZE (MEM_ALIGNMENT c) (MEM_SIZE c)"

definition ram :: "mem_cfg \<Rightarrow> addr" where
  "ram c = LWIP_MEM_ALIGN (MEM_ALIGNMENT c) (LWIP_RAM_HEAP_POINTER c)"

text \<open>\<^verbatim>\<open>mem_size_t\<close> has 16 or 32 bits, depending on the size of the heap.\<close>

definition mem_size_mod :: "mem_cfg \<Rightarrow> nat" where
  "mem_size_mod c = (if MEM_SIZE c > 64000 then 2 ^ 32 else 2 ^ 16)"

definition mem_size_of :: "mem_cfg \<Rightarrow> nat \<Rightarrow> nat" where
  "mem_size_of c x = x mod mem_size_mod c"

definition size_sub :: "nat \<Rightarrow> nat \<Rightarrow> nat" where
  "size_sub a b = (a + 2 ^ 64 - b) mod 2 ^ 64"

section \<open>State\<close>

record mem_struct =
  mem_next :: nat
  mem_prev :: nat
  mem_used :: nat

record mem_heap =
  structs :: "nat \<rightharpoonup> mem_struct"
  lfree :: nat

definition put_struct :: "nat \<Rightarrow> mem_struct \<Rightarrow> mem_heap \<Rightarrow> mem_heap" where
  "put_struct p m h = h\<lparr>structs := (structs h)(p \<mapsto> m)\<rparr>"

definition set_next :: "nat \<Rightarrow> nat \<Rightarrow> mem_heap \<Rightarrow> mem_heap option" where
  "set_next p v h = do { m \<leftarrow> structs h p; Some (put_struct p (m\<lparr>mem_next := v\<rparr>) h) }"

definition set_prev :: "nat \<Rightarrow> nat \<Rightarrow> mem_heap \<Rightarrow> mem_heap option" where
  "set_prev p v h = do { m \<leftarrow> structs h p; Some (put_struct p (m\<lparr>mem_prev := v\<rparr>) h) }"

definition set_used :: "nat \<Rightarrow> nat \<Rightarrow> mem_heap \<Rightarrow> mem_heap option" where
  "set_used p v h = do { m \<leftarrow> structs h p; Some (put_struct p (m\<lparr>mem_used := v\<rparr>) h) }"

section \<open>Operations\<close>

definition plug_holes_forward :: "mem_cfg \<Rightarrow> nat \<Rightarrow> mem_heap \<Rightarrow> mem_heap option" where
  "plug_holes_forward c mem h =
     do {
       m \<leftarrow> structs h mem;
       let nmem = mem_next m;
       if mem \<noteq> nmem then
         do {
           n \<leftarrow> structs h nmem;
           if mem_used n = 0 \<and> nmem \<noteq> MEM_SIZE_ALIGNED c then
             do {
               let h = (if lfree h = nmem then h\<lparr>lfree := mem\<rparr> else h);
               h \<leftarrow> set_next mem (mem_next n) h;
               if mem_next n \<noteq> MEM_SIZE_ALIGNED c then set_prev (mem_next n) mem h else Some h
             }
           else Some h
         }
       else Some h
     }"

definition plug_holes_backward :: "mem_cfg \<Rightarrow> nat \<Rightarrow> mem_heap \<Rightarrow> mem_heap option" where
  "plug_holes_backward c mem h =
     do {
       m \<leftarrow> structs h mem;
       let pmem = mem_prev m;
       if pmem \<noteq> mem then
         do {
           p \<leftarrow> structs h pmem;
           if mem_used p = 0 then
             do {
               let h = (if lfree h = mem then h\<lparr>lfree := pmem\<rparr> else h);
               h \<leftarrow> set_next pmem (mem_next m) h;
               if mem_next m \<noteq> MEM_SIZE_ALIGNED c then set_prev (mem_next m) pmem h else Some h
             }
           else Some h
         }
       else Some h
     }"

definition plug_holes :: "mem_cfg \<Rightarrow> nat \<Rightarrow> mem_heap \<Rightarrow> mem_heap option" where
  "plug_holes c mem h =
     do {
       lwip_assert (mem < MEM_SIZE_ALIGNED c);
       m \<leftarrow> structs h mem;
       lwip_assert (mem_used m = 0);
       lwip_assert (mem_next m \<le> MEM_SIZE_ALIGNED c);
       h \<leftarrow> plug_holes_forward c mem h;
       plug_holes_backward c mem h
     }"

definition mem_init :: "mem_cfg \<Rightarrow> mem_heap option" where
  "mem_init c =
     do {
       lwip_assert (SIZEOF_STRUCT_MEM c AND (MEM_ALIGNMENT c - 1) = 0);
       Some \<lparr>structs =
         [0 \<mapsto> \<lparr>mem_next = MEM_SIZE_ALIGNED c, mem_prev = 0, mem_used = 0\<rparr>,
          MEM_SIZE_ALIGNED c \<mapsto>
            \<lparr>mem_next = MEM_SIZE_ALIGNED c, mem_prev = MEM_SIZE_ALIGNED c, mem_used = 1\<rparr>],
         lfree = 0\<rparr>
     }"

definition mem_link_valid :: "mem_cfg \<Rightarrow> nat \<Rightarrow> mem_heap \<Rightarrow> bool option" where
  "mem_link_valid c mem h =
     do {
       m \<leftarrow> structs h mem;
       if mem_next m > MEM_SIZE_ALIGNED c \<or> mem_prev m > MEM_SIZE_ALIGNED c then Some False
       else
         do {
           pbad \<leftarrow> (if mem_prev m \<noteq> mem
                    then do { p \<leftarrow> structs h (mem_prev m); Some (mem_next p \<noteq> mem) } else Some False);
           if pbad then Some False
           else if mem_next m \<noteq> MEM_SIZE_ALIGNED c then
             do { n \<leftarrow> structs h (mem_next m); Some (mem_prev n = mem) }
           else Some True
         }
     }"

definition mem_free :: "mem_cfg \<Rightarrow> addr \<Rightarrow> mem_heap \<Rightarrow> mem_heap option" where
  "mem_free c rmem h =
     (if rmem = 0 then Some h
      else
        do {
          lwip_assert (rmem AND (MEM_ALIGNMENT c - 1) = 0);
          lwip_assert (\<not> (rmem < ram c + SIZEOF_STRUCT_MEM c \<or>
                          rmem + MIN_SIZE_ALIGNED c > ram c + MEM_SIZE_ALIGNED c));
          let mem = rmem - SIZEOF_STRUCT_MEM c - ram c;
          m \<leftarrow> structs h mem;
          lwip_assert (mem_used m \<noteq> 0);
          valid \<leftarrow> mem_link_valid c mem h;
          lwip_assert valid;
          h \<leftarrow> set_used mem 0 h;
          let h = (if mem < lfree h then h\<lparr>lfree := mem\<rparr> else h);
          plug_holes c mem h
        })"

definition mem_align_request :: "mem_cfg \<Rightarrow> nat \<Rightarrow> nat" where
  "mem_align_request c size_in =
     (let sz = mem_size_of c (LWIP_MEM_ALIGN_SIZE (MEM_ALIGNMENT c) size_in)
      in if sz < MIN_SIZE_ALIGNED c then MIN_SIZE_ALIGNED c else sz)"

text \<open>The result of \<^verbatim>\<open>mem_trim\<close> is 0 for \<^verbatim>\<open>NULL\<close>.\<close>

definition mem_trim :: "mem_cfg \<Rightarrow> addr \<Rightarrow> nat \<Rightarrow> mem_heap \<Rightarrow> (addr \<times> mem_heap) option" where
  "mem_trim c rmem new_size h =
     (let newsize = mem_align_request c new_size in
      if newsize > MEM_SIZE_ALIGNED c \<or> newsize < new_size then Some (0, h)
      else
        do {
          lwip_assert (rmem \<ge> ram c \<and> rmem < ram c + MEM_SIZE_ALIGNED c);
          lwip_assert (rmem \<ge> ram c + SIZEOF_STRUCT_MEM c);
          let ptr = rmem - SIZEOF_STRUCT_MEM c - ram c;
          m \<leftarrow> structs h ptr;
          let sz = mem_size_of c (size_sub (mem_size_of c (size_sub (mem_next m) ptr)) (SIZEOF_STRUCT_MEM c));
          lwip_assert (newsize \<le> sz);
          if newsize = sz then Some (rmem, h)
          else
            do {
              m2 \<leftarrow> structs h (mem_next m);
              let ptr2 = mem_size_of c (ptr + SIZEOF_STRUCT_MEM c + newsize);
              if mem_used m2 = 0 then
                do {
                  lwip_assert (mem_next m \<noteq> MEM_SIZE_ALIGNED c);
                  let nxt = mem_next m2;
                  let h = (if lfree h = mem_next m then h\<lparr>lfree := ptr2\<rparr> else h);
                  let h = put_struct ptr2 \<lparr>mem_next = nxt, mem_prev = ptr, mem_used = 0\<rparr> h;
                  h \<leftarrow> set_next ptr ptr2 h;
                  h \<leftarrow> (if nxt \<noteq> MEM_SIZE_ALIGNED c then set_prev nxt ptr2 h else Some h);
                  Some (rmem, h)
                }
              else if newsize + SIZEOF_STRUCT_MEM c + MIN_SIZE_ALIGNED c \<le> sz then
                do {
                  lwip_assert (mem_next m \<noteq> MEM_SIZE_ALIGNED c);
                  let h = (if ptr2 < lfree h then h\<lparr>lfree := ptr2\<rparr> else h);
                  let h = put_struct ptr2 \<lparr>mem_next = mem_next m, mem_prev = ptr, mem_used = 0\<rparr> h;
                  h \<leftarrow> set_next ptr ptr2 h;
                  h \<leftarrow> (if mem_next m \<noteq> MEM_SIZE_ALIGNED c then set_prev (mem_next m) ptr2 h else Some h);
                  Some (rmem, h)
                }
              else Some (rmem, h)
            }
        })"

text \<open>The scan for a free block that is large enough; the inner \<^term>\<open>None\<close> is the end of the loop.\<close>

partial_function (option) mem_scan :: "mem_cfg \<Rightarrow> mem_heap \<Rightarrow> nat \<Rightarrow> nat \<Rightarrow> nat option option" where
  "mem_scan c h sz ptr =
     (if ptr < size_sub (MEM_SIZE_ALIGNED c) sz then
        do {
          m \<leftarrow> structs h ptr;
          if mem_used m = 0 \<and> size_sub (mem_next m) (ptr + SIZEOF_STRUCT_MEM c) \<ge> sz
          then Some (Some ptr)
          else mem_scan c h sz (mem_next m)
        }
      else Some None)"

partial_function (option) next_free :: "mem_cfg \<Rightarrow> mem_heap \<Rightarrow> nat \<Rightarrow> nat option" where
  "next_free c h cur =
     do {
       m \<leftarrow> structs h cur;
       if mem_used m \<noteq> 0 \<and> cur \<noteq> MEM_SIZE_ALIGNED c then next_free c h (mem_next m) else Some cur
     }"

definition take_block :: "mem_cfg \<Rightarrow> nat \<Rightarrow> nat \<Rightarrow> mem_heap \<Rightarrow> mem_heap option" where
  "take_block c sz ptr h =
     do {
       m \<leftarrow> structs h ptr;
       if size_sub (mem_next m) (ptr + SIZEOF_STRUCT_MEM c) \<ge> sz + SIZEOF_STRUCT_MEM c + MIN_SIZE_ALIGNED c then
         do {
           let ptr2 = mem_size_of c (ptr + SIZEOF_STRUCT_MEM c + sz);
           lwip_assert (ptr2 \<noteq> MEM_SIZE_ALIGNED c);
           let h = put_struct ptr2 \<lparr>mem_next = mem_next m, mem_prev = ptr, mem_used = 0\<rparr> h;
           h \<leftarrow> set_next ptr ptr2 h;
           h \<leftarrow> set_used ptr 1 h;
           if mem_next m \<noteq> MEM_SIZE_ALIGNED c then set_prev (mem_next m) ptr2 h else Some h
         }
       else set_used ptr 1 h
     }"

definition adjust_lfree :: "mem_cfg \<Rightarrow> nat \<Rightarrow> mem_heap \<Rightarrow> mem_heap option" where
  "adjust_lfree c mem h =
     (if mem = lfree h then
        do {
          cur \<leftarrow> next_free c h (lfree h);
          m \<leftarrow> structs h cur;
          lwip_assert (cur = MEM_SIZE_ALIGNED c \<or> mem_used m = 0);
          Some (h\<lparr>lfree := cur\<rparr>)
        }
      else Some h)"

text \<open>\<^verbatim>\<open>mem_malloc\<close>: the address of the block, 0 for \<^verbatim>\<open>NULL\<close>.\<close>

definition mem_malloc :: "mem_cfg \<Rightarrow> nat \<Rightarrow> mem_heap \<Rightarrow> (addr \<times> mem_heap) option" where
  "mem_malloc c size_in h =
     (if size_in = 0 then Some (0, h)
      else
        let sz = mem_align_request c size_in in
        if sz > MEM_SIZE_ALIGNED c \<or> sz < size_in then Some (0, h)
        else
          do {
            found \<leftarrow> mem_scan c h sz (lfree h);
            case found of
              None \<Rightarrow> Some (0, h)
            | Some ptr \<Rightarrow>
                do {
                  h \<leftarrow> take_block c sz ptr h;
                  h \<leftarrow> adjust_lfree c ptr h;
                  lwip_assert (ptr + SIZEOF_STRUCT_MEM c + sz \<le> MEM_SIZE_ALIGNED c);
                  lwip_assert ((ram c + ptr + SIZEOF_STRUCT_MEM c) mod MEM_ALIGNMENT c = 0);
                  lwip_assert ((ram c + ptr) AND (MEM_ALIGNMENT c - 1) = 0);
                  Some (ram c + ptr + SIZEOF_STRUCT_MEM c, h)
                }
          })"

text \<open>\<^verbatim>\<open>mem_calloc\<close> also clears the block, in the byte memory.\<close>

definition mem_calloc ::
  "mem_cfg \<Rightarrow> nat \<Rightarrow> nat \<Rightarrow> mem_heap \<times> byte_mem \<Rightarrow> (addr \<times> mem_heap \<times> byte_mem) option" where
  "mem_calloc c count sz hm =
     (let alloc_size = count * sz mod 2 ^ 64 in
      if mem_size_of c alloc_size \<noteq> alloc_size then Some (0, hm)
      else
        do {
          (p, h) \<leftarrow> mem_malloc c (mem_size_of c alloc_size) (fst hm);
          if p \<noteq> 0 then
            do { bm \<leftarrow> store_bytes (snd hm) p (replicate alloc_size 0); Some (p, h, bm) }
          else Some (p, h, snd hm)
        })"

section \<open>The sanity check of the source\<close>

partial_function (option) mem_sanity_loop :: "mem_cfg \<Rightarrow> mem_heap \<Rightarrow> nat \<Rightarrow> nat \<Rightarrow> nat option" where
  "mem_sanity_loop c h last_used mem =
     (if mem > 0 \<and> mem < MEM_SIZE_ALIGNED c then
        do {
          lwip_assert (LWIP_MEM_ALIGN (MEM_ALIGNMENT c) (ram c + mem) = ram c + mem);
          m \<leftarrow> structs h mem;
          lwip_assert (mem_prev m \<le> MEM_SIZE_ALIGNED c);
          lwip_assert (mem_next m \<le> MEM_SIZE_ALIGNED c);
          lwip_assert (LWIP_MEM_ALIGN (MEM_ALIGNMENT c) (of_bool (mem_prev m = mem_prev m)) \<noteq> 0);
          lwip_assert (LWIP_MEM_ALIGN (MEM_ALIGNMENT c) (of_bool (mem_next m = mem_next m)) \<noteq> 0);
          lwip_assert (if last_used = 0 then mem_used m = 1 else mem_used m = 0 \<or> mem_used m = 1);
          valid \<leftarrow> mem_link_valid c mem h;
          lwip_assert valid;
          mem_sanity_loop c h (mem_used m) (mem_next m)
        }
      else Some mem)"

definition mem_sanity :: "mem_cfg \<Rightarrow> mem_heap \<Rightarrow> unit option" where
  "mem_sanity c h =
     do {
       m \<leftarrow> structs h 0;
       lwip_assert (mem_used m = 0 \<or> mem_used m = 1);
       lwip_assert (mem_prev m = 0);
       lwip_assert (mem_next m \<le> MEM_SIZE_ALIGNED c);
       lwip_assert (LWIP_MEM_ALIGN (MEM_ALIGNMENT c) (of_bool (mem_next m = mem_next m)) \<noteq> 0);
       mem \<leftarrow> mem_sanity_loop c h (mem_used m) (mem_next m);
       lwip_assert (mem = MEM_SIZE_ALIGNED c);
       e \<leftarrow> structs h mem;
       lwip_assert (mem_used e = 1);
       lwip_assert (mem_prev e = MEM_SIZE_ALIGNED c);
       lwip_assert (mem_next e = MEM_SIZE_ALIGNED c)
     }"

section \<open>Alignment\<close>

lemma unat_and_not_mask: "unat (w AND NOT (mask k)) = unat w div 2 ^ k * 2 ^ k" for w :: "'a::len word"
proof -
  have "w AND NOT (mask k) = push_bit k (drop_bit k w)"
    by (rule bit_word_eqI) (auto simp: bit_simps)
  moreover have "unat w div 2 ^ k * 2 ^ k < 2 ^ LENGTH('a)"
    by (rule le_less_trans [OF div_times_less_eq_dividend unsigned_less])
  ultimately show ?thesis by (simp add: unat_push_bit unat_drop_bit)
qed

lemma align_word:
  assumes "A = 2 ^ k" "x + A < 2 ^ LENGTH('a)"
  shows "unat ((of_nat x + of_nat A - 1) AND NOT (of_nat A - 1) :: 'a::len word) = (x + A - 1) div A * A"
proof -
  have A: "(of_nat A - 1 :: 'a word) = mask k" by (simp add: assms(1) mask_eq_exp_minus_1)
  have "0 < A" using assms(1) by simp
  then have "(of_nat x + of_nat A - 1 :: 'a word) = of_nat (x + A - 1)" by (simp add: of_nat_diff)
  moreover have "unat (of_nat (x + A - 1) :: 'a word) = x + A - 1" using assms(2) by (simp add: unat_of_nat)
  ultimately show ?thesis
    unfolding A unat_and_not_mask by (simp add: assms(1))
qed

lemma and_alignment: "A = 2 ^ k \<Longrightarrow> x AND (A - 1) = x mod A" for x A :: nat
proof -
  assume "A = 2 ^ k"
  then have "A - 1 = mask k" by (simp add: mask_eq_exp_minus_1)
  then show ?thesis unfolding \<open>A = 2 ^ k\<close> by (simp only: take_bit_eq_mask [symmetric] take_bit_eq_mod)
qed

lemma align_up: "0 < A \<Longrightarrow> A dvd (x + A - 1) div A * A \<and> x \<le> (x + A - 1) div A * A \<and> (x + A - 1) div A * A < x + A" for A x :: nat
proof -
  assume "0 < A"
  let ?y = "x + A - 1"
  have "?y div A * A + ?y mod A = ?y" by simp
  moreover have "?y mod A < A" using \<open>0 < A\<close> by simp
  ultimately have "x \<le> ?y div A * A" "?y div A * A < x + A" using \<open>0 < A\<close> by linarith+
  then show ?thesis by simp
qed

lemma align_up_id: "0 < A \<Longrightarrow> A dvd x \<Longrightarrow> (x + A - 1) div A * A = x" for A x :: nat
proof -
  assume "0 < A" "A dvd x"
  then obtain q where "x = A * q" by (elim dvdE)
  then have "x + A - 1 = (A - 1) + A * q" using \<open>0 < A\<close> by simp
  then have "(x + A - 1) div A = q" using \<open>0 < A\<close> by (simp only: div_mult_self2) simp
  then show ?thesis using \<open>x = A * q\<close> by simp
qed

definition mem_cfg_ok :: "mem_cfg \<Rightarrow> bool" where
  "mem_cfg_ok c \<longleftrightarrow>
     (\<exists>k\<in>{0..10}. MEM_ALIGNMENT c = 2 ^ k) \<and>
     0 < sizeof_struct_mem c \<and> sizeof_struct_mem c < 2 ^ 16 \<and> 0 < MIN_SIZE c \<and> MIN_SIZE c < 2 ^ 16 \<and>
     MEM_SIZE c + MEM_ALIGNMENT c < mem_size_mod c \<and>
     SIZEOF_STRUCT_MEM c + MIN_SIZE_ALIGNED c \<le> MEM_SIZE_ALIGNED c \<and>
     0 < LWIP_RAM_HEAP_POINTER c \<and> LWIP_RAM_HEAP_POINTER c + 2 ^ 33 < 2 ^ 64"


lemma mem_cfg_alignment:
  assumes "mem_cfg_ok c"
  obtains k where "MEM_ALIGNMENT c = 2 ^ k" "0 < MEM_ALIGNMENT c" "MEM_ALIGNMENT c \<le> 1024"
proof -
  from assms obtain k where "k \<le> 10" "MEM_ALIGNMENT c = 2 ^ k" by (auto simp: mem_cfg_ok_def)
  moreover from this have "(2 :: nat) ^ k \<le> 2 ^ 10" by (intro power_increasing) auto
  ultimately show thesis by (intro that) auto
qed

lemma mem_size_mod_le: "mem_size_mod c \<le> 2 ^ 32"
  by (simp add: mem_size_mod_def)

lemma ALIGN_SIZE:
  assumes "mem_cfg_ok c" "x + MEM_ALIGNMENT c < 2 ^ 32"
  shows "LWIP_MEM_ALIGN_SIZE (MEM_ALIGNMENT c) x = (x + MEM_ALIGNMENT c - 1) div MEM_ALIGNMENT c * MEM_ALIGNMENT c"
proof -
  obtain k where "MEM_ALIGNMENT c = 2 ^ k" using mem_cfg_alignment [OF assms(1)] by metis
  then show ?thesis unfolding LWIP_MEM_ALIGN_SIZE_def by (rule align_word) (use assms(2) in simp)
qed

lemma ALIGN_SIZE_bounds:
  assumes "mem_cfg_ok c" "x + MEM_ALIGNMENT c < 2 ^ 32"
  shows "MEM_ALIGNMENT c dvd LWIP_MEM_ALIGN_SIZE (MEM_ALIGNMENT c) x"
    "x \<le> LWIP_MEM_ALIGN_SIZE (MEM_ALIGNMENT c) x"
    "LWIP_MEM_ALIGN_SIZE (MEM_ALIGNMENT c) x < x + MEM_ALIGNMENT c"
  unfolding ALIGN_SIZE [OF assms] using align_up mem_cfg_alignment [OF assms(1)] by metis+

lemma MEM_ALIGN:
  assumes "mem_cfg_ok c" "a + MEM_ALIGNMENT c < 2 ^ 64"
  shows "LWIP_MEM_ALIGN (MEM_ALIGNMENT c) a = (a + MEM_ALIGNMENT c - 1) div MEM_ALIGNMENT c * MEM_ALIGNMENT c"
proof -
  obtain k where "MEM_ALIGNMENT c = 2 ^ k" using mem_cfg_alignment [OF assms(1)] by metis
  then show ?thesis unfolding LWIP_MEM_ALIGN_def by (rule align_word) (use assms(2) in simp)
qed

lemma mem_cfg_facts:
  assumes "mem_cfg_ok c"
  shows "0 < MEM_ALIGNMENT c" "MEM_ALIGNMENT c dvd SIZEOF_STRUCT_MEM c" "MEM_ALIGNMENT c dvd MIN_SIZE_ALIGNED c"
    "MEM_ALIGNMENT c dvd MEM_SIZE_ALIGNED c" "MEM_ALIGNMENT c dvd ram c" "0 < SIZEOF_STRUCT_MEM c"
    "SIZEOF_STRUCT_MEM c + MIN_SIZE_ALIGNED c \<le> MEM_SIZE_ALIGNED c" "MEM_SIZE_ALIGNED c < mem_size_mod c"
    "0 < ram c" "ram c + MEM_SIZE_ALIGNED c + MEM_ALIGNMENT c < 2 ^ 64" "0 < MIN_SIZE_ALIGNED c"
proof -
  obtain k where A: "MEM_ALIGNMENT c = 2 ^ k" "0 < MEM_ALIGNMENT c" "MEM_ALIGNMENT c \<le> 1024"
    using mem_cfg_alignment [OF assms] by metis
  have m: "mem_size_mod c \<le> 2 ^ 32" by (rule mem_size_mod_le)
  have c: "0 < sizeof_struct_mem c" "sizeof_struct_mem c < 2 ^ 16" "0 < MIN_SIZE c" "MIN_SIZE c < 2 ^ 16"
    "MEM_SIZE c + MEM_ALIGNMENT c < mem_size_mod c" "0 < LWIP_RAM_HEAP_POINTER c"
    "LWIP_RAM_HEAP_POINTER c + 2 ^ 33 < 2 ^ 64"
    using assms by (auto simp: mem_cfg_ok_def)
  have small: "sizeof_struct_mem c + MEM_ALIGNMENT c < 2 ^ 32" "MIN_SIZE c + MEM_ALIGNMENT c < 2 ^ 32"
    "MEM_SIZE c + MEM_ALIGNMENT c < 2 ^ 32" "LWIP_RAM_HEAP_POINTER c + MEM_ALIGNMENT c < 2 ^ 64"
    using A c m by simp_all
  note b = ALIGN_SIZE_bounds [OF assms small(1)] ALIGN_SIZE_bounds [OF assms small(2)]
    ALIGN_SIZE_bounds [OF assms small(3)]
  note r = align_up [OF A(2), of "LWIP_RAM_HEAP_POINTER c"]
  show "0 < MEM_ALIGNMENT c" by (rule A(2))
  show "MEM_ALIGNMENT c dvd SIZEOF_STRUCT_MEM c" "MEM_ALIGNMENT c dvd MIN_SIZE_ALIGNED c"
    "MEM_ALIGNMENT c dvd MEM_SIZE_ALIGNED c" "0 < SIZEOF_STRUCT_MEM c" "MEM_SIZE_ALIGNED c < mem_size_mod c"
    "0 < MIN_SIZE_ALIGNED c"
    using b c unfolding SIZEOF_STRUCT_MEM_def MIN_SIZE_ALIGNED_def MEM_SIZE_ALIGNED_def by auto
  show "SIZEOF_STRUCT_MEM c + MIN_SIZE_ALIGNED c \<le> MEM_SIZE_ALIGNED c"
    using assms by (simp add: mem_cfg_ok_def)
  show "MEM_ALIGNMENT c dvd ram c" using r unfolding ram_def MEM_ALIGN [OF assms small(4)] by simp
  show "0 < ram c" using r c unfolding ram_def MEM_ALIGN [OF assms small(4)] by linarith
  show "ram c + MEM_SIZE_ALIGNED c + MEM_ALIGNMENT c < 2 ^ 64"
    using r c A b m unfolding ram_def MEM_ALIGN [OF assms small(4)] MEM_SIZE_ALIGNED_def by auto
qed

section \<open>The abstract heap: a list of blocks\<close>

text \<open>
  The heap in its abstract form is the list of its blocks in address order, each with the offset of
  its struct and whether it is used.  A block extends to the start of the next one.
\<close>

type_synonym blocks = "(nat \<times> bool) list"

fun start :: "nat \<Rightarrow> blocks \<Rightarrow> nat" where
  "start e [] = e"
| "start e ((o1, u) # bs) = o1"

fun last_off :: "nat \<Rightarrow> blocks \<Rightarrow> nat" where
  "last_off p [] = p"
| "last_off p ((o1, u) # bs) = last_off o1 bs"

text \<open>The structs that represent the blocks, up to the offset \<open>e\<close>, behind a block at \<open>p\<close>.\<close>

fun seg :: "nat \<Rightarrow> (nat \<rightharpoonup> mem_struct) \<Rightarrow> nat \<Rightarrow> blocks \<Rightarrow> bool" where
  "seg e m p [] \<longleftrightarrow> True"
| "seg e m p ((o1, u) # bs) \<longleftrightarrow>
     m o1 = Some \<lparr>mem_next = start e bs, mem_prev = p, mem_used = of_bool u\<rparr> \<and> seg e m o1 bs"

text \<open>Every block is aligned and has room for its struct and the minimal data size.\<close>

fun gaps_ok :: "mem_cfg \<Rightarrow> nat \<Rightarrow> blocks \<Rightarrow> bool" where
  "gaps_ok c e [] \<longleftrightarrow> True"
| "gaps_ok c e ((o1, u) # bs) \<longleftrightarrow>
     MEM_ALIGNMENT c dvd o1 \<and> o1 + SIZEOF_STRUCT_MEM c + MIN_SIZE_ALIGNED c \<le> start e bs \<and> gaps_ok c e bs"

text \<open>No two free blocks are neighbours.\<close>

fun coalesced :: "blocks \<Rightarrow> bool" where
  "coalesced ((o1, u1) # (o2, u2) # bs) \<longleftrightarrow> (u1 \<or> u2) \<and> coalesced ((o2, u2) # bs)"
| "coalesced _ \<longleftrightarrow> True"

fun first_free :: "nat \<Rightarrow> blocks \<Rightarrow> nat" where
  "first_free e [] = e"
| "first_free e ((o1, u) # bs) = (if u then first_free e bs else o1)"

definition end_struct :: "mem_cfg \<Rightarrow> mem_struct" where
  "end_struct c = \<lparr>mem_next = MEM_SIZE_ALIGNED c, mem_prev = MEM_SIZE_ALIGNED c, mem_used = 1\<rparr>"

text \<open>A heap state represents a list of blocks; in the states between calls the list is coalesced.\<close>

definition heap_rep :: "mem_cfg \<Rightarrow> mem_heap \<Rightarrow> blocks \<Rightarrow> bool" where
  "heap_rep c h bs \<longleftrightarrow>
     start (MEM_SIZE_ALIGNED c) bs = 0 \<and> gaps_ok c (MEM_SIZE_ALIGNED c) bs \<and>
     seg (MEM_SIZE_ALIGNED c) (structs h) 0 bs \<and> structs h (MEM_SIZE_ALIGNED c) = Some (end_struct c) \<and>
     lfree h = first_free (MEM_SIZE_ALIGNED c) bs"

definition heap_ok :: "mem_cfg \<Rightarrow> mem_heap \<Rightarrow> blocks \<Rightarrow> bool" where
  "heap_ok c h bs \<longleftrightarrow> heap_rep c h bs \<and> coalesced bs"

text \<open>The data areas of the used blocks, as address and size.\<close>

fun allocs :: "mem_cfg \<Rightarrow> nat \<Rightarrow> blocks \<Rightarrow> (addr \<times> nat) set" where
  "allocs c e [] = {}"
| "allocs c e ((o1, u) # bs) =
     (if u then {(ram c + o1 + SIZEOF_STRUCT_MEM c, start e bs - (o1 + SIZEOF_STRUCT_MEM c))} else {}) \<union>
     allocs c e bs"

section \<open>Lemmas on block lists\<close>

lemma blocks_induct [case_names Nil Cons]:
  "P [] \<Longrightarrow> (\<And>o1 u bs. P bs \<Longrightarrow> P ((o1, u) # bs)) \<Longrightarrow> P bs" for bs :: blocks
  by (induction bs) auto

lemma start_append [simp]: "start e (xs @ ys) = start (start e ys) xs"
  by (cases xs) auto

lemma last_off_append [simp]: "last_off p (xs @ ys) = last_off (last_off p xs) ys"
  by (induction p xs rule: last_off.induct) auto

lemma seg_append [simp]: "seg e m p (xs @ ys) \<longleftrightarrow> seg (start e ys) m p xs \<and> seg e m (last_off p xs) ys"
  by (induction p xs rule: last_off.induct) auto

lemma gaps_append [simp]: "gaps_ok c e (xs @ ys) \<longleftrightarrow> gaps_ok c (start e ys) xs \<and> gaps_ok c e ys"
  by (induction xs rule: blocks_induct) auto

lemma allocs_append [simp]: "allocs c e (xs @ ys) = allocs c (start e ys) xs \<union> allocs c e ys"
  by (induction xs rule: blocks_induct) auto

lemma first_free_append [simp]: "first_free e (xs @ ys) = first_free (first_free e ys) xs"
  by (induction xs rule: blocks_induct) auto

lemma seg_upd [simp]: "x \<notin> fst ` set bs \<Longrightarrow> seg e (m(x \<mapsto> s)) p bs = seg e m p bs"
  by (induction bs arbitrary: p rule: blocks_induct) auto

lemma gaps_start_le: "gaps_ok c e bs \<Longrightarrow> start e bs \<le> e"
  by (induction bs rule: blocks_induct) auto

lemma gaps_lower: "gaps_ok c e bs \<Longrightarrow> x \<in> fst ` set bs \<Longrightarrow> start e bs \<le> x"
  by (induction bs rule: blocks_induct) force+

lemma gaps_upper:
  "gaps_ok c e bs \<Longrightarrow> x \<in> fst ` set bs \<Longrightarrow> x + SIZEOF_STRUCT_MEM c + MIN_SIZE_ALIGNED c \<le> e"
proof (induction bs rule: blocks_induct)
  case (Cons o1 u bs)
  then show ?case using gaps_start_le [of c e bs] by auto
qed simp

lemma gaps_aligned: "gaps_ok c e bs \<Longrightarrow> x \<in> fst ` set bs \<Longrightarrow> MEM_ALIGNMENT c dvd x"
  by (induction bs rule: blocks_induct) auto

text \<open>The offsets around a block, for the frame conditions of struct updates.\<close>

lemma gaps_frame:
  assumes "mem_cfg_ok c" "gaps_ok c e (xs @ (o1, u) # ys)"
  shows "x \<in> fst ` set xs \<Longrightarrow> x + SIZEOF_STRUCT_MEM c + MIN_SIZE_ALIGNED c \<le> o1"
    and "x \<in> fst ` set ys \<Longrightarrow> o1 + SIZEOF_STRUCT_MEM c + MIN_SIZE_ALIGNED c \<le> x"
    and "o1 + SIZEOF_STRUCT_MEM c + MIN_SIZE_ALIGNED c \<le> start e ys" "start e ys \<le> e"
  using assms gaps_upper [of c o1 xs x] gaps_lower [of c e ys x] gaps_start_le [of c e ys] by auto

lemma last_off_in: "xs \<noteq> [] \<Longrightarrow> last_off p xs \<in> fst ` set xs"
proof (induction xs arbitrary: p rule: blocks_induct)
  case (Cons o1 u bs)
  then show ?case by (cases "bs = []") auto
qed simp

lemma seg_last:
  "seg e m p xs \<Longrightarrow> xs \<noteq> [] \<Longrightarrow>
   \<exists>q u. m (last_off p xs) = Some \<lparr>mem_next = e, mem_prev = q, mem_used = of_bool u\<rparr> \<and> snd (last xs) = u"
  by (induction xs rule: rev_induct) auto

lemma size_sub_id: "b \<le> a \<Longrightarrow> a < 2 ^ 64 \<Longrightarrow> size_sub a b = a - b"
  unfolding size_sub_def by (rule sub_wrap_id)

lemma mem_size_of_id: "x < mem_size_mod c \<Longrightarrow> mem_size_of c x = x"
  by (simp add: mem_size_of_def)

lemma mem_size_less_64: "x < mem_size_mod c \<Longrightarrow> x < 2 ^ 64"
  using mem_size_mod_le [of c] by simp

lemma mem_init_ok:
  assumes "mem_cfg_ok c"
  shows "\<exists>h. mem_init c = Some h \<and> heap_ok c h [(0, False)]"
proof -
  obtain k where A: "MEM_ALIGNMENT c = 2 ^ k" using mem_cfg_alignment [OF assms] by metis
  have "SIZEOF_STRUCT_MEM c AND (MEM_ALIGNMENT c - 1) = 0"
    using mem_cfg_facts(2) [OF assms] unfolding and_alignment [OF A] by simp
  then show ?thesis
    using mem_cfg_facts [OF assms]
    by (auto simp: mem_init_def heap_ok_def heap_rep_def end_struct_def)
qed

section \<open>Allocation\<close>

text \<open>The first free block with room for \<open>sz\<close> bytes of data.\<close>

fun first_fit :: "mem_cfg \<Rightarrow> nat \<Rightarrow> nat \<Rightarrow> blocks \<Rightarrow> nat option" where
  "first_fit c e sz [] = None"
| "first_fit c e sz ((o1, u) # bs) =
     (if \<not> u \<and> o1 + SIZEOF_STRUCT_MEM c + sz \<le> start e bs then Some o1 else first_fit c e sz bs)"

lemma first_fit_append:
  "first_fit c e sz (xs @ ys) =
     (case first_fit c (start e ys) sz xs of Some x \<Rightarrow> Some x | None \<Rightarrow> first_fit c e sz ys)"
  by (induction xs rule: blocks_induct) auto

lemma first_fit_used: "\<forall>b\<in>set xs. snd b \<Longrightarrow> first_fit c e sz xs = None"
  by (induction xs rule: blocks_induct) auto

lemma first_free_used: "\<forall>b\<in>set xs. snd b \<Longrightarrow> first_free e xs = e"
  by (induction xs rule: blocks_induct) auto

lemma first_fit_None_high:
  assumes "mem_cfg_ok c" "gaps_ok c e bs" "e \<le> start e bs + sz"
  shows "first_fit c e sz bs = None"
  using assms(2,3)
proof (induction bs rule: blocks_induct)
  case (Cons o1 u bs)
  then have "start e bs \<le> e" "o1 < start e bs" using gaps_start_le mem_cfg_facts(6) [OF assms(1)] by auto
  with Cons mem_cfg_facts(6) [OF assms(1)] show ?case by auto
qed simp

lemma mem_scan_fit:
  assumes "mem_cfg_ok c" "sz \<le> MEM_SIZE_ALIGNED c"
    and "seg (MEM_SIZE_ALIGNED c) (structs h) p ys" "gaps_ok c (MEM_SIZE_ALIGNED c) ys"
  shows "mem_scan c h sz (start (MEM_SIZE_ALIGNED c) ys) = Some (first_fit c (MEM_SIZE_ALIGNED c) sz ys)"
  using assms(3,4)
proof (induction ys arbitrary: p rule: blocks_induct)
  case Nil
  have "size_sub (MEM_SIZE_ALIGNED c) sz = MEM_SIZE_ALIGNED c - sz"
    using mem_size_less_64 mem_cfg_facts(8) [OF assms(1)] assms(2) by (intro size_sub_id)
  moreover have "\<not> MEM_SIZE_ALIGNED c < MEM_SIZE_ALIGNED c - sz" by simp
  ultimately show ?case by (subst mem_scan.simps) (simp only: start.simps first_fit.simps if_False)
next
  case (Cons o1 u ys)
  let ?E = "MEM_SIZE_ALIGNED c" and ?S = "SIZEOF_STRUCT_MEM c"
  have E64: "?E < 2 ^ 64" using mem_size_less_64 mem_cfg_facts(8) [OF assms(1)] by blast
  then have sub: "size_sub ?E sz = ?E - sz" using assms(2) by (intro size_sub_id)
  have le: "o1 + ?S \<le> start ?E ys" "start ?E ys \<le> ?E" using Cons.prems(2) gaps_start_le [of c ?E ys] by auto
  have sub2: "size_sub (start ?E ys) (o1 + ?S) = start ?E ys - (o1 + ?S)"
    by (rule size_sub_id [OF le(1)]) (use le(2) E64 in linarith)
  have fit: "sz \<le> start ?E ys - (o1 + ?S) \<longleftrightarrow> o1 + ?S + sz \<le> start ?E ys" using le by linarith
  show ?case
  proof (cases "o1 < ?E - sz")
    case True
    then show ?thesis using Cons by (subst mem_scan.simps) (auto simp: sub sub2 fit)
  next
    case False
    then have "first_fit c ?E sz ((o1, u) # ys) = None"
      using Cons.prems(2) by (intro first_fit_None_high [OF assms(1)]) auto
    with False show ?thesis by (subst mem_scan.simps) (simp add: sub)
  qed
qed

lemma next_free_first:
  assumes "seg (MEM_SIZE_ALIGNED c) (structs h) p ys" "gaps_ok c (MEM_SIZE_ALIGNED c) ys"
    "structs h (MEM_SIZE_ALIGNED c) = Some (end_struct c)" "mem_cfg_ok c"
  shows "next_free c h (start (MEM_SIZE_ALIGNED c) ys) = Some (first_free (MEM_SIZE_ALIGNED c) ys)"
  using assms(1,2)
proof (induction ys arbitrary: p rule: blocks_induct)
  case Nil
  show ?case by (subst next_free.simps) (simp add: assms(3) end_struct_def)
next
  case (Cons o1 u ys)
  have "o1 < MEM_SIZE_ALIGNED c"
    using Cons.prems(2) gaps_start_le [of c _ ys] mem_cfg_facts(6) [OF assms(4)] by fastforce
  with Cons show ?case by (subst next_free.simps) auto
qed

lemma used_prefix:
  obtains xs ys where "bs = xs @ ys" "\<forall>b\<in>set xs. snd b" "start e ys = first_free e bs"
proof -
  let ?xs = "takeWhile snd bs" and ?ys = "dropWhile snd bs"
  have "start e ?ys = first_free e bs" by (induction bs rule: blocks_induct) auto
  moreover have "\<forall>b\<in>set ?xs. snd b" by (auto dest: set_takeWhileD)
  ultimately show thesis using that [of ?xs ?ys] by simp
qed

lemma mem_scan_lfree:
  assumes "mem_cfg_ok c" "sz \<le> MEM_SIZE_ALIGNED c" "heap_rep c h bs"
  shows "mem_scan c h sz (lfree h) = Some (first_fit c (MEM_SIZE_ALIGNED c) sz bs)"
proof -
  let ?E = "MEM_SIZE_ALIGNED c"
  obtain xs ys where bs: "bs = xs @ ys" "\<forall>b\<in>set xs. snd b" "start ?E ys = first_free ?E bs"
    by (rule used_prefix)
  have "mem_scan c h sz (start ?E ys) = Some (first_fit c ?E sz ys)"
    using assms(3) by (intro mem_scan_fit [OF assms(1,2)]) (auto simp: heap_rep_def bs(1))
  moreover have "first_fit c ?E sz bs = first_fit c ?E sz ys"
    by (simp add: bs(1) first_fit_append first_fit_used [OF bs(2)])
  ultimately show ?thesis using assms(3) bs(3) by (simp add: heap_rep_def)
qed

lemma first_fit_Some:
  assumes "first_fit c e sz bs = Some o1"
  obtains xs ys where "bs = xs @ (o1, False) # ys" "o1 + SIZEOF_STRUCT_MEM c + sz \<le> start e ys"
  using assms
proof (induction bs arbitrary: thesis rule: blocks_induct)
  case (Cons o2 u bs)
  show ?case
  proof (cases "\<not> u \<and> o2 + SIZEOF_STRUCT_MEM c + sz \<le> start e bs")
    case True
    then show ?thesis using Cons.prems(1) [of "[]" bs] Cons.prems(2) by auto
  next
    case False
    then have "first_fit c e sz bs = Some o1" using Cons.prems(2) by auto
    then obtain xs ys where "bs = xs @ (o1, False) # ys" "o1 + SIZEOF_STRUCT_MEM c + sz \<le> start e ys"
      using Cons.IH by blast
    then show ?thesis using Cons.prems(1) [of "(o2, u) # xs" ys] by auto
  qed
qed simp

lemma seg_cong: "(\<And>x. x \<in> fst ` set bs \<Longrightarrow> m' x = m x) \<Longrightarrow> seg e m' p bs = seg e m p bs"
  by (induction bs arbitrary: p rule: blocks_induct) auto

lemma gaps_start_eq:
  assumes "mem_cfg_ok c" "gaps_ok c e ys" shows "start e ys = e \<longleftrightarrow> ys = []"
proof (cases ys)
  case (Cons b bs)
  then have "start e ys \<in> fst ` set ys" by (cases b) auto
  then show ?thesis using gaps_upper [OF assms(2)] mem_cfg_facts(6) [OF assms(1)] Cons by fastforce
qed simp

text \<open>Updating the back link of the block behind a change.\<close>

lemma relink_prev:
  assumes "mem_cfg_ok c" "gaps_ok c (MEM_SIZE_ALIGNED c) ys" "seg (MEM_SIZE_ALIGNED c) (structs h) p ys"
  shows "\<exists>h'. (if start (MEM_SIZE_ALIGNED c) ys \<noteq> MEM_SIZE_ALIGNED c
              then set_prev (start (MEM_SIZE_ALIGNED c) ys) q h else Some h) = Some h' \<and>
    seg (MEM_SIZE_ALIGNED c) (structs h') q ys \<and> lfree h' = lfree h \<and>
    (\<forall>x. x \<notin> fst ` set ys \<longrightarrow> structs h' x = structs h x)"
proof (cases ys)
  case (Cons b bs)
  obtain o2 u where b: "b = (o2, u)" by (cases b)
  have "o2 \<notin> fst ` set bs"
  proof
    assume "o2 \<in> fst ` set bs"
    then show False using assms(2) gaps_lower [of c _ bs o2] mem_cfg_facts(6) [OF assms(1)]
      by (fastforce simp: Cons b)
  qed
  then show ?thesis
    using assms gaps_start_eq [OF assms(1,2)] by (auto simp: Cons b set_prev_def put_struct_def)
qed (use assms in auto)

definition split_block :: "mem_cfg \<Rightarrow> nat \<Rightarrow> nat \<Rightarrow> nat \<Rightarrow> blocks \<Rightarrow> blocks" where
  "split_block c e sz o1 ys =
     (if o1 + SIZEOF_STRUCT_MEM c + sz + SIZEOF_STRUCT_MEM c + MIN_SIZE_ALIGNED c \<le> start e ys
      then (o1, True) # (o1 + SIZEOF_STRUCT_MEM c + sz, False) # ys else (o1, True) # ys)"

lemma take_block_split:
  assumes c: "mem_cfg_ok c" and sz: "MEM_ALIGNMENT c dvd sz" "MIN_SIZE_ALIGNED c \<le> sz"
    and gaps: "gaps_ok c (MEM_SIZE_ALIGNED c) (xs @ (o1, False) # ys)"
    and seg: "seg (MEM_SIZE_ALIGNED c) (structs h) 0 (xs @ (o1, False) # ys)"
    and split: "o1 + SIZEOF_STRUCT_MEM c + sz + SIZEOF_STRUCT_MEM c + MIN_SIZE_ALIGNED c \<le> start (MEM_SIZE_ALIGNED c) ys"
  shows "\<exists>h'. take_block c sz o1 h = Some h' \<and>
    seg (MEM_SIZE_ALIGNED c) (structs h') 0 (xs @ (o1, True) # (o1 + SIZEOF_STRUCT_MEM c + sz, False) # ys) \<and>
    gaps_ok c (MEM_SIZE_ALIGNED c) (xs @ (o1, True) # (o1 + SIZEOF_STRUCT_MEM c + sz, False) # ys) \<and> lfree h' = lfree h \<and>
    structs h' (MEM_SIZE_ALIGNED c) = structs h (MEM_SIZE_ALIGNED c)"
proof -
  let ?E = "MEM_SIZE_ALIGNED c" and ?S = "SIZEOF_STRUCT_MEM c" and ?M = "MIN_SIZE_ALIGNED c"
  note f = mem_cfg_facts [OF c] and fr = gaps_frame [OF c gaps]
  have o1: "structs h o1 = Some \<lparr>mem_next = start ?E ys, mem_prev = last_off 0 xs, mem_used = 0\<rparr>"
    and segs: "seg o1 (structs h) 0 xs" "seg ?E (structs h) o1 ys" using seg by auto
  have "start ?E ys < 2 ^ 64" using fr(4) f(8) mem_size_less_64 [of ?E c] by linarith
  then have sub: "size_sub (start ?E ys) (o1 + ?S) = start ?E ys - (o1 + ?S)"
    using split by (intro size_sub_id) auto
  let ?p2 = "o1 + ?S + sz"
  have p2: "mem_size_of c ?p2 = ?p2" "?p2 \<noteq> ?E" "MEM_ALIGNMENT c dvd ?p2"
    using split fr(4) f sz gaps by (auto intro!: mem_size_of_id)
  have "gaps_ok c ?E ys" using gaps by simp
  then have nin: "?p2 \<notin> fst ` set xs" "?p2 \<notin> fst ` set ys"
    using fr(1) [of ?p2] gaps_lower [of c ?E ys ?p2] split f(6) by linarith+
  have nin1: "o1 \<notin> fst ` set xs" "o1 \<notin> fst ` set ys"
    using fr(1) [of o1] fr(2) [of o1] f(6) by linarith+
  define h1 where "h1 = put_struct ?p2 \<lparr>mem_next = start ?E ys, mem_prev = o1, mem_used = 0\<rparr> h"
  define h1' where "h1' = put_struct o1 \<lparr>mem_next = ?p2, mem_prev = last_off 0 xs, mem_used = 0\<rparr> h1"
  define h2 where "h2 = put_struct o1 \<lparr>mem_next = ?p2, mem_prev = last_off 0 xs, mem_used = 1\<rparr> h1'"
  have upd: "set_next o1 ?p2 h1 = Some h1'" "set_used o1 1 h1' = Some h2"
    using f(6) by (simp_all add: set_next_def set_used_def h1_def h1'_def h2_def put_struct_def o1)
  have h2: "structs h2 = (structs h)(?p2 \<mapsto> \<lparr>mem_next = start ?E ys, mem_prev = o1, mem_used = 0\<rparr>,
      o1 \<mapsto> \<lparr>mem_next = ?p2, mem_prev = last_off 0 xs, mem_used = 1\<rparr>)" "lfree h2 = lfree h"
    by (simp_all add: h1_def h1'_def h2_def put_struct_def)
  have seg2: "seg ?E (structs h2) o1 ys"
    using segs(2) nin nin1 by (simp add: h2)
  obtain h3 where h3: "(if start ?E ys \<noteq> ?E then set_prev (start ?E ys) ?p2 h2 else Some h2) = Some h3"
    "seg ?E (structs h3) ?p2 ys" "lfree h3 = lfree h2" "\<forall>x. x \<notin> fst ` set ys \<longrightarrow> structs h3 x = structs h2 x"
    using relink_prev [OF c _ seg2, of ?p2] gaps by auto
  have "sz + ?S + ?M \<le> start ?E ys - (o1 + ?S)" using split by linarith
  then have "take_block c sz o1 h = Some h3"
    using h3(1) p2(2) by (simp add: take_block_def o1 sub p2(1) h1_def [symmetric] upd del: One_nat_def split: if_splits)
  moreover have "structs h3 x = structs h x" if "x \<in> fst ` set xs" for x
  proof -
    have "x \<notin> fst ` set ys" "x \<noteq> o1" "x \<noteq> ?p2" using fr(1,2) [of x] that f(6) by linarith+
    then show ?thesis using h3(4) by (simp add: h2)
  qed
  then have "seg o1 (structs h3) 0 xs" using segs(1) seg_cong [of xs "structs h3" "structs h"] by simp
  moreover have "?E \<notin> fst ` set ys" using gaps_upper [OF \<open>gaps_ok c ?E ys\<close>, of ?E] f(6) by linarith
  then have "structs h3 o1 = structs h2 o1" "structs h3 ?p2 = structs h2 ?p2" "structs h3 ?E = structs h2 ?E"
    using h3(4) nin nin1 by blast+
  moreover have "o1 \<noteq> ?E" "?p2 \<noteq> o1" using fr(3,4) f(6) by linarith+
  moreover have "o1 + ?S + ?M \<le> ?p2" "?p2 + ?S + ?M \<le> start ?E ys" using sz(2) split by linarith+
  ultimately show ?thesis
    using h3(2,3) gaps p2(2,3) by (intro exI [of _ h3]) (simp add: h2)
qed

lemma take_block_whole:
  assumes c: "mem_cfg_ok c" and sz: "MEM_ALIGNMENT c dvd sz" "MIN_SIZE_ALIGNED c \<le> sz"
    and gaps: "gaps_ok c (MEM_SIZE_ALIGNED c) (xs @ (o1, False) # ys)"
    and seg: "seg (MEM_SIZE_ALIGNED c) (structs h) 0 (xs @ (o1, False) # ys)"
    and fit: "o1 + SIZEOF_STRUCT_MEM c + sz \<le> start (MEM_SIZE_ALIGNED c) ys"
    and whole: "\<not> o1 + SIZEOF_STRUCT_MEM c + sz + SIZEOF_STRUCT_MEM c + MIN_SIZE_ALIGNED c \<le> start (MEM_SIZE_ALIGNED c) ys"
  shows "\<exists>h'. take_block c sz o1 h = Some h' \<and>
    seg (MEM_SIZE_ALIGNED c) (structs h') 0 (xs @ (o1, True) # ys) \<and>
    gaps_ok c (MEM_SIZE_ALIGNED c) (xs @ (o1, True) # ys) \<and> lfree h' = lfree h \<and>
    structs h' (MEM_SIZE_ALIGNED c) = structs h (MEM_SIZE_ALIGNED c)"
proof -
  let ?E = "MEM_SIZE_ALIGNED c" and ?S = "SIZEOF_STRUCT_MEM c" and ?M = "MIN_SIZE_ALIGNED c"
  note f = mem_cfg_facts [OF c] and fr = gaps_frame [OF c gaps]
  have o1: "structs h o1 = Some \<lparr>mem_next = start ?E ys, mem_prev = last_off 0 xs, mem_used = 0\<rparr>"
    and segs: "seg o1 (structs h) 0 xs" "seg ?E (structs h) o1 ys" using seg by auto
  have "start ?E ys < 2 ^ 64" using fr(4) f(8) mem_size_less_64 [of ?E c] by linarith
  then have sub: "size_sub (start ?E ys) (o1 + ?S) = start ?E ys - (o1 + ?S)"
    using fit by (intro size_sub_id) auto
  have nin: "o1 \<notin> fst ` set xs" "o1 \<notin> fst ` set ys" "o1 \<noteq> ?E"
    using fr(1) [of o1] fr(2) [of o1] fr(3,4) f(6) by linarith+
  have "\<not> sz + ?S + ?M \<le> start ?E ys - (o1 + ?S)" using whole fit by linarith
  then have "take_block c sz o1 h = set_used o1 1 h" by (simp add: take_block_def o1 sub)
  then show ?thesis
    using segs gaps nin by (simp add: set_used_def o1 put_struct_def)
qed

lemma take_block_rep:
  assumes c: "mem_cfg_ok c" and sz: "MEM_ALIGNMENT c dvd sz" "MIN_SIZE_ALIGNED c \<le> sz"
    and gaps: "gaps_ok c (MEM_SIZE_ALIGNED c) (xs @ (o1, False) # ys)"
    and seg: "seg (MEM_SIZE_ALIGNED c) (structs h) 0 (xs @ (o1, False) # ys)"
    and fit: "o1 + SIZEOF_STRUCT_MEM c + sz \<le> start (MEM_SIZE_ALIGNED c) ys"
  shows "\<exists>h'. take_block c sz o1 h = Some h' \<and>
    seg (MEM_SIZE_ALIGNED c) (structs h') 0 (xs @ split_block c (MEM_SIZE_ALIGNED c) sz o1 ys) \<and>
    gaps_ok c (MEM_SIZE_ALIGNED c) (xs @ split_block c (MEM_SIZE_ALIGNED c) sz o1 ys) \<and> lfree h' = lfree h \<and>
    structs h' (MEM_SIZE_ALIGNED c) = structs h (MEM_SIZE_ALIGNED c)"
  using take_block_split [OF c sz gaps seg] take_block_whole [OF c sz gaps seg fit]
  unfolding split_block_def by auto

lemma first_free_indep: "\<exists>b\<in>set xs. \<not> snd b \<Longrightarrow> first_free e xs = first_free e' xs \<and> first_free e xs \<in> fst ` set xs"
proof (induction xs rule: blocks_induct)
  case (Cons o1 u bs)
  show ?case
  proof (cases u)
    case True
    then have "\<exists>b\<in>set bs. \<not> snd b" using Cons.prems by simp
    with Cons.IH have "first_free e bs = first_free e' bs" "first_free e bs \<in> fst ` set bs" by blast+
    with True show ?thesis by (metis first_free.simps(2) image_insert insertCI list.simps(15))
  qed simp
qed simp

lemma coalesced_Cons: "coalesced (b # bs) \<longleftrightarrow> (bs = [] \<or> snd b \<or> snd (hd bs)) \<and> coalesced bs"
  by (cases b; cases bs) auto

lemma coalesced_append:
  "coalesced (xs @ ys) \<longleftrightarrow> coalesced xs \<and> coalesced ys \<and> (xs = [] \<or> ys = [] \<or> snd (last xs) \<or> snd (hd ys))"
  by (induction xs) (auto simp: coalesced_Cons)

lemma coalesced_split:
  "coalesced (xs @ (o1, False) # ys) \<Longrightarrow> coalesced (xs @ split_block c e sz o1 ys)"
  by (auto simp: coalesced_append coalesced_Cons split_block_def)

lemma split_block_Cons: "\<exists>zs. split_block c e sz o1 ys = (o1, True) # zs"
  by (simp add: split_block_def)

lemma aligned_and: "mem_cfg_ok c \<Longrightarrow> MEM_ALIGNMENT c dvd x \<Longrightarrow> x AND (MEM_ALIGNMENT c - 1) = 0"
  using and_alignment mem_cfg_alignment by (metis dvd_imp_mod_0)

lemma adjust_lfree_rep:
  assumes c: "mem_cfg_ok c" and gaps: "gaps_ok c (MEM_SIZE_ALIGNED c) (xs @ (o1, True) # ys)"
    and seg: "seg (MEM_SIZE_ALIGNED c) (structs h) 0 (xs @ (o1, True) # ys)"
    and lf: "lfree h = first_free (MEM_SIZE_ALIGNED c) (xs @ (o1, False) # ys')"
    and e: "structs h (MEM_SIZE_ALIGNED c) = Some (end_struct c)"
  shows "\<exists>h'. adjust_lfree c o1 h = Some h' \<and> structs h' = structs h \<and>
    lfree h' = first_free (MEM_SIZE_ALIGNED c) (xs @ (o1, True) # ys)"
proof (cases "\<forall>b\<in>set xs. snd b")
  case True
  let ?E = "MEM_SIZE_ALIGNED c" and ?n = "first_free (MEM_SIZE_ALIGNED c) ys"
  have lf': "lfree h = o1" using lf True by (simp add: first_free_used)
  have "next_free c h o1 = Some ?n"
    using next_free_first [of c h "last_off 0 xs" "(o1, True) # ys"] seg gaps e c by simp
  moreover have "\<exists>m. structs h ?n = Some m \<and> (?n = ?E \<or> mem_used m = 0)"
  proof (cases "\<forall>b\<in>set ys. snd b")
    case True
    then show ?thesis using e by (simp add: first_free_used)
  next
    case False
    have "seg ?E (structs h) p ys \<Longrightarrow> \<exists>b\<in>set ys. \<not> snd b \<Longrightarrow>
        \<exists>m. structs h (first_free ?E ys) = Some m \<and> mem_used m = 0" for p ys
      by (induction ys arbitrary: p rule: blocks_induct) auto
    then show ?thesis using seg False by auto
  qed
  ultimately show ?thesis using True lf' by (auto simp: adjust_lfree_def first_free_used)
next
  case False
  then have f: "first_free e xs = first_free e' xs \<and> first_free e xs \<in> fst ` set xs" for e e'
    by (intro first_free_indep) auto
  then have "lfree h \<in> fst ` set xs" using lf by simp
  then have "o1 \<noteq> lfree h" using gaps_frame(1) [OF c gaps, of "lfree h"] mem_cfg_facts(6) [OF c] by linarith
  then show ?thesis using lf f by (auto simp: adjust_lfree_def)
qed

lemma dvd_align_request:
  assumes "mem_cfg_ok c" shows "MEM_ALIGNMENT c dvd mem_align_request c n" "MIN_SIZE_ALIGNED c \<le> mem_align_request c n"
proof -
  obtain k where k: "k \<le> 10" "MEM_ALIGNMENT c = 2 ^ k" using assms by (auto simp: mem_cfg_ok_def)
  have "MEM_ALIGNMENT c dvd LWIP_MEM_ALIGN_SIZE (MEM_ALIGNMENT c) n"
  proof -
    have "(of_nat (MEM_ALIGNMENT c) - 1 :: u32) = mask k" by (simp add: k(2) mask_eq_exp_minus_1)
    then show ?thesis unfolding LWIP_MEM_ALIGN_SIZE_def by (simp add: unat_and_not_mask k(2))
  qed
  moreover have "MEM_ALIGNMENT c dvd mem_size_mod c"
    using k by (auto simp: mem_size_mod_def intro: le_imp_power_dvd [of k 32 2, simplified] le_imp_power_dvd [of k 16 2, simplified])
  ultimately have "MEM_ALIGNMENT c dvd mem_size_of c (LWIP_MEM_ALIGN_SIZE (MEM_ALIGNMENT c) n)"
    unfolding mem_size_of_def by (simp add: dvd_mod)
  then show "MEM_ALIGNMENT c dvd mem_align_request c n" "MIN_SIZE_ALIGNED c \<le> mem_align_request c n"
    using mem_cfg_facts(3) [OF assms] by (auto simp: mem_align_request_def Let_def)
qed

text \<open>\<^verbatim>\<open>mem_malloc\<close> on the block list: a first fit, split when the rest can hold another block.\<close>

lemma malloc_found:
  assumes c: "mem_cfg_ok c" and ok: "heap_ok c h (xs @ (o1, False) # ys)"
    and n: "0 < n" "n \<le> mem_align_request c n" "mem_align_request c n \<le> MEM_SIZE_ALIGNED c"
    and fit: "o1 + SIZEOF_STRUCT_MEM c + mem_align_request c n \<le> start (MEM_SIZE_ALIGNED c) ys"
    and first: "first_fit c (MEM_SIZE_ALIGNED c) (mem_align_request c n) (xs @ (o1, False) # ys) = Some o1"
  shows "\<exists>h'. mem_malloc c n h = Some (ram c + o1 + SIZEOF_STRUCT_MEM c, h') \<and>
    heap_ok c h' (xs @ split_block c (MEM_SIZE_ALIGNED c) (mem_align_request c n) o1 ys)"
proof -
  let ?E = "MEM_SIZE_ALIGNED c" and ?S = "SIZEOF_STRUCT_MEM c" and ?sz = "mem_align_request c n"
  let ?bs = "xs @ (o1, False) # ys" and ?bs' = "xs @ split_block c ?E ?sz o1 ys"
  note f = mem_cfg_facts [OF c]
  have rep: "heap_rep c h ?bs" "coalesced ?bs" using ok by (auto simp: heap_ok_def)
  obtain h1 where h1: "take_block c ?sz o1 h = Some h1" "seg ?E (structs h1) 0 ?bs'" "gaps_ok c ?E ?bs'"
    "lfree h1 = lfree h" "structs h1 ?E = structs h ?E"
    using take_block_rep [OF c dvd_align_request [OF c] _ _ fit] rep(1) unfolding heap_rep_def by blast
  obtain zs where zs: "split_block c ?E ?sz o1 ys = (o1, True) # zs" using split_block_Cons by blast
  obtain h2 where h2: "adjust_lfree c o1 h1 = Some h2" "structs h2 = structs h1" "lfree h2 = first_free ?E ?bs'"
    using adjust_lfree_rep [OF c, of xs o1 zs h1 ys] h1 rep(1) unfolding zs heap_rep_def by auto
  have "o1 + ?S + ?sz \<le> ?E"
    using fit gaps_frame(4) [OF c, of ?E xs o1 False ys] rep(1) by (auto simp: heap_rep_def)
  moreover have "MEM_ALIGNMENT c dvd ram c + o1"
    using f(5) rep(1) gaps_aligned [of c ?E ?bs o1] by (simp add: heap_rep_def)
  then have "MEM_ALIGNMENT c dvd ram c + o1" "MEM_ALIGNMENT c dvd ram c + o1 + ?S" using f(2) by simp_all
  ultimately have "mem_malloc c n h = Some (ram c + o1 + ?S, h2)"
    using n h1(1) h2(1) mem_scan_lfree [OF c n(3) rep(1)] first
    by (simp add: mem_malloc_def Let_def aligned_and [OF c] mod_eq_0_iff_dvd del: One_nat_def)
  moreover have "heap_ok c h2 ?bs'"
    using h1 h2 rep coalesced_split [OF rep(2), of c ?E ?sz] by (auto simp: heap_ok_def heap_rep_def zs)
  ultimately show ?thesis by blast
qed

lemma malloc_not_found:
  assumes "mem_cfg_ok c" "heap_ok c h bs"
    and "n = 0 \<or> mem_align_request c n < n \<or> MEM_SIZE_ALIGNED c < mem_align_request c n \<or>
      first_fit c (MEM_SIZE_ALIGNED c) (mem_align_request c n) bs = None"
  shows "mem_malloc c n h = Some (0, h)"
  using assms mem_scan_lfree [OF assms(1), of "mem_align_request c n" h bs]
  by (auto simp: mem_malloc_def Let_def heap_ok_def not_less)

section \<open>Release\<close>

lemma heap_rep_block:
  assumes "heap_rep c h (xs @ (o1, u) # ys)"
  shows "structs h o1 = Some \<lparr>mem_next = start (MEM_SIZE_ALIGNED c) ys, mem_prev = last_off 0 xs, mem_used = of_bool u\<rparr>"
    "seg o1 (structs h) 0 xs" "seg (MEM_SIZE_ALIGNED c) (structs h) o1 ys" "gaps_ok c o1 xs" "start o1 xs = 0"
    "gaps_ok c (MEM_SIZE_ALIGNED c) ys" "gaps_ok c (MEM_SIZE_ALIGNED c) (xs @ (o1, u) # ys)"
  using assms by (auto simp: heap_rep_def)

lemma heap_rep_bounds:
  assumes "mem_cfg_ok c" "heap_rep c h (xs @ (o1, u) # ys)"
  shows "o1 < start (MEM_SIZE_ALIGNED c) ys" "start (MEM_SIZE_ALIGNED c) ys \<le> MEM_SIZE_ALIGNED c"
    "xs \<noteq> [] \<Longrightarrow> last_off 0 xs < o1" "x \<in> fst ` set xs \<Longrightarrow> x < o1" "x \<in> fst ` set ys \<Longrightarrow> o1 < x"
    "o1 + SIZEOF_STRUCT_MEM c + MIN_SIZE_ALIGNED c \<le> start (MEM_SIZE_ALIGNED c) ys"
  using gaps_frame [OF assms(1) heap_rep_block(7) [OF assms(2)]] mem_cfg_facts(6) [OF assms(1)]
    last_off_in [of xs 0] by fastforce+

lemma mem_link_valid_rep:
  assumes "mem_cfg_ok c" "heap_rep c h (xs @ (o1, u) # ys)"
  shows "mem_link_valid c o1 h = Some True"
proof -
  let ?E = "MEM_SIZE_ALIGNED c"
  note b = heap_rep_block [OF assms(2)] and bd = heap_rep_bounds [OF assms]
  have prev: "last_off 0 xs = o1 \<or> (\<exists>m. structs h (last_off 0 xs) = Some m \<and> mem_next m = o1)"
  proof (cases "xs = []")
    case True
    then show ?thesis using b(5) by simp
  next
    case False
    then show ?thesis using seg_last [OF b(2)] by force
  qed
  have "last_off 0 xs \<le> ?E" using bd(1,2,3) by (cases "xs = []") auto
  moreover have "start ?E ys = ?E \<or> (\<exists>m. structs h (start ?E ys) = Some m \<and> mem_prev m = o1)"
    using b(3) by (cases ys) auto
  ultimately show ?thesis
    using prev bd(2) by (auto simp: mem_link_valid_def b(1))
qed

fun drop_free :: "blocks \<Rightarrow> blocks" where
  "drop_free ((o2, False) # zs) = zs"
| "drop_free ys = ys"

definition merge_back :: "blocks \<Rightarrow> nat \<Rightarrow> blocks \<Rightarrow> blocks" where
  "merge_back xs o1 ys =
     (if xs \<noteq> [] \<and> \<not> snd (last xs) then xs @ ys else xs @ (o1, False) # ys)"

text \<open>Both directions of \<^verbatim>\<open>plug_holes\<close> merge a free block into the free block in front of it.\<close>

lemma lfree_first:
  assumes "mem_cfg_ok c" "heap_rep c h (xs @ (o1, False) # ys)" "o1 < x"
  shows "lfree h \<noteq> x"
proof (cases "\<forall>b\<in>set xs. snd b")
  case True
  then show ?thesis using assms(2,3) by (simp add: heap_rep_def first_free_used)
next
  case False
  then have "first_free o1 xs \<in> fst ` set xs" using first_free_indep by blast
  moreover have "lfree h = first_free o1 xs" using assms(2) by (simp add: heap_rep_def)
  ultimately have "lfree h \<in> fst ` set xs" by simp
  then show ?thesis using heap_rep_bounds(4) [OF assms(1,2)] assms(3) by fastforce
qed

lemma merge_rep:
  assumes c: "mem_cfg_ok c" and rep: "heap_rep c h (xs @ (o1, False) # (o2, False) # zs)"
  shows "\<exists>h'. do { h1 \<leftarrow> set_next o1 (start (MEM_SIZE_ALIGNED c) zs) h;
      if start (MEM_SIZE_ALIGNED c) zs \<noteq> MEM_SIZE_ALIGNED c
      then set_prev (start (MEM_SIZE_ALIGNED c) zs) o1 h1 else Some h1 } = Some h' \<and>
    heap_rep c h' (xs @ (o1, False) # zs)"
proof -
  let ?E = "MEM_SIZE_ALIGNED c"
  have rep2: "heap_rep c h ((xs @ [(o1, False)]) @ (o2, False) # zs)" using rep by simp
  note b = heap_rep_block [OF rep] and bd = heap_rep_bounds [OF c rep]
    and b2 = heap_rep_block [OF rep2] and bd2 = heap_rep_bounds [OF c rep2]
  define h1 where "h1 = put_struct o1 \<lparr>mem_next = start ?E zs, mem_prev = last_off 0 xs, mem_used = 0\<rparr> h"
  have n1: "set_next o1 (start ?E zs) h = Some h1"
    by (simp add: set_next_def b(1) h1_def put_struct_def)
  have nin: "o1 \<notin> fst ` set xs" "o1 \<notin> fst ` set zs" "o1 \<noteq> ?E" "?E \<notin> fst ` set zs"
    using bd(4) [of o1] bd(5) [of o1] bd2(1,2) bd(1) gaps_upper [OF b2(6), of ?E] mem_cfg_facts(6) [OF c]
    by auto
  have seg1: "seg ?E (structs h1) o2 zs" using b2(3) nin by (simp add: h1_def put_struct_def)
  obtain h2 where h2: "(if start ?E zs \<noteq> ?E then set_prev (start ?E zs) o1 h1 else Some h1) = Some h2"
    "seg ?E (structs h2) o1 zs" "lfree h2 = lfree h1" "\<forall>x. x \<notin> fst ` set zs \<longrightarrow> structs h2 x = structs h1 x"
    using relink_prev [OF c b2(6) seg1] by blast
  have "structs h2 x = structs h x" if "x \<in> fst ` set xs" for x
  proof -
    have "x \<notin> fst ` set zs" "x \<noteq> o1" using bd(4) [of x] bd(5) [of x] that by auto
    then show ?thesis using h2(4) by (simp add: h1_def put_struct_def)
  qed
  then have "seg o1 (structs h2) 0 xs" using b(2) seg_cong [of xs "structs h2" "structs h"] by simp
  moreover have "structs h2 o1 = structs h1 o1" "structs h2 ?E = structs h1 ?E" using h2(4) nin by auto
  ultimately have "heap_rep c h2 (xs @ (o1, False) # zs)"
    using h2(2,3) rep nin(3) bd2(1) bd(6) b2(6) by (auto simp: heap_rep_def h1_def put_struct_def)
  then show ?thesis using h2(1) n1 by simp
qed

lemma plug_forward_rep:
  assumes c: "mem_cfg_ok c" and rep: "heap_rep c h (xs @ (o1, False) # ys)"
  shows "\<exists>h'. plug_holes_forward c o1 h = Some h' \<and> heap_rep c h' (xs @ (o1, False) # drop_free ys)"
proof (cases ys rule: drop_free.cases)
  case (1 o2 zs)
  have rep2: "heap_rep c h ((xs @ [(o1, False)]) @ (o2, False) # zs)" using rep 1 by simp
  note b = heap_rep_block [OF rep] and bd = heap_rep_bounds [OF c rep]
    and b2 = heap_rep_block [OF rep2] and bd2 = heap_rep_bounds [OF c rep2]
  have "o1 < o2" "o2 \<noteq> MEM_SIZE_ALIGNED c" using bd(1) bd2(1,2) 1 by auto
  then show ?thesis
    using merge_rep [OF c, of h xs o1 o2 zs] rep 1 lfree_first [OF c rep, of o2] b(1) b2(1)
    by (simp add: plug_holes_forward_def cong: if_cong)
next
  case "2_1"
  then show ?thesis using rep heap_rep_block(1) [OF rep] heap_rep_bounds(1) [OF c rep]
    by (auto simp: plug_holes_forward_def heap_rep_def)
next
  case "2_2"
  then show ?thesis using rep heap_rep_block(1,3) [OF rep] heap_rep_bounds(1) [OF c rep]
    by (auto simp: plug_holes_forward_def)
qed

lemma plug_backward_rep:
  assumes c: "mem_cfg_ok c" and rep: "heap_rep c h (xs @ (o1, False) # ys)"
  shows "\<exists>h'. plug_holes_backward c o1 h = Some h' \<and> heap_rep c h' (merge_back xs o1 ys)"
proof (cases xs rule: rev_cases)
  case Nil
  then show ?thesis using rep heap_rep_block(1,5) [OF rep]
    by (auto simp: plug_holes_backward_def merge_back_def)
next
  case (snoc ws b)
  obtain o0 u where b: "b = (o0, u)" by (cases b)
  have rep0: "heap_rep c h (ws @ (o0, u) # (o1, False) # ys)" using rep snoc b by simp
  note r = heap_rep_block [OF rep] and r0 = heap_rep_block [OF rep0]
  have "o0 < o1" using heap_rep_bounds(1) [OF c rep0] by simp
  show ?thesis
  proof (cases u)
    case True
    then show ?thesis using rep r(1) r0(1) \<open>o0 < o1\<close>
      by (auto simp: plug_holes_backward_def merge_back_def snoc b)
  next
    case False
    then show ?thesis
      using merge_rep [OF c, of h ws o0 o1 ys] rep0 r(1) r0(1) \<open>o0 < o1\<close> lfree_first [OF c, of h ws o0 "(o1, False) # ys" o1]
      by (auto simp: plug_holes_backward_def merge_back_def snoc b cong: if_cong)
  qed
qed

lemma mark_free_rep:
  assumes c: "mem_cfg_ok c" and rep: "heap_rep c h (xs @ (o1, True) # ys)"
  shows "\<exists>h1. set_used o1 0 h = Some h1 \<and> lfree h1 = lfree h \<and>
    heap_rep c (if o1 < lfree h1 then h1\<lparr>lfree := o1\<rparr> else h1) (xs @ (o1, False) # ys)"
proof -
  let ?E = "MEM_SIZE_ALIGNED c"
  note b = heap_rep_block [OF rep] and bd = heap_rep_bounds [OF c rep]
  have nin: "o1 \<notin> fst ` set xs" "o1 \<notin> fst ` set ys" "o1 \<noteq> ?E"
    using bd(4) [of o1] bd(5) [of o1] bd(1,2) by auto
  have lf: "lfree h = first_free (first_free ?E ys) xs" using rep by (simp add: heap_rep_def)
  have "(if o1 < lfree h then o1 else lfree h) = first_free o1 xs"
  proof (cases "\<forall>b\<in>set xs. snd b")
    case True
    have "o1 < first_free ?E ys"
    proof (cases "\<forall>b\<in>set ys. snd b")
      case True
      then show ?thesis using bd(1,2) by (simp add: first_free_used)
    next
      case False
      then show ?thesis using first_free_indep [of ys ?E 0] bd(5) by blast
    qed
    with True show ?thesis by (simp add: lf first_free_used)
  next
    case False
    then have "first_free (first_free ?E ys) xs = first_free o1 xs \<and> first_free (first_free ?E ys) xs \<in> fst ` set xs"
      using first_free_indep by blast
    then show ?thesis using bd(4) by (fastforce simp: lf)
  qed
  then show ?thesis
    using rep b nin by (auto simp: set_used_def put_struct_def heap_rep_def)
qed

lemma coalesced_merge:
  assumes "coalesced (xs @ (o1, True) # ys)"
  shows "coalesced (merge_back xs o1 (drop_free ys))"
proof -
  have "coalesced xs" "coalesced ys" using assms by (auto simp: coalesced_append coalesced_Cons)
  then have "coalesced (drop_free ys) \<and> (drop_free ys = [] \<or> snd (hd (drop_free ys)))"
    by (cases ys rule: drop_free.cases) (auto simp: coalesced_Cons)
  with \<open>coalesced xs\<close> show ?thesis by (auto simp: merge_back_def coalesced_append coalesced_Cons)
qed

lemma mem_free_rep:
  assumes c: "mem_cfg_ok c" and ok: "heap_ok c h (xs @ (o1, True) # ys)"
  shows "\<exists>h'. mem_free c (ram c + o1 + SIZEOF_STRUCT_MEM c) h = Some h' \<and>
    heap_ok c h' (merge_back xs o1 (drop_free ys))"
proof -
  let ?E = "MEM_SIZE_ALIGNED c" and ?S = "SIZEOF_STRUCT_MEM c"
  have rep: "heap_rep c h (xs @ (o1, True) # ys)" using ok by (simp add: heap_ok_def)
  note f = mem_cfg_facts [OF c] and b = heap_rep_block [OF rep] and bd = heap_rep_bounds [OF c rep]
  obtain h1 where h1: "set_used o1 0 h = Some h1" "lfree h1 = lfree h"
    "heap_rep c (if o1 < lfree h1 then h1\<lparr>lfree := o1\<rparr> else h1) (xs @ (o1, False) # ys)"
    using mark_free_rep [OF c rep] by blast
  define h2 where "h2 = (if o1 < lfree h1 then h1\<lparr>lfree := o1\<rparr> else h1)"
  note rep2 = h1(3) [folded h2_def]
  obtain h3 where h3: "plug_holes_forward c o1 h2 = Some h3" "heap_rep c h3 (xs @ (o1, False) # drop_free ys)"
    using plug_forward_rep [OF c rep2] by blast
  obtain h4 where h4: "plug_holes_backward c o1 h3 = Some h4" "heap_rep c h4 (merge_back xs o1 (drop_free ys))"
    using plug_backward_rep [OF c h3(2)] by blast
  have "plug_holes c o1 h2 = Some h4"
    using h3(1) h4(1) heap_rep_block(1) [OF rep2] bd(1,2) by (simp add: plug_holes_def)
  moreover have "MEM_ALIGNMENT c dvd ram c + o1 + ?S" using f(2,5) b(7) by simp
  ultimately have "mem_free c (ram c + o1 + ?S) h = Some h4"
    using h1(1) bd(2,6) f(9) b(1) mem_link_valid_rep [OF c rep]
    by (simp add: mem_free_def Let_def aligned_and [OF c] h2_def del: One_nat_def)
  moreover have "coalesced (merge_back xs o1 (drop_free ys))" using ok coalesced_merge by (simp add: heap_ok_def)
  ultimately show ?thesis using h4(2) by (auto simp: heap_ok_def)
qed

lemma mem_free_twice:
  assumes c: "mem_cfg_ok c" and rep: "heap_rep c h (xs @ (o1, False) # ys)"
  shows "mem_free c (ram c + o1 + SIZEOF_STRUCT_MEM c) h = None"
  using mem_cfg_facts(9) [OF c] heap_rep_block(1) [OF rep]
  by (auto simp: mem_free_def Let_def lwip_assert_def split: Option.bind_split)

section \<open>The allocated areas\<close>

lemma allocs_drop_free [simp]: "allocs c e (drop_free ys) = allocs c e ys"
  by (cases ys rule: drop_free.cases) auto

lemma allocs_last_free: "xs \<noteq> [] \<Longrightarrow> \<not> snd (last xs) \<Longrightarrow> allocs c e xs = allocs c e' xs"
proof (induction xs rule: rev_induct)
  case (snoc b xs)
  then show ?case by (cases b) auto
qed simp

lemma allocs_merge_back: "allocs c e (merge_back xs o1 ys) = allocs c o1 xs \<union> allocs c e ys"
  using allocs_last_free [of xs c "start e ys" o1] by (auto simp: merge_back_def)

lemma allocs_split_block:
  "\<exists>len. sz \<le> len \<and> len \<le> start e ys - (o1 + SIZEOF_STRUCT_MEM c) \<and>
     allocs c e (split_block c e sz o1 ys) = insert (ram c + o1 + SIZEOF_STRUCT_MEM c, len) (allocs c e ys)"
  if "o1 + SIZEOF_STRUCT_MEM c + sz \<le> start e ys"
  using that
  by (intro exI [of _ "start e (tl (split_block c e sz o1 ys)) - (o1 + SIZEOF_STRUCT_MEM c)"])
    (auto simp: split_block_def)

lemma allocs_bounds:
  assumes "gaps_ok c e bs" "(a, n) \<in> allocs c e bs"
  shows "ram c + start e bs + SIZEOF_STRUCT_MEM c \<le> a \<and> a + n \<le> ram c + e"
  using assms
proof (induction bs rule: blocks_induct)
  case (Cons o1 u bs)
  then have "start e bs \<le> e" using gaps_start_le by auto
  with Cons show ?case by (cases "(a, n) \<in> allocs c e bs") (auto split: if_splits)
qed simp

lemma allocs_member:
  assumes "(a, n) \<in> allocs c e bs"
  obtains xs o1 ys where "bs = xs @ (o1, True) # ys" "a = ram c + o1 + SIZEOF_STRUCT_MEM c"
    "n = start e ys - (o1 + SIZEOF_STRUCT_MEM c)"
  using assms
proof (induction bs arbitrary: thesis rule: blocks_induct)
  case (Cons o1 u bs)
  show ?case
  proof (cases "(a, n) \<in> allocs c e bs")
    case True
    then obtain xs o2 ys where "bs = xs @ (o2, True) # ys" "a = ram c + o2 + SIZEOF_STRUCT_MEM c"
      "n = start e ys - (o2 + SIZEOF_STRUCT_MEM c)" using Cons.IH by blast
    then show ?thesis using Cons.prems(1) [of "(o1, u) # xs" o2 ys] by simp
  next
    case False
    then show ?thesis using Cons.prems(1) [of "[]" o1 bs] Cons.prems(2) by (auto split: if_splits)
  qed
qed simp

lemma allocs_apart:
  assumes "mem_cfg_ok c" "gaps_ok c e (xs @ (o1, u) # ys)" "(a, n) \<in> allocs c o1 xs \<union> allocs c e ys"
    and "len \<le> start e ys - (o1 + SIZEOF_STRUCT_MEM c)"
  shows "a + n \<le> ram c + o1 + SIZEOF_STRUCT_MEM c \<or> ram c + o1 + SIZEOF_STRUCT_MEM c + len \<le> a"
    and "a \<noteq> ram c + o1 + SIZEOF_STRUCT_MEM c"
proof -
  have g: "gaps_ok c o1 xs" "gaps_ok c e ys" "o1 + SIZEOF_STRUCT_MEM c \<le> start e ys" using assms(2) by auto
  note S = mem_cfg_facts(6) [OF assms(1)]
  have "a + n \<le> ram c + o1 \<or> ram c + o1 + SIZEOF_STRUCT_MEM c + len + SIZEOF_STRUCT_MEM c \<le> a"
    using assms(3,4) allocs_bounds [OF g(1)] allocs_bounds [OF g(2)] g(3) by fastforce
  then show "a + n \<le> ram c + o1 + SIZEOF_STRUCT_MEM c \<or> ram c + o1 + SIZEOF_STRUCT_MEM c + len \<le> a"
    "a \<noteq> ram c + o1 + SIZEOF_STRUCT_MEM c" using S by auto
qed

text \<open>The data areas of the free blocks.\<close>

fun frees :: "mem_cfg \<Rightarrow> nat \<Rightarrow> blocks \<Rightarrow> (addr \<times> nat) set" where
  "frees c e [] = {}"
| "frees c e ((o1, u) # bs) =
     (if u then {} else {(ram c + o1 + SIZEOF_STRUCT_MEM c, start e bs - (o1 + SIZEOF_STRUCT_MEM c))}) \<union>
     frees c e bs"

lemma first_fit_None_frees:
  "gaps_ok c e bs \<Longrightarrow> first_fit c e sz bs = None \<longleftrightarrow> (\<forall>(a, n)\<in>frees c e bs. n < sz)"
proof (induction bs rule: blocks_induct)
  case (Cons o1 u bs)
  then have "o1 + SIZEOF_STRUCT_MEM c \<le> start e bs" by simp
  then have "o1 + SIZEOF_STRUCT_MEM c + sz \<le> start e bs \<longleftrightarrow> sz \<le> start e bs - (o1 + SIZEOF_STRUCT_MEM c)"
    by linarith
  with Cons show ?case by (auto simp: not_less)
qed simp

text \<open>The request cannot be served: it is too large for the heap or for every free block.\<close>

definition no_room :: "mem_cfg \<Rightarrow> blocks \<Rightarrow> nat \<Rightarrow> bool" where
  "no_room c bs n \<longleftrightarrow>
     mem_align_request c n < n \<or> MEM_SIZE_ALIGNED c < mem_align_request c n \<or>
     (\<forall>(a, len)\<in>frees c (MEM_SIZE_ALIGNED c) bs. len < mem_align_request c n)"

lemma malloc_cases:
  assumes "mem_cfg_ok c" "heap_ok c h bs" "0 < n"
  obtains (null) "no_room c bs n" "mem_malloc c n h = Some (0, h)"
  | (block) xs o1 ys h' where "\<not> no_room c bs n" "bs = xs @ (o1, False) # ys"
      "n \<le> mem_align_request c n" "o1 + SIZEOF_STRUCT_MEM c + mem_align_request c n \<le> start (MEM_SIZE_ALIGNED c) ys"
      "mem_malloc c n h = Some (ram c + o1 + SIZEOF_STRUCT_MEM c, h')"
      "heap_ok c h' (xs @ split_block c (MEM_SIZE_ALIGNED c) (mem_align_request c n) o1 ys)"
proof (cases "no_room c bs n")
  case True
  have "gaps_ok c (MEM_SIZE_ALIGNED c) bs" using assms(2) by (simp add: heap_ok_def heap_rep_def)
  with True have "mem_align_request c n < n \<or> MEM_SIZE_ALIGNED c < mem_align_request c n \<or>
      first_fit c (MEM_SIZE_ALIGNED c) (mem_align_request c n) bs = None"
    unfolding no_room_def by (simp only: first_fit_None_frees)
  then show ?thesis using True by (intro null malloc_not_found [OF assms(1,2)]) auto
next
  case False
  have "gaps_ok c (MEM_SIZE_ALIGNED c) bs" using assms(2) by (simp add: heap_ok_def heap_rep_def)
  with False obtain o1 where fit: "first_fit c (MEM_SIZE_ALIGNED c) (mem_align_request c n) bs = Some o1"
    and n: "n \<le> mem_align_request c n" "mem_align_request c n \<le> MEM_SIZE_ALIGNED c"
    by (cases "first_fit c (MEM_SIZE_ALIGNED c) (mem_align_request c n) bs")
      (auto simp: no_room_def first_fit_None_frees not_less)
  from fit obtain xs ys where bs: "bs = xs @ (o1, False) # ys"
    "o1 + SIZEOF_STRUCT_MEM c + mem_align_request c n \<le> start (MEM_SIZE_ALIGNED c) ys"
    by (rule first_fit_Some)
  show ?thesis
    using malloc_found [OF assms(1), of h xs o1 ys n] assms(2,3) n bs fit by (auto intro: block [OF False bs(1) n(1) bs(2)])
qed

lemma malloc_allocs:
  assumes c: "mem_cfg_ok c" and rep: "heap_rep c h (xs @ (o1, False) # ys)"
    and fit: "o1 + SIZEOF_STRUCT_MEM c + sz \<le> start (MEM_SIZE_ALIGNED c) ys"
  obtains len where "sz \<le> len" "ram c + o1 + SIZEOF_STRUCT_MEM c + len \<le> ram c + MEM_SIZE_ALIGNED c"
    "allocs c (MEM_SIZE_ALIGNED c) (xs @ split_block c (MEM_SIZE_ALIGNED c) sz o1 ys) =
       insert (ram c + o1 + SIZEOF_STRUCT_MEM c, len) (allocs c (MEM_SIZE_ALIGNED c) (xs @ (o1, False) # ys))"
    "\<forall>(a, n)\<in>allocs c (MEM_SIZE_ALIGNED c) (xs @ (o1, False) # ys).
       a + n \<le> ram c + o1 + SIZEOF_STRUCT_MEM c \<or> ram c + o1 + SIZEOF_STRUCT_MEM c + len \<le> a"
proof -
  let ?E = "MEM_SIZE_ALIGNED c" and ?S = "SIZEOF_STRUCT_MEM c"
  obtain len where len: "sz \<le> len" "len \<le> start ?E ys - (o1 + ?S)"
    "allocs c ?E (split_block c ?E sz o1 ys) = insert (ram c + o1 + ?S, len) (allocs c ?E ys)"
    using allocs_split_block [OF fit] by blast
  have "start ?E (split_block c ?E sz o1 ys) = o1" by (simp add: split_block_def)
  then have "allocs c ?E (xs @ split_block c ?E sz o1 ys) =
      insert (ram c + o1 + ?S, len) (allocs c ?E (xs @ (o1, False) # ys))" using len(3) by simp
  moreover have "o1 + ?S + len \<le> ?E" using len(2) fit heap_rep_bounds(2) [OF c rep] by linarith
  ultimately show thesis
    using len allocs_apart(1) [OF c heap_rep_block(7) [OF rep] _ len(2)] by (intro that) auto
qed

lemma mem_malloc_spec:
  assumes "mem_cfg_ok c" "heap_ok c h bs" "0 < n"
  shows "\<exists>p h' bs'. mem_malloc c n h = Some (p, h') \<and> heap_ok c h' bs' \<and> (p = 0 \<longleftrightarrow> no_room c bs n) \<and>
    (if p = 0 then h' = h \<and> bs' = bs
     else MEM_ALIGNMENT c dvd p \<and> ram c \<le> p \<and>
       (\<exists>len\<ge>n. p + len \<le> ram c + MEM_SIZE_ALIGNED c \<and>
         allocs c (MEM_SIZE_ALIGNED c) bs' = insert (p, len) (allocs c (MEM_SIZE_ALIGNED c) bs) \<and>
         (\<forall>(a, m)\<in>allocs c (MEM_SIZE_ALIGNED c) bs. a + m \<le> p \<or> p + len \<le> a)))"
  using assms
proof (cases rule: malloc_cases)
  case null
  then show ?thesis using assms(2) by auto
next
  case (block xs o1 ys h')
  have rep: "heap_rep c h (xs @ (o1, False) # ys)" using assms(2) block(2) by (simp add: heap_ok_def)
  define bs' where "bs' = xs @ split_block c (MEM_SIZE_ALIGNED c) (mem_align_request c n) o1 ys"
  have "MEM_ALIGNMENT c dvd ram c + o1 + SIZEOF_STRUCT_MEM c" "0 < ram c"
    using mem_cfg_facts [OF assms(1)] heap_rep_block(7) [OF rep] by auto
  moreover obtain len where len: "mem_align_request c n \<le> len"
    "ram c + o1 + SIZEOF_STRUCT_MEM c + len \<le> ram c + MEM_SIZE_ALIGNED c"
    "allocs c (MEM_SIZE_ALIGNED c) bs' =
       insert (ram c + o1 + SIZEOF_STRUCT_MEM c, len) (allocs c (MEM_SIZE_ALIGNED c) bs)"
    "\<forall>(a, n)\<in>allocs c (MEM_SIZE_ALIGNED c) bs.
       a + n \<le> ram c + o1 + SIZEOF_STRUCT_MEM c \<or> ram c + o1 + SIZEOF_STRUCT_MEM c + len \<le> a"
    using malloc_allocs [OF assms(1) rep block(4)] unfolding block(2) bs'_def by blast
  moreover have "n \<le> len" using len(1) block(3) by linarith
  ultimately show ?thesis
    using block(1,5) block(6) [folded bs'_def]
    by (intro exI [of _ "ram c + o1 + SIZEOF_STRUCT_MEM c"] exI [of _ h'] exI [of _ bs'])
      (auto intro!: exI [of _ len])
qed

text \<open>
  C4: \<^verbatim>\<open>mem_malloc\<close> on a well-formed heap returns, without tripping an assertion or reading a stale
  struct.  It returns \<^verbatim>\<open>NULL\<close>, and leaves the heap alone, exactly when no free block has room for the
  aligned request; otherwise the heap stays well-formed, the result is aligned and lies in the heap,
  has at least the requested size, overlaps no allocated block, and the other allocated blocks are
  unchanged.
\<close>

theorem mem_malloc_correct:
  assumes "mem_cfg_ok c" "heap_ok c h bs" "0 < n"
  shows "\<exists>p h' bs'. mem_malloc c n h = Some (p, h') \<and> heap_ok c h' bs' \<and> (p = 0 \<longleftrightarrow> no_room c bs n) \<and>
    (if p = 0 then h' = h \<and> bs' = bs
     else MEM_ALIGNMENT c dvd p \<and> ram c \<le> p \<and>
       (\<exists>len\<ge>n. p + len \<le> ram c + MEM_SIZE_ALIGNED c \<and>
         allocs c (MEM_SIZE_ALIGNED c) bs' = insert (p, len) (allocs c (MEM_SIZE_ALIGNED c) bs) \<and>
         (\<forall>(a, m)\<in>allocs c (MEM_SIZE_ALIGNED c) bs. a + m \<le> p \<or> p + len \<le> a)))"
  using assms by (rule mem_malloc_spec)

definition demo_cfg :: mem_cfg where
  "demo_cfg = \<lparr>MEM_ALIGNMENT = 4, MEM_SIZE = 1600, MIN_SIZE = 12, sizeof_struct_mem = 6,
     LWIP_RAM_HEAP_POINTER = 4096\<rparr>"

lemma demo_cfg_values:
  "MEM_SIZE_ALIGNED demo_cfg = 1600" "SIZEOF_STRUCT_MEM demo_cfg = 8" "MIN_SIZE_ALIGNED demo_cfg = 12"
  "ram demo_cfg = 4096" "MEM_ALIGNMENT demo_cfg = 4"
  by (simp_all add: demo_cfg_def MEM_SIZE_ALIGNED_def SIZEOF_STRUCT_MEM_def MIN_SIZE_ALIGNED_def ram_def
      LWIP_MEM_ALIGN_SIZE_def LWIP_MEM_ALIGN_def)

lemma demo_cfg_ok: "mem_cfg_ok demo_cfg"
  unfolding mem_cfg_ok_def demo_cfg_values
  by (auto simp: demo_cfg_def mem_size_mod_def intro: bexI [of _ 2])

definition demo_blocks :: blocks where
  "demo_blocks = [(0, True), (108, False), (208, True)]"

definition demo_heap :: mem_heap where
  "demo_heap = \<lparr>structs =
     [0 \<mapsto> \<lparr>mem_next = 108, mem_prev = 0, mem_used = 1\<rparr>, 108 \<mapsto> \<lparr>mem_next = 208, mem_prev = 0, mem_used = 0\<rparr>,
      208 \<mapsto> \<lparr>mem_next = 1600, mem_prev = 108, mem_used = 1\<rparr>,
      1600 \<mapsto> \<lparr>mem_next = 1600, mem_prev = 1600, mem_used = 1\<rparr>], lfree = 108\<rparr>"

lemma demo_heap_ok: "heap_ok demo_cfg demo_heap demo_blocks"
  by (simp add: heap_ok_def heap_rep_def demo_blocks_def demo_heap_def demo_cfg_values end_struct_def)

theorem mem_malloc_correct_witness:
  "\<exists>p h' bs'. mem_malloc demo_cfg 20 demo_heap = Some (p, h') \<and> heap_ok demo_cfg h' bs' \<and>
     (p = 0 \<longleftrightarrow> no_room demo_cfg demo_blocks 20)"
  using mem_malloc_correct [OF demo_cfg_ok demo_heap_ok, of 20] by auto

lemma mem_free_spec:
  assumes "mem_cfg_ok c" "heap_ok c h bs" "(p, len) \<in> allocs c (MEM_SIZE_ALIGNED c) bs"
  shows "\<exists>h' bs'. mem_free c p h = Some h' \<and> heap_ok c h' bs' \<and>
    allocs c (MEM_SIZE_ALIGNED c) bs' = allocs c (MEM_SIZE_ALIGNED c) bs - {(p, len)}"
proof -
  let ?E = "MEM_SIZE_ALIGNED c" and ?S = "SIZEOF_STRUCT_MEM c"
  obtain xs o1 ys where b: "bs = xs @ (o1, True) # ys" "p = ram c + o1 + ?S" "len = start ?E ys - (o1 + ?S)"
    using assms(3) by (rule allocs_member)
  have rep: "heap_rep c h (xs @ (o1, True) # ys)" using assms(2) b(1) by (simp add: heap_ok_def)
  obtain h' where "mem_free c p h = Some h'" "heap_ok c h' (merge_back xs o1 (drop_free ys))"
    using mem_free_rep [OF assms(1)] assms(2) b by blast
  moreover have "(p, len) \<notin> allocs c o1 xs \<union> allocs c ?E ys"
    using allocs_apart(2) [OF assms(1) heap_rep_block(7) [OF rep], of p len 0] b(2) by auto
  then have "allocs c ?E (merge_back xs o1 (drop_free ys)) = allocs c ?E bs - {(p, len)}"
    using b by (auto simp: allocs_merge_back)
  ultimately show ?thesis by blast
qed

text \<open>
  C5: \<^verbatim>\<open>mem_free\<close> of an allocated block returns, keeps the heap well-formed, and removes exactly this
  block from the allocated ones.
\<close>

theorem mem_free_correct:
  assumes "mem_cfg_ok c" "heap_ok c h bs" "(p, len) \<in> allocs c (MEM_SIZE_ALIGNED c) bs"
  shows "\<exists>h' bs'. mem_free c p h = Some h' \<and> heap_ok c h' bs' \<and>
    allocs c (MEM_SIZE_ALIGNED c) bs' = allocs c (MEM_SIZE_ALIGNED c) bs - {(p, len)}"
  using assms by (rule mem_free_spec)

theorem mem_free_correct_witness:
  "\<exists>h' bs'. mem_free demo_cfg 4104 demo_heap = Some h' \<and> heap_ok demo_cfg h' bs' \<and>
     allocs demo_cfg 1600 bs' = {(4312, 1384)}"
proof -
  have "{(4312, 1384), (4104, 100)} - {(4104, 100)} = {(4312 :: nat, 1384 :: nat)}" by auto
  then show ?thesis
    using mem_free_correct [OF demo_cfg_ok demo_heap_ok, of 4104 100]
    by (simp add: demo_cfg_values demo_blocks_def)
qed

lemma drop_free_split: "coalesced (xs @ (o1, False) # ys) \<Longrightarrow> drop_free (tl (split_block c e sz o1 ys)) = ys"
  by (cases ys rule: drop_free.cases) (auto simp: split_block_def coalesced_append coalesced_Cons)

text \<open>
  C6: Freeing a block that \<^verbatim>\<open>mem_malloc\<close> just returned restores the heap: the same blocks, used and
  free, as before the allocation.
\<close>

theorem mem_malloc_free:
  assumes "mem_cfg_ok c" "heap_ok c h bs" "0 < n" "mem_malloc c n h = Some (p, h')" "p \<noteq> 0"
  shows "\<exists>h''. mem_free c p h' = Some h'' \<and> heap_ok c h'' bs"
  using assms(1,2,3)
proof (cases rule: malloc_cases)
  case (block xs o1 ys h1)
  have co: "coalesced (xs @ (o1, False) # ys)" using assms(2) block(2) by (simp add: heap_ok_def)
  obtain zs where zs: "split_block c (MEM_SIZE_ALIGNED c) (mem_align_request c n) o1 ys = (o1, True) # zs"
    using split_block_Cons by blast
  then have "drop_free zs = ys"
    using co drop_free_split [of xs o1 ys c "MEM_SIZE_ALIGNED c" "mem_align_request c n"] by simp
  moreover have "merge_back xs o1 ys = bs"
    using co block(2) by (auto simp: merge_back_def coalesced_append)
  ultimately show ?thesis using mem_free_rep [OF assms(1), of h1 xs o1 zs] block assms(4) zs by auto
qed (use assms(4,5) in auto)

theorem mem_malloc_free_witness:
  "\<exists>p h' h''. mem_malloc demo_cfg 20 demo_heap = Some (p, h') \<and> p \<noteq> 0 \<and>
     mem_free demo_cfg p h' = Some h'' \<and> heap_ok demo_cfg h'' demo_blocks"
proof -
  have "mem_align_request demo_cfg 20 = 20"
    by (simp add: mem_align_request_def demo_cfg_values LWIP_MEM_ALIGN_SIZE_def mem_size_of_def mem_size_mod_def)
  then have "\<not> no_room demo_cfg demo_blocks 20" by (simp add: no_room_def demo_cfg_values demo_blocks_def)
  then have "\<exists>p h'. mem_malloc demo_cfg 20 demo_heap = Some (p, h') \<and> p \<noteq> 0"
    by (cases rule: malloc_cases [OF demo_cfg_ok demo_heap_ok, of 20]) (auto simp: demo_cfg_values)
  then obtain p h' where "mem_malloc demo_cfg 20 demo_heap = Some (p, h')" "p \<noteq> 0" by blast
  then show ?thesis using mem_malloc_free [OF demo_cfg_ok demo_heap_ok, of 20 p h'] by auto
qed

lemma frees_member:
  "(p, len) \<in> frees c e bs \<Longrightarrow> \<exists>xs o1 ys. bs = xs @ (o1, False) # ys \<and> p = ram c + o1 + SIZEOF_STRUCT_MEM c"
proof (induction bs rule: blocks_induct)
  case (Cons o1 u bs)
  show ?case
  proof (cases "(p, len) \<in> frees c e bs")
    case True
    then obtain xs o2 ys where "bs = xs @ (o2, False) # ys" "p = ram c + o2 + SIZEOF_STRUCT_MEM c"
      using Cons.IH by blast
    then show ?thesis by (intro exI [of _ "(o1, u) # xs"] exI [of _ o2] exI [of _ ys]) simp
  next
    case False
    then show ?thesis using Cons.prems by (intro exI [of _ "[]"] exI [of _ o1] exI [of _ bs]) (auto split: if_splits)
  qed
qed simp

text \<open>
  A second \<^verbatim>\<open>mem_free\<close> of a block that is already free is always detected: the call aborts.
\<close>

theorem mem_double_free_detected:
  assumes "mem_cfg_ok c" "heap_ok c h bs" "(p, len) \<in> frees c (MEM_SIZE_ALIGNED c) bs"
  shows "mem_free c p h = None"
proof -
  obtain xs o1 ys where "bs = xs @ (o1, False) # ys" "p = ram c + o1 + SIZEOF_STRUCT_MEM c"
    using frees_member [OF assms(3)] by blast
  then show ?thesis using assms(2) mem_free_twice [OF assms(1), of h xs o1 ys] by (simp add: heap_ok_def)
qed

theorem mem_double_free_detected_witness: "mem_free demo_cfg 4212 demo_heap = None"
  using mem_double_free_detected [OF demo_cfg_ok demo_heap_ok, of 4212 92]
  by (simp add: demo_cfg_values demo_blocks_def)

section \<open>The sanity check\<close>

lemma MEM_ALIGN_1: "mem_cfg_ok c \<Longrightarrow> LWIP_MEM_ALIGN (MEM_ALIGNMENT c) 1 \<noteq> 0"
proof -
  assume c: "mem_cfg_ok c"
  obtain k where A: "MEM_ALIGNMENT c = 2 ^ k" "0 < MEM_ALIGNMENT c" "MEM_ALIGNMENT c \<le> 1024"
    using mem_cfg_alignment [OF c] by metis
  then have "1 + MEM_ALIGNMENT c < 2 ^ 64" by simp
  then show ?thesis unfolding MEM_ALIGN [OF c \<open>1 + MEM_ALIGNMENT c < 2 ^ 64\<close>] using A(2) by simp
qed

lemma MEM_ALIGN_id:
  assumes "mem_cfg_ok c" "MEM_ALIGNMENT c dvd x" "x + MEM_ALIGNMENT c < 2 ^ 64"
  shows "LWIP_MEM_ALIGN (MEM_ALIGNMENT c) x = x"
  unfolding MEM_ALIGN [OF assms(1,3)] using mem_cfg_facts(1) [OF assms(1)] assms(2) by (rule align_up_id)

lemma mem_sanity_loop_rep:
  assumes c: "mem_cfg_ok c" and rep: "heap_rep c h (xs @ ys)" and co: "coalesced (xs @ ys)" and "xs \<noteq> []"
  shows "mem_sanity_loop c h (of_bool (snd (last xs))) (start (MEM_SIZE_ALIGNED c) ys) = Some (MEM_SIZE_ALIGNED c)"
  using rep co \<open>xs \<noteq> []\<close>
proof (induction ys arbitrary: xs rule: blocks_induct)
  case Nil
  then show ?case by (subst mem_sanity_loop.simps) simp
next
  case (Cons o1 u ys)
  let ?E = "MEM_SIZE_ALIGNED c"
  note b = heap_rep_block [OF Cons.prems(1)] and bd = heap_rep_bounds [OF c Cons.prems(1)]
    and f = mem_cfg_facts [OF c]
  have "0 < o1" "last_off 0 xs < o1" using bd(3) Cons.prems(3) by auto
  moreover have "LWIP_MEM_ALIGN (MEM_ALIGNMENT c) (ram c + o1) = ram c + o1"
    using f(5,10) b(7) bd(1,2) by (intro MEM_ALIGN_id [OF c]) auto
  moreover have "\<not> snd (last xs) \<longrightarrow> u"
    using Cons.prems(2,3) by (auto simp: coalesced_append)
  moreover have "mem_sanity_loop c h (of_bool u) (start ?E ys) = Some ?E"
    using Cons.IH [of "xs @ [(o1, u)]"] Cons.prems by simp
  ultimately show ?case
    using bd(1,2) mem_link_valid_rep [OF c Cons.prems(1)] MEM_ALIGN_1 [OF c]
    by (subst mem_sanity_loop.simps) (auto simp: b(1))
qed

text \<open>
  Every well-formed heap passes the source's own consistency check \<^verbatim>\<open>mem_sanity\<close>, none of whose
  assertions fails.
\<close>

theorem mem_sanity_passes:
  assumes "mem_cfg_ok c" "heap_ok c h bs"
  shows "mem_sanity c h = Some ()"
proof -
  let ?E = "MEM_SIZE_ALIGNED c"
  have "bs \<noteq> []" using assms mem_cfg_facts(6,7) [OF assms(1)] by (auto simp: heap_ok_def heap_rep_def)
  then obtain u ys where bs: "bs = [] @ (0, u) # ys"
    using assms(2) by (cases bs) (auto simp: heap_ok_def heap_rep_def)
  have rep: "heap_rep c h ([] @ (0, u) # ys)" using assms(2) bs by (simp add: heap_ok_def)
  have "mem_sanity_loop c h (of_bool u) (start ?E ys) = Some ?E"
    using mem_sanity_loop_rep [OF assms(1), of h "[(0, u)]" ys] assms(2) bs by (simp add: heap_ok_def)
  then show ?thesis
    using heap_rep_block(1) [OF rep] heap_rep_bounds(2) [OF assms(1) rep] rep MEM_ALIGN_1 [OF assms(1)]
    by (auto simp: mem_sanity_def heap_rep_def end_struct_def)
qed

theorem mem_sanity_passes_witness: "mem_sanity demo_cfg demo_heap = Some ()"
  using demo_cfg_ok demo_heap_ok by (rule mem_sanity_passes)

section \<open>Shrinking a block\<close>

text \<open>Linking a new free block in front of the blocks \<open>ws\<close>.\<close>

lemma link_free_rep:
  assumes c: "mem_cfg_ok c" and rep: "heap_rep c h (xs @ (o1, True) # ys)"
    and seg: "seg (MEM_SIZE_ALIGNED c) (structs h) q ws" "gaps_ok c (MEM_SIZE_ALIGNED c) ws"
    and p2: "o1 + SIZEOF_STRUCT_MEM c + MIN_SIZE_ALIGNED c \<le> p2" "MEM_ALIGNMENT c dvd p2"
      "p2 + SIZEOF_STRUCT_MEM c + MIN_SIZE_ALIGNED c \<le> start (MEM_SIZE_ALIGNED c) ws"
    and h1: "h1 = put_struct p2 \<lparr>mem_next = start (MEM_SIZE_ALIGNED c) ws, mem_prev = o1, mem_used = 0\<rparr> (h\<lparr>lfree := lf\<rparr>)"
    and lf: "lf = first_free (MEM_SIZE_ALIGNED c) (xs @ (o1, True) # (p2, False) # ws)"
  shows "\<exists>h2 h'. set_next o1 p2 h1 = Some h2 \<and>
    (if start (MEM_SIZE_ALIGNED c) ws \<noteq> MEM_SIZE_ALIGNED c
     then set_prev (start (MEM_SIZE_ALIGNED c) ws) p2 h2 else Some h2) = Some h' \<and>
    heap_rep c h' (xs @ (o1, True) # (p2, False) # ws)"
proof -
  let ?E = "MEM_SIZE_ALIGNED c"
  note b = heap_rep_block [OF rep] and bd = heap_rep_bounds [OF c rep] and S = mem_cfg_facts(6) [OF c]
  have le: "start ?E ws \<le> ?E" using gaps_start_le [OF seg(2)] .
  have nin: "o1 \<notin> fst ` set ws" "p2 \<notin> fst ` set ws" "?E \<notin> fst ` set ws" "o1 \<noteq> p2" "p2 \<noteq> ?E" "o1 \<noteq> ?E"
    using gaps_lower [OF seg(2), of o1] gaps_lower [OF seg(2), of p2] gaps_upper [OF seg(2), of ?E] S p2 le by linarith+
  define h2 where "h2 = put_struct o1 \<lparr>mem_next = p2, mem_prev = last_off 0 xs, mem_used = 1\<rparr> h1"
  have n1: "set_next o1 p2 h1 = Some h2"
    using nin(4) by (simp add: set_next_def b(1) h1 h2_def put_struct_def)
  have seg1: "seg ?E (structs h2) q ws" using seg(1) nin by (simp add: h1 h2_def put_struct_def)
  obtain h3 where h3: "(if start ?E ws \<noteq> ?E then set_prev (start ?E ws) p2 h2 else Some h2) = Some h3"
    "seg ?E (structs h3) p2 ws" "lfree h3 = lfree h2" "\<forall>x. x \<notin> fst ` set ws \<longrightarrow> structs h3 x = structs h2 x"
    using relink_prev [OF c seg(2) seg1] by blast
  have "structs h3 x = structs h x" if "x \<in> fst ` set xs" for x
  proof -
    have "x < o1" using bd(4) that .
    then have "x \<notin> fst ` set ws" "x \<noteq> o1" "x \<noteq> p2" using gaps_lower [OF seg(2), of x] p2 by linarith+
    then show ?thesis using h3(4) by (simp add: h1 h2_def put_struct_def)
  qed
  then have "seg o1 (structs h3) 0 xs" using b(2) seg_cong [of xs "structs h3" "structs h"] by simp
  moreover have "structs h3 o1 = structs h2 o1" "structs h3 p2 = structs h2 p2" "structs h3 ?E = structs h2 ?E"
    using h3(4) nin by auto
  ultimately have "heap_rep c h3 (xs @ (o1, True) # (p2, False) # ws)"
    using h3(2,3) rep nin p2 seg(2) lf by (auto simp: heap_rep_def h1 h2_def put_struct_def)
  then show ?thesis using h3(1) n1 by blast
qed

lemma if_lfree: "(if b then h\<lparr>lfree := x\<rparr> else h) = h\<lparr>lfree := (if b then x else lfree h)\<rparr>"
  by simp

text \<open>The first steps of \<^verbatim>\<open>mem_trim\<close> on an allocated block: it finds the size of the block.\<close>

lemma mem_trim_unfold:
  assumes c: "mem_cfg_ok c" and rep: "heap_rep c h (xs @ (o1, True) # ys)"
    and len: "len = start (MEM_SIZE_ALIGNED c) ys - (o1 + SIZEOF_STRUCT_MEM c)"
    and n: "n \<le> mem_align_request c n" "mem_align_request c n \<le> len"
    and p2: "p2 = o1 + SIZEOF_STRUCT_MEM c + mem_align_request c n"
  shows "mem_trim c (ram c + o1 + SIZEOF_STRUCT_MEM c) n h =
    (if mem_align_request c n = len then Some (ram c + o1 + SIZEOF_STRUCT_MEM c, h)
     else do {
       m2 \<leftarrow> structs h (start (MEM_SIZE_ALIGNED c) ys);
       if mem_used m2 = 0 then
         do {
           lwip_assert (start (MEM_SIZE_ALIGNED c) ys \<noteq> MEM_SIZE_ALIGNED c);
           h' \<leftarrow> do {
             h2 \<leftarrow> set_next o1 p2 (put_struct p2 \<lparr>mem_next = mem_next m2, mem_prev = o1, mem_used = 0\<rparr>
               (h\<lparr>lfree := (if lfree h = start (MEM_SIZE_ALIGNED c) ys then p2 else lfree h)\<rparr>));
             if mem_next m2 \<noteq> MEM_SIZE_ALIGNED c then set_prev (mem_next m2) p2 h2 else Some h2 };
           Some (ram c + o1 + SIZEOF_STRUCT_MEM c, h')
         }
       else if mem_align_request c n + SIZEOF_STRUCT_MEM c + MIN_SIZE_ALIGNED c \<le> len then
         do {
           lwip_assert (start (MEM_SIZE_ALIGNED c) ys \<noteq> MEM_SIZE_ALIGNED c);
           h' \<leftarrow> do {
             h2 \<leftarrow> set_next o1 p2 (put_struct p2
               \<lparr>mem_next = start (MEM_SIZE_ALIGNED c) ys, mem_prev = o1, mem_used = 0\<rparr>
               (h\<lparr>lfree := (if p2 < lfree h then p2 else lfree h)\<rparr>));
             if start (MEM_SIZE_ALIGNED c) ys \<noteq> MEM_SIZE_ALIGNED c
             then set_prev (start (MEM_SIZE_ALIGNED c) ys) p2 h2 else Some h2 };
           Some (ram c + o1 + SIZEOF_STRUCT_MEM c, h')
         }
       else Some (ram c + o1 + SIZEOF_STRUCT_MEM c, h) })"
proof -
  let ?E = "MEM_SIZE_ALIGNED c" and ?S = "SIZEOF_STRUCT_MEM c"
  note f = mem_cfg_facts [OF c] and b = heap_rep_block [OF rep] and bd = heap_rep_bounds [OF c rep]
  have "size_sub (start ?E ys) o1 = start ?E ys - o1" "size_sub (start ?E ys - o1) ?S = len"
    using bd(1,2,6) f(8) mem_size_less_64 [of ?E c] by (subst size_sub_id; simp add: len)+
  moreover have "mem_size_of c (start ?E ys - o1) = start ?E ys - o1" "mem_size_of c len = len" "mem_size_of c p2 = p2"
    using bd(1,2,6) f(8) n(2) by (auto simp: len p2 intro!: mem_size_of_id)
  moreover have "\<not> (mem_align_request c n > ?E \<or> mem_align_request c n < n)" "o1 + ?S < ?E"
    using n bd(1,2,6) f(6,11) by (auto simp: len)
  ultimately show ?thesis
    unfolding mem_trim_def using b(1) n(2) p2
    by (simp add: if_lfree Let_def cong: if_cong)
qed


lemma first_free_between:
  assumes "mem_cfg_ok c" "gaps_ok c o1 xs" "o1 \<le> p2" "p2 \<le> x"
  shows "(if p2 < first_free x xs then p2 else first_free x xs) = first_free p2 xs" (is ?lt)
    and "(if first_free x xs = x then p2 else first_free x xs) = first_free p2 xs" (is ?eq)
proof (atomize(full), cases "\<forall>b\<in>set xs. snd b")
  case True
  then show "?lt \<and> ?eq" using assms(4) by (simp add: first_free_used)
next
  case False
  then have ff: "first_free x xs = first_free p2 xs" "first_free x xs \<in> fst ` set xs"
    using first_free_indep [of xs x p2] by blast+
  have "first_free x xs < o1"
    using gaps_upper [OF assms(2) ff(2)] mem_cfg_facts(6) [OF assms(1)] by linarith
  then show "?lt \<and> ?eq" using ff(1) assms(3,4) by auto
qed

lemma first_free_ge: "gaps_ok c e ys \<Longrightarrow> start e ys \<le> first_free e ys"
proof (cases "\<forall>b\<in>set ys. snd b")
  case False
  assume "gaps_ok c e ys"
  then show ?thesis using False gaps_lower first_free_indep [of ys e 0] by blast
qed (simp add: first_free_used gaps_start_le)

lemma trim_allocs:
  assumes "mem_cfg_ok c" "heap_rep c h (xs @ (o1, True) # ys)" "p2 = o1 + SIZEOF_STRUCT_MEM c + sz"
    and "allocs c (MEM_SIZE_ALIGNED c) ws = allocs c (MEM_SIZE_ALIGNED c) ys"
    and "p = ram c + o1 + SIZEOF_STRUCT_MEM c" "len = start (MEM_SIZE_ALIGNED c) ys - (o1 + SIZEOF_STRUCT_MEM c)"
  shows "allocs c (MEM_SIZE_ALIGNED c) (xs @ (o1, True) # (p2, False) # ws) =
    insert (p, sz) (allocs c (MEM_SIZE_ALIGNED c) (xs @ (o1, True) # ys) - {(p, len)})"
proof -
  have "(p, len) \<notin> allocs c o1 xs \<union> allocs c (MEM_SIZE_ALIGNED c) ys"
    using allocs_apart(2) [OF assms(1) heap_rep_block(7) [OF assms(2)], of p len 0] assms(5) by auto
  then show ?thesis using assms(3-6) by auto
qed

text \<open>The block behind is free: its struct moves down.\<close>

lemma mem_trim_move:
  assumes c: "mem_cfg_ok c" and ok: "heap_ok c h (xs @ (o1, True) # (o2, False) # zs)"
    and n: "n \<le> mem_align_request c n" "o1 + SIZEOF_STRUCT_MEM c + mem_align_request c n < o2"
  shows "\<exists>h'. mem_trim c (ram c + o1 + SIZEOF_STRUCT_MEM c) n h = Some (ram c + o1 + SIZEOF_STRUCT_MEM c, h') \<and>
    heap_ok c h' (xs @ (o1, True) # (o1 + SIZEOF_STRUCT_MEM c + mem_align_request c n, False) # zs)"
proof -
  let ?E = "MEM_SIZE_ALIGNED c" and ?S = "SIZEOF_STRUCT_MEM c" and ?p2 = "o1 + SIZEOF_STRUCT_MEM c + mem_align_request c n"
  have rep: "heap_rep c h (xs @ (o1, True) # (o2, False) # zs)" using ok by (simp add: heap_ok_def)
  have rep2: "heap_rep c h ((xs @ [(o1, True)]) @ (o2, False) # zs)" using rep by simp
  note b = heap_rep_block [OF rep] and b2 = heap_rep_block [OF rep2] and bd2 = heap_rep_bounds [OF c rep2]
    and r = dvd_align_request [OF c, of n]
  have lf: "(if lfree h = o2 then ?p2 else lfree h) = first_free ?E (xs @ (o1, True) # (?p2, False) # zs)"
  proof -
    have "lfree h = first_free o2 xs" using rep by (simp add: heap_rep_def)
    then show ?thesis using first_free_between(2) [OF c b(4), of ?p2 o2] n(2) by (auto split: if_splits)
  qed
  obtain h2 h' where h': "set_next o1 ?p2 (put_struct ?p2 \<lparr>mem_next = start ?E zs, mem_prev = o1, mem_used = 0\<rparr>
        (h\<lparr>lfree := (if lfree h = o2 then ?p2 else lfree h)\<rparr>)) = Some h2"
    "(if start ?E zs \<noteq> ?E then set_prev (start ?E zs) ?p2 h2 else Some h2) = Some h'"
    "heap_rep c h' (xs @ (o1, True) # (?p2, False) # zs)"
    using link_free_rep [OF c rep b2(3,6) _ _ _ refl lf] r n bd2(6) b(7) mem_cfg_facts(2) [OF c] by auto
  have "mem_trim c (ram c + o1 + ?S) n h = Some (ram c + o1 + ?S, h')"
    using h'(1,2) b2(1) bd2(1,2) n
    by (subst mem_trim_unfold [OF c rep refl n(1) _ refl]) (auto split: if_splits)
  then show ?thesis using h'(3) ok by (auto simp: heap_ok_def coalesced_append coalesced_Cons)
qed

text \<open>The block behind is used, and the rest is large enough for a block of its own.\<close>

lemma mem_trim_split:
  assumes c: "mem_cfg_ok c" and ok: "heap_ok c h (xs @ (o1, True) # (o2, True) # zs)"
    and n: "n \<le> mem_align_request c n"
      "o1 + SIZEOF_STRUCT_MEM c + mem_align_request c n + SIZEOF_STRUCT_MEM c + MIN_SIZE_ALIGNED c \<le> o2"
  shows "\<exists>h'. mem_trim c (ram c + o1 + SIZEOF_STRUCT_MEM c) n h = Some (ram c + o1 + SIZEOF_STRUCT_MEM c, h') \<and>
    heap_ok c h' (xs @ (o1, True) # (o1 + SIZEOF_STRUCT_MEM c + mem_align_request c n, False) # (o2, True) # zs)"
proof -
  let ?E = "MEM_SIZE_ALIGNED c" and ?S = "SIZEOF_STRUCT_MEM c" and ?p2 = "o1 + SIZEOF_STRUCT_MEM c + mem_align_request c n"
  let ?ys = "(o2, True) # zs"
  have rep: "heap_rep c h (xs @ (o1, True) # ?ys)" using ok by (simp add: heap_ok_def)
  have rep2: "heap_rep c h ((xs @ [(o1, True)]) @ (o2, True) # zs)" using rep by simp
  note b = heap_rep_block [OF rep] and b2 = heap_rep_block [OF rep2] and bd2 = heap_rep_bounds [OF c rep2]
    and r = dvd_align_request [OF c, of n] and S = mem_cfg_facts(6) [OF c]
  have "?p2 \<le> first_free ?E ?ys" using first_free_ge [OF b(6)] n(2) by simp
  have lf: "(if ?p2 < lfree h then ?p2 else lfree h) = first_free ?E (xs @ (o1, True) # (?p2, False) # ?ys)"
  proof -
    have "lfree h = first_free (first_free ?E ?ys) xs" using rep by (simp add: heap_rep_def)
    then show ?thesis
      using first_free_between(1) [OF c b(4), of ?p2 "first_free ?E ?ys"] \<open>?p2 \<le> first_free ?E ?ys\<close>
      by (auto split: if_splits)
  qed
  obtain h2 h' where h': "set_next o1 ?p2 (put_struct ?p2 \<lparr>mem_next = start ?E ?ys, mem_prev = o1, mem_used = 0\<rparr>
        (h\<lparr>lfree := (if ?p2 < lfree h then ?p2 else lfree h)\<rparr>)) = Some h2"
    "(if start ?E ?ys \<noteq> ?E then set_prev (start ?E ?ys) ?p2 h2 else Some h2) = Some h'"
    "heap_rep c h' (xs @ (o1, True) # (?p2, False) # ?ys)"
    using link_free_rep [OF c rep b(3,6) _ _ _ refl lf] r n b(7) mem_cfg_facts(2) [OF c] by auto
  have "mem_trim c (ram c + o1 + ?S) n h = Some (ram c + o1 + ?S, h')"
    using h'(1,2) b2(1) bd2(1,2) n S
    by (subst mem_trim_unfold [OF c rep refl n(1) _ refl]) (auto split: if_splits)
  then show ?thesis using h'(3) ok by (auto simp: heap_ok_def coalesced_append coalesced_Cons)
qed

text \<open>Nothing changes when the block has the requested size or the rest is too small.\<close>

lemma mem_trim_same:
  assumes c: "mem_cfg_ok c" and rep: "heap_rep c h (xs @ (o1, True) # ys)"
    and len: "len = start (MEM_SIZE_ALIGNED c) ys - (o1 + SIZEOF_STRUCT_MEM c)"
    and n: "n \<le> mem_align_request c n" "mem_align_request c n \<le> len"
    and small: "mem_align_request c n = len \<or>
      drop_free ys = ys \<and> len < mem_align_request c n + SIZEOF_STRUCT_MEM c + MIN_SIZE_ALIGNED c"
  shows "mem_trim c (ram c + o1 + SIZEOF_STRUCT_MEM c) n h = Some (ram c + o1 + SIZEOF_STRUCT_MEM c, h)"
proof (cases "mem_align_request c n = len")
  case True
  then show ?thesis by (subst mem_trim_unfold [OF c rep len n refl]) simp
next
  case False
  have "\<exists>m. structs h (start (MEM_SIZE_ALIGNED c) ys) = Some m \<and> mem_used m \<noteq> 0"
    using rep small False by (cases ys rule: drop_free.cases) (auto simp: heap_rep_def end_struct_def)
  then show ?thesis
    using small False by (subst mem_trim_unfold [OF c rep len n refl]) auto
qed

lemma mem_trim_top:
  assumes c: "mem_cfg_ok c" and ok: "heap_ok c h bs" and mem: "(p, len) \<in> allocs c (MEM_SIZE_ALIGNED c) bs"
    and n: "n \<le> mem_align_request c n" "mem_align_request c n + SIZEOF_STRUCT_MEM c + MIN_SIZE_ALIGNED c \<le> len"
    and top: "p + len = ram c + MEM_SIZE_ALIGNED c"
  shows "mem_trim c p n h = None"
proof -
  let ?E = "MEM_SIZE_ALIGNED c" and ?S = "SIZEOF_STRUCT_MEM c"
  obtain xs o1 ys where b: "bs = xs @ (o1, True) # ys" "p = ram c + o1 + ?S" "len = start ?E ys - (o1 + ?S)"
    using mem by (rule allocs_member)
  have rep: "heap_rep c h (xs @ (o1, True) # ys)" using ok b(1) by (simp add: heap_ok_def)
  have "start ?E ys = ?E" using top b heap_rep_bounds(6) [OF c rep] by linarith
  then have ys: "ys = []" using gaps_start_eq [OF c heap_rep_block(6) [OF rep]] by simp
  show ?thesis
    unfolding b(2) using rep n(2) mem_cfg_facts(6) [OF c]
    by (subst mem_trim_unfold [OF c rep b(3) n(1) _ refl]) (auto simp: ys heap_rep_def end_struct_def)
qed

text \<open>Whether the block behind a block is free.\<close>

lemma free_behind:
  assumes c: "mem_cfg_ok c" and rep: "heap_rep c h (xs @ (o1, True) # ys)"
  shows "(start (MEM_SIZE_ALIGNED c) ys, False) \<in> set (xs @ (o1, True) # ys) \<longleftrightarrow> (\<exists>o2 zs. ys = (o2, False) # zs)"
proof -
  let ?E = "MEM_SIZE_ALIGNED c"
  note b = heap_rep_block [OF rep] and bd = heap_rep_bounds [OF c rep] and S = mem_cfg_facts(6) [OF c]
  have "(start ?E ys, False) \<notin> set xs" using bd(1) bd(4) [of "start ?E ys"] by force
  moreover have "(start ?E ys, False) \<in> set ys \<longleftrightarrow> (\<exists>o2 zs. ys = (o2, False) # zs)"
  proof (cases ys)
    case (Cons y zs)
    obtain o2 u where y: "y = (o2, u)" by (cases y)
    have "(o2, False) \<notin> set zs"
      using gaps_frame(2) [OF c, of ?E "[]" o2 u zs o2] b(6) S unfolding Cons y by force
    then show ?thesis by (auto simp: Cons y)
  qed simp
  ultimately show ?thesis by simp
qed

text \<open>
  The size of a block after \<^verbatim>\<open>mem_trim\<close> to \<open>n\<close> bytes: the aligned request when the block behind is free or the rest
  can form a block of its own, and the old size otherwise.
\<close>

definition trimmed_len :: "mem_cfg \<Rightarrow> blocks \<Rightarrow> addr \<Rightarrow> nat \<Rightarrow> nat \<Rightarrow> nat" where
  "trimmed_len c bs p len n =
     (if (p + len - ram c, False) \<in> set bs \<or>
         mem_align_request c n + SIZEOF_STRUCT_MEM c + MIN_SIZE_ALIGNED c \<le> len
      then mem_align_request c n else len)"

lemma mem_trim_spec:
  assumes c: "mem_cfg_ok c" and ok: "heap_ok c h bs" and mem: "(p, len) \<in> allocs c (MEM_SIZE_ALIGNED c) bs"
    and n: "n \<le> mem_align_request c n" "mem_align_request c n \<le> len"
    and top: "p + len \<noteq> ram c + MEM_SIZE_ALIGNED c \<or>
      len < mem_align_request c n + SIZEOF_STRUCT_MEM c + MIN_SIZE_ALIGNED c"
  shows "\<exists>h' bs'. mem_trim c p n h = Some (p, h') \<and> heap_ok c h' bs' \<and>
    allocs c (MEM_SIZE_ALIGNED c) bs' =
      insert (p, trimmed_len c bs p len n) (allocs c (MEM_SIZE_ALIGNED c) bs - {(p, len)})"
proof -
  let ?E = "MEM_SIZE_ALIGNED c" and ?S = "SIZEOF_STRUCT_MEM c" and ?r = "mem_align_request c n"
  obtain xs o1 ys where b: "bs = xs @ (o1, True) # ys" "p = ram c + o1 + ?S" "len = start ?E ys - (o1 + ?S)"
    using mem by (rule allocs_member)
  have rep: "heap_rep c h (xs @ (o1, True) # ys)" using ok b(1) by (simp add: heap_ok_def)
  note bd = heap_rep_bounds [OF c rep]
  have "p + len - ram c = start ?E ys" using b bd(6) by simp
  then have tl: "trimmed_len c bs p len n =
      (if (\<exists>o2 zs. ys = (o2, False) # zs) \<or> ?r + ?S + MIN_SIZE_ALIGNED c \<le> len then ?r else len)"
    using free_behind [OF c rep] unfolding trimmed_len_def b(1) by simp
  consider (same) "?r = len \<or> drop_free ys = ys \<and> len < ?r + ?S + MIN_SIZE_ALIGNED c" "trimmed_len c bs p len n = len"
    | (move) o2 zs where "ys = (o2, False) # zs" "?r < len" "trimmed_len c bs p len n = ?r"
    | (split) o2 zs where "ys = (o2, True) # zs" "?r + ?S + MIN_SIZE_ALIGNED c \<le> len" "trimmed_len c bs p len n = ?r"
    using n(2) top b bd(6) mem_cfg_facts(6) [OF c] tl by (cases ys rule: drop_free.cases) fastforce+
  then show ?thesis
  proof cases
    case same
    then have "mem_trim c p n h = Some (p, h)"
      unfolding b(2) by (intro mem_trim_same [OF c rep b(3) n]) auto
    moreover have "insert (p, len) (allocs c ?E bs - {(p, len)}) = allocs c ?E bs" using mem by auto
    ultimately show ?thesis using ok same(2) by (intro exI [of _ h] exI [of _ bs]) auto
  next
    case move
    have "o1 + ?S + ?r < o2" using move b(3) by simp
    then show ?thesis
      using mem_trim_move [OF c, of h xs o1 o2 zs n] ok b n move(1,3)
        trim_allocs [OF c rep refl _ b(2,3), of zs ?r] by (fastforce simp del: allocs_append)
  next
    case split
    have "o1 + ?S + ?r + ?S + MIN_SIZE_ALIGNED c \<le> o2" using split b(3) bd(6) by simp
    then show ?thesis
      using mem_trim_split [OF c, of h xs o1 o2 zs n] ok b n split(1,3)
        trim_allocs [OF c rep refl refl b(2,3), of ?r] by (fastforce simp del: allocs_append)
  qed
qed

text \<open>A request that fits into a block is not larger after alignment.\<close>

lemma trim_request:
  assumes c: "mem_cfg_ok c" and ok: "heap_ok c h bs" and mem: "(p, len) \<in> allocs c (MEM_SIZE_ALIGNED c) bs" and n: "n \<le> len"
  shows "n \<le> mem_align_request c n" "mem_align_request c n \<le> len" "p + len \<le> ram c + MEM_SIZE_ALIGNED c"
proof -
  let ?E = "MEM_SIZE_ALIGNED c" and ?S = "SIZEOF_STRUCT_MEM c" and ?A = "MEM_ALIGNMENT c"
  obtain xs o1 ys where b: "bs = xs @ (o1, True) # ys" "p = ram c + o1 + ?S" "len = start ?E ys - (o1 + ?S)"
    using mem by (rule allocs_member)
  have rep: "heap_rep c h (xs @ (o1, True) # ys)" using ok b(1) by (simp add: heap_ok_def)
  note bd = heap_rep_bounds [OF c rep] and f = mem_cfg_facts [OF c]
  have "?A dvd o1" using gaps_aligned [OF heap_rep_block(7) [OF rep]] by force
  moreover have "?A dvd start ?E ys"
    using gaps_aligned [OF heap_rep_block(6) [OF rep]] f(4) by (cases ys rule: drop_free.cases) force+
  ultimately have dvd: "?A dvd len" using f(2) by (simp add: b(3) dvd_diff_nat)
  have "?A \<le> ?S" using f(2,6) by (simp add: dvd_imp_le)
  then have "len + ?A \<le> ?E" using bd(2,6) b(3) by linarith
  moreover have "?E < 2 ^ 32" using f(8) by (simp add: mem_size_mod_def split: if_splits)
  ultimately have "n + ?A < 2 ^ 32" using n by linarith
  note a = ALIGN_SIZE_bounds [OF c this]
  have "LWIP_MEM_ALIGN_SIZE ?A n \<le> len"
  proof -
    obtain i j where ij: "LWIP_MEM_ALIGN_SIZE ?A n = ?A * i" "len = ?A * j" using a(1) dvd by (auto elim!: dvdE)
    then have "?A * i < ?A * (j + 1)" using a(3) n by simp
    then have "i \<le> j" using mult_less_cancel1 [of ?A i "j + 1"] by linarith
    then show ?thesis using ij by simp
  qed
  moreover have "mem_size_of c x = x" if "x \<le> len" for x
    using that \<open>len + ?A \<le> ?E\<close> f(8) by (intro mem_size_of_id) linarith
  ultimately show "n \<le> mem_align_request c n" "mem_align_request c n \<le> len"
    using a(2) bd(6) b(3) by (auto simp: mem_align_request_def Let_def)
  show "p + len \<le> ram c + ?E" using b bd(2,6) by linarith
qed

text \<open>
  C19: \<^verbatim>\<open>mem_trim\<close> of an allocated block to a size that is not larger returns the same address, keeps the heap
  well-formed and all other blocks, and leaves the block with exactly the aligned request when the block behind it is
  free or the rest can form a block of its own, and with its old size otherwise.  The one exception is the topmost
  block of the heap when the rest could form a block: the end marker is a used struct, and the branch for a used
  neighbour asserts that the neighbour is not the end of the heap, so the call aborts.
\<close>

theorem mem_trim_correct:
  assumes "mem_cfg_ok c" "heap_ok c h bs" "(p, len) \<in> allocs c (MEM_SIZE_ALIGNED c) bs"
    "n \<le> mem_align_request c n" "mem_align_request c n \<le> len"
  shows "if p + len = ram c + MEM_SIZE_ALIGNED c \<and> mem_align_request c n + SIZEOF_STRUCT_MEM c + MIN_SIZE_ALIGNED c \<le> len
    then mem_trim c p n h = None
    else \<exists>h' bs'. mem_trim c p n h = Some (p, h') \<and> heap_ok c h' bs' \<and>
      allocs c (MEM_SIZE_ALIGNED c) bs' =
        insert (p, trimmed_len c bs p len n) (allocs c (MEM_SIZE_ALIGNED c) bs - {(p, len)})"
  using mem_trim_top [OF assms(1-4)] mem_trim_spec [OF assms] by auto

theorem mem_trim_correct_witness:
  "(\<exists>h' bs'. mem_trim demo_cfg 4104 40 demo_heap = Some (4104, h') \<and> heap_ok demo_cfg h' bs' \<and>
      (4104, 40) \<in> allocs demo_cfg (MEM_SIZE_ALIGNED demo_cfg) bs') \<and>
    mem_trim demo_cfg 4312 100 demo_heap = None"
proof -
  have r: "mem_align_request demo_cfg 40 = 40" "mem_align_request demo_cfg 100 = 100"
    by (simp_all add: mem_align_request_def demo_cfg_values LWIP_MEM_ALIGN_SIZE_def mem_size_of_def mem_size_mod_def)
  have "mem_trim demo_cfg 4312 100 demo_heap = None"
    using mem_trim_correct [OF demo_cfg_ok demo_heap_ok, of 4312 1384 100] r
    by (simp add: demo_cfg_values demo_blocks_def)
  moreover have "trimmed_len demo_cfg demo_blocks 4104 100 40 = 40" using r
    by (simp add: trimmed_len_def demo_cfg_values demo_blocks_def)
  ultimately show ?thesis
    using mem_trim_correct [OF demo_cfg_ok demo_heap_ok, of 4104 100 40] r
    by (simp add: demo_cfg_values demo_blocks_def) blast
qed

section \<open>The allocator interface\<close>

text \<open>
  What the callers of an allocator rely on: every request returns, a block that is handed out is
  large enough and overlaps no other block, and releasing a block that is handed out succeeds.
  The abstract state \<open>'b\<close> records the areas handed out.
\<close>

locale allocator =
  fixes rep :: "'h \<Rightarrow> 'b \<Rightarrow> bool"
    and areas :: "'b \<Rightarrow> (addr \<times> nat) set"
    and request_ok :: "nat \<Rightarrow> bool"
    and alloc :: "nat \<Rightarrow> 'h \<Rightarrow> (addr \<times> 'h) option"
    and release :: "addr \<Rightarrow> 'h \<Rightarrow> 'h option"
  assumes alloc_law: "rep h b \<Longrightarrow> request_ok n \<Longrightarrow>
      \<exists>p h' b'. alloc n h = Some (p, h') \<and> rep h' b' \<and>
        (if p = 0 then areas b' = areas b
         else \<exists>len\<ge>n. areas b' = insert (p, len) (areas b) \<and>
           (\<forall>(a, m)\<in>areas b. a + m \<le> p \<or> p + len \<le> a) \<and> (p, len) \<notin> areas b)"
    and release_law: "rep h b \<Longrightarrow> (p, len) \<in> areas b \<Longrightarrow>
      \<exists>h' b'. release p h = Some h' \<and> rep h' b' \<and> areas b' = areas b - {(p, len)}"
begin

lemma alloc_release:
  assumes "rep h b" "request_ok n" "alloc n h = Some (p, h')" "p \<noteq> 0"
  shows "\<exists>h'' b''. release p h' = Some h'' \<and> rep h'' b'' \<and> areas b'' = areas b"
proof -
  obtain len b' where b': "rep h' b'" "areas b' = insert (p, len) (areas b)" "(p, len) \<notin> areas b"
    using alloc_law [OF assms(1,2)] assms(3,4) by auto
  then show ?thesis using release_law [OF b'(1), of p len] by auto
qed

end

interpretation heap: allocator "\<lambda>h bs. mem_cfg_ok c \<and> heap_ok c h bs" "allocs c (MEM_SIZE_ALIGNED c)"
  "\<lambda>n. 0 < n" "mem_malloc c" "mem_free c" for c
proof
  fix h bs and n :: nat
  assume *: "mem_cfg_ok c \<and> heap_ok c h bs" "0 < n"
  then obtain p h' bs' where m: "mem_malloc c n h = Some (p, h')" "heap_ok c h' bs'"
    "if p = 0 then h' = h \<and> bs' = bs
     else MEM_ALIGNMENT c dvd p \<and> ram c \<le> p \<and>
       (\<exists>len\<ge>n. p + len \<le> ram c + MEM_SIZE_ALIGNED c \<and>
         allocs c (MEM_SIZE_ALIGNED c) bs' = insert (p, len) (allocs c (MEM_SIZE_ALIGNED c) bs) \<and>
         (\<forall>(a, m)\<in>allocs c (MEM_SIZE_ALIGNED c) bs. a + m \<le> p \<or> p + len \<le> a))"
    using mem_malloc_spec [of c h bs n] by blast
  show "\<exists>p h' b'. mem_malloc c n h = Some (p, h') \<and> (mem_cfg_ok c \<and> heap_ok c h' b') \<and>
      (if p = 0 then allocs c (MEM_SIZE_ALIGNED c) b' = allocs c (MEM_SIZE_ALIGNED c) bs
       else \<exists>len\<ge>n. allocs c (MEM_SIZE_ALIGNED c) b' = insert (p, len) (allocs c (MEM_SIZE_ALIGNED c) bs) \<and>
         (\<forall>(a, m)\<in>allocs c (MEM_SIZE_ALIGNED c) bs. a + m \<le> p \<or> p + len \<le> a) \<and>
         (p, len) \<notin> allocs c (MEM_SIZE_ALIGNED c) bs)"
    using * m by (intro exI [of _ p] exI [of _ h'] exI [of _ bs']) (fastforce split: if_splits)
next
  fix h bs p len
  assume "mem_cfg_ok c \<and> heap_ok c h bs" "(p, len) \<in> allocs c (MEM_SIZE_ALIGNED c) bs"
  then show "\<exists>h' b'. mem_free c p h = Some h' \<and> (mem_cfg_ok c \<and> heap_ok c h' b') \<and>
      allocs c (MEM_SIZE_ALIGNED c) b' = allocs c (MEM_SIZE_ALIGNED c) bs - {(p, len)}"
    using mem_free_spec [of c h bs p len] by blast
qed

text \<open>
  \<^verbatim>\<open>mem_init\<close> leaves a well-formed heap with a single free block, in which nothing is allocated.
\<close>

theorem mem_init_correct:
  assumes "mem_cfg_ok c"
  shows "\<exists>h. mem_init c = Some h \<and> heap_ok c h [(0, False)] \<and> allocs c (MEM_SIZE_ALIGNED c) [(0, False)] = {}"
  using mem_init_ok [OF assms] by simp

theorem mem_init_correct_witness: "\<exists>h. mem_init demo_cfg = Some h \<and> heap_ok demo_cfg h [(0, False)]"
  using mem_init_correct [OF demo_cfg_ok] by blast

end
