(* ===== verification/Memp.thy ===== *)
theory Memp
  imports Mem
begin

text \<open>
  The fixed-size pools of \<^verbatim>\<open>lwip/src/core/memp.c\<close>, without overflow guards and statistics, so that
  \<^verbatim>\<open>MEMP_SIZE\<close> is 0 and the free list runs through the elements themselves.  The state of a pool is
  the head \<^verbatim>\<open>*desc->tab\<close> of its free list and the \<^verbatim>\<open>next\<close> fields of the \<^verbatim>\<open>struct memp\<close> in its free
  elements.  Handing an element out removes its \<^verbatim>\<open>next\<close> field: the caller owns the memory then.
\<close>

section \<open>State and operations\<close>

datatype memp_t =
    MEMP_RAW_PCB | MEMP_UDP_PCB | MEMP_TCP_PCB | MEMP_TCP_PCB_LISTEN | MEMP_TCP_SEG
  | MEMP_REASSDATA | MEMP_FRAG_PBUF | MEMP_NETBUF | MEMP_NETCONN | MEMP_TCPIP_MSG_API
  | MEMP_TCPIP_MSG_INPKT | MEMP_ARP_QUEUE | MEMP_IGMP_GROUP | MEMP_SYS_TIMEOUT | MEMP_NETDB
  | MEMP_PBUF | MEMP_PBUF_POOL | MEMP_MAX

record memp_desc =
  desc_size :: nat
  desc_num :: nat
  desc_base :: addr

record memp_pool =
  tab :: addr
  nexts :: "addr \<rightharpoonup> addr"

definition MEMP_SIZE :: nat where
  "MEMP_SIZE = 0"

fun memp_init_loop :: "memp_desc \<Rightarrow> nat \<Rightarrow> addr \<Rightarrow> memp_pool \<Rightarrow> memp_pool" where
  "memp_init_loop desc 0 memp pool = pool"
| "memp_init_loop desc (Suc i) memp pool =
     memp_init_loop desc i (memp + MEMP_SIZE + desc_size desc)
       \<lparr>tab = memp, nexts = (nexts pool)(memp \<mapsto> tab pool)\<rparr>"

definition memp_init_pool :: "mem_cfg \<Rightarrow> memp_desc \<Rightarrow> memp_pool \<Rightarrow> memp_pool" where
  "memp_init_pool c desc pool =
     (let pool = pool\<lparr>tab := 0\<rparr>;
          memp = LWIP_MEM_ALIGN (MEM_ALIGNMENT c) (desc_base desc)
      in memp_init_loop desc (desc_num desc) memp pool)"

definition do_memp_malloc_pool :: "mem_cfg \<Rightarrow> memp_pool \<Rightarrow> (addr \<times> memp_pool) option" where
  "do_memp_malloc_pool c pool =
     (let memp = tab pool in
      if memp \<noteq> 0 then
        do {
          nxt \<leftarrow> nexts pool memp;
          lwip_assert (memp mod MEM_ALIGNMENT c = 0);
          Some (memp + MEMP_SIZE, \<lparr>tab = nxt, nexts = (nexts pool)(memp := None)\<rparr>)
        }
      else Some (0, pool))"

definition do_memp_free_pool :: "mem_cfg \<Rightarrow> addr \<Rightarrow> memp_pool \<Rightarrow> memp_pool option" where
  "do_memp_free_pool c mem pool =
     do {
       lwip_assert (mem mod MEM_ALIGNMENT c = 0);
       let memp = mem - MEMP_SIZE;
       Some \<lparr>tab = memp, nexts = (nexts pool)(memp \<mapsto> tab pool)\<rparr>
     }"

text \<open>\<^verbatim>\<open>memp_malloc_pool\<close> and \<^verbatim>\<open>memp_free_pool\<close> on a descriptor that is not \<^verbatim>\<open>NULL\<close>.\<close>

definition memp_malloc_pool :: "mem_cfg \<Rightarrow> memp_pool \<Rightarrow> (addr \<times> memp_pool) option" where
  "memp_malloc_pool c pool = do_memp_malloc_pool c pool"

definition memp_free_pool :: "mem_cfg \<Rightarrow> addr \<Rightarrow> memp_pool \<Rightarrow> memp_pool option" where
  "memp_free_pool c mem pool = (if mem = 0 then Some pool else do_memp_free_pool c mem pool)"

text \<open>The built-in pools; \<^verbatim>\<open>LWIP_ERROR\<close> runs its handler when the type is out of range.\<close>

type_synonym memp_pools = "memp_t \<Rightarrow> memp_pool"

definition memp_init :: "mem_cfg \<Rightarrow> (memp_t \<Rightarrow> memp_desc) \<Rightarrow> memp_pools \<Rightarrow> memp_pools" where
  "memp_init c descs pools = (\<lambda>i. if i \<noteq> MEMP_MAX then memp_init_pool c (descs i) (pools i) else pools i)"

definition memp_malloc :: "mem_cfg \<Rightarrow> memp_t \<Rightarrow> memp_pools \<Rightarrow> (addr \<times> memp_pools) option" where
  "memp_malloc c t pools =
     (if t = MEMP_MAX then Some (0, pools)
      else do { (memp, pool) \<leftarrow> do_memp_malloc_pool c (pools t); Some (memp, pools(t := pool)) })"

definition memp_free :: "mem_cfg \<Rightarrow> memp_t \<Rightarrow> addr \<Rightarrow> memp_pools \<Rightarrow> memp_pools option" where
  "memp_free c t mem pools =
     (if t = MEMP_MAX then Some pools
      else if mem = 0 then Some pools
      else do { pool \<leftarrow> do_memp_free_pool c mem (pools t); Some (pools(t := pool)) })"

text \<open>Floyd's cycle search on the free list, with the slow pointer \<open>t\<close> and the fast pointer \<open>h\<close>.\<close>

partial_function (option) memp_sanity_loop :: "(addr \<rightharpoonup> addr) \<Rightarrow> addr \<Rightarrow> addr \<Rightarrow> bool option" where
  "memp_sanity_loop nx t h =
     (if t \<noteq> 0 \<and> h \<noteq> 0 then
        if t = h then Some False
        else
          do {
            t' \<leftarrow> nx t;
            h1 \<leftarrow> nx h;
            h' \<leftarrow> (if h1 \<noteq> 0 then nx h1 else Some 0);
            memp_sanity_loop nx t' h'
          }
      else Some True)"

definition memp_sanity :: "memp_pool \<Rightarrow> bool option" where
  "memp_sanity pool =
     (if tab pool \<noteq> 0 then
        do { h \<leftarrow> nexts pool (tab pool); memp_sanity_loop (nexts pool) (tab pool) h }
      else Some True)"

section \<open>The free list\<close>

fun flist :: "(addr \<rightharpoonup> addr) \<Rightarrow> addr \<Rightarrow> addr list \<Rightarrow> bool" where
  "flist nx p [] \<longleftrightarrow> p = 0"
| "flist nx p (x # xs) \<longleftrightarrow> p = x \<and> x \<noteq> 0 \<and> (\<exists>q. nx x = Some q \<and> flist nx q xs)"

lemma flist_upd [simp]: "x \<notin> set xs \<Longrightarrow> flist (nx(x := v)) p xs = flist nx p xs"
  by (induction xs arbitrary: p) auto

text \<open>The elements of a pool, and what it means that a pool state has the free list \<open>xs\<close>.\<close>

definition pool_start :: "mem_cfg \<Rightarrow> memp_desc \<Rightarrow> addr" where
  "pool_start c desc = LWIP_MEM_ALIGN (MEM_ALIGNMENT c) (desc_base desc)"

definition elems :: "mem_cfg \<Rightarrow> memp_desc \<Rightarrow> addr set" where
  "elems c desc = (\<lambda>i. pool_start c desc + i * desc_size desc) ` {..<desc_num desc}"

definition desc_ok :: "mem_cfg \<Rightarrow> memp_desc \<Rightarrow> bool" where
  "desc_ok c desc \<longleftrightarrow>
     mem_cfg_ok c \<and> 0 < desc_size desc \<and> MEM_ALIGNMENT c dvd desc_size desc \<and> 0 < desc_base desc \<and>
     desc_base desc + MEM_ALIGNMENT c < 2 ^ 64"

definition pool_rep :: "mem_cfg \<Rightarrow> memp_desc \<Rightarrow> memp_pool \<Rightarrow> addr list \<Rightarrow> bool" where
  "pool_rep c desc pool xs \<longleftrightarrow>
     flist (nexts pool) (tab pool) xs \<and> distinct xs \<and> set xs \<subseteq> elems c desc"

definition handed_out :: "mem_cfg \<Rightarrow> memp_desc \<Rightarrow> addr list \<Rightarrow> (addr \<times> nat) set" where
  "handed_out c desc xs = (\<lambda>p. (p, desc_size desc)) ` (elems c desc - set xs)"

lemma pool_start_facts:
  assumes "desc_ok c desc" shows "0 < pool_start c desc" "MEM_ALIGNMENT c dvd pool_start c desc"
proof -
  have c: "mem_cfg_ok c" "0 < desc_base desc" "desc_base desc + MEM_ALIGNMENT c < 2 ^ 64"
    using assms by (auto simp: desc_ok_def)
  note a = align_up [OF mem_cfg_facts(1) [OF c(1)], of "desc_base desc"]
  show "0 < pool_start c desc" using a c(2) unfolding pool_start_def MEM_ALIGN [OF c(1,3)] by linarith
  show "MEM_ALIGNMENT c dvd pool_start c desc" unfolding pool_start_def MEM_ALIGN [OF c(1,3)] by simp
qed

lemma elem_facts:
  assumes "desc_ok c desc" "p \<in> elems c desc" shows "0 < p" "p mod MEM_ALIGNMENT c = 0"
  using assms pool_start_facts [OF assms(1)] by (auto simp: elems_def desc_ok_def)

lemma elems_apart:
  assumes "desc_ok c desc" "p \<in> elems c desc" "q \<in> elems c desc" "p \<noteq> q"
  shows "p + desc_size desc \<le> q \<or> q + desc_size desc \<le> p"
proof -
  obtain i j where ij: "p = pool_start c desc + i * desc_size desc" "q = pool_start c desc + j * desc_size desc"
    using assms(2,3) by (auto simp: elems_def)
  then have "i < j \<or> j < i" using assms(4) by (metis linorder_neqE_nat)
  then show ?thesis
  proof
    assume "i < j"
    then have "Suc i * desc_size desc \<le> j * desc_size desc" by (intro mult_le_mono1) simp
    then show ?thesis by (simp add: ij)
  next
    assume "j < i"
    then have "Suc j * desc_size desc \<le> i * desc_size desc" by (intro mult_le_mono1) simp
    then show ?thesis by (simp add: ij)
  qed
qed

section \<open>Initialisation, allocation, release\<close>

lemma memp_init_loop_rep:
  assumes "flist (nexts pool) (tab pool) xs" "distinct xs" "\<forall>x\<in>set xs. x < memp" "0 < memp" "0 < desc_size desc"
  shows "\<exists>ys. flist (nexts (memp_init_loop desc n memp pool)) (tab (memp_init_loop desc n memp pool)) ys \<and>
    distinct ys \<and> set ys = set xs \<union> (\<lambda>i. memp + i * desc_size desc) ` {..<n}"
  using assms
proof (induction desc n memp pool arbitrary: xs rule: memp_init_loop.induct)
  case (2 desc i memp pool)
  let ?pool = "\<lparr>tab = memp, nexts = (nexts pool)(memp \<mapsto> tab pool)\<rparr>"
  have f: "flist (nexts ?pool) (tab ?pool) (memp # xs)" "distinct (memp # xs)" using "2.prems" by auto
  have "\<forall>x\<in>set (memp # xs). x < memp + MEMP_SIZE + desc_size desc" "0 < memp + MEMP_SIZE + desc_size desc"
    using "2.prems" by (fastforce, simp)
  from "2.IH" [OF f this "2.prems"(5)]
  obtain ys where "flist (nexts (memp_init_loop desc (Suc i) memp pool)) (tab (memp_init_loop desc (Suc i) memp pool)) ys"
    "distinct ys" "set ys = set (memp # xs) \<union> (\<lambda>j. memp + MEMP_SIZE + desc_size desc + j * desc_size desc) ` {..<i}"
    unfolding memp_init_loop.simps by blast
  moreover have "(\<lambda>j. memp + j * desc_size desc) ` {..<Suc i} =
      insert memp ((\<lambda>j. memp + MEMP_SIZE + desc_size desc + j * desc_size desc) ` {..<i})"
    unfolding lessThan_Suc_eq_insert_0 image_insert image_image by (simp add: MEMP_SIZE_def add.assoc)
  ultimately show ?case by auto
qed auto

lemma memp_init_pool_rep:
  assumes "desc_ok c desc"
  shows "\<exists>xs. pool_rep c desc (memp_init_pool c desc pool) xs \<and> set xs = elems c desc"
proof -
  have "0 < pool_start c desc" "0 < desc_size desc" using pool_start_facts [OF assms] assms by (auto simp: desc_ok_def)
  then show ?thesis
    using memp_init_loop_rep [of "pool\<lparr>tab := 0\<rparr>" "[]" "pool_start c desc" desc "desc_num desc"]
    by (auto simp: pool_rep_def memp_init_pool_def elems_def pool_start_def Let_def)
qed

lemma memp_malloc_Nil: "pool_rep c desc pool [] \<Longrightarrow> do_memp_malloc_pool c pool = Some (0, pool)"
  by (simp add: pool_rep_def do_memp_malloc_pool_def)

lemma memp_malloc_Cons:
  assumes "desc_ok c desc" "pool_rep c desc pool (x # xs)"
  shows "\<exists>pool'. do_memp_malloc_pool c pool = Some (x, pool') \<and> pool_rep c desc pool' xs"
  using assms elem_facts(2) [OF assms(1), of x]
  by (auto simp: pool_rep_def do_memp_malloc_pool_def MEMP_SIZE_def)

lemma memp_free_rep:
  assumes "desc_ok c desc" "pool_rep c desc pool xs" "p \<in> elems c desc" "p \<notin> set xs"
  shows "\<exists>pool'. do_memp_free_pool c p pool = Some pool' \<and> pool_rep c desc pool' (p # xs)"
  using assms elem_facts [OF assms(1,3)]
  by (auto simp: pool_rep_def do_memp_free_pool_def MEMP_SIZE_def)

interpretation pool: allocator "\<lambda>pool xs. desc_ok c desc \<and> pool_rep c desc pool xs" "handed_out c desc"
  "\<lambda>n. 0 < n \<and> n \<le> desc_size desc" "\<lambda>n. do_memp_malloc_pool c" "do_memp_free_pool c" for c desc
proof
  fix pool xs and n :: nat
  assume *: "desc_ok c desc \<and> pool_rep c desc pool xs" "0 < n \<and> n \<le> desc_size desc"
  show "\<exists>p pool' b'. do_memp_malloc_pool c pool = Some (p, pool') \<and> (desc_ok c desc \<and> pool_rep c desc pool' b') \<and>
      (if p = 0 then handed_out c desc b' = handed_out c desc xs
       else \<exists>len\<ge>n. handed_out c desc b' = insert (p, len) (handed_out c desc xs) \<and>
         (\<forall>(a, m)\<in>handed_out c desc xs. a + m \<le> p \<or> p + len \<le> a) \<and> (p, len) \<notin> handed_out c desc xs)"
  proof (cases xs)
    case Nil
    then show ?thesis using * memp_malloc_Nil [of c desc pool] by auto
  next
    case (Cons x ys)
    then obtain pool' where p: "do_memp_malloc_pool c pool = Some (x, pool')" "pool_rep c desc pool' ys"
      using memp_malloc_Cons [of c desc pool x ys] * by auto
    have x: "x \<in> elems c desc" "x \<notin> set ys" "x \<noteq> 0" using * Cons elem_facts(1) [of c desc x] by (auto simp: pool_rep_def)
    have "handed_out c desc ys = insert (x, desc_size desc) (handed_out c desc xs)" using x by (auto simp: handed_out_def Cons)
    moreover have "\<forall>(a, m)\<in>handed_out c desc xs. a + m \<le> x \<or> x + desc_size desc \<le> a"
      using elems_apart [of c desc _ x] * x(1) by (fastforce simp: handed_out_def Cons)
    moreover have "(x, desc_size desc) \<notin> handed_out c desc xs" by (auto simp: handed_out_def Cons)
    ultimately show ?thesis using * p x(3) by (intro exI [of _ x] exI [of _ pool'] exI [of _ ys]) auto
  qed
next
  fix pool xs p len
  assume *: "desc_ok c desc \<and> pool_rep c desc pool xs" "(p, len) \<in> handed_out c desc xs"
  then have p: "p \<in> elems c desc" "p \<notin> set xs" "len = desc_size desc" by (auto simp: handed_out_def)
  then have "handed_out c desc (p # xs) = handed_out c desc xs - {(p, len)}" by (auto simp: handed_out_def)
  then show "\<exists>pool' b'. do_memp_free_pool c p pool = Some pool' \<and> (desc_ok c desc \<and> pool_rep c desc pool' b') \<and>
      handed_out c desc b' = handed_out c desc xs - {(p, len)}"
    using memp_free_rep [of c desc pool xs p] * p by blast
qed

section \<open>The cycle search\<close>

text \<open>A sequence that follows the links from the head, staying at \<^verbatim>\<open>NULL\<close> once it is reached.\<close>

definition follows :: "(addr \<rightharpoonup> addr) \<Rightarrow> (nat \<Rightarrow> addr) \<Rightarrow> bool" where
  "follows nx g \<longleftrightarrow> (\<forall>n. if g n = 0 then g (Suc n) = 0 else nx (g n) = Some (g (Suc n)))"

lemma follows_zero: "follows nx g \<Longrightarrow> g n = 0 \<Longrightarrow> g (n + k) = 0"
  by (induction k) (auto simp: follows_def)

lemma sanity_step:
  assumes "follows nx g"
  shows "memp_sanity_loop nx (g k) (g (2 * k + 1)) =
    (if g (2 * k + 1) = 0 then Some True else if g k = g (2 * k + 1) then Some False
     else memp_sanity_loop nx (g (Suc k)) (g (2 * Suc k + 1)))"
proof (cases "g (2 * k + 1) = 0")
  case True
  then show ?thesis by (subst memp_sanity_loop.simps) simp
next
  case False
  have nz: "g k \<noteq> 0"
  proof
    assume "g k = 0"
    then have "g (k + (k + 1)) = 0" by (rule follows_zero [OF assms])
    with False show False by (simp add: mult_2)
  qed
  have "nx (g k) = Some (g (Suc k))" using assms nz by (auto simp: follows_def)
  moreover have "nx (g (2 * k + 1)) = Some (g (2 * k + 2))"
    using assms False by (auto simp: follows_def dest: spec [of _ "2 * k + 1"])
  moreover have "(if g (2 * k + 2) \<noteq> 0 then nx (g (2 * k + 2)) else Some 0) = Some (g (2 * Suc k + 1))"
    using assms by (auto simp: follows_def dest: spec [of _ "2 * k + 2"])
  ultimately show ?thesis using False nz by (subst memp_sanity_loop.simps) (auto split: if_splits)
qed

lemma sanity_ends:
  assumes f: "follows nx g" and z: "g (2 * m + 1) = 0" and d: "\<And>i j. i < j \<Longrightarrow> g j \<noteq> 0 \<Longrightarrow> g i \<noteq> g j"
  shows "k \<le> m \<Longrightarrow> memp_sanity_loop nx (g k) (g (2 * k + 1)) = Some True"
proof (induction "m - k" arbitrary: k)
  case 0
  then show ?case using z sanity_step [OF f, of k] by simp
next
  case (Suc x)
  then have "memp_sanity_loop nx (g (Suc k)) (g (2 * Suc k + 1)) = Some True" by (intro Suc.hyps(1)) auto
  then show ?case using sanity_step [OF f, of k] d [of k "2 * k + 1"] by auto
qed

lemma sanity_meets:
  assumes f: "follows nx g" and nz: "\<And>n. g n \<noteq> 0" and m: "g m = g (2 * m + 1)"
  shows "k \<le> m \<Longrightarrow> memp_sanity_loop nx (g k) (g (2 * k + 1)) = Some False"
proof (induction "m - k" arbitrary: k)
  case 0
  then show ?case using m nz sanity_step [OF f, of k] by simp
next
  case (Suc x)
  then have "memp_sanity_loop nx (g (Suc k)) (g (2 * Suc k + 1)) = Some False" by (intro Suc.hyps(1)) auto
  then show ?case using sanity_step [OF f, of k] nz by auto
qed

lemma periodic_meets:
  fixes g :: "nat \<Rightarrow> addr"
  assumes "0 < l" "\<And>n. g (n + l) = g n"
  shows "g (l - 1) = g (2 * (l - 1) + 1)"
proof -
  have "2 * (l - 1) + 1 = (l - 1) + l" using assms(1) by simp
  then show ?thesis using assms(2) [of "l - 1"] by (simp only:)
qed

definition nth0 :: "addr list \<Rightarrow> nat \<Rightarrow> addr" where
  "nth0 xs n = (if n < length xs then xs ! n else 0)"

lemma nth0_simps [simp]: "nth0 (x # xs) 0 = x" "nth0 (x # xs) (Suc n) = nth0 xs n" "nth0 [] n = 0"
  by (simp_all add: nth0_def)

lemma flist_follows: "flist nx p xs \<Longrightarrow> follows nx (nth0 xs) \<and> nth0 xs 0 = p \<and> 0 \<notin> set xs"
proof (induction xs arbitrary: p)
  case (Cons x xs)
  then obtain q where q: "nx x = Some q" "flist nx q xs" "x \<noteq> 0" "p = x" by auto
  then have IH: "follows nx (nth0 xs)" "nth0 xs 0 = q" "0 \<notin> set xs" using Cons.IH [OF q(2)] by auto
  have "if nth0 (x # xs) n = 0 then nth0 (x # xs) (Suc n) = 0
      else nx (nth0 (x # xs) n) = Some (nth0 (x # xs) (Suc n))" for n
    using IH q by (cases n) (auto simp: follows_def)
  then have "follows nx (nth0 (x # xs))" unfolding follows_def by blast
  then show ?case using q IH(3) by simp
qed (auto simp: follows_def)

lemma memp_sanity_follows:
  "follows (nexts pool) g \<Longrightarrow> g 0 = tab pool \<Longrightarrow> tab pool \<noteq> 0 \<Longrightarrow>
   memp_sanity pool = memp_sanity_loop (nexts pool) (g 0) (g (2 * 0 + 1))"
  by (auto simp: memp_sanity_def follows_def dest: spec [of _ 0])

text \<open>
  \<^verbatim>\<open>memp_sanity\<close>, Floyd's cycle search, returns on every well-formed pool and accepts its free list.
\<close>

theorem memp_sanity_accepts:
  assumes "pool_rep c desc pool xs"
  shows "memp_sanity pool = Some True"
proof (cases "tab pool = 0")
  case False
  have f: "follows (nexts pool) (nth0 xs)" "nth0 xs 0 = tab pool" "0 \<notin> set xs" "distinct xs"
    using assms flist_follows [of "nexts pool" "tab pool" xs] by (auto simp: pool_rep_def)
  have "nth0 xs j \<noteq> 0 \<Longrightarrow> i < j \<Longrightarrow> nth0 xs i \<noteq> nth0 xs j" for i j
    using f(4) by (auto simp: nth0_def nth_eq_iff_index_eq split: if_splits)
  then have "memp_sanity_loop (nexts pool) (nth0 xs 0) (nth0 xs (2 * 0 + 1)) = Some True"
    by (intro sanity_ends [OF f(1), of "length xs"]) (auto simp: nth0_def)
  then show ?thesis using memp_sanity_follows [OF f(1,2) False] by simp
qed (simp add: memp_sanity_def)

theorem memp_sanity_accepts_witness:
  "memp_sanity \<lparr>tab = 4096, nexts = [4096 \<mapsto> 4104, 4104 \<mapsto> 0]\<rparr> = Some True"
proof (rule memp_sanity_accepts)
  have "pool_start demo_cfg \<lparr>desc_size = 8, desc_num = 2, desc_base = 4096\<rparr> = 4096"
    by (simp add: pool_start_def LWIP_MEM_ALIGN_def demo_cfg_values)
  then show "pool_rep demo_cfg \<lparr>desc_size = 8, desc_num = 2, desc_base = 4096\<rparr>
      \<lparr>tab = 4096, nexts = [4096 \<mapsto> 4104, 4104 \<mapsto> 0]\<rparr> [4096, 4104]"
    by (auto simp: pool_rep_def elems_def image_iff)
qed

text \<open>The links of the elements up to \<open>p\<close>, once \<open>p\<close> points back to the head.\<close>

lemma free_ring:
  assumes "flist nx q (as @ p # bs)" "p \<notin> set as" "i < length (p # as)"
  shows "(nx(p \<mapsto> q)) ((p # as) ! i) = Some ((p # as) ! (Suc i mod length (p # as))) \<and> (p # as) ! i \<noteq> 0"
proof -
  have f: "follows nx (nth0 (as @ p # bs))" "nth0 (as @ p # bs) 0 = q" "0 \<notin> set (as @ p # bs)"
    using flist_follows [OF assms(1)] by auto
  show ?thesis
  proof (cases i)
    case 0
    then show ?thesis using f(2,3) by (cases as) (auto simp: nth0_def)
  next
    case (Suc j)
    then have "j < length as" using assms(3) by simp
    moreover from this have "as ! j \<in> set as" by (rule nth_mem)
    moreover have "0 \<notin> set as" using f(3) by simp
    ultimately have "as ! j \<noteq> p" "as ! j \<noteq> 0" using assms(2) by metis+
    with \<open>j < length as\<close> have j: "j < length as" "as ! j \<noteq> p" "as ! j \<noteq> 0" by simp_all
    have "nx (as ! j) = Some (nth0 (as @ p # bs) (Suc j))"
      using f(1) j by (auto simp: follows_def nth0_def nth_append dest: spec [of _ j])
    moreover have "nth0 (as @ p # bs) (Suc j) = (p # as) ! (Suc i mod length (p # as))"
      using j(1) by (cases "Suc j = length as") (auto simp: nth0_def nth_append Suc)
    ultimately show ?thesis using j Suc by simp
  qed
qed

text \<open>
  A double free is caught by \<^verbatim>\<open>memp_sanity\<close>: returning an element that is already in the free list
  closes the list to a cycle, on which the search returns and reports it.
\<close>

theorem memp_double_free_caught:
  assumes "desc_ok c desc" "pool_rep c desc pool xs" "p \<in> set xs"
  shows "\<exists>pool'. do_memp_free_pool c p pool = Some pool' \<and> memp_sanity pool' = Some False"
proof -
  obtain as bs where xs: "xs = as @ p # bs" "p \<notin> set as" using split_list_first [OF assms(3)] by auto
  have p: "p \<noteq> 0" "p mod MEM_ALIGNMENT c = 0" using assms elem_facts [OF assms(1), of p] by (auto simp: pool_rep_def)
  define nx where "nx = (nexts pool)(p \<mapsto> tab pool)"
  define ys where "ys = p # as"
  define g where "g n = ys ! (n mod length ys)" for n
  have fl: "flist (nexts pool) (tab pool) (as @ p # bs)" using assms(2) xs(1) by (simp add: pool_rep_def)
  have ring: "nx (ys ! i) = Some (g (Suc i)) \<and> ys ! i \<noteq> 0" if "i < length ys" for i
    unfolding g_def nx_def ys_def using free_ring [OF fl xs(2)] that unfolding ys_def by blast
  have "follows nx g" unfolding follows_def
  proof
    fix n
    have i: "n mod length ys < length ys" by (simp add: ys_def)
    have "g (Suc (n mod length ys)) = g (Suc n)" by (simp add: g_def mod_Suc_eq)
    then show "if g n = 0 then g (Suc n) = 0 else nx (g n) = Some (g (Suc n))"
      using ring [OF i] by (simp add: g_def)
  qed
  moreover have "g n \<noteq> 0" for n using ring [of "n mod length ys"] by (simp add: g_def ys_def)
  moreover have "g (length ys - 1) = g (2 * (length ys - 1) + 1)"
    by (rule periodic_meets) (simp add: ys_def, simp add: g_def)
  ultimately have "memp_sanity_loop nx (g 0) (g (2 * 0 + 1)) = Some False"
    by (rule sanity_meets) simp
  then have "memp_sanity \<lparr>tab = p, nexts = nx\<rparr> = Some False"
    using memp_sanity_follows [of "\<lparr>tab = p, nexts = nx\<rparr>" g] \<open>follows nx g\<close> p(1) by (simp add: g_def ys_def)
  then show ?thesis using p by (simp add: do_memp_free_pool_def MEMP_SIZE_def nx_def)
qed


definition demo_desc :: memp_desc where
  "demo_desc = \<lparr>desc_size = 8, desc_num = 3, desc_base = 4096\<rparr>"

lemma demo_desc_ok: "desc_ok demo_cfg demo_desc" "elems demo_cfg demo_desc = {4096, 4104, 4112}"
proof -
  have "pool_start demo_cfg demo_desc = 4096"
    by (simp add: pool_start_def LWIP_MEM_ALIGN_def demo_cfg_values demo_desc_def)
  then show "desc_ok demo_cfg demo_desc" "elems demo_cfg demo_desc = {4096, 4104, 4112}"
    by (auto simp: desc_ok_def demo_cfg_ok demo_cfg_values demo_desc_def elems_def lessThan_nat_numeral)
qed

definition demo_pool :: memp_pool where
  "demo_pool = \<lparr>tab = 4096, nexts = [4096 \<mapsto> 4104, 4104 \<mapsto> 0]\<rparr>"

lemma demo_pool_rep: "pool_rep demo_cfg demo_desc demo_pool [4096, 4104]"
  by (auto simp: pool_rep_def demo_desc_ok demo_pool_def)

theorem memp_double_free_caught_witness:
  "\<exists>pool'. do_memp_free_pool demo_cfg 4104 demo_pool = Some pool' \<and> memp_sanity pool' = Some False"
  using demo_desc_ok(1) demo_pool_rep by (rule memp_double_free_caught) simp

section \<open>The built-in pools\<close>

text \<open>
  C22: \<^verbatim>\<open>memp_malloc\<close> on a well-formed pool returns, and returns \<^verbatim>\<open>NULL\<close> exactly when the pool has no
  free element; otherwise it takes an aligned element of this pool out of the free list, and the other
  pools are untouched.
\<close>

theorem memp_malloc_correct:
  assumes "desc_ok c desc" "pool_rep c desc (pools t) xs" "t \<noteq> MEMP_MAX"
  shows "\<exists>p pools' ys. memp_malloc c t pools = Some (p, pools') \<and> pool_rep c desc (pools' t) ys \<and>
    (p = 0 \<longleftrightarrow> xs = []) \<and> (p = 0 \<longrightarrow> pools' = pools \<and> ys = xs) \<and>
    (p \<noteq> 0 \<longrightarrow> p \<in> elems c desc \<and> p mod MEM_ALIGNMENT c = 0 \<and> p \<notin> set ys \<and> set xs = insert p (set ys)) \<and>
    (\<forall>t'. t' \<noteq> t \<longrightarrow> pools' t' = pools t')"
proof (cases xs)
  case Nil
  then show ?thesis
    using assms memp_malloc_Nil [of c desc "pools t"] by (auto simp: memp_malloc_def intro!: exI [of _ "[]"])
next
  case (Cons x ys)
  then obtain pool' where "do_memp_malloc_pool c (pools t) = Some (x, pool')" "pool_rep c desc pool' ys"
    using memp_malloc_Cons [OF assms(1), of "pools t" x ys] assms(2) by auto
  moreover have "x \<in> elems c desc" "x \<notin> set ys" using assms(2) Cons by (auto simp: pool_rep_def)
  ultimately show ?thesis
    using elem_facts [OF assms(1), of x] assms(3) Cons by (auto simp: memp_malloc_def intro!: exI [of _ ys])
qed

theorem memp_malloc_correct_witness:
  "\<exists>p pools' ys. memp_malloc demo_cfg MEMP_PBUF (\<lambda>t. demo_pool) = Some (p, pools') \<and> p \<noteq> 0 \<and>
     pool_rep demo_cfg demo_desc (pools' MEMP_PBUF) ys"
  using memp_malloc_correct [OF demo_desc_ok(1), of "\<lambda>t. demo_pool" MEMP_PBUF "[4096, 4104]"] demo_pool_rep
  by auto

text \<open>
  \<^verbatim>\<open>memp_free\<close> of the element that \<^verbatim>\<open>memp_malloc\<close> just returned restores all pools exactly.
\<close>

theorem memp_malloc_free:
  assumes "desc_ok c desc" "pool_rep c desc (pools t) xs" "memp_malloc c t pools = Some (p, pools')" "p \<noteq> 0"
  shows "memp_free c t p pools' = Some pools"
proof -
  have t: "t \<noteq> MEMP_MAX" using assms(3,4) by (auto simp: memp_malloc_def)
  obtain pool' where m: "do_memp_malloc_pool c (pools t) = Some (p, pool')" "pools' = pools(t := pool')"
    using assms(3) t by (auto simp: memp_malloc_def split: Option.bind_splits)
  obtain ys where "xs = p # ys"
    using assms(1,2,4) m(1) memp_malloc_Nil [of c desc "pools t"] memp_malloc_Cons [OF assms(1), of "pools t"]
    by (cases xs) fastforce+
  then obtain q where q: "nexts (pools t) p = Some q" "tab (pools t) = p"
    using assms(2) by (auto simp: pool_rep_def)
  have "pool' = \<lparr>tab = q, nexts = (nexts (pools t))(p := None)\<rparr>" "p mod MEM_ALIGNMENT c = 0"
    using m(1) q assms(4) by (auto simp: do_memp_malloc_pool_def MEMP_SIZE_def)
  then have "do_memp_free_pool c p pool' = Some (pools t)"
    using q by (simp add: do_memp_free_pool_def MEMP_SIZE_def) (metis fun_upd_idem_iff memp_pool.surjective old.unit.exhaust)
  then show ?thesis using t assms(4) m(2) by (simp add: memp_free_def)
qed

theorem memp_malloc_free_witness:
  "\<exists>p pools'. memp_malloc demo_cfg MEMP_PBUF (\<lambda>t. demo_pool) = Some (p, pools') \<and> p \<noteq> 0 \<and>
     memp_free demo_cfg MEMP_PBUF p pools' = Some (\<lambda>t. demo_pool)"
proof -
  obtain pool' where "do_memp_malloc_pool demo_cfg demo_pool = Some (4096, pool')"
    using memp_malloc_Cons [OF demo_desc_ok(1) demo_pool_rep] by blast
  then have m: "memp_malloc demo_cfg MEMP_PBUF (\<lambda>t. demo_pool) = Some (4096, (\<lambda>t. demo_pool)(MEMP_PBUF := pool'))"
    by (simp add: memp_malloc_def)
  then show ?thesis
    using memp_malloc_free [OF demo_desc_ok(1) _ m] demo_pool_rep by auto
qed

end
