(* ===== verification/Pbuf.thy ===== *)
theory Pbuf
  imports Memp
begin

text \<open>
  Packet buffers, \<^verbatim>\<open>lwip/src/core/pbuf.c\<close>: allocation from the heap and the pools, reference counting,
  header space and the operations on chains.  The build is one without a TCP out-of-sequence queue, in
  which \<^verbatim>\<open>PBUF_POOL_IS_EMPTY\<close> is empty; custom pbufs are supported, and the functions that free them are
  a parameter.

  The memory of the stack consists of the heap, the pools, the \<^verbatim>\<open>struct pbuf\<close> objects by address and
  the bytes that payload pointers refer to.  Allocating does not change the bytes; freeing a pbuf
  removes its struct.  A null pointer is 0.
\<close>

section \<open>Types, flags and state\<close>

type_synonym pbuf_type = u16

definition PBUF_TYPE_FLAG_STRUCT_DATA_CONTIGUOUS :: u8 where "PBUF_TYPE_FLAG_STRUCT_DATA_CONTIGUOUS = 0x80"
definition PBUF_TYPE_FLAG_DATA_VOLATILE :: u8 where "PBUF_TYPE_FLAG_DATA_VOLATILE = 0x40"
definition PBUF_TYPE_ALLOC_SRC_MASK :: u8 where "PBUF_TYPE_ALLOC_SRC_MASK = 0x0F"
definition PBUF_TYPE_ALLOC_SRC_MASK_STD_HEAP :: u8 where "PBUF_TYPE_ALLOC_SRC_MASK_STD_HEAP = 0"
definition PBUF_TYPE_ALLOC_SRC_MASK_STD_MEMP_PBUF :: u8 where "PBUF_TYPE_ALLOC_SRC_MASK_STD_MEMP_PBUF = 1"
definition PBUF_TYPE_ALLOC_SRC_MASK_STD_MEMP_PBUF_POOL :: u8 where "PBUF_TYPE_ALLOC_SRC_MASK_STD_MEMP_PBUF_POOL = 2"

definition PBUF_RAM :: pbuf_type where "PBUF_RAM = 0x280"
definition PBUF_ROM :: pbuf_type where "PBUF_ROM = 0x01"
definition PBUF_REF :: pbuf_type where "PBUF_REF = 0x41"
definition PBUF_POOL :: pbuf_type where "PBUF_POOL = 0x182"

definition PBUF_FLAG_PUSH :: u8 where "PBUF_FLAG_PUSH = 0x01"
definition PBUF_FLAG_IS_CUSTOM :: u8 where "PBUF_FLAG_IS_CUSTOM = 0x02"
definition PBUF_FLAG_MCASTLOOP :: u8 where "PBUF_FLAG_MCASTLOOP = 0x04"
definition PBUF_FLAG_LLBCAST :: u8 where "PBUF_FLAG_LLBCAST = 0x08"
definition PBUF_FLAG_LLMCAST :: u8 where "PBUF_FLAG_LLMCAST = 0x10"
definition PBUF_FLAG_TCP_FIN :: u8 where "PBUF_FLAG_TCP_FIN = 0x20"

record pbuf =
  pb_next :: addr
  payload :: addr
  tot_len :: nat
  pb_len :: nat
  type_internal :: u8
  pb_flags :: u8
  pb_ref :: nat
  if_idx :: nat

text \<open>\<open>custom_fns\<close> are the \<^verbatim>\<open>custom_free_function\<close> fields of the custom pbufs, 0 for \<^verbatim>\<open>NULL\<close>.\<close>

record lwip_mem =
  heap :: mem_heap
  pools :: memp_pools
  pbufs :: "addr \<rightharpoonup> pbuf"
  bytes :: byte_mem
  custom_fns :: "addr \<rightharpoonup> nat"

record pbuf_cfg =
  memcfg :: mem_cfg
  sizeof_struct_pbuf :: nat
  PBUF_POOL_BUFSIZE :: nat
  PBUF_LINK_ENCAPSULATION_HLEN :: nat
  PBUF_LINK_HLEN :: nat
  PBUF_IP_HLEN :: nat
  call_custom_free :: "nat \<Rightarrow> addr \<Rightarrow> lwip_mem \<Rightarrow> lwip_mem option"

definition PBUF_TRANSPORT_HLEN :: nat where
  "PBUF_TRANSPORT_HLEN = 20"

definition PBUF_TRANSPORT :: "pbuf_cfg \<Rightarrow> nat" where
  "PBUF_TRANSPORT c =
     PBUF_LINK_ENCAPSULATION_HLEN c + PBUF_LINK_HLEN c + PBUF_IP_HLEN c + PBUF_TRANSPORT_HLEN"

definition PBUF_IP :: "pbuf_cfg \<Rightarrow> nat" where
  "PBUF_IP c = PBUF_LINK_ENCAPSULATION_HLEN c + PBUF_LINK_HLEN c + PBUF_IP_HLEN c"

definition PBUF_LINK :: "pbuf_cfg \<Rightarrow> nat" where
  "PBUF_LINK c = PBUF_LINK_ENCAPSULATION_HLEN c + PBUF_LINK_HLEN c"

definition PBUF_RAW_TX :: "pbuf_cfg \<Rightarrow> nat" where
  "PBUF_RAW_TX c = PBUF_LINK_ENCAPSULATION_HLEN c"

definition PBUF_RAW :: nat where
  "PBUF_RAW = 0"

abbreviation align_size :: "pbuf_cfg \<Rightarrow> nat \<Rightarrow> nat" where
  "align_size c \<equiv> LWIP_MEM_ALIGN_SIZE (MEM_ALIGNMENT (memcfg c))"

abbreviation align_addr :: "pbuf_cfg \<Rightarrow> addr \<Rightarrow> addr" where
  "align_addr c \<equiv> LWIP_MEM_ALIGN (MEM_ALIGNMENT (memcfg c))"

definition SIZEOF_STRUCT_PBUF :: "pbuf_cfg \<Rightarrow> nat" where
  "SIZEOF_STRUCT_PBUF c = align_size c (sizeof_struct_pbuf c)"

definition PBUF_POOL_BUFSIZE_ALIGNED :: "pbuf_cfg \<Rightarrow> nat" where
  "PBUF_POOL_BUFSIZE_ALIGNED c = align_size c (PBUF_POOL_BUFSIZE c)"

definition pbuf_get_allocsrc :: "pbuf \<Rightarrow> u8" where
  "pbuf_get_allocsrc pb = type_internal pb AND PBUF_TYPE_ALLOC_SRC_MASK"

definition pbuf_match_allocsrc :: "pbuf \<Rightarrow> u8 \<Rightarrow> bool" where
  "pbuf_match_allocsrc pb t \<longleftrightarrow> pbuf_get_allocsrc pb = t AND PBUF_TYPE_ALLOC_SRC_MASK"

definition PBUF_NEEDS_COPY :: "pbuf \<Rightarrow> bool" where
  "PBUF_NEEDS_COPY pb \<longleftrightarrow> type_internal pb AND PBUF_TYPE_FLAG_DATA_VOLATILE \<noteq> 0"

definition put_pbuf :: "addr \<Rightarrow> pbuf \<Rightarrow> lwip_mem \<Rightarrow> lwip_mem" where
  "put_pbuf p pb s = s\<lparr>pbufs := (pbufs s)(p \<mapsto> pb)\<rparr>"

section \<open>Freeing and counting references\<close>

definition pbuf_dealloc :: "pbuf_cfg \<Rightarrow> addr \<Rightarrow> pbuf \<Rightarrow> lwip_mem \<Rightarrow> lwip_mem option" where
  "pbuf_dealloc c p pb s =
     (let alloc_src = pbuf_get_allocsrc pb in
      if pb_flags pb AND PBUF_FLAG_IS_CUSTOM \<noteq> 0 then
        do {
          f \<leftarrow> custom_fns s p;
          lwip_assert (f \<noteq> 0);
          call_custom_free c f p s
        }
      else
        do {
          s \<leftarrow> (if alloc_src = PBUF_TYPE_ALLOC_SRC_MASK_STD_MEMP_PBUF_POOL then
                 do { ps \<leftarrow> memp_free (memcfg c) MEMP_PBUF_POOL p (pools s); Some (s\<lparr>pools := ps\<rparr>) }
               else if alloc_src = PBUF_TYPE_ALLOC_SRC_MASK_STD_MEMP_PBUF then
                 do { ps \<leftarrow> memp_free (memcfg c) MEMP_PBUF p (pools s); Some (s\<lparr>pools := ps\<rparr>) }
               else if alloc_src = PBUF_TYPE_ALLOC_SRC_MASK_STD_HEAP then
                 do { h \<leftarrow> mem_free (memcfg c) p (heap s); Some (s\<lparr>heap := h\<rparr>) }
               else None);
          Some (s\<lparr>pbufs := (pbufs s)(p := None)\<rparr>)
        })"

text \<open>The loop of \<^verbatim>\<open>pbuf_free\<close>; the result is the number of freed pbufs, in a \<^verbatim>\<open>u8_t\<close>.\<close>

partial_function (option) pbuf_free_loop ::
  "pbuf_cfg \<Rightarrow> addr \<Rightarrow> nat \<Rightarrow> lwip_mem \<Rightarrow> (nat \<times> lwip_mem) option" where
  "pbuf_free_loop c p count s =
     (if p = 0 then Some (count, s)
      else
        do {
          pb \<leftarrow> pbufs s p;
          lwip_assert (pb_ref pb > 0);
          let ref = pb_ref pb - 1;
          let s = put_pbuf p (pb\<lparr>pb_ref := ref\<rparr>) s;
          if ref = 0 then
            do {
              s \<leftarrow> pbuf_dealloc c p (pb\<lparr>pb_ref := ref\<rparr>) s;
              pbuf_free_loop c (pb_next pb) (u8_of (count + 1)) s
            }
          else Some (count, s)
        })"

definition pbuf_free :: "pbuf_cfg \<Rightarrow> addr \<Rightarrow> lwip_mem \<Rightarrow> (nat \<times> lwip_mem) option" where
  "pbuf_free c p s = do { lwip_assert (p \<noteq> 0); pbuf_free_loop c p 0 s }"

definition pbuf_ref :: "addr \<Rightarrow> lwip_mem \<Rightarrow> lwip_mem option" where
  "pbuf_ref p s =
     (if p \<noteq> 0 then
        do {
          pb \<leftarrow> pbufs s p;
          let pb = pb\<lparr>pb_ref := u8_of (pb_ref pb + 1)\<rparr>;
          lwip_assert (pb_ref pb > 0);
          Some (put_pbuf p pb s)
        }
      else Some s)"

section \<open>Allocation\<close>

definition pbuf_init_alloced_pbuf ::
  "addr \<Rightarrow> addr \<Rightarrow> nat \<Rightarrow> nat \<Rightarrow> pbuf_type \<Rightarrow> u8 \<Rightarrow> lwip_mem \<Rightarrow> lwip_mem" where
  "pbuf_init_alloced_pbuf p pay totlen len t fl s =
     put_pbuf p \<lparr>pb_next = 0, payload = pay, tot_len = totlen, pb_len = len, type_internal = ucast t,
       pb_flags = fl, pb_ref = 1, if_idx = 0\<rparr> s"

definition pbuf_alloc_reference ::
  "pbuf_cfg \<Rightarrow> addr \<Rightarrow> nat \<Rightarrow> pbuf_type \<Rightarrow> lwip_mem \<Rightarrow> (addr \<times> lwip_mem) option" where
  "pbuf_alloc_reference c pay len t s =
     do {
       lwip_assert (t = PBUF_REF \<or> t = PBUF_ROM);
       (p, ps) \<leftarrow> memp_malloc (memcfg c) MEMP_PBUF (pools s);
       let s = s\<lparr>pools := ps\<rparr>;
       if p = 0 then Some (0, s)
       else Some (p, pbuf_init_alloced_pbuf p pay len len t 0 s)
     }"

text \<open>One round of the loop for \<^verbatim>\<open>PBUF_POOL\<close> and the loop; \<open>p\<close> is the head of the chain so far.\<close>

partial_function (option) pbuf_alloc_pool ::
  "pbuf_cfg \<Rightarrow> pbuf_type \<Rightarrow> addr \<Rightarrow> addr \<Rightarrow> nat \<Rightarrow> nat \<Rightarrow> lwip_mem \<Rightarrow> (addr \<times> lwip_mem) option" where
  "pbuf_alloc_pool c t p lst rem_len offset s =
     do {
       (q, ps) \<leftarrow> memp_malloc (memcfg c) MEMP_PBUF_POOL (pools s);
       let s = s\<lparr>pools := ps\<rparr>;
       if q = 0 then
         if p \<noteq> 0 then do { (_, s) \<leftarrow> pbuf_free c p s; Some (0, s) } else Some (0, s)
       else
         do {
           let room = u32_sub (PBUF_POOL_BUFSIZE_ALIGNED c) (align_size c offset);
           let qlen = min rem_len (u16_of room);
           let pay = align_addr c (q + SIZEOF_STRUCT_PBUF c + offset);
           let s = pbuf_init_alloced_pbuf q pay rem_len qlen t 0 s;
           lwip_assert (pay mod MEM_ALIGNMENT (memcfg c) = 0);
           lwip_assert (room > 0);
           s \<leftarrow> (if p = 0 then Some s
                else do { l \<leftarrow> pbufs s lst; Some (put_pbuf lst (l\<lparr>pb_next := q\<rparr>) s) });
           let p = (if p = 0 then q else p);
           let rem_len = u16_sub rem_len qlen;
           if rem_len > 0 then pbuf_alloc_pool c t p q rem_len 0 s else Some (p, s)
         }
     }"

definition pbuf_alloc_ram ::
  "pbuf_cfg \<Rightarrow> nat \<Rightarrow> nat \<Rightarrow> pbuf_type \<Rightarrow> lwip_mem \<Rightarrow> (addr \<times> lwip_mem) option" where
  "pbuf_alloc_ram c offset len t s =
     (let payload_len = u16_of (align_size c offset + align_size c len);
          alloc_len = mem_size_of (memcfg c) (align_size c (SIZEOF_STRUCT_PBUF c) + payload_len) in
      if payload_len < align_size c len \<or> alloc_len < align_size c len then Some (0, s)
      else
        do {
          (p, h) \<leftarrow> mem_malloc (memcfg c) alloc_len (heap s);
          let s = s\<lparr>heap := h\<rparr>;
          if p = 0 then Some (0, s)
          else
            do {
              let pay = align_addr c (p + SIZEOF_STRUCT_PBUF c + offset);
              lwip_assert (pay mod MEM_ALIGNMENT (memcfg c) = 0);
              Some (p, pbuf_init_alloced_pbuf p pay len len t 0 s)
            }
        })"

definition pbuf_alloc ::
  "pbuf_cfg \<Rightarrow> nat \<Rightarrow> nat \<Rightarrow> pbuf_type \<Rightarrow> lwip_mem \<Rightarrow> (addr \<times> lwip_mem) option" where
  "pbuf_alloc c layer len t s =
     (let offset = u16_of layer in
      if t = PBUF_REF \<or> t = PBUF_ROM then pbuf_alloc_reference c 0 len t s
      else if t = PBUF_POOL then pbuf_alloc_pool c t 0 0 len offset s
      else if t = PBUF_RAM then pbuf_alloc_ram c offset len t s
      else None)"

definition pbuf_alloced_custom ::
  "pbuf_cfg \<Rightarrow> nat \<Rightarrow> nat \<Rightarrow> pbuf_type \<Rightarrow> addr \<Rightarrow> addr \<Rightarrow> nat \<Rightarrow> lwip_mem \<Rightarrow> addr \<times> lwip_mem" where
  "pbuf_alloced_custom c l len t p payload_mem payload_mem_len s =
     (let offset = u16_of l in
      if align_size c offset + len > payload_mem_len then (0, s)
      else
        let pay = (if payload_mem \<noteq> 0 then payload_mem + align_size c offset else 0)
        in (p, pbuf_init_alloced_pbuf p pay len len t PBUF_FLAG_IS_CUSTOM s))"

section \<open>Shrinking and header space\<close>

text \<open>The loop of \<^verbatim>\<open>pbuf_realloc\<close>: the new last pbuf and its length.\<close>

partial_function (option) realloc_skip ::
  "addr \<Rightarrow> nat \<Rightarrow> nat \<Rightarrow> lwip_mem \<Rightarrow> (addr \<times> nat \<times> lwip_mem) option" where
  "realloc_skip q rem_len shrink s =
     do {
       pb \<leftarrow> pbufs s q;
       if rem_len > pb_len pb then
         do {
           let s = put_pbuf q (pb\<lparr>tot_len := u16_sub (tot_len pb) shrink\<rparr>) s;
           lwip_assert (pb_next pb \<noteq> 0);
           realloc_skip (pb_next pb) (u16_sub rem_len (pb_len pb)) shrink s
         }
       else Some (q, rem_len, s)
     }"

definition pbuf_realloc :: "pbuf_cfg \<Rightarrow> addr \<Rightarrow> nat \<Rightarrow> lwip_mem \<Rightarrow> lwip_mem option" where
  "pbuf_realloc c p new_len s =
     do {
       lwip_assert (p \<noteq> 0);
       pb \<leftarrow> pbufs s p;
       if new_len \<ge> tot_len pb then Some s
       else
         do {
           (q, rem_len, s) \<leftarrow> realloc_skip p new_len (u16_sub (tot_len pb) new_len) s;
           qb \<leftarrow> pbufs s q;
           (q, s) \<leftarrow> (if pbuf_match_allocsrc qb PBUF_TYPE_ALLOC_SRC_MASK_STD_HEAP \<and> rem_len \<noteq> pb_len qb \<and>
                        pb_flags qb AND PBUF_FLAG_IS_CUSTOM = 0
             then do {
                 (r, h) \<leftarrow> mem_trim (memcfg c) q
                   (mem_size_of (memcfg c) (size_sub (payload qb) q + rem_len)) (heap s);
                 lwip_assert (r \<noteq> 0);
                 Some (r, s\<lparr>heap := h\<rparr>)
               }
             else Some (q, s));
           qb \<leftarrow> pbufs s q;
           let s = put_pbuf q (qb\<lparr>pb_len := rem_len, tot_len := rem_len\<rparr>) s;
           s \<leftarrow> (if pb_next qb \<noteq> 0 then do { (_, s) \<leftarrow> pbuf_free c (pb_next qb) s; Some s } else Some s);
           qb \<leftarrow> pbufs s q;
           Some (put_pbuf q (qb\<lparr>pb_next := 0\<rparr>) s)
         }
     }"

text \<open>Header operations return 0 for success and 1 for failure.\<close>

definition pbuf_add_header_impl ::
  "pbuf_cfg \<Rightarrow> addr \<Rightarrow> nat \<Rightarrow> bool \<Rightarrow> lwip_mem \<Rightarrow> (nat \<times> lwip_mem) option" where
  "pbuf_add_header_impl c p inc force s =
     do {
       lwip_assert (p \<noteq> 0);
       if inc > 0xFFFF then Some (1, s)
       else if inc = 0 then Some (0, s)
       else
         do {
           pb \<leftarrow> pbufs s p;
           let increment_magnitude = u16_of inc;
           if u16_of (increment_magnitude + tot_len pb) < increment_magnitude then Some (1, s)
           else if type_internal pb AND PBUF_TYPE_FLAG_STRUCT_DATA_CONTIGUOUS \<noteq> 0 \<and>
              size_sub (payload pb) inc < p + SIZEOF_STRUCT_PBUF c then Some (1, s)
           else if type_internal pb AND PBUF_TYPE_FLAG_STRUCT_DATA_CONTIGUOUS = 0 \<and> \<not> force then Some (1, s)
           else Some (0, put_pbuf p (pb\<lparr>payload := size_sub (payload pb) inc,
                  pb_len := u16_of (pb_len pb + increment_magnitude),
                  tot_len := u16_of (tot_len pb + increment_magnitude)\<rparr>) s)
         }
     }"

definition pbuf_add_header :: "pbuf_cfg \<Rightarrow> addr \<Rightarrow> nat \<Rightarrow> lwip_mem \<Rightarrow> (nat \<times> lwip_mem) option" where
  "pbuf_add_header c p inc s = pbuf_add_header_impl c p inc False s"

definition pbuf_add_header_force :: "pbuf_cfg \<Rightarrow> addr \<Rightarrow> nat \<Rightarrow> lwip_mem \<Rightarrow> (nat \<times> lwip_mem) option" where
  "pbuf_add_header_force c p inc s = pbuf_add_header_impl c p inc True s"

definition pbuf_remove_header :: "addr \<Rightarrow> nat \<Rightarrow> lwip_mem \<Rightarrow> (nat \<times> lwip_mem) option" where
  "pbuf_remove_header p dec s =
     do {
       lwip_assert (p \<noteq> 0);
       if dec > 0xFFFF then Some (1, s)
       else if dec = 0 then Some (0, s)
       else
         do {
           pb \<leftarrow> pbufs s p;
           let increment_magnitude = u16_of dec;
           if \<not> increment_magnitude \<le> pb_len pb then Some (1, s)
           else Some (0, put_pbuf p (pb\<lparr>payload := payload pb + dec,
                  pb_len := u16_sub (pb_len pb) increment_magnitude,
                  tot_len := u16_sub (tot_len pb) increment_magnitude\<rparr>) s)
         }
     }"

definition pbuf_header_impl ::
  "pbuf_cfg \<Rightarrow> addr \<Rightarrow> int \<Rightarrow> bool \<Rightarrow> lwip_mem \<Rightarrow> (nat \<times> lwip_mem) option" where
  "pbuf_header_impl c p inc force s =
     (if inc < 0 then pbuf_remove_header p (nat (- inc)) s
      else pbuf_add_header_impl c p (nat inc) force s)"

definition pbuf_header :: "pbuf_cfg \<Rightarrow> addr \<Rightarrow> int \<Rightarrow> lwip_mem \<Rightarrow> (nat \<times> lwip_mem) option" where
  "pbuf_header c p inc s = pbuf_header_impl c p inc False s"

definition pbuf_header_force :: "pbuf_cfg \<Rightarrow> addr \<Rightarrow> int \<Rightarrow> lwip_mem \<Rightarrow> (nat \<times> lwip_mem) option" where
  "pbuf_header_force c p inc s = pbuf_header_impl c p inc True s"

partial_function (option) pbuf_free_header ::
  "pbuf_cfg \<Rightarrow> addr \<Rightarrow> nat \<Rightarrow> lwip_mem \<Rightarrow> (addr \<times> lwip_mem) option" where
  "pbuf_free_header c p free_left s =
     (if free_left \<noteq> 0 \<and> p \<noteq> 0 then
        do {
          pb \<leftarrow> pbufs s p;
          if free_left \<ge> pb_len pb then
            do {
              (_, s) \<leftarrow> pbuf_free c p (put_pbuf p (pb\<lparr>pb_next := 0\<rparr>) s);
              pbuf_free_header c (pb_next pb) (u16_sub free_left (pb_len pb)) s
            }
          else do { (_, s) \<leftarrow> pbuf_remove_header p free_left s; Some (p, s) }
        }
      else Some (p, s))"

section \<open>Chains\<close>

partial_function (option) pbuf_clen_loop :: "(addr \<rightharpoonup> pbuf) \<Rightarrow> addr \<Rightarrow> nat \<Rightarrow> nat option" where
  "pbuf_clen_loop m p len =
     (if p \<noteq> 0 then do { pb \<leftarrow> m p; pbuf_clen_loop m (pb_next pb) (u16_of (len + 1)) }
      else Some len)"

definition pbuf_clen :: "addr \<Rightarrow> lwip_mem \<Rightarrow> nat option" where
  "pbuf_clen p s = pbuf_clen_loop (pbufs s) p 0"

partial_function (option) cat_loop :: "addr \<Rightarrow> addr \<Rightarrow> lwip_mem \<Rightarrow> (addr \<times> lwip_mem) option" where
  "cat_loop p t s =
     do {
       pb \<leftarrow> pbufs s p;
       if pb_next pb \<noteq> 0 then
         do {
           tb \<leftarrow> pbufs s t;
           cat_loop (pb_next pb) t (put_pbuf p (pb\<lparr>tot_len := u16_of (tot_len pb + tot_len tb)\<rparr>) s)
         }
       else Some (p, s)
     }"

definition pbuf_cat :: "addr \<Rightarrow> addr \<Rightarrow> lwip_mem \<Rightarrow> lwip_mem option" where
  "pbuf_cat h t s =
     (if h = 0 \<or> t = 0 then Some s
      else
        do {
          (p, s) \<leftarrow> cat_loop h t s;
          pb \<leftarrow> pbufs s p;
          tb \<leftarrow> pbufs s t;
          lwip_assert (tot_len pb = pb_len pb);
          lwip_assert (pb_next pb = 0);
          Some (put_pbuf p (pb\<lparr>tot_len := u16_of (tot_len pb + tot_len tb), pb_next := t\<rparr>) s)
        })"

definition pbuf_chain :: "addr \<Rightarrow> addr \<Rightarrow> lwip_mem \<Rightarrow> lwip_mem option" where
  "pbuf_chain h t s = do { s \<leftarrow> pbuf_cat h t s; pbuf_ref t s }"

definition pbuf_dechain :: "pbuf_cfg \<Rightarrow> addr \<Rightarrow> lwip_mem \<Rightarrow> (addr \<times> lwip_mem) option" where
  "pbuf_dechain c p s =
     do {
       pb \<leftarrow> pbufs s p;
       let q = pb_next pb;
       (tail_gone, s) \<leftarrow> (if q \<noteq> 0 then
         do {
           qb \<leftarrow> pbufs s q;
           lwip_assert (int (tot_len qb) = int (tot_len pb) - int (pb_len pb));
           let s = put_pbuf q (qb\<lparr>tot_len := u16_sub (tot_len pb) (pb_len pb)\<rparr>) s;
           pb \<leftarrow> pbufs s p;
           let s = put_pbuf p (pb\<lparr>pb_next := 0, tot_len := pb_len pb\<rparr>) s;
           pbuf_free c q s
         }
         else Some (1, s));
       pb \<leftarrow> pbufs s p;
       lwip_assert (tot_len pb = pb_len pb);
       Some (if tail_gone > 0 then 0 else q, s)
     }"

text \<open>\<^verbatim>\<open>pbuf_split_64k\<close>: the loop that looks for the last pbuf of the first part, and the loop over that part.\<close>

partial_function (option) split_find ::
  "(addr \<rightharpoonup> pbuf) \<Rightarrow> nat \<Rightarrow> addr \<Rightarrow> addr \<Rightarrow> (addr \<times> addr) option" where
  "split_find m front i r =
     (if r \<noteq> 0 then
        do {
          rb \<leftarrow> m r;
          if u16_of (front + pb_len rb) \<ge> front
          then split_find m (u16_of (front + pb_len rb)) r (pb_next rb)
          else Some (i, r)
        }
      else Some (i, r))"

partial_function (option) split_fix :: "addr \<Rightarrow> addr \<Rightarrow> lwip_mem \<Rightarrow> lwip_mem option" where
  "split_fix i r s =
     (if i \<noteq> 0 then
        do {
          ib \<leftarrow> pbufs s i;
          rb \<leftarrow> pbufs s r;
          let tlen = u16_sub (tot_len ib) (tot_len rb);
          lwip_assert (pb_next ib \<noteq> 0 \<or> tlen = pb_len ib);
          split_fix (pb_next ib) r (put_pbuf i (ib\<lparr>tot_len := tlen\<rparr>) s)
        }
      else Some s)"

definition pbuf_split_64k :: "addr \<Rightarrow> lwip_mem \<Rightarrow> (addr \<times> lwip_mem) option" where
  "pbuf_split_64k p s =
     (if p = 0 then Some (0, s)
      else
        do {
          pb \<leftarrow> pbufs s p;
          if pb_next pb = 0 then Some (0, s)
          else
            do {
              (i, r) \<leftarrow> split_find (pbufs s) (pb_len pb) p (pb_next pb);
              ib \<leftarrow> pbufs s i;
              let s = put_pbuf i (ib\<lparr>pb_next := 0\<rparr>) s;
              if r \<noteq> 0 then
                do {
                  s \<leftarrow> split_fix p r s;
                  pb \<leftarrow> pbufs s p;
                  rb \<leftarrow> pbufs s r;
                  let s = (if pb_flags pb AND PBUF_FLAG_TCP_FIN \<noteq> 0
                           then put_pbuf r (rb\<lparr>pb_flags := pb_flags rb OR PBUF_FLAG_TCP_FIN\<rparr>) s else s);
                  Some (r, s)
                }
              else Some (0, s)
            }
        })"

section \<open>Chains as lists of addresses\<close>

fun path :: "(addr \<rightharpoonup> pbuf) \<Rightarrow> addr \<Rightarrow> addr list \<Rightarrow> addr \<Rightarrow> bool" where
  "path m p [] q \<longleftrightarrow> p = q"
| "path m p (x # xs) q \<longleftrightarrow> p = x \<and> x \<noteq> 0 \<and> (\<exists>pb. m x = Some pb \<and> path m (pb_next pb) xs q)"

abbreviation chain :: "(addr \<rightharpoonup> pbuf) \<Rightarrow> addr \<Rightarrow> addr list \<Rightarrow> bool" where
  "chain m p xs \<equiv> path m p xs 0"

lemma path_append: "path m p (xs @ ys) q \<longleftrightarrow> (\<exists>r. path m p xs r \<and> path m r ys q)"
  by (induction xs arbitrary: p) auto

lemma path_cong: "(\<And>x. x \<in> set xs \<Longrightarrow> map_option pb_next (m x) = map_option pb_next (m' x)) \<Longrightarrow> path m p xs q = path m' p xs q"
proof (induction xs arbitrary: p)
  case (Cons x xs)
  have "map_option pb_next (m x) = map_option pb_next (m' x)" using Cons.prems by simp
  then show ?case using Cons.IH [OF Cons.prems] by (cases "m x"; cases "m' x") auto
qed simp

lemma path_upd [simp]: "x \<notin> set xs \<Longrightarrow> path (m(x := v)) p xs q = path m p xs q"
  by (rule path_cong) auto

lemma chain_unique: "chain m p xs \<Longrightarrow> chain m p ys \<Longrightarrow> xs = ys"
proof (induction xs arbitrary: p ys)
  case Nil
  then show ?case by (cases ys) auto
next
  case (Cons x xs)
  then show ?case by (cases ys) auto
qed

lemma chain_notin: "chain m p (x # xs) \<Longrightarrow> x \<notin> set xs"
proof
  assume *: "chain m p (x # xs)" "x \<in> set xs"
  then obtain us vs where xs: "xs = us @ x # vs" by (meson split_list)
  have "chain m x (x # xs)" "chain m x (x # vs)" using * unfolding xs by (auto simp: path_append)
  then have "x # xs = x # vs" by (rule chain_unique)
  then show False by (simp add: xs)
qed

lemma chain_distinct: "chain m p xs \<Longrightarrow> distinct xs"
proof (induction xs arbitrary: p)
  case (Cons x xs)
  then show ?case using chain_notin [OF Cons.prems] by auto
qed simp

lemma chain_mapped: "path m p xs q \<Longrightarrow> x \<in> set xs \<Longrightarrow> x \<noteq> 0 \<and> (\<exists>pb. m x = Some pb)"
  by (induction xs arbitrary: p) auto

lemma chain_0 [simp]: "chain m 0 xs \<longleftrightarrow> xs = []"
  by (cases xs) auto

definition sum_len :: "(addr \<rightharpoonup> pbuf) \<Rightarrow> addr list \<Rightarrow> nat" where
  "sum_len m xs = (\<Sum>x\<leftarrow>xs. pb_len (the (m x)))"

lemma sum_len_simps [simp]:
  "sum_len m [] = 0" "sum_len m (x # xs) = pb_len (the (m x)) + sum_len m xs"
  "sum_len m (xs @ ys) = sum_len m xs + sum_len m ys"
  by (simp_all add: sum_len_def)

lemma sum_len_cong:
  "(\<And>x. x \<in> set xs \<Longrightarrow> pb_len (the (m x)) = pb_len (the (m' x))) \<Longrightarrow> sum_len m xs = sum_len m' xs"
  by (induction xs) auto

text \<open>The invariant that \<^verbatim>\<open>pbuf.h\<close> states for \<^verbatim>\<open>tot_len\<close>.\<close>

fun tot_ok :: "(addr \<rightharpoonup> pbuf) \<Rightarrow> addr list \<Rightarrow> bool" where
  "tot_ok m [] \<longleftrightarrow> True"
| "tot_ok m (x # xs) \<longleftrightarrow> tot_len (the (m x)) = sum_len m (x # xs) \<and> tot_ok m xs"

lemma tot_ok_cong:
  "(\<And>x. x \<in> set xs \<Longrightarrow> pb_len (the (m x)) = pb_len (the (m' x)) \<and> tot_len (the (m x)) = tot_len (the (m' x))) \<Longrightarrow>
   tot_ok m xs = tot_ok m' xs"
proof (induction xs)
  case (Cons x xs)
  then have "sum_len m (x # xs) = sum_len m' (x # xs)" by (intro sum_len_cong) auto
  with Cons show ?case by simp
qed simp

definition packet :: "(addr \<rightharpoonup> pbuf) \<Rightarrow> addr \<Rightarrow> addr list \<Rightarrow> bool" where
  "packet m p xs \<longleftrightarrow> chain m p xs \<and> tot_ok m xs \<and> sum_len m xs < 65536"

lemma packet_Cons:
  "packet m p (x # xs) \<longleftrightarrow> p = x \<and> x \<noteq> 0 \<and>
     (\<exists>pb. m x = Some pb \<and> tot_len pb = pb_len pb + sum_len m xs \<and> pb_len pb + sum_len m xs < 65536 \<and>
       packet m (pb_next pb) xs)"
  by (auto simp: packet_def)

lemma packet_cong:
  assumes "\<And>x. x \<in> set xs \<Longrightarrow> map_option (\<lambda>b. (pb_next b, pb_len b, tot_len b)) (m x) =
    map_option (\<lambda>b. (pb_next b, pb_len b, tot_len b)) (m' x)"
  shows "packet m p xs = packet m' p xs"
proof -
  have *: "map_option pb_next (m x) = map_option pb_next (m' x)"
    "m x \<noteq> None \<Longrightarrow> pb_len (the (m x)) = pb_len (the (m' x)) \<and> tot_len (the (m x)) = tot_len (the (m' x))"
    if "x \<in> set xs" for x
    using assms [OF that] by (cases "m x"; cases "m' x"; simp)+
  then have "chain m p xs = chain m' p xs" by (intro path_cong)
  moreover have "sum_len m xs = sum_len m' xs \<and> tot_ok m xs = tot_ok m' xs" if "chain m p xs"
    using chain_mapped [OF that] * by (metis (mono_tags, lifting) option.distinct(1) sum_len_cong tot_ok_cong)
  ultimately show ?thesis by (auto simp: packet_def)
qed

lemma packet_upd [simp]: "x \<notin> set xs \<Longrightarrow> packet (m(x := v)) p xs = packet m p xs"
  by (rule packet_cong) auto

lemma packet_chain: "packet m p xs \<Longrightarrow> chain m p xs"
  by (simp add: packet_def)

section \<open>The memory behind the pbufs\<close>

text \<open>
  The memory that the allocators have handed out, as triples of the allocation source, the address and
  the size, and its relation to the state of the allocators.
\<close>

type_synonym areas = "(u8 \<times> addr \<times> nat) set"

definition outstanding :: "mem_cfg \<Rightarrow> (memp_t \<Rightarrow> memp_desc) \<Rightarrow> blocks \<Rightarrow> addr list \<Rightarrow> addr list \<Rightarrow> areas" where
  "outstanding mc descs bs xs ys =
     Pair PBUF_TYPE_ALLOC_SRC_MASK_STD_HEAP ` allocs mc (MEM_SIZE_ALIGNED mc) bs \<union>
     Pair PBUF_TYPE_ALLOC_SRC_MASK_STD_MEMP_PBUF ` handed_out mc (descs MEMP_PBUF) xs \<union>
     Pair PBUF_TYPE_ALLOC_SRC_MASK_STD_MEMP_PBUF_POOL ` handed_out mc (descs MEMP_PBUF_POOL) ys"

definition mem_rep ::
  "mem_cfg \<Rightarrow> (memp_t \<Rightarrow> memp_desc) \<Rightarrow> lwip_mem \<Rightarrow> blocks \<Rightarrow> addr list \<Rightarrow> addr list \<Rightarrow> bool" where
  "mem_rep mc descs s bs xs ys \<longleftrightarrow>
     (mem_cfg_ok mc \<and> heap_ok mc (heap s) bs) \<and>
     (desc_ok mc (descs MEMP_PBUF) \<and> pool_rep mc (descs MEMP_PBUF) (pools s MEMP_PBUF) xs) \<and>
     (desc_ok mc (descs MEMP_PBUF_POOL) \<and> pool_rep mc (descs MEMP_PBUF_POOL) (pools s MEMP_PBUF_POOL) ys)"

definition mem_ok :: "pbuf_cfg \<Rightarrow> (memp_t \<Rightarrow> memp_desc) \<Rightarrow> lwip_mem \<Rightarrow> areas \<Rightarrow> bool" where
  "mem_ok c descs s out \<longleftrightarrow>
     (\<exists>bs xs ys. mem_rep (memcfg c) descs s bs xs ys \<and> out = outstanding (memcfg c) descs bs xs ys)"

lemma mem_ok_put_pbuf [simp]: "mem_ok c descs (put_pbuf p pb s) out = mem_ok c descs s out"
  by (simp add: mem_ok_def mem_rep_def put_pbuf_def)

lemma put_pbuf_simps [simp]:
  "pbufs (put_pbuf p pb s) = (pbufs s)(p \<mapsto> pb)" "bytes (put_pbuf p pb s) = bytes s"
  "heap (put_pbuf p pb s) = heap s" "pools (put_pbuf p pb s) = pools s"
  "custom_fns (put_pbuf p pb s) = custom_fns s"
  by (simp_all add: put_pbuf_def)

lemmas alloc_srcs = PBUF_TYPE_ALLOC_SRC_MASK_STD_HEAP_def PBUF_TYPE_ALLOC_SRC_MASK_STD_MEMP_PBUF_def
  PBUF_TYPE_ALLOC_SRC_MASK_STD_MEMP_PBUF_POOL_def

definition std_pbuf :: "pbuf \<Rightarrow> bool" where
  "std_pbuf pb \<longleftrightarrow> pb_flags pb AND PBUF_FLAG_IS_CUSTOM = 0"

lemma memp_free_pools:
  assumes "do_memp_free_pool c p (ps t) = Some pool'" "p \<noteq> 0" "t \<noteq> MEMP_MAX"
  shows "memp_free c t p ps = Some (ps(t := pool'))"
  using assms by (simp add: memp_free_def)

lemma handed_out_pos: "desc_ok c desc \<Longrightarrow> (p, n) \<in> handed_out c desc xs \<Longrightarrow> p \<noteq> 0"
  using elem_facts(1) by (fastforce simp: handed_out_def)

lemma mem_repD:
  assumes "mem_rep mc descs s bs xs ys"
  shows "mem_cfg_ok mc \<and> heap_ok mc (heap s) bs"
    "desc_ok mc (descs MEMP_PBUF) \<and> pool_rep mc (descs MEMP_PBUF) (pools s MEMP_PBUF) xs"
    "desc_ok mc (descs MEMP_PBUF_POOL) \<and> pool_rep mc (descs MEMP_PBUF_POOL) (pools s MEMP_PBUF_POOL) ys"
  using assms unfolding mem_rep_def by blast+

lemma outstanding_remove:
  "outstanding mc descs bs xs ys - {(0, p, n)} =
     Pair 0 ` (allocs mc (MEM_SIZE_ALIGNED mc) bs - {(p, n)}) \<union>
     Pair 1 ` handed_out mc (descs MEMP_PBUF) xs \<union> Pair 2 ` handed_out mc (descs MEMP_PBUF_POOL) ys"
  "outstanding mc descs bs xs ys - {(1, p, n)} =
     Pair 0 ` allocs mc (MEM_SIZE_ALIGNED mc) bs \<union>
     Pair 1 ` (handed_out mc (descs MEMP_PBUF) xs - {(p, n)}) \<union> Pair 2 ` handed_out mc (descs MEMP_PBUF_POOL) ys"
  "outstanding mc descs bs xs ys - {(2, p, n)} =
     Pair 0 ` allocs mc (MEM_SIZE_ALIGNED mc) bs \<union>
     Pair 1 ` handed_out mc (descs MEMP_PBUF) xs \<union> Pair 2 ` (handed_out mc (descs MEMP_PBUF_POOL) ys - {(p, n)})"
  unfolding outstanding_def alloc_srcs by auto

lemma dealloc_heap:
  assumes r: "mem_rep (memcfg c) descs s bs xs ys" and std: "std_pbuf pb" "pbuf_get_allocsrc pb = 0"
    and own: "(p, n) \<in> allocs (memcfg c) (MEM_SIZE_ALIGNED (memcfg c)) bs"
  shows "\<exists>h'. pbuf_dealloc c p pb s = Some (s\<lparr>heap := h', pbufs := (pbufs s)(p := None)\<rparr>) \<and>
    mem_ok c descs (s\<lparr>heap := h'\<rparr>) (outstanding (memcfg c) descs bs xs ys - {(0, p, n)})"
proof -
  obtain h' bs' where h: "mem_free (memcfg c) p (heap s) = Some h'" "heap_ok (memcfg c) h' bs'"
    "allocs (memcfg c) (MEM_SIZE_ALIGNED (memcfg c)) bs' =
       allocs (memcfg c) (MEM_SIZE_ALIGNED (memcfg c)) bs - {(p, n)}"
    using heap.release_law [OF mem_repD(1) [OF r] own] by blast
  have "mem_rep (memcfg c) descs (s\<lparr>heap := h'\<rparr>) bs' xs ys" using mem_repD [OF r] h(2) by (simp add: mem_rep_def)
  moreover have "outstanding (memcfg c) descs bs xs ys - {(0, p, n)} = outstanding (memcfg c) descs bs' xs ys"
    unfolding outstanding_remove h(3) [symmetric] by (simp add: outstanding_def alloc_srcs)
  ultimately have "mem_ok c descs (s\<lparr>heap := h'\<rparr>) (outstanding (memcfg c) descs bs xs ys - {(0, p, n)})"
    unfolding mem_ok_def by blast
  then show ?thesis using std h(1)
    by (intro exI [of _ h']) (simp add: pbuf_dealloc_def std_pbuf_def alloc_srcs)
qed

lemma dealloc_ref:
  assumes r: "mem_rep (memcfg c) descs s bs xs ys" and std: "std_pbuf pb" "pbuf_get_allocsrc pb = 1"
    and own: "(p, n) \<in> handed_out (memcfg c) (descs MEMP_PBUF) xs"
  shows "\<exists>ps. pbuf_dealloc c p pb s = Some (s\<lparr>pools := ps, pbufs := (pbufs s)(p := None)\<rparr>) \<and>
    mem_ok c descs (s\<lparr>pools := ps\<rparr>) (outstanding (memcfg c) descs bs xs ys - {(1, p, n)})"
proof -
  let ?t = MEMP_PBUF
  obtain pool' xs' where h: "do_memp_free_pool (memcfg c) p (pools s ?t) = Some pool'"
    "pool_rep (memcfg c) (descs ?t) pool' xs'"
    "handed_out (memcfg c) (descs ?t) xs' = handed_out (memcfg c) (descs ?t) xs - {(p, n)}"
    using pool.release_law [OF mem_repD(2) [OF r] own] by blast
  have p: "p \<noteq> 0" using handed_out_pos [OF _ own] mem_repD(2) [OF r] by blast
  have "mem_rep (memcfg c) descs (s\<lparr>pools := (pools s)(?t := pool')\<rparr>) bs xs' ys"
    using mem_repD [OF r] h(2) by (simp add: mem_rep_def)
  moreover have "outstanding (memcfg c) descs bs xs ys - {(1, p, n)} = outstanding (memcfg c) descs bs xs' ys"
    unfolding outstanding_remove h(3) [symmetric] by (simp add: outstanding_def alloc_srcs)
  ultimately have "mem_ok c descs (s\<lparr>pools := (pools s)(?t := pool')\<rparr>)
      (outstanding (memcfg c) descs bs xs ys - {(1, p, n)})"
    unfolding mem_ok_def by blast
  then show ?thesis using std memp_free_pools [where t = ?t and ps = "pools s", OF h(1) p]
    by (intro exI [of _ "(pools s)(?t := pool')"]) (simp add: pbuf_dealloc_def std_pbuf_def alloc_srcs)
qed

lemma dealloc_pool:
  assumes r: "mem_rep (memcfg c) descs s bs xs ys" and std: "std_pbuf pb" "pbuf_get_allocsrc pb = 2"
    and own: "(p, n) \<in> handed_out (memcfg c) (descs MEMP_PBUF_POOL) ys"
  shows "\<exists>ps. pbuf_dealloc c p pb s = Some (s\<lparr>pools := ps, pbufs := (pbufs s)(p := None)\<rparr>) \<and>
    mem_ok c descs (s\<lparr>pools := ps\<rparr>) (outstanding (memcfg c) descs bs xs ys - {(2, p, n)})"
proof -
  let ?t = MEMP_PBUF_POOL
  obtain pool' ys' where h: "do_memp_free_pool (memcfg c) p (pools s ?t) = Some pool'"
    "pool_rep (memcfg c) (descs ?t) pool' ys'"
    "handed_out (memcfg c) (descs ?t) ys' = handed_out (memcfg c) (descs ?t) ys - {(p, n)}"
    using pool.release_law [OF mem_repD(3) [OF r] own] by blast
  have p: "p \<noteq> 0" using handed_out_pos [OF _ own] mem_repD(3) [OF r] by blast
  have "mem_rep (memcfg c) descs (s\<lparr>pools := (pools s)(?t := pool')\<rparr>) bs xs ys'"
    using mem_repD [OF r] h(2) by (simp add: mem_rep_def)
  moreover have "outstanding (memcfg c) descs bs xs ys - {(2, p, n)} = outstanding (memcfg c) descs bs xs ys'"
    unfolding outstanding_remove h(3) [symmetric] by (simp add: outstanding_def alloc_srcs)
  ultimately have "mem_ok c descs (s\<lparr>pools := (pools s)(?t := pool')\<rparr>)
      (outstanding (memcfg c) descs bs xs ys - {(2, p, n)})"
    unfolding mem_ok_def by blast
  then show ?thesis using std memp_free_pools [where t = ?t and ps = "pools s", OF h(1) p]
    by (intro exI [of _ "(pools s)(?t := pool')"]) (simp add: pbuf_dealloc_def std_pbuf_def alloc_srcs)
qed

lemma mem_ok_pbufs [simp]: "mem_ok c descs (s\<lparr>pbufs := m\<rparr>) out = mem_ok c descs s out"
  by (simp add: mem_ok_def mem_rep_def)

lemma dealloc_spec:
  assumes ok: "mem_ok c descs s out" and std: "std_pbuf pb" and own: "(pbuf_get_allocsrc pb, p, n) \<in> out"
  shows "\<exists>s'. pbuf_dealloc c p pb s = Some s' \<and> mem_ok c descs s' (out - {(pbuf_get_allocsrc pb, p, n)}) \<and>
    pbufs s' = (pbufs s)(p := None) \<and> bytes s' = bytes s \<and> custom_fns s' = custom_fns s"
proof -
  let ?mc = "memcfg c" and ?m = "(pbufs s)(p := None)"
  obtain bs xs ys where r: "mem_rep ?mc descs s bs xs ys" and out: "out = outstanding ?mc descs bs xs ys"
    using ok unfolding mem_ok_def by blast
  consider (heap) "pbuf_get_allocsrc pb = 0" "(p, n) \<in> allocs ?mc (MEM_SIZE_ALIGNED ?mc) bs"
    | (ref) "pbuf_get_allocsrc pb = 1" "(p, n) \<in> handed_out ?mc (descs MEMP_PBUF) xs"
    | (pool) "pbuf_get_allocsrc pb = 2" "(p, n) \<in> handed_out ?mc (descs MEMP_PBUF_POOL) ys"
    using own unfolding out outstanding_def alloc_srcs by blast
  then show ?thesis
  proof cases
    case heap
    then obtain h' where h: "pbuf_dealloc c p pb s = Some (s\<lparr>heap := h', pbufs := ?m\<rparr>)"
      "mem_ok c descs (s\<lparr>heap := h'\<rparr>) (out - {(0, p, n)})"
      using dealloc_heap [OF r std] out by blast
    then show ?thesis using heap(1) mem_ok_pbufs [of c descs ?m "s\<lparr>heap := h'\<rparr>"] by auto
  next
    case ref
    then obtain ps where h: "pbuf_dealloc c p pb s = Some (s\<lparr>pools := ps, pbufs := ?m\<rparr>)"
      "mem_ok c descs (s\<lparr>pools := ps\<rparr>) (out - {(1, p, n)})"
      using dealloc_ref [OF r std] out by blast
    then show ?thesis using ref(1) mem_ok_pbufs [of c descs ?m "s\<lparr>pools := ps\<rparr>"] by auto
  next
    case pool
    then obtain ps where h: "pbuf_dealloc c p pb s = Some (s\<lparr>pools := ps, pbufs := ?m\<rparr>)"
      "mem_ok c descs (s\<lparr>pools := ps\<rparr>) (out - {(2, p, n)})"
      using dealloc_pool [OF r std] out by blast
    then show ?thesis using pool(1) mem_ok_pbufs [of c descs ?m "s\<lparr>pools := ps\<rparr>"] by auto
  qed
qed

section \<open>Freeing a chain\<close>

text \<open>The pbufs at the head of a chain that nobody else refers to, and the rest of the chain.\<close>

definition unshared :: "(addr \<rightharpoonup> pbuf) \<Rightarrow> addr list \<Rightarrow> addr list" where
  "unshared m xs = takeWhile (\<lambda>x. pb_ref (the (m x)) = 1) xs"

definition shared_at :: "(addr \<rightharpoonup> pbuf) \<Rightarrow> addr list \<Rightarrow> addr \<Rightarrow> bool" where
  "shared_at m xs x \<longleftrightarrow> (\<exists>ys. dropWhile (\<lambda>x. pb_ref (the (m x)) = 1) xs = x # ys)"

definition after_free :: "(addr \<rightharpoonup> pbuf) \<Rightarrow> addr list \<Rightarrow> addr \<rightharpoonup> pbuf" where
  "after_free m xs = (\<lambda>x. if x \<in> set (unshared m xs) then None
     else if shared_at m xs x then map_option (\<lambda>pb. pb\<lparr>pb_ref := pb_ref pb - 1\<rparr>) (m x) else m x)"

lemma unshared_Cons [simp]:
  "unshared m (x # xs) = (if pb_ref (the (m x)) = 1 then x # unshared m xs else [])"
  "unshared m [] = []"
  by (simp_all add: unshared_def)

lemma shared_at_Cons [simp]:
  "shared_at m (x # xs) y = (if pb_ref (the (m x)) = 1 then shared_at m xs y else x = y)"
  "shared_at m [] y = False"
  by (auto simp: shared_at_def)

lemma unshared_upd [simp]: "x \<notin> set xs \<Longrightarrow> unshared (m(x := v)) xs = unshared m xs"
  by (induction xs) auto

lemma shared_at_upd [simp]: "x \<notin> set xs \<Longrightarrow> shared_at (m(x := v)) xs y = shared_at m xs y"
  by (induction xs) auto

lemma set_unshared: "set (unshared m xs) \<subseteq> set xs"
  unfolding unshared_def by (metis set_takeWhileD subsetI)

lemma shared_at_in: "shared_at m xs y \<Longrightarrow> y \<in> set xs"
  by (induction xs) (auto split: if_splits)

lemma after_free_Cons:
  "x \<notin> set xs \<Longrightarrow> m x = Some pb \<Longrightarrow> after_free m (x # xs) =
     (if pb_ref pb = 1 then after_free (m(x := None)) xs else m(x \<mapsto> pb\<lparr>pb_ref := pb_ref pb - 1\<rparr>))"
proof (intro ext)
  fix y
  assume "x \<notin> set xs" "m x = Some pb"
  then show "after_free m (x # xs) y =
     (if pb_ref pb = 1 then after_free (m(x := None)) xs else m(x \<mapsto> pb\<lparr>pb_ref := pb_ref pb - 1\<rparr>)) y"
    using shared_at_in [of m xs x] set_unshared [of m xs]
    by (cases "y = x"; cases "pb_ref pb = 1") (simp_all add: after_free_def subset_iff cong: if_cong)
qed

text \<open>What a chain needs to be freed: its pbufs are standard ones that the allocators have handed out.\<close>

definition owned :: "(addr \<rightharpoonup> pbuf) \<Rightarrow> (addr \<Rightarrow> nat) \<Rightarrow> areas \<Rightarrow> addr list \<Rightarrow> bool" where
  "owned m sz out xs \<longleftrightarrow> (\<forall>x\<in>set xs. std_pbuf (the (m x)) \<and> 0 < pb_ref (the (m x)) \<and>
     (pbuf_get_allocsrc (the (m x)), x, sz x) \<in> out)"

definition area :: "(addr \<rightharpoonup> pbuf) \<Rightarrow> (addr \<Rightarrow> nat) \<Rightarrow> addr \<Rightarrow> u8 \<times> addr \<times> nat" where
  "area m sz x = (pbuf_get_allocsrc (the (m x)), x, sz x)"

lemma allocsrc_ref [simp]:
  "pbuf_get_allocsrc (pb\<lparr>pb_ref := r\<rparr>) = pbuf_get_allocsrc pb" "std_pbuf (pb\<lparr>pb_ref := r\<rparr>) = std_pbuf pb"
  by (simp_all add: pbuf_get_allocsrc_def std_pbuf_def)

lemma pbuf_free_loop_spec:
  assumes "mem_ok c descs s out" "chain (pbufs s) p xs" "owned (pbufs s) sz out xs" "k < 256"
  shows "\<exists>s'. pbuf_free_loop c p k s = Some (u8_of (k + length (unshared (pbufs s) xs)), s') \<and>
    pbufs s' = after_free (pbufs s) xs \<and> bytes s' = bytes s \<and> custom_fns s' = custom_fns s \<and>
    mem_ok c descs s' (out - area (pbufs s) sz ` set (unshared (pbufs s) xs))"
  using assms
proof (induction xs arbitrary: p k s out)
  case Nil
  then show ?case by (subst pbuf_free_loop.simps) (simp add: after_free_def u8_of_id)
next
  case (Cons x xs)
  let ?m = "pbufs s"
  obtain pb where x: "p = x" "x \<noteq> 0" "?m x = Some pb" "chain ?m (pb_next pb) xs" using Cons.prems(2) by auto
  have o: "std_pbuf pb" "0 < pb_ref pb" "(pbuf_get_allocsrc pb, x, sz x) \<in> out"
    using Cons.prems(3) x(3) by (auto simp: owned_def)
  have nx: "x \<notin> set xs" by (rule chain_notin [OF Cons.prems(2)])
  show ?case
  proof (cases "pb_ref pb = 1")
    case False
    then show ?thesis using x o Cons.prems(1,4)
      by (subst pbuf_free_loop.simps) (simp add: after_free_Cons [where m = ?m, OF nx x(3)] u8_of_id)
  next
    case True
    let ?s = "put_pbuf x (pb\<lparr>pb_ref := 0\<rparr>) s" and ?a = "(pbuf_get_allocsrc pb, x, sz x)"
    obtain s1 where s1: "pbuf_dealloc c x (pb\<lparr>pb_ref := 0\<rparr>) ?s = Some s1" "mem_ok c descs s1 (out - {?a})"
      "pbufs s1 = ?m(x := None)" "bytes s1 = bytes s" "custom_fns s1 = custom_fns s"
      using dealloc_spec [of c descs ?s out "pb\<lparr>pb_ref := 0\<rparr>" x "sz x"] Cons.prems(1) o by auto
    have own: "owned (pbufs s1) sz (out - {?a}) xs" using Cons.prems(3) nx unfolding owned_def s1(3) by auto
    have ch: "chain (pbufs s1) (pb_next pb) xs" using x(4) nx by (simp add: s1(3))
    have un: "unshared (pbufs s1) xs = unshared ?m xs" "after_free (pbufs s1) xs = after_free ?m (x # xs)"
      using nx True after_free_Cons [where m = ?m, OF nx x(3)] by (simp_all add: s1(3))
    have "area (pbufs s1) sz ` set (unshared ?m xs) = area ?m sz ` set (unshared ?m xs)"
      using nx set_unshared [of ?m xs] by (intro image_cong) (auto simp: area_def s1(3))
    then have rest: "out - {?a} - area (pbufs s1) sz ` set (unshared ?m xs) =
        out - area ?m sz ` set (unshared ?m (x # xs))"
      using True x(3) by (auto simp: area_def)
    have "u8_of (u8_of (k + 1) + n) = u8_of (k + Suc n)" for n by (simp add: u8_of_def mod_simps)
    moreover have "u8_of (k + 1) < 256" by (simp add: u8_of_def)
    ultimately obtain s' where "pbuf_free_loop c (pb_next pb) (u8_of (k + 1)) s1 =
        Some (u8_of (k + Suc (length (unshared ?m xs))), s')" "pbufs s' = after_free ?m (x # xs)"
      "bytes s' = bytes s" "custom_fns s' = custom_fns s"
      "mem_ok c descs s' (out - area ?m sz ` set (unshared ?m (x # xs)))"
      using Cons.IH [OF s1(2) ch own, of "u8_of (k + 1)"] unfolding un s1(4,5) rest by auto
    then show ?thesis using True x s1(1)
      by (subst pbuf_free_loop.simps) (simp add: x(3))
  qed
qed

lemma pbuf_free_spec:
  assumes "mem_ok c descs s out" "chain (pbufs s) p xs" "xs \<noteq> []" "owned (pbufs s) sz out xs"
  shows "\<exists>s'. pbuf_free c p s = Some (u8_of (length (unshared (pbufs s) xs)), s') \<and>
    pbufs s' = after_free (pbufs s) xs \<and> bytes s' = bytes s \<and> custom_fns s' = custom_fns s \<and>
    mem_ok c descs s' (out - area (pbufs s) sz ` set (unshared (pbufs s) xs))"
proof -
  have "p \<noteq> 0" using assms(2,3) by (cases xs) auto
  then show ?thesis using pbuf_free_loop_spec [OF assms(1,2,4), of 0] by (simp add: pbuf_free_def)
qed

lemma free_unshared:
  assumes ch: "chain (pbufs s) p xs" "xs \<noteq> []" and ok: "mem_ok c descs s (out \<union> area (pbufs s) sz ` set xs)"
    and new: "area (pbufs s) sz ` set xs \<inter> out = {}"
    and refs: "\<And>x. x \<in> set xs \<Longrightarrow> pb_ref (the (pbufs s x)) = 1 \<and> std_pbuf (the (pbufs s x))"
  shows "\<exists>s'. pbuf_free c p s = Some (u8_of (length xs), s') \<and> mem_ok c descs s' out \<and> bytes s' = bytes s \<and>
    custom_fns s' = custom_fns s \<and> (\<forall>y. pbufs s' y = (if y \<in> set xs then None else pbufs s y))"
proof -
  let ?m = "pbufs s"
  have own: "owned ?m sz (out \<union> area ?m sz ` set xs) xs"
    using refs by (auto simp: owned_def area_def)
  have un: "unshared ?m xs = xs" unfolding unshared_def using refs by (intro takeWhile_eq_all_conv [THEN iffD2]) auto
  have "dropWhile (\<lambda>x. pb_ref (the (?m x)) = 1) xs = []" unfolding dropWhile_eq_Nil_conv using refs by blast
  then have sh: "\<not> shared_at ?m xs y" for y unfolding shared_at_def by (simp only: list.distinct simp_thms)
  have "out \<union> area ?m sz ` set xs - area ?m sz ` set xs = out" using new by auto
  then show ?thesis using pbuf_free_spec [OF ok ch own] un sh by (auto simp: after_free_def)
qed

end
