(* ===== verification/Pbuf_Alloc.thy ===== *)
theory Pbuf_Alloc
  imports Pbuf
begin

text \<open>
  Correctness of \<^verbatim>\<open>pbuf_alloc\<close> and \<^verbatim>\<open>pbuf_free\<close> over the heap and the pools: what an allocation returns, that
  giving up half way loses no memory, and that freeing returns exactly what was allocated.  The facts about the
  allocators are those of the interpretations \<open>heap\<close> and \<open>pool\<close> of the allocator interface.
\<close>

section \<open>Allocating from the pool\<close>

definition pool_size :: "(memp_t \<Rightarrow> memp_desc) \<Rightarrow> nat" where
  "pool_size descs = desc_size (descs MEMP_PBUF_POOL)"

text \<open>
  The build: \<^verbatim>\<open>memp_std.h\<close> makes the elements of the pbuf pool as large as an aligned struct and an
  aligned buffer, and the memory of the pool lies below the top of the address space.
\<close>

definition pbuf_cfg_ok :: "pbuf_cfg \<Rightarrow> (memp_t \<Rightarrow> memp_desc) \<Rightarrow> bool" where
  "pbuf_cfg_ok c descs \<longleftrightarrow> mem_cfg_ok (memcfg c) \<and>
     0 < sizeof_struct_pbuf c \<and> sizeof_struct_pbuf c < 2 ^ 15 \<and> PBUF_POOL_BUFSIZE_ALIGNED c < 2 ^ 16 \<and>
     pool_size descs = SIZEOF_STRUCT_PBUF c + PBUF_POOL_BUFSIZE_ALIGNED c \<and>
     (\<forall>q\<in>elems (memcfg c) (descs MEMP_PBUF_POOL). q + 2 ^ 18 < 2 ^ 64)"

definition in_pool :: "pbuf_cfg \<Rightarrow> (memp_t \<Rightarrow> memp_desc) \<Rightarrow> addr \<Rightarrow> bool" where
  "in_pool c descs q \<longleftrightarrow> q \<in> elems (memcfg c) (descs MEMP_PBUF_POOL)"

definition pool_areas :: "(memp_t \<Rightarrow> memp_desc) \<Rightarrow> addr list \<Rightarrow> areas" where
  "pool_areas descs xs = (\<lambda>x. (2, x, pool_size descs)) ` set xs"

lemma pool_areas_simps [simp]:
  "pool_areas descs [] = {}" "pool_areas descs (xs @ ys) = pool_areas descs xs \<union> pool_areas descs ys"
  "pool_areas descs (x # xs) = insert (2, x, pool_size descs) (pool_areas descs xs)"
  by (auto simp: pool_areas_def)

lemma outstanding_pool: "(2, x, n) \<in> outstanding mc descs bs xs ys \<longleftrightarrow> (x, n) \<in> handed_out mc (descs MEMP_PBUF_POOL) ys"
  by (auto simp: outstanding_def alloc_srcs)

lemma malloc_pool_spec:
  assumes "mem_ok c descs s out"
  shows "\<exists>q ps. memp_malloc (memcfg c) MEMP_PBUF_POOL (pools s) = Some (q, ps) \<and>
    (if q = 0 then mem_ok c descs (s\<lparr>pools := ps\<rparr>) out
     else in_pool c descs q \<and> q mod MEM_ALIGNMENT (memcfg c) = 0 \<and> (2, q, pool_size descs) \<notin> out \<and>
       mem_ok c descs (s\<lparr>pools := ps\<rparr>) (insert (2, q, pool_size descs) out))"
proof -
  let ?mc = "memcfg c" and ?t = MEMP_PBUF_POOL
  obtain bs xs ys where r: "mem_rep ?mc descs s bs xs ys" and out: "out = outstanding ?mc descs bs xs ys"
    using assms unfolding mem_ok_def by blast
  note d = mem_repD(3) [OF r]
  then have "(0::nat) < 1 \<and> 1 \<le> desc_size (descs ?t)" by (simp add: desc_ok_def)
  then obtain q pool' ys' where m: "do_memp_malloc_pool ?mc (pools s ?t) = Some (q, pool')"
    "pool_rep ?mc (descs ?t) pool' ys'"
    "if q = 0 then handed_out ?mc (descs ?t) ys' = handed_out ?mc (descs ?t) ys
     else \<exists>len\<ge>1. handed_out ?mc (descs ?t) ys' = insert (q, len) (handed_out ?mc (descs ?t) ys) \<and>
       (\<forall>(a, m)\<in>handed_out ?mc (descs ?t) ys. a + m \<le> q \<or> q + len \<le> a) \<and> (q, len) \<notin> handed_out ?mc (descs ?t) ys"
    using pool.alloc_law [OF d] by blast
  let ?ps = "(pools s)(?t := pool')"
  have rep: "mem_rep ?mc descs (s\<lparr>pools := ?ps\<rparr>) bs xs ys'" using mem_repD [OF r] m(2) by (simp add: mem_rep_def)
  have call: "memp_malloc ?mc ?t (pools s) = Some (q, ?ps)" using m(1) by (simp add: memp_malloc_def)
  show ?thesis
  proof (cases "q = 0")
    case True
    then have "outstanding ?mc descs bs xs ys' = out" using m(3) by (simp add: out outstanding_def)
    then have "mem_ok c descs (s\<lparr>pools := ?ps\<rparr>) out" using rep unfolding mem_ok_def by blast
    then show ?thesis using call True by auto
  next
    case False
    then obtain len where l: "handed_out ?mc (descs ?t) ys' = insert (q, len) (handed_out ?mc (descs ?t) ys)"
      "(q, len) \<notin> handed_out ?mc (descs ?t) ys"
      using m(3) by auto
    then have q: "(q, len) \<in> handed_out ?mc (descs ?t) ys'" by simp
    then have e: "q \<in> elems ?mc (descs ?t)" "len = pool_size descs" by (auto simp: handed_out_def pool_size_def)
    have "outstanding ?mc descs bs xs ys' = insert (2, q, len) out"
      unfolding out outstanding_def l(1) alloc_srcs by auto
    then have "mem_ok c descs (s\<lparr>pools := ?ps\<rparr>) (insert (2, q, len) out)" using rep unfolding mem_ok_def by metis
    then show ?thesis using call False e l(2) elem_facts(2) [of ?mc "descs ?t" q] d
      by (auto simp: out outstanding_pool in_pool_def)
  qed
qed

text \<open>A pbuf as \<^verbatim>\<open>pbuf_alloc\<close> leaves it: one reference, its payload inside the element behind the struct.\<close>

definition pool_pbuf :: "pbuf_cfg \<Rightarrow> (memp_t \<Rightarrow> memp_desc) \<Rightarrow> addr \<Rightarrow> pbuf \<Rightarrow> bool" where
  "pool_pbuf c descs x pb \<longleftrightarrow> pb_ref pb = 1 \<and> pb_flags pb = 0 \<and> type_internal pb = 0x82 \<and>
     x + SIZEOF_STRUCT_PBUF c \<le> payload pb \<and> payload pb + pb_len pb \<le> x + pool_size descs \<and>
     payload pb mod MEM_ALIGNMENT (memcfg c) = 0"

fun tot_rem :: "(addr \<rightharpoonup> pbuf) \<Rightarrow> addr list \<Rightarrow> nat \<Rightarrow> bool" where
  "tot_rem m [] r \<longleftrightarrow> True"
| "tot_rem m (x # xs) r \<longleftrightarrow> tot_len (the (m x)) = sum_len m (x # xs) + r \<and> tot_rem m xs r"

lemma tot_rem_0: "tot_rem m xs 0 = tot_ok m xs"
  by (induction xs) auto

lemma tot_rem_cong:
  "(\<And>x. x \<in> set xs \<Longrightarrow> pb_len (the (m x)) = pb_len (the (m' x)) \<and> tot_len (the (m x)) = tot_len (the (m' x))) \<Longrightarrow>
   tot_rem m xs r = tot_rem m' xs r"
proof (induction xs)
  case (Cons x xs)
  then have "sum_len m (x # xs) = sum_len m' (x # xs)" by (intro sum_len_cong) auto
  with Cons show ?case by simp
qed simp

lemma tot_rem_snoc:
  "tot_rem m (xs @ [q]) r \<longleftrightarrow> tot_rem m xs (pb_len (the (m q)) + r) \<and> tot_len (the (m q)) = pb_len (the (m q)) + r"
  by (induction xs) auto

text \<open>Linking a new pbuf behind the last one of a chain.\<close>

lemma path_snoc:
  assumes "path m p xs 0" "xs \<noteq> []" "q \<noteq> 0" "q \<notin> set xs"
    and l: "m (last xs) = Some lb"
  shows "path (m(last xs \<mapsto> lb\<lparr>pb_next := q\<rparr>)) p xs q"
  using assms
proof (induction xs arbitrary: p)
  case (Cons x xs)
  have "x \<notin> set xs" using chain_notin [OF Cons.prems(1)] .
  then show ?case using Cons by (cases "xs = []") auto
qed simp

definition pool_acc ::
  "pbuf_cfg \<Rightarrow> (memp_t \<Rightarrow> memp_desc) \<Rightarrow> areas \<Rightarrow> lwip_mem \<Rightarrow> addr \<Rightarrow> addr list \<Rightarrow> nat \<Rightarrow> bool" where
  "pool_acc c descs out s p xs r \<longleftrightarrow>
     mem_ok c descs s (out \<union> pool_areas descs xs) \<and> chain (pbufs s) p xs \<and> tot_rem (pbufs s) xs r \<and>
     (\<forall>x\<in>set xs. in_pool c descs x \<and> (2, x, pool_size descs) \<notin> out \<and>
       (\<exists>pb. pbufs s x = Some pb \<and> pool_pbuf c descs x pb))"

definition link_last :: "addr \<Rightarrow> addr list \<Rightarrow> addr \<Rightarrow> (addr \<rightharpoonup> pbuf) \<Rightarrow> addr \<rightharpoonup> pbuf" where
  "link_last p xs q m = (if xs = [] then m else m(last xs := map_option (\<lambda>l. l\<lparr>pb_next := q\<rparr>) (m (last xs))))"

lemma link_last_simps:
  "map_option pb_len (link_last p xs q m x) = map_option pb_len (m x)"
  "map_option tot_len (link_last p xs q m x) = map_option tot_len (m x)"
  "x \<notin> set xs \<Longrightarrow> link_last p xs q m x = m x"
  by (auto simp: link_last_def option.map_comp o_def)

lemma pool_acc_step:
  assumes acc: "pool_acc c descs out s p xs (n + r)"
    and q: "in_pool c descs q" "q \<noteq> 0" "(2, q, pool_size descs) \<notin> out \<union> pool_areas descs xs"
    and ok: "mem_ok c descs (s\<lparr>pools := ps\<rparr>) (insert (2, q, pool_size descs) (out \<union> pool_areas descs xs))"
    and pb: "pool_pbuf c descs q pb" "pb_next pb = 0" "tot_len pb = n + r" "pb_len pb = n"
    and s': "s' = s\<lparr>pools := ps, pbufs := link_last p xs q ((pbufs s)(q \<mapsto> pb))\<rparr>"
  shows "pool_acc c descs out s' (if p = 0 then q else p) (xs @ [q]) r \<and>
    sum_len (pbufs s') (xs @ [q]) = sum_len (pbufs s) xs + n"
proof -
  let ?m = "pbufs s" and ?m1 = "(pbufs s)(q \<mapsto> pb)" and ?m' = "pbufs s'"
  have qx: "q \<notin> set xs" using q(3) by (auto simp: pool_areas_def)
  have m': "?m' = link_last p xs q ?m1" by (simp add: s')
  have acc': "chain ?m p xs" "tot_rem ?m xs (n + r)" "\<And>x. x \<in> set xs \<Longrightarrow> in_pool c descs x \<and>
      (2, x, pool_size descs) \<notin> out \<and> (\<exists>pb. ?m x = Some pb \<and> pool_pbuf c descs x pb)"
    using acc by (auto simp: pool_acc_def)
  have mq: "?m' q = Some pb" unfolding m' using link_last_simps(3) [OF qx] by simp
  have ch: "chain ?m' (if p = 0 then q else p) (xs @ [q])"
  proof (cases "xs = []")
    case True
    then show ?thesis using acc'(1) mq q(2) pb(2) by auto
  next
    case False
    then have "p \<noteq> 0" using acc'(1) by (cases xs) auto
    have "chain ?m1 p xs" using acc'(1) qx by simp
    moreover have l: "last xs \<in> set xs" "last xs \<noteq> q" using False qx last_in_set [OF False] by auto
    then obtain lb where "?m1 (last xs) = Some lb" using acc'(3) [OF l(1)] by auto
    ultimately have "path (?m1(last xs \<mapsto> lb\<lparr>pb_next := q\<rparr>)) p xs q" "?m' = ?m1(last xs \<mapsto> lb\<lparr>pb_next := q\<rparr>)"
      using path_snoc [of ?m1 p xs q lb] False q(2) qx by (auto simp: m' link_last_def)
    then have "path ?m' p xs q" by simp
    then show ?thesis using \<open>p \<noteq> 0\<close> mq q(2) pb(2) by (auto simp: path_append)
  qed
  have len: "pb_len (the (?m' x)) = pb_len (the (?m x)) \<and> tot_len (the (?m' x)) = tot_len (the (?m x))"
    if "x \<in> set xs" for x
  proof -
    have "?m1 x = ?m x" "?m x \<noteq> None" using qx that acc'(3) [OF that] by auto
    then show ?thesis using link_last_simps(1,2) [of p xs q ?m1 x] unfolding m' by (auto simp: map_option_case split: option.splits)
  qed
  then have "sum_len ?m' xs = sum_len ?m xs" "tot_rem ?m' xs (n + r) = tot_rem ?m xs (n + r)"
    using sum_len_cong [of xs ?m' ?m] tot_rem_cong [of xs ?m' ?m] by auto
  then have rest: "sum_len ?m' (xs @ [q]) = sum_len ?m xs + n" "tot_rem ?m' (xs @ [q]) r"
    using acc'(2) mq pb by (auto simp: tot_rem_snoc)
  have "in_pool c descs x \<and> (2, x, pool_size descs) \<notin> out \<and> (\<exists>pb. ?m' x = Some pb \<and> pool_pbuf c descs x pb)"
    if xm: "x \<in> set (xs @ [q])" for x
  proof (cases "x = q")
    case True
    then show ?thesis using q mq pb(1) by simp
  next
    case False
    then obtain xb where x: "x \<in> set xs" "?m1 x = Some xb" "pool_pbuf c descs x xb" using xm acc'(3) [of x] by auto
    then have "\<exists>b. ?m' x = Some b \<and> pool_pbuf c descs x b"
      unfolding m' link_last_def by (auto simp: pool_pbuf_def)
    then show ?thesis using acc'(3) [OF x(1)] by blast
  qed
  moreover have "mem_ok c descs s' (out \<union> pool_areas descs (xs @ [q]))"
    using ok unfolding s' by (simp add: mem_ok_def mem_rep_def)
  ultimately show ?thesis using ch rest by (simp add: pool_acc_def)
qed

lemma align_up_offset: "A dvd b \<Longrightarrow> 0 < A \<Longrightarrow> (b + x + A - 1) div A * A = b + (x + A - 1) div A * A" for A b x :: nat
proof -
  assume "A dvd b" "0 < A"
  then obtain k where b: "b = A * k" by auto
  have "b + x + A - 1 = (x + A - 1) + A * k" using \<open>0 < A\<close> by (simp add: b)
  then have "(b + x + A - 1) div A = k + (x + A - 1) div A" using \<open>0 < A\<close> by (simp only: div_mult_self2)
  then show ?thesis by (simp add: b algebra_simps)
qed

lemma align_payload:
  assumes "mem_cfg_ok mc" "MEM_ALIGNMENT mc dvd b" "b + x + MEM_ALIGNMENT mc < 2 ^ 64" "x + MEM_ALIGNMENT mc < 2 ^ 32"
  shows "LWIP_MEM_ALIGN (MEM_ALIGNMENT mc) (b + x) = b + LWIP_MEM_ALIGN_SIZE (MEM_ALIGNMENT mc) x"
  unfolding MEM_ALIGN [OF assms(1,3)] ALIGN_SIZE [OF assms(1,4)]
  by (rule align_up_offset [OF assms(2) mem_cfg_facts(1) [OF assms(1)]])

lemma pool_cfg_facts:
  assumes "pbuf_cfg_ok c descs"
  shows "MEM_ALIGNMENT (memcfg c) \<le> 1024" "0 < MEM_ALIGNMENT (memcfg c)" "SIZEOF_STRUCT_PBUF c < 2 ^ 16"
    "MEM_ALIGNMENT (memcfg c) dvd SIZEOF_STRUCT_PBUF c" "sizeof_struct_pbuf c \<le> SIZEOF_STRUCT_PBUF c"
proof -
  have c: "mem_cfg_ok (memcfg c)" "sizeof_struct_pbuf c < 2 ^ 15" using assms by (auto simp: pbuf_cfg_ok_def)
  obtain k where A: "MEM_ALIGNMENT (memcfg c) = 2 ^ k" "0 < MEM_ALIGNMENT (memcfg c)" "MEM_ALIGNMENT (memcfg c) \<le> 1024"
    using mem_cfg_alignment [OF c(1)] by metis
  then have "sizeof_struct_pbuf c + MEM_ALIGNMENT (memcfg c) < 2 ^ 32" using c(2) by simp
  note b = ALIGN_SIZE_bounds [OF c(1) this]
  show "MEM_ALIGNMENT (memcfg c) \<le> 1024" "0 < MEM_ALIGNMENT (memcfg c)" using A by auto
  show "SIZEOF_STRUCT_PBUF c < 2 ^ 16" "MEM_ALIGNMENT (memcfg c) dvd SIZEOF_STRUCT_PBUF c"
    "sizeof_struct_pbuf c \<le> SIZEOF_STRUCT_PBUF c"
    using b c(2) A unfolding SIZEOF_STRUCT_PBUF_def by auto
qed

lemma pool_payload:
  assumes cfg: "pbuf_cfg_ok c descs" and q: "in_pool c descs q" "q mod MEM_ALIGNMENT (memcfg c) = 0"
    and off: "offset < 65536" "align_size c offset < PBUF_POOL_BUFSIZE_ALIGNED c"
  shows "align_addr c (q + SIZEOF_STRUCT_PBUF c + offset) = q + SIZEOF_STRUCT_PBUF c + align_size c offset"
    "(q + SIZEOF_STRUCT_PBUF c + align_size c offset) mod MEM_ALIGNMENT (memcfg c) = 0"
    "u32_sub (PBUF_POOL_BUFSIZE_ALIGNED c) (align_size c offset) = PBUF_POOL_BUFSIZE_ALIGNED c - align_size c offset"
    "u16_of (PBUF_POOL_BUFSIZE_ALIGNED c - align_size c offset) = PBUF_POOL_BUFSIZE_ALIGNED c - align_size c offset"
proof -
  note f = pool_cfg_facts [OF cfg]
  have c: "mem_cfg_ok (memcfg c)" "PBUF_POOL_BUFSIZE_ALIGNED c < 2 ^ 16" "q + 2 ^ 18 < 2 ^ 64"
    using cfg q(1) by (auto simp: pbuf_cfg_ok_def in_pool_def)
  have small: "offset + MEM_ALIGNMENT (memcfg c) < 2 ^ 32" using off(1) f(1) by simp
  have dv: "MEM_ALIGNMENT (memcfg c) dvd q + SIZEOF_STRUCT_PBUF c" using q(2) f(4) by (simp add: mod_0_imp_dvd)
  have "q + SIZEOF_STRUCT_PBUF c + offset + MEM_ALIGNMENT (memcfg c) < 2 ^ 64" using c(3) f off(1) by simp
  then show "align_addr c (q + SIZEOF_STRUCT_PBUF c + offset) = q + SIZEOF_STRUCT_PBUF c + align_size c offset"
    by (intro align_payload c(1) dv small)
  show "(q + SIZEOF_STRUCT_PBUF c + align_size c offset) mod MEM_ALIGNMENT (memcfg c) = 0"
    using dv ALIGN_SIZE_bounds(1) [OF c(1) small] by simp
  show "u32_sub (PBUF_POOL_BUFSIZE_ALIGNED c) (align_size c offset) = PBUF_POOL_BUFSIZE_ALIGNED c - align_size c offset"
    using off(2) c(2) by (intro u32_sub_id) auto
  show "u16_of (PBUF_POOL_BUFSIZE_ALIGNED c - align_size c offset) = PBUF_POOL_BUFSIZE_ALIGNED c - align_size c offset"
    using c(2) by (intro u16_of_id) auto
qed

text \<open>Giving up: the chain allocated so far is freed as a whole.\<close>

lemma free_pool_acc:
  assumes acc: "pool_acc c descs out s p xs r" and "p \<noteq> 0"
  shows "\<exists>k s'. pbuf_free c p s = Some (k, s') \<and> bytes s' = bytes s \<and> custom_fns s' = custom_fns s \<and>
    mem_ok c descs s' out \<and> (\<forall>y. y \<notin> set xs \<longrightarrow> pbufs s' y = pbufs s y)"
proof -
  let ?sz = "\<lambda>_. pool_size descs"
  have a: "mem_ok c descs s (out \<union> pool_areas descs xs)" "chain (pbufs s) p xs" "xs \<noteq> []"
    "\<And>x. x \<in> set xs \<Longrightarrow> (2, x, pool_size descs) \<notin> out \<and> (\<exists>pb. pbufs s x = Some pb \<and> pool_pbuf c descs x pb)"
    using acc assms(2) by (auto simp: pool_acc_def)
  have src: "area (pbufs s) ?sz x = (2, x, pool_size descs)"
    "pb_ref (the (pbufs s x)) = 1 \<and> std_pbuf (the (pbufs s x))" if "x \<in> set xs" for x
    using a(4) [OF that]
    by (auto simp: area_def pool_pbuf_def pbuf_get_allocsrc_def std_pbuf_def PBUF_TYPE_ALLOC_SRC_MASK_def)
  then have eq: "area (pbufs s) ?sz ` set xs = pool_areas descs xs" by (auto simp: pool_areas_def)
  have "area (pbufs s) ?sz ` set xs \<inter> out = {}" using a(4) by (auto simp: eq pool_areas_def)
  then show ?thesis using free_unshared [OF a(2,3), where sz = ?sz and c = c and descs = descs and out = out] a(1) eq src(2)
    by fastforce
qed

definition pool_result ::
  "pbuf_cfg \<Rightarrow> (memp_t \<Rightarrow> memp_desc) \<Rightarrow> areas \<Rightarrow> lwip_mem \<Rightarrow> nat \<Rightarrow> addr \<Rightarrow> lwip_mem \<Rightarrow> bool" where
  "pool_result c descs out s len p s' \<longleftrightarrow> bytes s' = bytes s \<and> custom_fns s' = custom_fns s \<and>
     (\<forall>y. \<not> (in_pool c descs y \<and> (2, y, pool_size descs) \<notin> out) \<longrightarrow> pbufs s' y = pbufs s y) \<and>
     (if p = 0 then mem_ok c descs s' out
      else \<exists>xs. xs \<noteq> [] \<and> pool_acc c descs out s' p xs 0 \<and> sum_len (pbufs s') xs = len)"

lemma u16_sub_min: "r < 65536 \<Longrightarrow> u16_sub r (min r x) = r - min r x"
  by (intro u16_sub_id) auto

lemma init_pool:
  "pbuf_init_alloced_pbuf q pay r n PBUF_POOL 0 s = put_pbuf q \<lparr>pb_next = 0, payload = pay, tot_len = r, pb_len = n,
     type_internal = 0x82, pb_flags = 0, pb_ref = 1, if_idx = 0\<rparr> s"
proof -
  have "ucast PBUF_POOL = (0x82 :: u8)" unfolding PBUF_POOL_def by code_simp
  then show ?thesis by (simp add: pbuf_init_alloced_pbuf_def)
qed

lemma alloc_pool_round:
  assumes cfg: "pbuf_cfg_ok c descs" and acc: "pool_acc c descs out s p xs r" and "xs \<noteq> [] \<longrightarrow> lst = last xs"
    and r: "r < 65536" and off: "offset < 65536" "align_size c offset < PBUF_POOL_BUFSIZE_ALIGNED c"
    and n_def: "n = min r (PBUF_POOL_BUFSIZE_ALIGNED c - align_size c offset)"
  shows "(\<exists>s'. pbuf_alloc_pool c PBUF_POOL p lst r offset s = Some (0, s') \<and> pool_result c descs out s len 0 s') \<or>
    (\<exists>q p' s'. pbuf_alloc_pool c PBUF_POOL p lst r offset s =
        (if r - n > 0 then pbuf_alloc_pool c PBUF_POOL p' q (r - n) 0 s' else Some (p', s')) \<and>
      p' \<noteq> 0 \<and> pool_acc c descs out s' p' (xs @ [q]) (r - n) \<and> bytes s' = bytes s \<and> custom_fns s' = custom_fns s \<and>
      sum_len (pbufs s') (xs @ [q]) = sum_len (pbufs s) xs + n \<and>
      (\<forall>y. \<not> (in_pool c descs y \<and> (2, y, pool_size descs) \<notin> out) \<longrightarrow> pbufs s' y = pbufs s y))"
proof -
  have a: "mem_ok c descs s (out \<union> pool_areas descs xs)" "chain (pbufs s) p xs"
    "\<And>x. x \<in> set xs \<Longrightarrow> in_pool c descs x \<and> (2, x, pool_size descs) \<notin> out \<and> (\<exists>pb. pbufs s x = Some pb)"
    using acc by (auto simp: pool_acc_def)
  obtain q ps where q: "memp_malloc (memcfg c) MEMP_PBUF_POOL (pools s) = Some (q, ps)"
    "if q = 0 then mem_ok c descs (s\<lparr>pools := ps\<rparr>) (out \<union> pool_areas descs xs)
     else in_pool c descs q \<and> q mod MEM_ALIGNMENT (memcfg c) = 0 \<and>
       (2, q, pool_size descs) \<notin> out \<union> pool_areas descs xs \<and>
       mem_ok c descs (s\<lparr>pools := ps\<rparr>) (insert (2, q, pool_size descs) (out \<union> pool_areas descs xs))"
    using malloc_pool_spec [OF a(1)] by blast
  show ?thesis
  proof (cases "q = 0")
    case True
    then have acc1: "pool_acc c descs out (s\<lparr>pools := ps\<rparr>) p xs r" using acc q(2) by (simp add: pool_acc_def)
    have "\<exists>s'. pbuf_alloc_pool c PBUF_POOL p lst r offset s = Some (0, s') \<and> pool_result c descs out s len 0 s'"
    proof (cases "p = 0")
      case True
      then have "xs = []" using a(2) by simp
      then show ?thesis using True \<open>q = 0\<close> q
        by (subst pbuf_alloc_pool.simps) (simp add: pool_result_def)
    next
      case False
      then show ?thesis using \<open>q = 0\<close> q(1) free_pool_acc [OF acc1 False] a(3)
        by (subst pbuf_alloc_pool.simps) (fastforce simp: pool_result_def)
    qed
    then show ?thesis by blast
  next
    case False
    define pb where "pb = \<lparr>pb_next = 0, payload = q + SIZEOF_STRUCT_PBUF c + align_size c offset, tot_len = r, pb_len = n,
      type_internal = 0x82, pb_flags = 0, pb_ref = 1, if_idx = 0\<rparr>"
    define s' where "s' = s\<lparr>pools := ps, pbufs := link_last p xs q ((pbufs s)(q \<mapsto> pb))\<rparr>"
    have f: "in_pool c descs q" "q mod MEM_ALIGNMENT (memcfg c) = 0" "(2, q, pool_size descs) \<notin> out \<union> pool_areas descs xs"
      "mem_ok c descs (s\<lparr>pools := ps\<rparr>) (insert (2, q, pool_size descs) (out \<union> pool_areas descs xs))"
      using q(2) False by auto
    note pay = pool_payload [OF cfg f(1,2) off]
    have sz: "pool_size descs = SIZEOF_STRUCT_PBUF c + PBUF_POOL_BUFSIZE_ALIGNED c" using cfg by (simp add: pbuf_cfg_ok_def)
    have "pool_pbuf c descs q pb"
      using pay(2) off(2) by (auto simp: pool_pbuf_def pb_def sz n_def)
    then have st: "pool_acc c descs out s' (if p = 0 then q else p) (xs @ [q]) (r - n) \<and>
        sum_len (pbufs s') (xs @ [q]) = sum_len (pbufs s) xs + n"
      using acc f False by (intro pool_acc_step [of c descs out s p xs n "r - n" q ps pb]) (auto simp: pb_def n_def s'_def)
    have sub_n: "u16_sub r n = r - n" unfolding n_def by (rule u16_sub_min [OF r])
    have qx: "q \<notin> set xs" using f(3) by (auto simp: pool_areas_def)
    have "pbuf_alloc_pool c PBUF_POOL p lst r offset s =
        (if r - n > 0 then pbuf_alloc_pool c PBUF_POOL (if p = 0 then q else p) q (r - n) 0 s'
         else Some (if p = 0 then q else p, s'))"
    proof (cases "xs = []")
      case True
      then have "p = 0" using a(2) by simp
      then show ?thesis using q(1) False True off(2) pay
        by (subst pbuf_alloc_pool.simps)
          (simp add: init_pool n_def [symmetric] sub_n pb_def s'_def link_last_def put_pbuf_def)
    next
      case ne: False
      then have "p \<noteq> 0" using a(2) by (cases xs) auto
      moreover have l: "last xs \<in> set xs" "last xs \<noteq> q" using ne qx last_in_set [OF ne] by auto
      moreover obtain lb where "pbufs s (last xs) = Some lb" using a(3) [OF l(1)] by blast
      ultimately show ?thesis using q(1) False ne off(2) pay assms(3)
        by (subst pbuf_alloc_pool.simps)
          (simp add: init_pool n_def [symmetric] sub_n pb_def s'_def link_last_def put_pbuf_def)
    qed
    moreover have "pbufs s' y = pbufs s y" if "\<not> (in_pool c descs y \<and> (2, y, pool_size descs) \<notin> out)" for y
    proof -
      have "y \<noteq> q" "y \<notin> set xs" using that f a(3) by auto
      then show ?thesis using link_last_simps(3) [of y xs p q] by (simp add: s'_def)
    qed
    ultimately show ?thesis using st False
      by (intro disjI2 exI [of _ q] exI [of _ "if p = 0 then q else p"] exI [of _ s']) (auto simp: s'_def)
  qed
qed

lemma alloc_pool_loop:
  assumes cfg: "pbuf_cfg_ok c descs" and "pool_acc c descs out s p xs r" "xs \<noteq> [] \<longrightarrow> lst = last xs"
    and "r < 65536" "offset < 65536" "align_size c offset < PBUF_POOL_BUFSIZE_ALIGNED c"
    and "sum_len (pbufs s) xs + r = len"
  shows "\<exists>p' s'. pbuf_alloc_pool c PBUF_POOL p lst r offset s = Some (p', s') \<and> pool_result c descs out s len p' s'"
  using assms(2-)
proof (induction r arbitrary: s p xs lst offset rule: less_induct)
  case (less r)
  define n where "n = min r (PBUF_POOL_BUFSIZE_ALIGNED c - align_size c offset)"
  have "align_size c 0 = 0"
    using cfg ALIGN_SIZE [of "memcfg c" 0] pool_cfg_facts(1,2) [OF cfg] by (simp add: pbuf_cfg_ok_def)
  then have z: "align_size c 0 < PBUF_POOL_BUFSIZE_ALIGNED c" using less.prems(5) by simp
  consider (null) s' where "pbuf_alloc_pool c PBUF_POOL p lst r offset s = Some (0, s')" "pool_result c descs out s len 0 s'"
    | (round) q p' s' where "pbuf_alloc_pool c PBUF_POOL p lst r offset s =
          (if r - n > 0 then pbuf_alloc_pool c PBUF_POOL p' q (r - n) 0 s' else Some (p', s'))"
        "p' \<noteq> 0" "pool_acc c descs out s' p' (xs @ [q]) (r - n)" "bytes s' = bytes s" "custom_fns s' = custom_fns s"
        "sum_len (pbufs s') (xs @ [q]) = sum_len (pbufs s) xs + n"
        "\<And>y. \<not> (in_pool c descs y \<and> (2, y, pool_size descs) \<notin> out) \<Longrightarrow> pbufs s' y = pbufs s y"
    using alloc_pool_round [OF cfg less.prems(1,2,3,4,5) n_def, where len = len]
    by (elim disjE exE conjE) blast+
  then show ?case
  proof cases
    case null
    then show ?thesis by blast
  next
    case round
    show ?thesis
    proof (cases "r - n > 0")
      case True
      have "n > 0" using True less.prems(5) unfolding n_def by auto
      then have "r - n < r" using True by simp
      moreover have "sum_len (pbufs s') (xs @ [q]) + (r - n) = len" using round(6) less.prems(6) True by simp
      ultimately obtain p2 s2 where r2: "pbuf_alloc_pool c PBUF_POOL p' q (r - n) 0 s' = Some (p2, s2)"
        "pool_result c descs out s' len p2 s2"
        using less.IH [OF _ round(3), of q 0] less.prems(3) z by auto
      then have "pool_result c descs out s len p2 s2" using round(4,5,7) by (auto simp: pool_result_def)
      then show ?thesis using round(1) True r2(1) by auto
    next
      case False
      then have "r = n" "r - n = 0" by (simp_all add: n_def)
      then have "pool_result c descs out s len p' s'"
        using round(2-7) less.prems(6) unfolding pool_result_def by auto
      then show ?thesis using round(1) False by auto
    qed
  qed
qed

section \<open>The result of an allocation\<close>

text \<open>A new pbuf: one reference, and its aligned payload lies behind the struct in the memory block.\<close>

definition new_pbuf :: "pbuf_cfg \<Rightarrow> addr \<Rightarrow> nat \<Rightarrow> pbuf \<Rightarrow> bool" where
  "new_pbuf c x n pb \<longleftrightarrow> pb_ref pb = 1 \<and> std_pbuf pb \<and> x + SIZEOF_STRUCT_PBUF c \<le> payload pb \<and>
     payload pb + pb_len pb \<le> x + n \<and> payload pb mod MEM_ALIGNMENT (memcfg c) = 0"

text \<open>
  The chain \<open>xs\<close> is new: it lies in memory that was not handed out before, in blocks of sizes \<open>sz\<close>.
  Structs in memory that is in use are not touched.
\<close>

definition new_chain ::
  "pbuf_cfg \<Rightarrow> (memp_t \<Rightarrow> memp_desc) \<Rightarrow> areas \<Rightarrow> lwip_mem \<Rightarrow> lwip_mem \<Rightarrow> addr \<Rightarrow> addr list \<Rightarrow> (addr \<Rightarrow> nat) \<Rightarrow> bool" where
  "new_chain c descs out s s' p xs sz \<longleftrightarrow>
     packet (pbufs s') p xs \<and> mem_ok c descs s' (out \<union> area (pbufs s') sz ` set xs) \<and>
     area (pbufs s') sz ` set xs \<inter> out = {} \<and> (\<forall>x\<in>set xs. new_pbuf c x (sz x) (the (pbufs s' x))) \<and>
     (\<forall>y. y \<notin> set xs \<and> \<not> (in_pool c descs y \<and> (2, y, pool_size descs) \<notin> out) \<longrightarrow> pbufs s' y = pbufs s y) \<and>
     bytes s' = bytes s"

lemma new_chain_pool:
  assumes res: "pool_result c descs out s len p s'" and len: "len < 65536"
  shows "\<exists>xs. new_chain c descs out s s' p xs (\<lambda>_. pool_size descs) \<and> (p = 0 \<longleftrightarrow> xs = []) \<and>
    (p \<noteq> 0 \<longrightarrow> sum_len (pbufs s') xs = len)"
proof (cases "p = 0")
  case True
  then show ?thesis using res by (auto simp: pool_result_def new_chain_def packet_def)
next
  case False
  then obtain xs where xs: "xs \<noteq> []" "pool_acc c descs out s' p xs 0" "sum_len (pbufs s') xs = len"
    using res by (auto simp: pool_result_def)
  have x: "(2, x, pool_size descs) \<notin> out \<and> (\<exists>pb. pbufs s' x = Some pb \<and> pool_pbuf c descs x pb)" if "x \<in> set xs" for x
    using xs(2) that by (auto simp: pool_acc_def)
  have src: "area (pbufs s') (\<lambda>_. pool_size descs) x = (2, x, pool_size descs)"
    "new_pbuf c x (pool_size descs) (the (pbufs s' x))" if "x \<in> set xs" for x
    using x [OF that] by (auto simp: area_def pool_pbuf_def pbuf_get_allocsrc_def std_pbuf_def new_pbuf_def
        PBUF_TYPE_ALLOC_SRC_MASK_def)
  then have "area (pbufs s') (\<lambda>_. pool_size descs) ` set xs = pool_areas descs xs" by (auto simp: pool_areas_def)
  moreover from this have "area (pbufs s') (\<lambda>_. pool_size descs) ` set xs \<inter> out = {}" using x by (auto simp: pool_areas_def)
  moreover have "packet (pbufs s') p xs" "mem_ok c descs s' (out \<union> pool_areas descs xs)"
    using xs len by (simp_all add: pool_acc_def packet_def tot_rem_0)
  ultimately have "new_chain c descs out s s' p xs (\<lambda>_. pool_size descs)"
    using res src(2) by (auto simp: new_chain_def pool_result_def)
  then show ?thesis using False xs by auto
qed

lemma alloc_ram_len:
  assumes cfg: "pbuf_cfg_ok c descs" and off: "offset < 65536" "SIZEOF_STRUCT_PBUF c + align_size c offset < 65536"
    and len: "len < 65536"
  defines "plen \<equiv> u16_of (align_size c offset + align_size c len)"
  defines "alen \<equiv> mem_size_of (memcfg c) (align_size c (SIZEOF_STRUCT_PBUF c) + plen)"
  shows "plen < align_size c len \<or> alen < align_size c len \<or>
    alen = SIZEOF_STRUCT_PBUF c + align_size c offset + align_size c len \<and> len \<le> align_size c len"
proof -
  note f = pool_cfg_facts [OF cfg]
  have c: "mem_cfg_ok (memcfg c)" using cfg by (simp add: pbuf_cfg_ok_def)
  have S: "SIZEOF_STRUCT_PBUF c + MEM_ALIGNMENT (memcfg c) < 2 ^ 32" using f(1,3) by simp
  have eq: "align_size c (SIZEOF_STRUCT_PBUF c) = SIZEOF_STRUCT_PBUF c"
    unfolding ALIGN_SIZE [OF c S] by (rule align_up_id [OF f(2,4)])
  have l: "len \<le> align_size c len" "align_size c len < len + 1024"
    using ALIGN_SIZE_bounds [OF c, of len] len f(1) by auto
  show ?thesis
  proof (cases "align_size c offset + align_size c len < 65536")
    case True
    then have p: "plen = align_size c offset + align_size c len" unfolding plen_def by (rule u16_of_id)
    show ?thesis
    proof (cases "SIZEOF_STRUCT_PBUF c + plen < mem_size_mod (memcfg c)")
      case True
      then have "alen = SIZEOF_STRUCT_PBUF c + plen" by (simp add: alen_def eq mem_size_of_def)
      then show ?thesis using l p by simp
    next
      case False
      then have m: "mem_size_mod (memcfg c) = 65536" using p True f(3) by (simp add: mem_size_mod_def split: if_splits)
      then have "alen = SIZEOF_STRUCT_PBUF c + plen - 65536"
        using False True p f(3) unfolding alen_def eq mem_size_of_def m by (simp add: le_mod_geq)
      then have "alen < align_size c len" using p off(2) True False unfolding m by linarith
      then show ?thesis by simp
    qed
  next
    case False
    then have "plen \<le> align_size c offset + align_size c len - 65536"
      unfolding plen_def u16_of_def by (simp add: le_mod_geq)
    then have "plen < align_size c len" using off(2) False by linarith
    then show ?thesis by simp
  qed
qed

lemma init_ram:
  "pbuf_init_alloced_pbuf q pay r n PBUF_RAM 0 s = put_pbuf q \<lparr>pb_next = 0, payload = pay, tot_len = r, pb_len = n,
     type_internal = 0x80, pb_flags = 0, pb_ref = 1, if_idx = 0\<rparr> s"
proof -
  have "ucast PBUF_RAM = (0x80 :: u8)" unfolding PBUF_RAM_def by code_simp
  then show ?thesis by (simp add: pbuf_init_alloced_pbuf_def)
qed

lemma new_chain_null: "mem_ok c descs s out \<Longrightarrow> new_chain c descs out s s 0 [] sz"
  by (simp add: new_chain_def packet_def)

lemma malloc_heap_spec:
  assumes "mem_ok c descs s out" "0 < n"
  shows "\<exists>p h'. mem_malloc (memcfg c) n (heap s) = Some (p, h') \<and>
    (if p = 0 then h' = heap s
     else MEM_ALIGNMENT (memcfg c) dvd p \<and> p < 2 ^ 64 \<and>
       (\<exists>len\<ge>n. p + len + MEM_ALIGNMENT (memcfg c) < 2 ^ 64 \<and> (0, p, len) \<notin> out \<and>
          mem_ok c descs (s\<lparr>heap := h'\<rparr>) (insert (0, p, len) out)))"
proof -
  let ?mc = "memcfg c"
  let ?al = "allocs ?mc (MEM_SIZE_ALIGNED ?mc)"
  obtain bs xs ys where r: "mem_rep ?mc descs s bs xs ys" and out: "out = outstanding ?mc descs bs xs ys"
    using assms unfolding mem_ok_def by blast
  have h: "mem_cfg_ok ?mc" "heap_ok ?mc (heap s) bs" using mem_repD(1) [OF r] by auto
  obtain p h' bs' where m: "mem_malloc ?mc n (heap s) = Some (p, h')" "heap_ok ?mc h' bs'"
    "if p = 0 then h' = heap s \<and> bs' = bs
     else MEM_ALIGNMENT ?mc dvd p \<and> ram ?mc \<le> p \<and>
       (\<exists>len\<ge>n. p + len \<le> ram ?mc + MEM_SIZE_ALIGNED ?mc \<and> ?al bs' = insert (p, len) (?al bs) \<and>
         (\<forall>(a, m)\<in>?al bs. a + m \<le> p \<or> p + len \<le> a))"
    using mem_malloc_spec [OF h assms(2)] by blast
  show ?thesis
  proof (cases "p = 0")
    case True
    then show ?thesis using m by auto
  next
    case False
    then obtain len where l: "MEM_ALIGNMENT ?mc dvd p" "len \<ge> n" "p + len \<le> ram ?mc + MEM_SIZE_ALIGNED ?mc"
      "?al bs' = insert (p, len) (?al bs)" "\<forall>(a, m)\<in>?al bs. a + m \<le> p \<or> p + len \<le> a"
      using m(3) by auto
    have "mem_rep ?mc descs (s\<lparr>heap := h'\<rparr>) bs' xs ys" using mem_repD [OF r] m(2) by (simp add: mem_rep_def)
    moreover have "outstanding ?mc descs bs' xs ys = insert (0, p, len) out"
      unfolding out outstanding_def l(4) alloc_srcs by auto
    ultimately have "mem_ok c descs (s\<lparr>heap := h'\<rparr>) (insert (0, p, len) out)" unfolding mem_ok_def by metis
    moreover have "(0, p, len) \<notin> out" using l(2,5) assms(2) by (auto simp: out outstanding_def alloc_srcs)
    moreover have "p + len + MEM_ALIGNMENT ?mc < 2 ^ 64" using l(3) mem_cfg_facts(10) [OF h(1)] by linarith
    ultimately show ?thesis using m(1) False l(1,2) by auto
  qed
qed

text \<open>What \<^verbatim>\<open>pbuf_alloc\<close> writes into the struct of a new \<^verbatim>\<open>PBUF_RAM\<close> pbuf at \<open>p\<close>.\<close>

definition ram_pbuf :: "pbuf_cfg \<Rightarrow> addr \<Rightarrow> nat \<Rightarrow> nat \<Rightarrow> pbuf" where
  "ram_pbuf c p offset len = \<lparr>pb_next = 0, payload = p + SIZEOF_STRUCT_PBUF c + align_size c offset, tot_len = len,
     pb_len = len, type_internal = 0x80, pb_flags = 0, pb_ref = 1, if_idx = 0\<rparr>"

lemma alloc_ram_result:
  assumes cfg: "pbuf_cfg_ok c descs" and ok: "mem_ok c descs s out" and len: "len < 65536"
    and off: "offset < 65536" "SIZEOF_STRUCT_PBUF c + align_size c offset < 65536"
  obtains (null) s' where "pbuf_alloc_ram c offset len PBUF_RAM s = Some (0, s')" "new_chain c descs out s s' 0 [] (\<lambda>_. 0)" "s' = s"
  | (ram) p h' n where "p \<noteq> 0"
    "pbuf_alloc_ram c offset len PBUF_RAM s = Some (p, put_pbuf p (ram_pbuf c p offset len) (s\<lparr>heap := h'\<rparr>))"
    "MEM_ALIGNMENT (memcfg c) dvd p" "SIZEOF_STRUCT_PBUF c + align_size c offset + align_size c len \<le> n" "len \<le> align_size c len"
    "p + n + MEM_ALIGNMENT (memcfg c) < 2 ^ 64" "(0, p, n) \<notin> out" "mem_ok c descs (s\<lparr>heap := h'\<rparr>) (insert (0, p, n) out)"
proof -
  define plen where "plen = u16_of (align_size c offset + align_size c len)"
  define alen where "alen = mem_size_of (memcfg c) (align_size c (SIZEOF_STRUCT_PBUF c) + plen)"
  note f = pool_cfg_facts [OF cfg]
  have c: "mem_cfg_ok (memcfg c)" using cfg by (simp add: pbuf_cfg_ok_def)
  have a: "plen < align_size c len \<or> alen < align_size c len \<or>
      alen = SIZEOF_STRUCT_PBUF c + align_size c offset + align_size c len \<and> len \<le> align_size c len"
    using alloc_ram_len [OF cfg off len] unfolding plen_def [symmetric] alen_def [symmetric] .
  show ?thesis
  proof (cases "plen < align_size c len \<or> alen < align_size c len")
    case True
    then have "pbuf_alloc_ram c offset len PBUF_RAM s = Some (0, s)"
      unfolding pbuf_alloc_ram_def Let_def plen_def [symmetric] alen_def [symmetric] by simp
    then show ?thesis using null new_chain_null [OF ok] by blast
  next
    case False
    then have al: "alen = SIZEOF_STRUCT_PBUF c + align_size c offset + align_size c len" "len \<le> align_size c len"
      using a by auto
    then have "0 < alen" using f(5) cfg by (simp add: pbuf_cfg_ok_def)
    then obtain p h' where m: "mem_malloc (memcfg c) alen (heap s) = Some (p, h')"
      "if p = 0 then h' = heap s
       else MEM_ALIGNMENT (memcfg c) dvd p \<and> p < 2 ^ 64 \<and>
         (\<exists>len\<ge>alen. p + len + MEM_ALIGNMENT (memcfg c) < 2 ^ 64 \<and> (0, p, len) \<notin> out \<and>
           mem_ok c descs (s\<lparr>heap := h'\<rparr>) (insert (0, p, len) out))"
      using malloc_heap_spec [OF ok] by blast
    have call: "pbuf_alloc_ram c offset len PBUF_RAM s =
       (if p = 0 then Some (0, s\<lparr>heap := h'\<rparr>)
        else do { let pay = align_addr c (p + SIZEOF_STRUCT_PBUF c + offset);
                  lwip_assert (pay mod MEM_ALIGNMENT (memcfg c) = 0);
                  Some (p, pbuf_init_alloced_pbuf p pay len len PBUF_RAM 0 (s\<lparr>heap := h'\<rparr>)) })"
      using False m(1) unfolding pbuf_alloc_ram_def Let_def plen_def [symmetric] alen_def [symmetric] by simp
    show ?thesis
    proof (cases "p = 0")
      case True
      then show ?thesis using call m(2) new_chain_null [OF ok] null by auto
    next
      case nz: False
      then obtain n where n: "MEM_ALIGNMENT (memcfg c) dvd p" "n \<ge> alen" "p + n + MEM_ALIGNMENT (memcfg c) < 2 ^ 64"
        "(0, p, n) \<notin> out" "mem_ok c descs (s\<lparr>heap := h'\<rparr>) (insert (0, p, n) out)"
        using m(2) by auto
      have small: "offset + MEM_ALIGNMENT (memcfg c) < 2 ^ 32" using off(1) f(1) by simp
      have o: "offset \<le> align_size c offset" "MEM_ALIGNMENT (memcfg c) dvd align_size c offset"
        using ALIGN_SIZE_bounds [OF c small] by auto
      have pay: "align_addr c (p + SIZEOF_STRUCT_PBUF c + offset) = p + SIZEOF_STRUCT_PBUF c + align_size c offset"
        using n(1,2,3) f(4) al o by (intro align_payload c small dvd_add) auto
      have "(p + SIZEOF_STRUCT_PBUF c + align_size c offset) mod MEM_ALIGNMENT (memcfg c) = 0" using n(1) f(4) o(2) by simp
      then show ?thesis using call nz n al by (intro ram [of p h' n]) (simp_all add: pay init_ram ram_pbuf_def)
    qed
  qed
qed

lemma new_chain_ram:
  assumes "pbuf_cfg_ok c descs" "mem_ok c descs s out" and len: "len < 65536"
    and off: "offset < 65536" "SIZEOF_STRUCT_PBUF c + align_size c offset < 65536"
  shows "\<exists>p s' xs sz. pbuf_alloc_ram c offset len PBUF_RAM s = Some (p, s') \<and> new_chain c descs out s s' p xs sz \<and>
    (p = 0 \<longleftrightarrow> xs = []) \<and> (p \<noteq> 0 \<longrightarrow> sum_len (pbufs s') xs = len)"
  using assms
proof (cases rule: alloc_ram_result)
  case (null s')
  then show ?thesis by blast
next
  case (ram p h' n)
  let ?s = "put_pbuf p (ram_pbuf c p offset len) (s\<lparr>heap := h'\<rparr>)"
  note f = pool_cfg_facts [OF assms(1)]
  have c: "mem_cfg_ok (memcfg c)" using assms(1) by (simp add: pbuf_cfg_ok_def)
  have "offset + MEM_ALIGNMENT (memcfg c) < 2 ^ 32" using off(1) f(1) by simp
  then have o: "MEM_ALIGNMENT (memcfg c) dvd align_size c offset" using ALIGN_SIZE_bounds [OF c] by auto
  have "new_chain c descs out s ?s p [p] (\<lambda>_. n)"
    using ram len o f(4)
    by (auto simp: new_chain_def packet_def area_def pbuf_get_allocsrc_def PBUF_TYPE_ALLOC_SRC_MASK_def new_pbuf_def std_pbuf_def ram_pbuf_def)
  then show ?thesis using ram(1,2)
    by (intro exI [of _ p] exI [of _ ?s] exI [of _ "[p]"] exI [of _ "\<lambda>_. n"]) (auto simp: ram_pbuf_def)
qed

lemma pbuf_alloc_spec:
  assumes cfg: "pbuf_cfg_ok c descs" and ok: "mem_ok c descs s out" and len: "len < 65536"
    and layer: "layer < 65536" "SIZEOF_STRUCT_PBUF c + align_size c layer < 65536"
      "align_size c layer < PBUF_POOL_BUFSIZE_ALIGNED c"
    and t: "t = PBUF_RAM \<or> t = PBUF_POOL"
  shows "\<exists>p s' xs sz. pbuf_alloc c layer len t s = Some (p, s') \<and> new_chain c descs out s s' p xs sz \<and>
    (p = 0 \<longleftrightarrow> xs = []) \<and> (p \<noteq> 0 \<longrightarrow> sum_len (pbufs s') xs = len)"
proof (cases "t = PBUF_POOL")
  case True
  have "pool_acc c descs out s 0 [] len" using ok by (simp add: pool_acc_def)
  then obtain p s' where r: "pbuf_alloc_pool c PBUF_POOL 0 0 len layer s = Some (p, s')" "pool_result c descs out s len p s'"
    using alloc_pool_loop [OF cfg, of out s 0 "[]" len 0 layer len] len layer by auto
  have "pbuf_alloc c layer len t s = Some (p, s')"
    using r(1) True layer(1) unfolding pbuf_alloc_def Let_def
    by (simp add: u16_of_id PBUF_POOL_def PBUF_REF_def PBUF_ROM_def)
  then show ?thesis using new_chain_pool [OF r(2) len] by blast
next
  case False
  then have t: "t = PBUF_RAM" using t by simp
  have "pbuf_alloc c layer len t s = pbuf_alloc_ram c layer len PBUF_RAM s"
    using layer(1) unfolding pbuf_alloc_def Let_def t
    by (simp add: u16_of_id PBUF_POOL_def PBUF_REF_def PBUF_ROM_def PBUF_RAM_def)
  then show ?thesis using new_chain_ram [OF cfg ok len layer(1,2)] by simp
qed

lemma free_new_chain:
  assumes "new_chain c descs out s s' p xs sz" "xs \<noteq> []"
  shows "\<exists>s''. pbuf_free c p s' = Some (u8_of (length xs), s'') \<and> mem_ok c descs s'' out \<and> bytes s'' = bytes s \<and>
    (\<forall>y. \<not> (in_pool c descs y \<and> (2, y, pool_size descs) \<notin> out) \<and> y \<notin> set xs \<longrightarrow> pbufs s'' y = pbufs s y) \<and>
    (\<forall>y\<in>set xs. pbufs s'' y = None)"
proof -
  have n: "packet (pbufs s') p xs" "mem_ok c descs s' (out \<union> area (pbufs s') sz ` set xs)"
    "area (pbufs s') sz ` set xs \<inter> out = {}" "\<And>x. x \<in> set xs \<Longrightarrow> new_pbuf c x (sz x) (the (pbufs s' x))"
    using assms(1) by (auto simp: new_chain_def)
  have "pb_ref (the (pbufs s' x)) = 1 \<and> std_pbuf (the (pbufs s' x))" if "x \<in> set xs" for x
    using n(4) [OF that] by (simp add: new_pbuf_def)
  then obtain s'' where "pbuf_free c p s' = Some (u8_of (length xs), s'')" "mem_ok c descs s'' out"
    "bytes s'' = bytes s'" "\<forall>y. pbufs s'' y = (if y \<in> set xs then None else pbufs s' y)"
    using free_unshared [OF packet_chain [OF n(1)] assms(2) n(2,3)] by blast
  then show ?thesis using assms(1) by (auto simp: new_chain_def)
qed

section \<open>A small configuration\<close>

definition demo_pcfg :: pbuf_cfg where
  "demo_pcfg = \<lparr>memcfg = demo_cfg, sizeof_struct_pbuf = 24, PBUF_POOL_BUFSIZE = 64,
     PBUF_LINK_ENCAPSULATION_HLEN = 0, PBUF_LINK_HLEN = 14, PBUF_IP_HLEN = 20, call_custom_free = (\<lambda>f p s. None)\<rparr>"

definition demo_descs :: "memp_t \<Rightarrow> memp_desc" where
  "demo_descs t = (if t = MEMP_PBUF_POOL then \<lparr>desc_size = 88, desc_num = 3, desc_base = 8192\<rparr>
     else \<lparr>desc_size = 24, desc_num = 2, desc_base = 12288\<rparr>)"

definition demo_pbuf1 :: pbuf where
  "demo_pbuf1 = \<lparr>pb_next = 8280, payload = 8232, tot_len = 84, pb_len = 48, type_internal = 0x82, pb_flags = 0,
     pb_ref = 1, if_idx = 0\<rparr>"

definition demo_pbuf2 :: pbuf where
  "demo_pbuf2 = \<lparr>pb_next = 0, payload = 8304, tot_len = 36, pb_len = 36, type_internal = 0x82, pb_flags = 0,
     pb_ref = 1, if_idx = 0\<rparr>"

text \<open>Two elements of the pool form a chain, one is free; the bytes from 4096 to 16383 exist.\<close>

definition demo_mem :: lwip_mem where
  "demo_mem = \<lparr>heap = demo_heap,
     pools = (\<lambda>t. if t = MEMP_PBUF_POOL then \<lparr>tab = 8368, nexts = [8368 \<mapsto> 0]\<rparr>
                   else \<lparr>tab = 12288, nexts = [12288 \<mapsto> 12312, 12312 \<mapsto> 0]\<rparr>),
     pbufs = [8192 \<mapsto> demo_pbuf1, 8280 \<mapsto> demo_pbuf2],
     bytes = (\<lambda>a. if 4096 \<le> a \<and> a < 16384 then Some (of_nat a) else None), custom_fns = Map.empty\<rparr>"

definition demo_out :: areas where
  "demo_out = outstanding demo_cfg demo_descs demo_blocks [12288, 12312] [8368]"

lemma demo_descs_facts:
  "desc_ok demo_cfg (demo_descs MEMP_PBUF)" "desc_ok demo_cfg (demo_descs MEMP_PBUF_POOL)"
  "elems demo_cfg (demo_descs MEMP_PBUF) = {12288, 12312}"
  "elems demo_cfg (demo_descs MEMP_PBUF_POOL) = {8192, 8280, 8368}"
proof -
  have "pool_start demo_cfg (demo_descs MEMP_PBUF) = 12288" "pool_start demo_cfg (demo_descs MEMP_PBUF_POOL) = 8192"
    by (simp_all add: pool_start_def LWIP_MEM_ALIGN_def demo_cfg_values demo_descs_def)
  then show "desc_ok demo_cfg (demo_descs MEMP_PBUF)" "desc_ok demo_cfg (demo_descs MEMP_PBUF_POOL)"
    "elems demo_cfg (demo_descs MEMP_PBUF) = {12288, 12312}"
    "elems demo_cfg (demo_descs MEMP_PBUF_POOL) = {8192, 8280, 8368}"
    by (auto simp: desc_ok_def demo_cfg_ok demo_cfg_values demo_descs_def elems_def lessThan_nat_numeral)
qed

lemma demo_mem_ok: "mem_ok demo_pcfg demo_descs demo_mem demo_out"
proof -
  have "mem_rep demo_cfg demo_descs demo_mem demo_blocks [12288, 12312] [8368]"
    using demo_descs_facts demo_cfg_ok demo_heap_ok by (simp add: mem_rep_def demo_mem_def pool_rep_def)
  then show ?thesis unfolding mem_ok_def demo_out_def demo_pcfg_def by auto
qed

lemma demo_sizes: "SIZEOF_STRUCT_PBUF demo_pcfg = 24" "PBUF_POOL_BUFSIZE_ALIGNED demo_pcfg = 64" "memcfg demo_pcfg = demo_cfg"
  by (simp_all add: SIZEOF_STRUCT_PBUF_def PBUF_POOL_BUFSIZE_ALIGNED_def demo_pcfg_def demo_cfg_values LWIP_MEM_ALIGN_SIZE_def)

lemma demo_pcfg_ok: "pbuf_cfg_ok demo_pcfg demo_descs"
  using demo_descs_facts(4) demo_cfg_ok
  by (auto simp: pbuf_cfg_ok_def demo_sizes pool_size_def demo_descs_def)
    (simp_all add: demo_pcfg_def)

lemma demo_chain: "packet (pbufs demo_mem) 8192 [8192, 8280]"
  by (simp add: packet_def demo_mem_def demo_pbuf1_def demo_pbuf2_def)

lemma demo_owned: "owned (pbufs demo_mem) (\<lambda>_. 88) demo_out [8192, 8280]"
  by (auto simp: owned_def demo_mem_def demo_pbuf1_def demo_pbuf2_def std_pbuf_def pbuf_get_allocsrc_def demo_out_def
      PBUF_TYPE_ALLOC_SRC_MASK_def outstanding_def alloc_srcs handed_out_def demo_descs_facts image_iff)
    (simp_all add: demo_descs_def)

section \<open>Properties\<close>

text \<open>
  C10: \<^verbatim>\<open>pbuf_free\<close> on a chain of standard pbufs returns.  It frees exactly the pbufs at the head of the chain
  that hold their last reference, gives their memory back to the allocators they came from, takes one
  reference from the first pbuf that is shared, leaves all other pbufs alone, and returns the number of freed
  pbufs modulo 256.
\<close>

theorem pbuf_free_correct:
  assumes "mem_ok c descs s out" "chain (pbufs s) p xs" "xs \<noteq> []" "owned (pbufs s) sz out xs"
  shows "\<exists>s'. pbuf_free c p s = Some (length (unshared (pbufs s) xs) mod 256, s') \<and>
    (\<forall>x\<in>set (unshared (pbufs s) xs). pbufs s' x = None) \<and>
    (\<forall>x. shared_at (pbufs s) xs x \<longrightarrow>
       pbufs s' x = map_option (\<lambda>pb. pb\<lparr>pb_ref := pb_ref pb - 1\<rparr>) (pbufs s x)) \<and>
    (\<forall>x. x \<notin> set (unshared (pbufs s) xs) \<and> \<not> shared_at (pbufs s) xs x \<longrightarrow> pbufs s' x = pbufs s x) \<and>
    bytes s' = bytes s \<and>
    mem_ok c descs s' (out - area (pbufs s) sz ` set (unshared (pbufs s) xs))"
proof -
  have "x \<notin> set (unshared (pbufs s) xs)" if sh: "shared_at (pbufs s) xs x" for x
    using sh unfolding shared_at_def unshared_def
    by (auto dest!: set_takeWhileD simp: dropWhile_eq_Cons_conv)
  then show ?thesis
    using pbuf_free_spec [OF assms] by (auto simp: after_free_def u8_of_def)
qed

theorem pbuf_free_correct_witness:
  "\<exists>s'. pbuf_free demo_pcfg 8192 demo_mem = Some (2, s') \<and> pbufs s' 8192 = None \<and> pbufs s' 8280 = None \<and>
     mem_ok demo_pcfg demo_descs s' (demo_out - {(2, 8192, 88), (2, 8280, 88)})"
proof -
  have "unshared (pbufs demo_mem) [8192, 8280] = [8192, 8280]"
    "area (pbufs demo_mem) (\<lambda>_. 88) ` {8192, 8280} = {(2, 8192, 88), (2, 8280, 88)}"
    by (simp_all add: demo_mem_def demo_pbuf1_def demo_pbuf2_def area_def pbuf_get_allocsrc_def PBUF_TYPE_ALLOC_SRC_MASK_def)
  then show ?thesis
    using pbuf_free_correct [OF demo_mem_ok packet_chain [OF demo_chain] _ demo_owned] by auto
qed

text \<open>
  C9: \<^verbatim>\<open>pbuf_alloc\<close> of a \<^verbatim>\<open>PBUF_RAM\<close> or \<^verbatim>\<open>PBUF_POOL\<close> buffer returns: either \<^verbatim>\<open>NULL\<close>, and then no memory is
  lost, or a well-formed chain of the requested total length in memory that was not handed out before, with
  every payload inside its memory block and behind the struct.
\<close>

theorem pbuf_alloc_correct:
  assumes "pbuf_cfg_ok c descs" "mem_ok c descs s out" "len < 65536" "layer < 65536"
    "SIZEOF_STRUCT_PBUF c + align_size c layer < 65536" "align_size c layer < PBUF_POOL_BUFSIZE_ALIGNED c"
    "t = PBUF_RAM \<or> t = PBUF_POOL"
  shows "\<exists>p s' xs sz. pbuf_alloc c layer len t s = Some (p, s') \<and> new_chain c descs out s s' p xs sz \<and>
    (p = 0 \<longleftrightarrow> xs = []) \<and> (p \<noteq> 0 \<longrightarrow> tot_len (the (pbufs s' p)) = len)"
proof -
  obtain p s' xs sz where r: "pbuf_alloc c layer len t s = Some (p, s')" "new_chain c descs out s s' p xs sz"
    "p = 0 \<longleftrightarrow> xs = []" "p \<noteq> 0 \<longrightarrow> sum_len (pbufs s') xs = len"
    using pbuf_alloc_spec [OF assms] by blast
  have "tot_len (the (pbufs s' p)) = sum_len (pbufs s') xs" if "p \<noteq> 0"
    using r(2,3) that by (cases xs) (auto simp: new_chain_def packet_def)
  then show ?thesis using r by auto
qed

theorem pbuf_alloc_correct_witness:
  "\<exists>p s' xs sz. pbuf_alloc demo_pcfg (PBUF_TRANSPORT demo_pcfg) 100 PBUF_RAM demo_mem = Some (p, s') \<and>
     new_chain demo_pcfg demo_descs demo_out demo_mem s' p xs sz"
proof -
  have "PBUF_TRANSPORT demo_pcfg = 54" by (simp add: PBUF_TRANSPORT_def PBUF_TRANSPORT_HLEN_def demo_pcfg_def)
  moreover have "align_size demo_pcfg 54 = 56" by (simp add: demo_sizes demo_cfg_values LWIP_MEM_ALIGN_SIZE_def)
  ultimately show ?thesis
    using pbuf_alloc_correct [OF demo_pcfg_ok demo_mem_ok, of 100 54 PBUF_RAM] by (simp add: demo_sizes) blast
qed

text \<open>
  C24: Freeing what \<^verbatim>\<open>pbuf_alloc\<close> returned gives all memory back: the allocators have handed out what they
  had handed out before, the pbufs of the chain are gone, and the pbufs that were in use are unchanged.  The result is
  the number of pbufs of the chain, which \<^verbatim>\<open>pbuf_free\<close> counts in an octet, so modulo 256.
\<close>

theorem pbuf_alloc_free:
  assumes "pbuf_cfg_ok c descs" "mem_ok c descs s out" "len < 65536" "layer < 65536"
    "SIZEOF_STRUCT_PBUF c + align_size c layer < 65536" "align_size c layer < PBUF_POOL_BUFSIZE_ALIGNED c"
    "t = PBUF_RAM \<or> t = PBUF_POOL" and p: "pbuf_alloc c layer len t s = Some (p, s')" "p \<noteq> 0"
  shows "\<exists>s'' xs. pbuf_free c p s' = Some (length xs mod 256, s'') \<and> mem_ok c descs s'' out \<and> bytes s'' = bytes s \<and>
    chain (pbufs s') p xs \<and> (\<forall>y\<in>set xs. pbufs s'' y = None) \<and>
    (\<forall>y. \<not> (in_pool c descs y \<and> (2, y, pool_size descs) \<notin> out) \<and> y \<notin> set xs \<longrightarrow> pbufs s'' y = pbufs s y)"
proof -
  obtain xs sz where n: "new_chain c descs out s s' p xs sz" "xs \<noteq> []"
    using pbuf_alloc_spec [OF assms(1-7)] p by auto
  then have "chain (pbufs s') p xs" by (simp add: new_chain_def packet_def)
  then show ?thesis using free_new_chain [OF n] unfolding u8_of_def by auto
qed

lemma demo_alloc: "\<exists>s'. pbuf_alloc demo_pcfg PBUF_RAW 40 PBUF_POOL demo_mem = Some (8368, s')"
proof -
  have m: "memp_malloc demo_cfg MEMP_PBUF_POOL (pools demo_mem) =
      Some (8368, (pools demo_mem)(MEMP_PBUF_POOL := \<lparr>tab = 0, nexts = Map.empty\<rparr>))"
    by (simp add: memp_malloc_def do_memp_malloc_pool_def demo_mem_def demo_cfg_values MEMP_SIZE_def)
  have a: "LWIP_MEM_ALIGN_SIZE 4 0 = 0" "LWIP_MEM_ALIGN 4 8392 = 8392"
    by (simp_all add: LWIP_MEM_ALIGN_SIZE_def LWIP_MEM_ALIGN_def)
  have "\<exists>s'. pbuf_alloc_pool demo_pcfg PBUF_POOL 0 0 40 0 demo_mem = Some (8368, s')"
    by (subst pbuf_alloc_pool.simps) (simp add: demo_sizes m a demo_cfg_values u32_sub_def u16_of_def u16_sub_def)
  then show ?thesis
    by (simp add: pbuf_alloc_def u16_of_def PBUF_RAW_def PBUF_POOL_def PBUF_REF_def PBUF_ROM_def)
qed

theorem pbuf_alloc_free_witness:
  "\<exists>s' k s''. pbuf_alloc demo_pcfg PBUF_RAW 40 PBUF_POOL demo_mem = Some (8368, s') \<and>
     pbuf_free demo_pcfg 8368 s' = Some (k, s'') \<and> mem_ok demo_pcfg demo_descs s'' demo_out"
proof -
  obtain s' where s': "pbuf_alloc demo_pcfg PBUF_RAW 40 PBUF_POOL demo_mem = Some (8368, s')" using demo_alloc by blast
  moreover have "align_size demo_pcfg 0 = 0" by (simp add: demo_sizes demo_cfg_values LWIP_MEM_ALIGN_SIZE_def)
  ultimately show ?thesis
    using pbuf_alloc_free [OF demo_pcfg_ok demo_mem_ok, of 40 PBUF_RAW PBUF_POOL 8368 s']
    by (simp add: demo_sizes PBUF_RAW_def) blast
qed

end
