(* ===== verification/Pbuf_Chain.thy ===== *)
theory Pbuf_Chain
  imports Pbuf_Alloc
begin

text \<open>
  Correctness of the operations of \<^verbatim>\<open>pbuf.c\<close> that change the shape of a chain: concatenating, sharing and
  splitting chains, header space, and shrinking.  What a chain stands for is the sequence of its payload bytes.
\<close>

section \<open>The data of a chain\<close>

definition pdata :: "(addr \<rightharpoonup> pbuf) \<Rightarrow> byte_mem \<Rightarrow> addr list \<Rightarrow> u8 list" where
  "pdata m bm xs = concat (map (\<lambda>x. bytes_at bm (payload (the (m x))) (pb_len (the (m x)))) xs)"

lemma pdata_simps [simp]:
  "pdata m bm [] = []"
  "pdata m bm (x # xs) = bytes_at bm (payload (the (m x))) (pb_len (the (m x))) @ pdata m bm xs"
  "pdata m bm (xs @ ys) = pdata m bm xs @ pdata m bm ys"
  by (simp_all add: pdata_def)

lemma length_pdata [simp]: "length (pdata m bm xs) = sum_len m xs"
  by (induction xs) auto

lemma pdata_cong:
  "(\<And>x. x \<in> set xs \<Longrightarrow> payload (the (m x)) = payload (the (m' x)) \<and> pb_len (the (m x)) = pb_len (the (m' x))) \<Longrightarrow>
   pdata m bm xs = pdata m' bm xs"
  by (induction xs) auto

text \<open>Changing fields of all pbufs of a list.\<close>

definition map_pbufs :: "(pbuf \<Rightarrow> pbuf) \<Rightarrow> addr list \<Rightarrow> (addr \<rightharpoonup> pbuf) \<Rightarrow> addr \<rightharpoonup> pbuf" where
  "map_pbufs f xs m = (\<lambda>x. if x \<in> set xs then map_option f (m x) else m x)"

lemma map_pbufs_Nil [simp]: "map_pbufs f [] m = m"
  by (simp add: map_pbufs_def)

lemma map_pbufs_Cons: "x \<notin> set xs \<Longrightarrow> map_pbufs f (x # xs) m = map_pbufs f xs (m(x := map_option f (m x)))"
proof
  fix y assume "x \<notin> set xs"
  then show "map_pbufs f (x # xs) m y = map_pbufs f xs (m(x := map_option f (m x))) y"
    by (cases "y = x") (simp_all add: map_pbufs_def)
qed

lemma map_pbufs_in: "x \<in> set xs \<Longrightarrow> map_pbufs f xs m x = map_option f (m x)"
  by (simp add: map_pbufs_def)

lemma map_pbufs_notin [simp]: "x \<notin> set xs \<Longrightarrow> map_pbufs f xs m x = m x"
  by (simp add: map_pbufs_def)

lemma path_map_pbufs:
  assumes "\<And>b. pb_next (f b) = pb_next b" shows "path (map_pbufs f ys m) p xs q = path m p xs q"
  using assms by (intro path_cong) (auto simp: map_pbufs_def option.map_comp o_def)

lemma path_last:
  assumes "path m p xs 0" "xs \<noteq> []" "q \<noteq> 0" "m (last xs) = Some lb" "pb_next lb' = q"
  shows "path (m(last xs \<mapsto> lb')) p xs q"
  using assms
proof (induction xs arbitrary: p)
  case (Cons x xs)
  have "x \<notin> set xs" using chain_notin [OF Cons.prems(1)] .
  then show ?case using Cons by (cases "xs = []") auto
qed simp

lemma tot_ok_append:
  "tot_ok m (xs @ ys) \<longleftrightarrow> tot_rem m xs (sum_len m ys) \<and> tot_ok m ys"
  by (induction xs) auto

section \<open>Concatenation\<close>

definition add_tot :: "nat \<Rightarrow> pbuf \<Rightarrow> pbuf" where
  "add_tot d b = b\<lparr>tot_len := u16_of (tot_len b + d)\<rparr>"

lemma add_tot_simps [simp]:
  "pb_next (add_tot d b) = pb_next b" "pb_len (add_tot d b) = pb_len b" "payload (add_tot d b) = payload b"
  "tot_len (add_tot d b) = u16_of (tot_len b + d)"
  by (simp_all add: add_tot_def)

lemma cat_loop_spec:
  assumes "chain (pbufs s) p xs" "xs \<noteq> []" "t \<notin> set xs" "pbufs s t = Some tb"
  shows "cat_loop p t s = Some (last xs, s\<lparr>pbufs := map_pbufs (add_tot (tot_len tb)) (butlast xs) (pbufs s)\<rparr>)"
  using assms
proof (induction xs arbitrary: p s)
  case (Cons x xs)
  obtain b where b: "p = x" "pbufs s x = Some b" "chain (pbufs s) (pb_next b) xs" "x \<noteq> 0" using Cons.prems(1) by auto
  have nx: "x \<notin> set xs" by (rule chain_notin [OF Cons.prems(1)])
  show ?case
  proof (cases "xs = []")
    case True
    then show ?thesis using b by (subst cat_loop.simps) simp
  next
    case False
    then have n: "pb_next b \<noteq> 0" using b(3) by (cases xs) auto
    let ?s = "put_pbuf x (add_tot (tot_len tb) b) s"
    have ch: "chain (pbufs ?s) (pb_next b) xs" using b(3) nx by simp
    have "t \<notin> set xs" "pbufs ?s t = Some tb" using Cons.prems(3,4) by auto
    then have "cat_loop (pb_next b) t ?s =
        Some (last xs, ?s\<lparr>pbufs := map_pbufs (add_tot (tot_len tb)) (butlast xs) (pbufs ?s)\<rparr>)"
      by (rule Cons.IH [OF ch False])
    moreover have "x \<notin> set (butlast xs)" using nx by (meson in_set_butlastD)
    ultimately show ?thesis using b n Cons.prems(4) False
      by (subst cat_loop.simps) (simp add: add_tot_def [symmetric] map_pbufs_Cons put_pbuf_def)
  qed
qed simp

text \<open>The pbufs after the concatenation.\<close>

definition cat_map :: "nat \<Rightarrow> addr \<Rightarrow> addr list \<Rightarrow> (addr \<rightharpoonup> pbuf) \<Rightarrow> addr \<rightharpoonup> pbuf" where
  "cat_map d t xs m = (\<lambda>x. if x \<notin> set xs then m x
     else if x = last xs then map_option (\<lambda>b. add_tot d b\<lparr>pb_next := t\<rparr>) (m x) else map_option (add_tot d) (m x))"

lemma cat_map_fields:
  assumes "x \<in> set xs" "m x = Some b"
  shows "pb_len (the (cat_map d t xs m x)) = pb_len b" "payload (the (cat_map d t xs m x)) = payload b"
    "tot_len (the (cat_map d t xs m x)) = u16_of (tot_len b + d)"
  using assms by (cases "x = last xs"; simp add: cat_map_def)+

lemma cat_map_last:
  assumes "distinct xs" "xs \<noteq> []" "m (last xs) = Some lb"
  shows "cat_map d t xs m = (map_pbufs (add_tot d) (butlast xs) m)(last xs \<mapsto> add_tot d lb\<lparr>pb_next := t\<rparr>)"
proof
  fix x
  have "xs = butlast xs @ [last xs]" using assms(2) by simp
  then have "x \<in> set xs \<longleftrightarrow> x \<in> set (butlast xs) \<or> x = last xs" by (metis Un_iff empty_iff insert_iff list.set set_append)
  then show "cat_map d t xs m x = ((map_pbufs (add_tot d) (butlast xs) m)(last xs \<mapsto> add_tot d lb\<lparr>pb_next := t\<rparr>)) x"
    using assms(3) by (auto simp: cat_map_def map_pbufs_def)
qed

lemma chain_last:
  assumes "packet m h xs" "xs \<noteq> []"
  obtains lb where "m (last xs) = Some lb" "pb_next lb = 0" "tot_len lb = pb_len lb"
    "last xs \<notin> set (butlast xs)" "last xs \<in> set xs"
proof -
  have xs: "xs = butlast xs @ [last xs]" using assms(2) by simp
  have ch: "chain m h (butlast xs @ [last xs])" "tot_ok m (butlast xs @ [last xs])"
    using assms by (simp_all add: packet_def)
  then obtain lb where "m (last xs) = Some lb" "pb_next lb = 0" "tot_len lb = pb_len lb"
    by (auto simp: path_append tot_ok_append)
  moreover have "last xs \<notin> set (butlast xs)" using chain_distinct [OF ch(1)] unfolding distinct_append by auto
  ultimately show thesis using that assms(2) by auto
qed

lemma pbuf_cat_call:
  assumes h: "packet (pbufs s) h xs" "xs \<noteq> []" and t: "t \<notin> set xs" "pbufs s t = Some tb" "t \<noteq> 0"
  shows "pbuf_cat h t s = Some (s\<lparr>pbufs := cat_map (tot_len tb) t xs (pbufs s)\<rparr>)"
proof -
  obtain lb where lb: "pbufs s (last xs) = Some lb" "pb_next lb = 0" "tot_len lb = pb_len lb"
    "last xs \<notin> set (butlast xs)" "last xs \<in> set xs"
    using chain_last [OF h] .
  have "t \<notin> set (butlast xs)" using t(1) by (meson in_set_butlastD)
  moreover have "h \<noteq> 0" using h by (cases xs) (auto simp: packet_def)
  moreover have "distinct xs" using h chain_distinct by (auto simp: packet_def)
  ultimately show ?thesis
    using cat_loop_spec [OF packet_chain [OF h(1)] h(2) t(1,2)] lb t cat_map_last [where m = "pbufs s", OF _ h(2) lb(1)]
    by (simp add: pbuf_cat_def add_tot_def put_pbuf_def)
qed

lemma tot_rem_add:
  assumes "tot_ok m xs" "\<And>x. x \<in> set xs \<Longrightarrow> pb_len (the (m' x)) = pb_len (the (m x)) \<and>
    tot_len (the (m' x)) = u16_of (tot_len (the (m x)) + d)" "sum_len m xs + d < 65536"
  shows "tot_rem m' xs d"
  using assms
proof (induction xs)
  case (Cons x xs)
  have "sum_len m' xs = sum_len m xs" using Cons.prems(2) by (intro sum_len_cong) auto
  then show ?case using Cons by (simp add: u16_of_id)
qed simp

lemma cat_map_packet:
  assumes h: "packet m h xs" "xs \<noteq> []" and t: "packet m t ys" "t \<noteq> 0"
    and dis: "set xs \<inter> set ys = {}" and fits: "sum_len m xs + sum_len m ys < 65536"
  shows "packet (cat_map (sum_len m ys) t xs m) h (xs @ ys)"
proof -
  let ?m' = "cat_map (sum_len m ys) t xs m"
  obtain lb where lb: "m (last xs) = Some lb" "last xs \<notin> set (butlast xs)" using chain_last [OF h] by metis
  have xs: "chain m h xs" "tot_ok m xs" using h by (auto simp: packet_def)
  have ys: "?m' x = m x" if "x \<in> set ys" for x using dis that by (auto simp: cat_map_def)
  then have py: "packet ?m' t ys" "sum_len ?m' ys = sum_len m ys"
    using t(1) packet_cong [of ys ?m' m] sum_len_cong [of ys ?m' m] by auto
  have fld: "pb_len (the (?m' x)) = pb_len (the (m x)) \<and> tot_len (the (?m' x)) = u16_of (tot_len (the (m x)) + sum_len m ys)"
    if "x \<in> set xs" for x
    using chain_mapped [OF xs(1) that] cat_map_fields [OF that] by auto
  then have px: "sum_len ?m' xs = sum_len m xs" by (intro sum_len_cong) auto
  have "path ?m' h xs t" unfolding cat_map_last [where m = m, OF chain_distinct [OF xs(1)] h(2) lb(1)]
    by (rule path_last [OF _ h(2) t(2)])
      (simp_all add: path_map_pbufs xs(1) lb)
  moreover have "tot_rem ?m' xs (sum_len m ys)" using tot_rem_add [OF xs(2) fld] fits by blast
  ultimately show ?thesis using py px fits by (auto simp: packet_def path_append tot_ok_append)
qed

text \<open>
  C26: \<^verbatim>\<open>pbuf_cat\<close> of two disjoint well-formed chains that fit into one packet returns, and makes one well-formed
  chain of them that holds the data of the first chain followed by the data of the second.  Only the pbufs of
  the first chain change, and only their links and total lengths.
\<close>

theorem pbuf_cat_correct:
  assumes h: "packet (pbufs s) h xs" "h \<noteq> 0" and t: "packet (pbufs s) t ys" "t \<noteq> 0"
    and dis: "set xs \<inter> set ys = {}" and fits: "sum_len (pbufs s) xs + sum_len (pbufs s) ys < 65536"
  shows "\<exists>m'. pbuf_cat h t s = Some (s\<lparr>pbufs := m'\<rparr>) \<and> packet m' h (xs @ ys) \<and>
    pdata m' bm (xs @ ys) = pdata (pbufs s) bm xs @ pdata (pbufs s) bm ys \<and>
    (\<forall>x. x \<notin> set xs \<longrightarrow> m' x = pbufs s x)"
proof -
  let ?m = "pbufs s" and ?m' = "cat_map (sum_len (pbufs s) ys) t xs (pbufs s)"
  have xs: "xs \<noteq> []" using h by (auto simp: packet_def)
  obtain y zs where "ys = y # zs" using t by (cases ys) (auto simp: packet_def)
  then obtain tb where tb: "?m t = Some tb" "tot_len tb = sum_len ?m ys" "t \<in> set ys"
    using t(1) by (auto simp: packet_def)
  then have "pbuf_cat h t s = Some (s\<lparr>pbufs := ?m'\<rparr>)" using pbuf_cat_call [OF h(1) xs _ tb(1) t(2)] dis by auto
  moreover have "pdata ?m' bm (xs @ ys) = pdata ?m bm xs @ pdata ?m bm ys"
    using chain_mapped [OF packet_chain [OF h(1)]] cat_map_fields [of _ xs ?m] dis unfolding pdata_simps
    by (intro arg_cong2 [where f = append] pdata_cong) (fastforce, auto simp: cat_map_def)
  moreover have "?m' x = ?m x" if "x \<notin> set xs" for x using that by (simp add: cat_map_def)
  ultimately show ?thesis using cat_map_packet [OF h(1) xs t dis fits] by blast
qed

text \<open>A third pbuf in the heap, not in the chain of the pool.\<close>

definition demo_pbuf3 :: pbuf where
  "demo_pbuf3 = \<lparr>pb_next = 0, payload = 4144, tot_len = 20, pb_len = 20, type_internal = 0x80, pb_flags = 0,
     pb_ref = 1, if_idx = 0\<rparr>"

definition demo_mem3 :: lwip_mem where
  "demo_mem3 = put_pbuf 4104 demo_pbuf3 demo_mem"

lemma demo_chains: "packet (pbufs demo_mem3) 4104 [4104]" "packet (pbufs demo_mem3) 8192 [8192, 8280]"
  by (simp_all add: packet_def demo_mem3_def demo_mem_def demo_pbuf1_def demo_pbuf2_def demo_pbuf3_def)

theorem pbuf_cat_correct_witness:
  "\<exists>m'. pbuf_cat 4104 8192 demo_mem3 = Some (demo_mem3\<lparr>pbufs := m'\<rparr>) \<and> packet m' 4104 [4104, 8192, 8280]"
  using pbuf_cat_correct [OF demo_chains(1) _ demo_chains(2)]
  by (auto simp: demo_mem3_def demo_mem_def demo_pbuf1_def demo_pbuf2_def demo_pbuf3_def)

section \<open>Sharing a tail\<close>

lemma pbuf_chain_call:
  assumes h: "packet (pbufs s) h xs" "xs \<noteq> []" and t: "t \<notin> set xs" "pbufs s t = Some tb" "t \<noteq> 0" "pb_ref tb < 255"
  shows "pbuf_chain h t s =
    Some (s\<lparr>pbufs := (cat_map (tot_len tb) t xs (pbufs s))(t \<mapsto> tb\<lparr>pb_ref := pb_ref tb + 1\<rparr>)\<rparr>)"
proof -
  have "cat_map (tot_len tb) t xs (pbufs s) t = Some tb" using t(1,2) by (simp add: cat_map_def)
  then show ?thesis using pbuf_cat_call [OF h t(1-3)] t
    by (simp add: pbuf_chain_def pbuf_ref_def put_pbuf_def u8_of_id)
qed

text \<open>\<^verbatim>\<open>pbuf_dechain\<close> of a pbuf that was chained alone in front of \<open>t\<close>.\<close>

lemma dechain_single:
  assumes h: "packet (pbufs s) h [h]" and t: "pbufs s t = Some tb" "t \<noteq> 0" "h \<noteq> t" "0 < pb_ref tb"
    and fits: "pb_len (the (pbufs s h)) + tot_len tb < 65536"
  shows "pbuf_dechain c h (s\<lparr>pbufs := (cat_map (tot_len tb) t [h] (pbufs s))(t \<mapsto> tb\<lparr>pb_ref := pb_ref tb + 1\<rparr>)\<rparr>) = Some (t, s)"
proof -
  let ?m = "pbufs s"
  obtain hb where hb: "?m h = Some hb" "pb_next hb = 0" "tot_len hb = pb_len hb" "h \<noteq> 0" using h by (auto simp: packet_def)
  have cm: "cat_map (tot_len tb) t [h] ?m = ?m(h \<mapsto> add_tot (tot_len tb) hb\<lparr>pb_next := t\<rparr>)"
    using hb(1) cat_map_last [of "[h]" ?m hb] by simp
  have tot: "u16_of (tot_len hb + tot_len tb) = tot_len hb + tot_len tb" "u16_sub (tot_len hb + tot_len tb) (tot_len hb) = tot_len tb"
    "tot_len hb + tot_len tb < 65536"
    using fits hb by (simp_all add: u16_of_id u16_sub_id)
  have "pbuf_free_loop c t 0 (s\<lparr>pbufs := ?m(t \<mapsto> tb\<lparr>pb_ref := pb_ref tb + 1\<rparr>)\<rparr>) = Some (0, s)"
    using t by (subst pbuf_free_loop.simps) (simp add: put_pbuf_def fun_upd_idem)
  moreover have upd: "?m(t \<mapsto> v, h \<mapsto> hb) = ?m(t \<mapsto> v)" for v
    using hb(1) t(3) by (simp add: fun_upd_idem)
  moreover have hb': "hb\<lparr>pb_next := 0, tot_len := pb_len hb\<rparr> = hb" using hb(2,3) by (cases hb) simp
  moreover have tb': "tb\<lparr>pb_ref := r, tot_len := tot_len tb\<rparr> = tb\<lparr>pb_ref := r\<rparr>" for r by (cases tb) simp
  ultimately show ?thesis
    using t hb(1,4) tot unfolding cm
    by (simp add: pbuf_dechain_def add_tot_def put_pbuf_def pbuf_free_def fun_upd_twist hb' tb' upd hb(2,3))
qed

text \<open>
  C29: \<^verbatim>\<open>pbuf_chain\<close> of a chain \<open>h\<close> of any length with a chain \<open>t\<close> makes a well-formed chain of both, with the data of
  \<open>h\<close> followed by that of \<open>t\<close>, in which \<open>t\<close> is shared: its reference count is one higher, and no pbuf outside of \<open>h\<close>
  changes otherwise.  When \<open>h\<close> is a single pbuf, \<^verbatim>\<open>pbuf_dechain\<close> of \<open>h\<close> undoes it: it returns \<open>t\<close>, and every pbuf is as it
  was, its reference count included.
\<close>

theorem pbuf_chain_dechain:
  assumes h: "packet (pbufs s) h xs" "h \<noteq> 0" and t: "packet (pbufs s) t (t # ys)" "pbufs s t = Some tb" "0 < pb_ref tb" "pb_ref tb < 255"
    and dis: "set xs \<inter> set (t # ys) = {}" and fits: "sum_len (pbufs s) xs + sum_len (pbufs s) (t # ys) < 65536"
  shows "\<exists>m. pbuf_chain h t s = Some (s\<lparr>pbufs := m\<rparr>) \<and> packet m h (xs @ t # ys) \<and>
    pdata m bm (xs @ t # ys) = pdata (pbufs s) bm xs @ pdata (pbufs s) bm (t # ys) \<and>
    m t = Some (tb\<lparr>pb_ref := pb_ref tb + 1\<rparr>) \<and> (\<forall>x. x \<notin> set (t # xs) \<longrightarrow> m x = pbufs s x) \<and>
    (xs = [h] \<longrightarrow> pbuf_dechain c h (s\<lparr>pbufs := m\<rparr>) = Some (t, s))"
proof -
  let ?m = "pbufs s" and ?c = "cat_map (sum_len (pbufs s) (t # ys)) t xs (pbufs s)"
  let ?m' = "?c(t \<mapsto> tb\<lparr>pb_ref := pb_ref tb + 1\<rparr>)"
  have xs: "xs \<noteq> []" using h by (auto simp: packet_def)
  have tb: "t \<noteq> 0" "t \<notin> set xs" "tot_len tb = sum_len ?m (t # ys)" using t dis by (auto simp: packet_def)
  have ct: "?c t = Some tb" using tb(2) t(2) by (simp add: cat_map_def)
  have "pbuf_chain h t s = Some (s\<lparr>pbufs := ?m'\<rparr>)"
    using pbuf_chain_call [OF h(1) xs tb(2) t(2) tb(1) t(4)] unfolding tb(3) .
  moreover have "packet ?c h (xs @ t # ys)" by (rule cat_map_packet [OF h(1) xs t(1) tb(1) dis fits])
  then have "packet ?m' h (xs @ t # ys)" using ct by (subst packet_cong [where m' = ?c]) auto
  moreover have "pdata ?m' bm (xs @ t # ys) = pdata ?c bm (xs @ t # ys)" using ct by (intro pdata_cong) auto
  moreover have "pdata ?c bm (xs @ t # ys) = pdata ?m bm xs @ pdata ?m bm (t # ys)"
    using chain_mapped [OF packet_chain [OF h(1)]] cat_map_fields [of _ xs ?m] dis unfolding pdata_simps(3)
    by (intro arg_cong2 [where f = append] pdata_cong) (fastforce, auto simp: cat_map_def)
  moreover have "?m' x = ?m x" if "x \<notin> set (t # xs)" for x using that by (simp add: cat_map_def)
  moreover have "pbuf_dechain c h (s\<lparr>pbufs := ?m'\<rparr>) = Some (t, s)" if "xs = [h]"
    using dechain_single [OF h(1) [unfolded that] t(2) tb(1) _ t(3)] tb(2,3) fits unfolding that by simp
  ultimately show ?thesis by (intro exI [of _ ?m']) simp
qed

theorem pbuf_chain_dechain_witness:
  "\<exists>m. pbuf_chain 4104 8192 demo_mem3 = Some (demo_mem3\<lparr>pbufs := m\<rparr>) \<and> packet m 4104 [4104, 8192, 8280] \<and>
     pbuf_dechain demo_pcfg 4104 (demo_mem3\<lparr>pbufs := m\<rparr>) = Some (8192, demo_mem3)"
  using pbuf_chain_dechain [OF demo_chains(1) _ demo_chains(2), of demo_pbuf1]
  by (fastforce simp: demo_mem3_def demo_mem_def demo_pbuf1_def demo_pbuf2_def demo_pbuf3_def)

section \<open>Header space\<close>

text \<open>When there is room for \<open>n\<close> more bytes in front of the payload.\<close>

definition header_fits :: "pbuf_cfg \<Rightarrow> addr \<Rightarrow> pbuf \<Rightarrow> nat \<Rightarrow> bool \<Rightarrow> bool" where
  "header_fits c p pb n force \<longleftrightarrow> tot_len pb + n < 65536 \<and>
     (if type_internal pb AND PBUF_TYPE_FLAG_STRUCT_DATA_CONTIGUOUS \<noteq> 0
      then p + SIZEOF_STRUCT_PBUF c + n \<le> payload pb else force)"

definition grow :: "nat \<Rightarrow> pbuf \<Rightarrow> pbuf" where
  "grow n pb = pb\<lparr>payload := payload pb - n, pb_len := pb_len pb + n, tot_len := tot_len pb + n\<rparr>"

lemma pbuf_add_header_spec:
  assumes pb: "pbufs s p = Some pb" "p \<noteq> 0" "pb_len pb \<le> tot_len pb" "tot_len pb < 65536" "payload pb < 2 ^ 64"
    and n: "n \<noteq> 0" "n \<le> payload pb"
  shows "pbuf_add_header_impl c p n force s =
    Some (if n \<le> 0xFFFF \<and> header_fits c p pb n force then (0, put_pbuf p (grow n pb) s) else (1, s))"
proof -
  have sub: "size_sub (payload pb) n = payload pb - n" using n(2) pb(5) by (rule size_sub_id)
  show ?thesis
  proof (cases "n \<le> 0xFFFF")
    case True
    have un: "u16_of n = n" using True by (intro u16_of_id) simp
    show ?thesis
    proof (cases "tot_len pb + n < 65536")
      case fits: True
      then have "u16_of (n + tot_len pb) = n + tot_len pb" "u16_of (tot_len pb + n) = tot_len pb + n"
        "u16_of (pb_len pb + n) = pb_len pb + n"
        using pb(3) by (auto intro!: u16_of_id)
      moreover have "payload pb - n < p + SIZEOF_STRUCT_PBUF c \<longleftrightarrow> \<not> p + SIZEOF_STRUCT_PBUF c + n \<le> payload pb"
        using n(2) by auto
      ultimately show ?thesis using pb(1,2) n(1) True fits sub un
        by (simp add: pbuf_add_header_impl_def header_fits_def grow_def cong: if_cong)
    next
      case False
      have "u16_of (n + tot_len pb) = n + tot_len pb - 65536"
        using False pb(4) True unfolding u16_of_def by (simp add: le_mod_geq)
      then have "u16_of (n + tot_len pb) < n" using pb(4) False by linarith
      then show ?thesis using pb(1,2) n(1) True False un
        by (simp add: pbuf_add_header_impl_def header_fits_def)
    qed
  next
    case False
    then show ?thesis using pb(2) by (simp add: pbuf_add_header_impl_def)
  qed
qed

lemma packet_grow:
  assumes "packet m p (p # xs)" "m p = Some pb" "tot_len pb + n < 65536"
  shows "packet (m(p \<mapsto> grow n pb)) p (p # xs)"
proof -
  have "p \<notin> set xs" using assms(1) by (intro chain_notin [of m p]) (simp add: packet_def)
  moreover from this have "sum_len (m(p \<mapsto> grow n pb)) xs = sum_len m xs" by (intro sum_len_cong) auto
  ultimately show ?thesis using assms by (auto simp: packet_Cons grow_def)
qed

text \<open>
  C31: \<^verbatim>\<open>pbuf_add_header\<close> returns; it fails, changing nothing, exactly when the room in front of the payload or
  the 16 bits of \<^verbatim>\<open>tot_len\<close> do not suffice.  When it succeeds the chain is well-formed with the old data behind
  \<open>n\<close> new bytes, and \<^verbatim>\<open>pbuf_remove_header\<close> of the same size restores the state exactly.
\<close>

theorem pbuf_header_roundtrip:
  assumes pk: "packet (pbufs s) p (p # xs)" "pbufs s p = Some pb" and n: "n \<noteq> 0" "n \<le> payload pb" "payload pb < 2 ^ 64"
  shows "if n \<le> 0xFFFF \<and> header_fits c p pb n False
    then \<exists>s1. pbuf_add_header c p n s = Some (0, s1) \<and> packet (pbufs s1) p (p # xs) \<and>
      drop n (pdata (pbufs s1) (bytes s1) (p # xs)) = pdata (pbufs s) (bytes s) (p # xs) \<and>
      pbuf_remove_header p n s1 = Some (0, s)
    else pbuf_add_header c p n s = Some (1, s)"
proof -
  have pb: "p \<noteq> 0" "pb_len pb \<le> tot_len pb" "tot_len pb < 65536" "p \<notin> set xs"
    using pk chain_notin [of "pbufs s" p p xs] by (auto simp: packet_def)
  note call = pbuf_add_header_spec [OF pk(2) pb(1-3) n(3,1,2), of c False]
  show ?thesis
  proof (cases "n \<le> 0xFFFF \<and> header_fits c p pb n False")
    case True
    then have fits: "n \<le> 0xFFFF" "tot_len pb + n < 65536" by (auto simp: header_fits_def)
    let ?s = "put_pbuf p (grow n pb) s"
    have "packet (pbufs ?s) p (p # xs)" using packet_grow [OF pk fits(2)] by simp
    moreover have "pdata (pbufs ?s) (bytes s) xs = pdata (pbufs s) (bytes s) xs" using pb(4) by (intro pdata_cong) auto
    then have "drop n (pdata (pbufs ?s) (bytes ?s) (p # xs)) = pdata (pbufs s) (bytes s) (p # xs)"
      using pk(2) n(2) by (simp add: grow_def)
    moreover have "pbuf_remove_header p n ?s = Some (0, s)"
    proof -
      have "u16_of n = n" "u16_sub (pb_len pb + n) n = pb_len pb" "u16_sub (tot_len pb + n) n = tot_len pb"
        using fits pb(2) by (simp_all add: u16_of_id u16_sub_id)
      then show ?thesis using pb(1) n(1,2) fits(1) pk(2)
        by (simp add: pbuf_remove_header_def grow_def put_pbuf_def fun_upd_idem)
    qed
    ultimately show ?thesis using call True by (auto simp: pbuf_add_header_def)
  next
    case False
    then show ?thesis using call unfolding pbuf_add_header_def by (simp only: if_False)
  qed
qed

theorem pbuf_header_roundtrip_witness:
  "\<exists>s1. pbuf_add_header demo_pcfg 8192 14 demo_mem = Some (0, s1) \<and> pbuf_remove_header 8192 14 s1 = Some (0, demo_mem)"
proof -
  have pb: "pbufs demo_mem 8192 = Some demo_pbuf1" by (simp add: demo_mem_def)
  have "header_fits demo_pcfg 8192 demo_pbuf1 14 False"
    by (simp add: header_fits_def demo_pbuf1_def demo_sizes PBUF_TYPE_FLAG_STRUCT_DATA_CONTIGUOUS_def)
  then show ?thesis
    using pbuf_header_roundtrip [OF demo_chain pb, of 14 demo_pcfg] by (auto simp: demo_pbuf1_def)
qed

section \<open>Shrinking a chain\<close>

definition sub_tot :: "nat \<Rightarrow> pbuf \<Rightarrow> pbuf" where
  "sub_tot d b = b\<lparr>tot_len := u16_sub (tot_len b) d\<rparr>"

lemma sub_tot_simps [simp]:
  "pb_next (sub_tot d b) = pb_next b" "pb_len (sub_tot d b) = pb_len b" "payload (sub_tot d b) = payload b"
  "tot_len (sub_tot d b) = u16_sub (tot_len b) d" "pb_ref (sub_tot d b) = pb_ref b"
  by (simp_all add: sub_tot_def)

text \<open>The new last pbuf \<open>y\<close> is the first one that holds the rest of the new length.\<close>

lemma realloc_skip_spec:
  assumes "chain (pbufs s) q xs" "xs \<noteq> []" "r \<le> sum_len (pbufs s) xs" "r < 65536"
  shows "\<exists>ks y zs. xs = ks @ y # zs \<and> (ks = [] \<or> sum_len (pbufs s) ks < r) \<and> r - sum_len (pbufs s) ks \<le> pb_len (the (pbufs s y)) \<and>
    realloc_skip q r d s = Some (y, r - sum_len (pbufs s) ks, s\<lparr>pbufs := map_pbufs (sub_tot d) ks (pbufs s)\<rparr>)"
  using assms
proof (induction xs arbitrary: q r s)
  case (Cons x xs)
  let ?m = "pbufs s"
  obtain b where b: "q = x" "?m x = Some b" "chain ?m (pb_next b) xs" "x \<noteq> 0" using Cons.prems(1) by auto
  have nx: "x \<notin> set xs" by (rule chain_notin [OF Cons.prems(1)])
  show ?case
  proof (cases "r > pb_len b")
    case False
    then have "realloc_skip q r d s = Some (x, r, s)" using b by (subst realloc_skip.simps) simp
    then show ?thesis using False b by (intro exI [of _ "[]"] exI [of _ x] exI [of _ xs]) simp
  next
    case True
    let ?s = "put_pbuf x (sub_tot d b) s"
    have ne: "xs \<noteq> []" using True Cons.prems(3) b(2) by auto
    then have n: "pb_next b \<noteq> 0" using b(3) by (cases xs) auto
    have s: "sum_len (pbufs ?s) zs = sum_len ?m zs" if "set zs \<subseteq> set xs" for zs using nx that by (intro sum_len_cong) auto
    have "r - pb_len b \<le> sum_len (pbufs ?s) xs" "r - pb_len b < 65536" using Cons.prems(3,4) True b(2) s [of xs] by auto
    moreover have "chain (pbufs ?s) (pb_next b) xs" using b(3) nx by simp
    ultimately obtain ks y zs where k: "xs = ks @ y # zs" "ks = [] \<or> sum_len (pbufs ?s) ks < r - pb_len b"
      "r - pb_len b - sum_len (pbufs ?s) ks \<le> pb_len (the (pbufs ?s y))"
      "realloc_skip (pb_next b) (r - pb_len b) d ?s =
        Some (y, r - pb_len b - sum_len (pbufs ?s) ks, ?s\<lparr>pbufs := map_pbufs (sub_tot d) ks (pbufs ?s)\<rparr>)"
      using Cons.IH [OF _ ne] by blast
    have y: "x \<notin> set ks" "y \<noteq> x" "sum_len (pbufs ?s) ks = sum_len ?m ks" using nx k(1) s [of ks] by auto
    have "realloc_skip q r d s = realloc_skip (pb_next b) (r - pb_len b) d ?s"
      using True b n Cons.prems(4) by (subst realloc_skip.simps) (simp add: u16_sub_id sub_tot_def)
    then have "realloc_skip q r d s = Some (y, r - sum_len ?m (x # ks), s\<lparr>pbufs := map_pbufs (sub_tot d) (x # ks) ?m\<rparr>)"
      using k(4) y b(2) by (simp add: map_pbufs_Cons put_pbuf_def)
    then show ?thesis using k y b(2) True by (intro exI [of _ "x # ks"] exI [of _ y] exI [of _ zs]) auto
  qed
qed simp

lemma tot_rem_sub:
  assumes "tot_rem m xs r" "\<And>x. x \<in> set xs \<Longrightarrow> pb_len (the (m' x)) = pb_len (the (m x)) \<and>
    tot_len (the (m' x)) = u16_sub (tot_len (the (m x))) d" "sum_len m xs + r < 65536" "d \<le> r"
  shows "tot_rem m' xs (r - d)"
  using assms
proof (induction xs)
  case (Cons x xs)
  have "sum_len m' xs = sum_len m xs" using Cons.prems(2) by (intro sum_len_cong) auto
  then show ?case using Cons by (simp add: u16_sub_id)
qed simp

text \<open>A chain is cut behind \<open>y\<close>, and \<open>y\<close> shortened.\<close>

lemma packet_cut:
  assumes pk: "packet m p (ks @ y # zs)" and yb: "m y = Some yb" and r: "r \<le> pb_len yb"
    and d: "d = pb_len yb + sum_len m zs - r"
    and y': "m' y = Some (yb\<lparr>pb_len := r, tot_len := r, pb_next := 0\<rparr>)"
    and ks: "\<And>x. x \<in> set ks \<Longrightarrow> m' x = map_option (sub_tot d) (m x)"
  shows "packet m' p (ks @ [y])" "pdata m' bm (ks @ [y]) = take (sum_len m ks + r) (pdata m bm (ks @ y # zs))"
proof -
  have ch: "path m p ks y" "y \<noteq> 0" "tot_rem m ks (pb_len yb + sum_len m zs)" "sum_len m ks + (pb_len yb + sum_len m zs) < 65536"
    using pk yb by (auto simp: packet_def path_append tot_ok_append)
  have f: "pb_len (the (m' x)) = pb_len (the (m x)) \<and> payload (the (m' x)) = payload (the (m x)) \<and>
      tot_len (the (m' x)) = u16_sub (tot_len (the (m x))) d \<and> map_option pb_next (m' x) = map_option pb_next (m x)"
    if "x \<in> set ks" for x
    using chain_mapped [OF ch(1) that] ks [OF that] by auto
  have "path m' p ks y" using ch(1) f by (subst path_cong [where m' = m]) auto
  moreover have s: "sum_len m' ks = sum_len m ks" using f by (intro sum_len_cong) auto
  moreover have "tot_rem m' ks (pb_len yb + sum_len m zs - d)" using f ch(4) d r by (intro tot_rem_sub [OF ch(3)]) auto
  then have "tot_rem m' ks r" using d r by simp
  ultimately show "packet m' p (ks @ [y])"
    using ch(2,4) y' r by (auto simp: packet_def path_append tot_ok_append)
  have "pdata m' bm ks = pdata m bm ks" using f by (intro pdata_cong) auto
  then show "pdata m' bm (ks @ [y]) = take (sum_len m ks + r) (pdata m bm (ks @ y # zs))"
    using y' yb r by (simp add: min_absorb1)
qed

lemma unshared_cong:
  "(\<And>x. x \<in> set xs \<Longrightarrow> m' x = m x) \<Longrightarrow> unshared m' xs = unshared m xs"
  by (induction xs) auto

lemma after_free_other: "x \<notin> set xs \<Longrightarrow> after_free m xs x = m x"
  using set_unshared [of m xs] shared_at_in [of m xs x] by (auto simp: after_free_def)

text \<open>Releasing the rest \<open>zs\<close> of a chain whose pbufs are as they were.\<close>

lemma free_rest:
  assumes ok: "mem_ok c descs s out" and ch: "chain m q zs" and own: "owned m sz out zs"
    and same: "\<And>x. x \<in> set zs \<Longrightarrow> pbufs s x = m x"
  shows "\<exists>s'. (if q \<noteq> 0 then do { (_, s) \<leftarrow> pbuf_free c q s; Some s } else Some s) = Some s' \<and>
    (\<forall>x. x \<notin> set zs \<longrightarrow> pbufs s' x = pbufs s x) \<and> bytes s' = bytes s \<and>
    mem_ok c descs s' (out - area m sz ` set (unshared m zs))"
proof (cases "zs = []")
  case True
  then show ?thesis using ch ok by simp
next
  case False
  then have "q \<noteq> 0" using ch by (cases zs) auto
  moreover have ch': "chain (pbufs s) q zs" using ch same by (subst path_cong [where m' = m]) auto
  moreover have own': "owned (pbufs s) sz out zs" using own same by (simp add: owned_def)
  moreover have "unshared (pbufs s) zs = unshared m zs" using same by (rule unshared_cong)
  moreover have "area (pbufs s) sz ` set (unshared m zs) = area m sz ` set (unshared m zs)"
    using same set_unshared [of m zs] by (intro image_cong) (auto simp: area_def)
  ultimately show ?thesis using pbuf_free_spec [OF ok ch' False own'] after_free_other [of _ zs "pbufs s"] by auto
qed

lemma owned_tail: "owned m sz out (xs @ y # ys) \<Longrightarrow> owned m sz out ys"
  by (simp add: owned_def)

text \<open>
  The topmost block of the heap can not be trimmed when the rest could form a block of its own: \<^verbatim>\<open>mem_trim\<close> aborts.
\<close>

definition trim_aborts :: "pbuf_cfg \<Rightarrow> addr \<Rightarrow> nat \<Rightarrow> nat \<Rightarrow> bool" where
  "trim_aborts c y n k \<longleftrightarrow> y + n = ram (memcfg c) + MEM_SIZE_ALIGNED (memcfg c) \<and>
     mem_align_request (memcfg c) k + SIZEOF_STRUCT_MEM (memcfg c) + MIN_SIZE_ALIGNED (memcfg c) \<le> n"

lemma heap_trim:
  assumes ok: "mem_ok c descs s out" and own: "(0, y, n) \<in> out" and k: "k \<le> n"
  shows "if trim_aborts c y n k then mem_trim (memcfg c) y k (heap s) = None
    else \<exists>h n'. mem_trim (memcfg c) y k (heap s) = Some (y, h) \<and> (n' = n \<or> n' = mem_align_request (memcfg c) k) \<and>
      mem_ok c descs (s\<lparr>heap := h\<rparr>) (insert (0, y, n') (out - {(0, y, n)}))"
    "y \<noteq> 0 \<and> y + n < 2 ^ 64 \<and> n < mem_size_mod (memcfg c)"
proof -
  let ?mc = "memcfg c"
  obtain bs xs ys where r: "mem_rep ?mc descs s bs xs ys" and out: "out = outstanding ?mc descs bs xs ys"
    using ok unfolding mem_ok_def by blast
  have mem: "(y, n) \<in> allocs ?mc (MEM_SIZE_ALIGNED ?mc) bs" using own unfolding out outstanding_def alloc_srcs by auto
  have h: "mem_cfg_ok ?mc" "heap_ok ?mc (heap s) bs" using mem_repD(1) [OF r] by auto
  note rq = trim_request [OF h mem k] and f = mem_cfg_facts [OF h(1)]
  have g: "gaps_ok ?mc (MEM_SIZE_ALIGNED ?mc) bs" using h(2) by (simp add: heap_ok_def heap_rep_def)
  show "y \<noteq> 0 \<and> y + n < 2 ^ 64 \<and> n < mem_size_mod ?mc" using allocs_bounds [OF g mem] f(8,9,10) by linarith
  show "if trim_aborts c y n k then mem_trim ?mc y k (heap s) = None
    else \<exists>h n'. mem_trim ?mc y k (heap s) = Some (y, h) \<and> (n' = n \<or> n' = mem_align_request ?mc k) \<and>
      mem_ok c descs (s\<lparr>heap := h\<rparr>) (insert (0, y, n') (out - {(0, y, n)}))"
  proof (cases "trim_aborts c y n k")
    case True
    then show ?thesis using mem_trim_top [OF h mem rq(1)] by (simp add: trim_aborts_def)
  next
    case False
    then obtain h' bs' where t: "mem_trim ?mc y k (heap s) = Some (y, h')" "heap_ok ?mc h' bs'"
      "allocs ?mc (MEM_SIZE_ALIGNED ?mc) bs' =
        insert (y, trimmed_len ?mc bs y n k) (allocs ?mc (MEM_SIZE_ALIGNED ?mc) bs - {(y, n)})"
      using mem_trim_spec [OF h mem rq(1,2)] by (auto simp: trim_aborts_def not_le)
    have "mem_rep ?mc descs (s\<lparr>heap := h'\<rparr>) bs' xs ys" using mem_repD [OF r] t(2) by (simp add: mem_rep_def)
    moreover have "insert (0, y, trimmed_len ?mc bs y n k) (out - {(0, y, n)}) = outstanding ?mc descs bs' xs ys"
      unfolding out outstanding_remove t(3) [symmetric] by (auto simp: outstanding_def alloc_srcs t(3))
    ultimately have "mem_ok c descs (s\<lparr>heap := h'\<rparr>) (insert (0, y, trimmed_len ?mc bs y n k) (out - {(0, y, n)}))"
      unfolding mem_ok_def by metis
    moreover have "trimmed_len ?mc bs y n k = n \<or> trimmed_len ?mc bs y n k = mem_align_request ?mc k" by (simp add: trimmed_len_def)
    ultimately show ?thesis using t(1) False by auto
  qed
qed

text \<open>The step of \<^verbatim>\<open>pbuf_realloc\<close> that trims the memory of the new last pbuf \<open>y\<close>.\<close>

definition realloc_trim :: "pbuf_cfg \<Rightarrow> addr \<Rightarrow> pbuf \<Rightarrow> nat \<Rightarrow> lwip_mem \<Rightarrow> (addr \<times> lwip_mem) option" where
  "realloc_trim c q qb rem_len s =
     (if pbuf_match_allocsrc qb PBUF_TYPE_ALLOC_SRC_MASK_STD_HEAP \<and> rem_len \<noteq> pb_len qb \<and>
         pb_flags qb AND PBUF_FLAG_IS_CUSTOM = 0
      then do {
          (r, h) \<leftarrow> mem_trim (memcfg c) q (mem_size_of (memcfg c) (size_sub (payload qb) q + rem_len)) (heap s);
          lwip_assert (r \<noteq> 0);
          Some (r, s\<lparr>heap := h\<rparr>)
        }
      else Some (q, s))"

definition trims :: "pbuf \<Rightarrow> nat \<Rightarrow> bool" where
  "trims qb r \<longleftrightarrow> pbuf_get_allocsrc qb = PBUF_TYPE_ALLOC_SRC_MASK_STD_HEAP \<and> r \<noteq> pb_len qb"

lemma realloc_trim_spec:
  assumes ok: "mem_ok c descs s out" and own: "(pbuf_get_allocsrc yb, y, n) \<in> out" "std_pbuf yb" and r: "r \<le> pb_len yb"
    and ins: "pbuf_get_allocsrc yb = PBUF_TYPE_ALLOC_SRC_MASK_STD_HEAP \<longrightarrow> y \<le> payload yb \<and> payload yb + pb_len yb \<le> y + n"
  shows "if trims yb r \<and> trim_aborts c y n (payload yb - y + r) then realloc_trim c y yb r s = None
    else \<exists>h n'. realloc_trim c y yb r s = Some (y, s\<lparr>heap := h\<rparr>) \<and>
      (n' = n \<or> trims yb r \<and> n' = mem_align_request (memcfg c) (payload yb - y + r)) \<and>
      mem_ok c descs (s\<lparr>heap := h\<rparr>) (insert (pbuf_get_allocsrc yb, y, n') (out - {(pbuf_get_allocsrc yb, y, n)}))"
proof (cases "trims yb r")
  case True
  then have src: "pbuf_get_allocsrc yb = 0" by (simp add: trims_def alloc_srcs)
  let ?k = "payload yb - y + r"
  have k: "?k \<le> n" "y \<le> payload yb" using ins src r by (auto simp: alloc_srcs)
  note t = heap_trim [OF ok own(1) [unfolded src] k(1)]
  have "payload yb < 2 ^ 64" using t(2) ins src by (auto simp: alloc_srcs)
  then have "mem_size_of (memcfg c) (size_sub (payload yb) y + r) = ?k"
    using t(2) k by (simp add: size_sub_id mem_size_of_id)
  then have call: "realloc_trim c y yb r s = do { (r, h) \<leftarrow> mem_trim (memcfg c) y ?k (heap s); lwip_assert (r \<noteq> 0); Some (r, s\<lparr>heap := h\<rparr>) }"
    using True own(2) by (simp add: realloc_trim_def trims_def pbuf_match_allocsrc_def std_pbuf_def src alloc_srcs)
  show ?thesis
  proof (cases "trim_aborts c y n ?k")
    case False
    then obtain h n' where "mem_trim (memcfg c) y ?k (heap s) = Some (y, h)" "n' = n \<or> n' = mem_align_request (memcfg c) ?k"
      "mem_ok c descs (s\<lparr>heap := h\<rparr>) (insert (0, y, n') (out - {(0, y, n)}))"
      using t(1) by auto
    then show ?thesis using True False call t(2) unfolding src by (auto intro!: exI [of _ h] exI [of _ n'])
  qed (use True call t(1) in simp)
next
  case False
  then have "realloc_trim c y yb r s = Some (y, s\<lparr>heap := heap s\<rparr>)"
    by (auto simp: realloc_trim_def trims_def pbuf_match_allocsrc_def alloc_srcs)
  moreover have "insert (pbuf_get_allocsrc yb, y, n) (out - {(pbuf_get_allocsrc yb, y, n)}) = out" using own(1) by auto
  ultimately show ?thesis using False ok by (auto intro!: exI [of _ "heap s"] exI [of _ n])
qed

text \<open>What \<^verbatim>\<open>pbuf_realloc\<close> does once the new last pbuf \<open>y\<close> is found.\<close>

lemma realloc_call:
  assumes "pbufs s0 p = Some pb" "p \<noteq> 0" "new_len < tot_len pb" "pbufs s y = Some yb"
    "realloc_skip p new_len (u16_sub (tot_len pb) new_len) s0 = Some (y, r, s)"
  shows "pbuf_realloc c p new_len s0 = do {
     (q, s) \<leftarrow> realloc_trim c y yb r s;
     qb \<leftarrow> pbufs s q;
     let s = put_pbuf q (qb\<lparr>pb_len := r, tot_len := r\<rparr>) s;
     s \<leftarrow> (if pb_next qb \<noteq> 0 then do { (_, s) \<leftarrow> pbuf_free c (pb_next qb) s; Some s } else Some s);
     qb \<leftarrow> pbufs s q;
     Some (put_pbuf q (qb\<lparr>pb_next := 0\<rparr>) s) }"
  using assms by (simp add: pbuf_realloc_def realloc_trim_def)

lemma realloc_tail:
  assumes trim: "realloc_trim c y yb r s1 = Some (y, s)" and ok: "mem_ok c descs s out" and own: "owned m sz out zs"
    and yb: "m y = Some yb" "chain m (pb_next yb) zs" "pbufs s1 y = Some yb"
    and s: "pbufs s y = Some yb" "\<And>x. x \<in> set zs \<Longrightarrow> pbufs s x = m x" and dis: "y \<notin> set zs"
    and call: "pbufs s0 p = Some pb" "p \<noteq> 0" "new_len < tot_len pb"
      "realloc_skip p new_len (u16_sub (tot_len pb) new_len) s0 = Some (y, r, s1)"
  shows "\<exists>s'. pbuf_realloc c p new_len s0 = Some s' \<and> bytes s' = bytes s \<and>
    pbufs s' y = Some (yb\<lparr>pb_len := r, tot_len := r, pb_next := 0\<rparr>) \<and>
    (\<forall>x. x \<noteq> y \<and> x \<notin> set zs \<longrightarrow> pbufs s' x = pbufs s x) \<and>
    mem_ok c descs s' (out - area m sz ` set (unshared m zs))"
proof -
  define s2 where "s2 = put_pbuf y (yb\<lparr>pb_len := r, tot_len := r\<rparr>) s"
  have ok2: "mem_ok c descs s2 out" using ok by (simp add: s2_def)
  have same: "pbufs s2 x = m x" if "x \<in> set zs" for x using s(2) [OF that] dis that by (auto simp: s2_def)
  obtain s3 where s3: "(if pb_next yb \<noteq> 0 then do { (_, s) \<leftarrow> pbuf_free c (pb_next yb) s2; Some s } else Some s2) = Some s3"
    "\<forall>x. x \<notin> set zs \<longrightarrow> pbufs s3 x = pbufs s2 x" "bytes s3 = bytes s2"
    "mem_ok c descs s3 (out - area m sz ` set (unshared m zs))"
    using free_rest [OF ok2 yb(2) own same] by blast
  define s' where "s' = put_pbuf y (yb\<lparr>pb_len := r, tot_len := r, pb_next := 0\<rparr>) s3"
  have y3: "pbufs s3 y = Some (yb\<lparr>pb_len := r, tot_len := r\<rparr>)" using s3(2) dis by (simp add: s2_def)
  have "pbuf_realloc c p new_len s0 = Some s'"
    using s(1) s3(1) y3 trim unfolding realloc_call [OF call(1-3) yb(3) call(4)] by (simp add: s2_def [symmetric] s'_def cong: if_cong)
  moreover have "bytes s' = bytes s" "mem_ok c descs s' (out - area m sz ` set (unshared m zs))"
    using s3(3,4) by (simp_all add: s'_def s2_def)
  moreover have "pbufs s' x = pbufs s x" if "x \<noteq> y" "x \<notin> set zs" for x using that s3(2) by (simp add: s'_def s2_def)
  moreover have "pbufs s' y = Some (yb\<lparr>pb_len := r, tot_len := r, pb_next := 0\<rparr>)" by (simp add: s'_def)
  ultimately show ?thesis by blast
qed

text \<open>The heap pbufs of a chain hold their data in the memory they own.\<close>

definition heap_data_inside :: "(addr \<rightharpoonup> pbuf) \<Rightarrow> (addr \<Rightarrow> nat) \<Rightarrow> addr list \<Rightarrow> bool" where
  "heap_data_inside m sz xs \<longleftrightarrow>
     (\<forall>x\<in>set xs. let pb = the (m x) in pbuf_get_allocsrc pb = PBUF_TYPE_ALLOC_SRC_MASK_STD_HEAP \<longrightarrow>
        x \<le> payload pb \<and> payload pb + pb_len pb \<le> x + sz x)"

text \<open>
  The chain \<open>ks @ y # zs\<close> was cut to \<open>new_len\<close> bytes behind \<open>y\<close>, whose memory is now \<open>n\<close> bytes.
\<close>

definition was_cut ::
  "pbuf_cfg \<Rightarrow> (memp_t \<Rightarrow> memp_desc) \<Rightarrow> areas \<Rightarrow> (addr \<Rightarrow> nat) \<Rightarrow> lwip_mem \<Rightarrow> addr \<Rightarrow> addr list \<Rightarrow> addr \<Rightarrow> addr list \<Rightarrow> nat \<Rightarrow>
   nat \<Rightarrow> lwip_mem \<Rightarrow> bool" where
  "was_cut c descs out sz s p ks y zs new_len n s' \<longleftrightarrow>
     packet (pbufs s') p (ks @ [y]) \<and>
     pdata (pbufs s') (bytes s') (ks @ [y]) = take new_len (pdata (pbufs s) (bytes s) (ks @ y # zs)) \<and>
     bytes s' = bytes s \<and> (\<forall>x. x \<notin> set (ks @ y # zs) \<longrightarrow> pbufs s' x = pbufs s x) \<and>
     mem_ok c descs s' (insert (pbuf_get_allocsrc (the (pbufs s y)), y, n)
       (out - {area (pbufs s) sz y} - area (pbufs s) sz ` set (unshared (pbufs s) zs)))"

lemma realloc_cut:
  assumes pk: "packet (pbufs s) p (ks @ y # zs)" "p \<noteq> 0" and ok: "mem_ok c descs s out"
    and own: "owned (pbufs s) sz out (ks @ y # zs)" and ins: "heap_data_inside (pbufs s) sz (ks @ y # zs)"
    and pb: "pbufs s p = Some pb" "tot_len pb = sum_len (pbufs s) (ks @ y # zs)" "new_len < tot_len pb"
    and k: "sum_len (pbufs s) ks \<le> new_len" "r = new_len - sum_len (pbufs s) ks" "r \<le> pb_len (the (pbufs s y))"
      "d = u16_sub (tot_len pb) new_len" "d = tot_len pb - new_len"
      "realloc_skip p new_len d s = Some (y, r, s\<lparr>pbufs := map_pbufs (sub_tot d) ks (pbufs s)\<rparr>)"
    and yb: "pbufs s y = Some yb"
  shows "if trims yb r \<and> trim_aborts c y (sz y) (payload yb - y + r) then pbuf_realloc c p new_len s = None
    else \<exists>s' n. pbuf_realloc c p new_len s = Some s' \<and> was_cut c descs out sz s p ks y zs new_len n s' \<and>
      (n = sz y \<or> trims yb r \<and> n = mem_align_request (memcfg c) (payload yb - y + r))"
proof -
  let ?m = "pbufs s" and ?m1 = "map_pbufs (sub_tot d) ks (pbufs s)" and ?a = "pbuf_get_allocsrc yb"
  let ?s1 = "s\<lparr>pbufs := ?m1\<rparr>"
  have dis: "y \<notin> set ks" "y \<notin> set zs" "set ks \<inter> set zs = {}" using chain_distinct [OF packet_chain [OF pk(1)]] by auto
  have ch: "chain ?m (pb_next yb) zs" using packet_chain [OF pk(1)] yb unfolding path_append path.simps by auto
  have y1: "pbufs ?s1 y = Some yb" using dis(1) yb by simp
  have own1: "(?a, y, sz y) \<in> out" "std_pbuf yb" using own yb by (auto simp: owned_def)
  have t: "if trims yb r \<and> trim_aborts c y (sz y) (payload yb - y + r) then realloc_trim c y yb r ?s1 = None
    else \<exists>h n. realloc_trim c y yb r ?s1 = Some (y, ?s1\<lparr>heap := h\<rparr>) \<and>
      (n = sz y \<or> trims yb r \<and> n = mem_align_request (memcfg c) (payload yb - y + r)) \<and>
      mem_ok c descs (?s1\<lparr>heap := h\<rparr>) (insert (?a, y, n) (out - {(?a, y, sz y)}))"
    using ok ins yb k(3) by (intro realloc_trim_spec [OF _ own1]) (auto simp: heap_data_inside_def Let_def)
  have sk: "realloc_skip p new_len (u16_sub (tot_len pb) new_len) s = Some (y, r, ?s1)" using k(4,6) by simp
  note rc = realloc_call [OF pb(1) pk(2) pb(3) y1 sk]
  show ?thesis
  proof (cases "trims yb r \<and> trim_aborts c y (sz y) (payload yb - y + r)")
    case True
    then show ?thesis using t rc by simp
  next
    case False
    then obtain h n where n: "realloc_trim c y yb r ?s1 = Some (y, ?s1\<lparr>heap := h\<rparr>)"
      "n = sz y \<or> trims yb r \<and> n = mem_align_request (memcfg c) (payload yb - y + r)"
      "mem_ok c descs (?s1\<lparr>heap := h\<rparr>) (insert (?a, y, n) (out - {(?a, y, sz y)}))" using t unfolding if_not_P [OF False] by blast
    have oz: "owned ?m sz (insert (?a, y, n) (out - {(?a, y, sz y)})) zs" using own dis(2) by (auto simp: owned_def)
    have z1: "pbufs (?s1\<lparr>heap := h\<rparr>) x = ?m x" if "x \<in> set zs" for x using dis(3) that by (auto simp: map_pbufs_def)
    have y2: "pbufs (?s1\<lparr>heap := h\<rparr>) y = Some yb" using y1 by simp
    obtain s' where s': "pbuf_realloc c p new_len s = Some s'" "bytes s' = bytes s"
      "pbufs s' y = Some (yb\<lparr>pb_len := r, tot_len := r, pb_next := 0\<rparr>)"
      "\<forall>x. x \<noteq> y \<and> x \<notin> set zs \<longrightarrow> pbufs s' x = ?m1 x"
      "mem_ok c descs s' (insert (?a, y, n) (out - {(?a, y, sz y)}) - area ?m sz ` set (unshared ?m zs))"
      using realloc_tail [OF n(1,3) oz yb ch y1 y2 z1 dis(2) pb(1) pk(2) pb(3) sk] by auto
    have "r \<le> pb_len yb" "d = pb_len yb + sum_len ?m zs - r" using k(1-3,5) pb(2) yb by auto
    note cut = packet_cut [where m' = "pbufs s'", OF pk(1) yb this s'(3)]
    have ks: "pbufs s' x = map_option (sub_tot d) (?m x)" if "x \<in> set ks" for x
      using s'(4) map_pbufs_in [OF that, of "sub_tot d" ?m] dis that by (metis disjoint_iff)
    have "(?a, y, n) \<notin> area ?m sz ` set (unshared ?m zs)" using dis(2) set_unshared [of ?m zs] by (auto simp: area_def)
    then have "insert (?a, y, n) (out - {(?a, y, sz y)}) - area ?m sz ` set (unshared ?m zs) =
        insert (?a, y, n) (out - {area ?m sz y} - area ?m sz ` set (unshared ?m zs))"
      using yb by (auto simp: area_def)
    moreover have "\<forall>x. x \<notin> set (ks @ y # zs) \<longrightarrow> pbufs s' x = ?m x" using s'(4) by (auto simp: map_pbufs_def)
    ultimately have "was_cut c descs out sz s p ks y zs new_len n s'"
      using cut [OF ks] k(1,2) s'(2,5) yb unfolding was_cut_def by auto
    then show ?thesis using s'(1) n(2) False by auto
  qed
qed

text \<open>
  C33: \<^verbatim>\<open>pbuf_realloc\<close> on a well-formed chain of heap, pool and reference pbufs that the stack owns, none of them custom, whose
  heap pbufs hold their data in the memory they own.  It changes nothing when the chain is not longer than \<open>new_len\<close>.  Otherwise it cuts behind the
  first pbuf \<open>y\<close> with which \<open>new_len\<close> bytes are reached: the chain then ends with \<open>y\<close>, is well-formed and holds exactly the
  first \<open>new_len\<close> bytes of its data; the pbufs behind \<open>y\<close> are released as far as nobody else refers to them; the memory of
  \<open>y\<close> stays as it is or, for a heap pbuf that gets shorter, may shrink to the aligned size of what is left; no other
  pbuf, no byte and no other memory changes.  The one exception is a heap pbuf to be shortened in the topmost
  block of the heap with room for a block behind it, for which \<^verbatim>\<open>mem_trim\<close> and with it the call aborts.
\<close>

theorem pbuf_realloc_correct:
  assumes pk: "packet (pbufs s) p xs" "p \<noteq> 0" and ok: "mem_ok c descs s out" and own: "owned (pbufs s) sz out xs"
    and ins: "heap_data_inside (pbufs s) sz xs"
  shows "if sum_len (pbufs s) xs \<le> new_len then pbuf_realloc c p new_len s = Some s
    else \<exists>ks y zs yb. xs = ks @ y # zs \<and> pbufs s y = Some yb \<and> (ks = [] \<or> sum_len (pbufs s) ks < new_len) \<and>
      new_len \<le> sum_len (pbufs s) (ks @ [y]) \<and>
      (let r = new_len - sum_len (pbufs s) ks; k = payload yb - y + r
       in if trims yb r \<and> trim_aborts c y (sz y) k then pbuf_realloc c p new_len s = None
          else \<exists>s' n. pbuf_realloc c p new_len s = Some s' \<and> was_cut c descs out sz s p ks y zs new_len n s' \<and>
            (n = sz y \<or> trims yb r \<and> n = mem_align_request (memcfg c) k))"
proof -
  let ?m = "pbufs s"
  have ne: "xs \<noteq> []" using pk by (auto simp: packet_def)
  then obtain pb where pb: "?m p = Some pb" "tot_len pb = sum_len ?m xs" "tot_len pb < 65536"
    using pk(1) by (cases xs) (auto simp: packet_def)
  show ?thesis
  proof (cases "sum_len ?m xs \<le> new_len")
    case True
    then show ?thesis using pb pk(2) by (simp add: pbuf_realloc_def)
  next
    case False
    define d where "d = u16_sub (tot_len pb) new_len"
    have d: "d = tot_len pb - new_len" using False pb(2,3) by (simp add: d_def u16_sub_id)
    obtain ks y zs where k: "xs = ks @ y # zs" "ks = [] \<or> sum_len ?m ks < new_len" "new_len - sum_len ?m ks \<le> pb_len (the (?m y))"
      "realloc_skip p new_len d s = Some (y, new_len - sum_len ?m ks, s\<lparr>pbufs := map_pbufs (sub_tot d) ks ?m\<rparr>)"
      using realloc_skip_spec [OF packet_chain [OF pk(1)] ne, of new_len d] False pb(2,3) by auto
    obtain yb where yb: "?m y = Some yb"
      using packet_chain [OF pk(1)] unfolding k(1) path_append path.simps by blast
    have le: "sum_len ?m ks \<le> new_len" "new_len < tot_len pb" "new_len \<le> sum_len ?m (ks @ [y])" using k(2,3) False pb(2) yb by auto
    note c = realloc_cut [OF pk [unfolded k(1)] ok own [unfolded k(1)] ins [unfolded k(1)] pb(1) pb(2) [unfolded k(1)] le(2,1)
      refl k(3) d_def d k(4) yb]
    show ?thesis unfolding if_not_P [OF False] Let_def using k(1,2) yb le(3) c by blast
  qed
qed

lemma demo_mem3_ok:
  "mem_ok demo_pcfg demo_descs demo_mem3 demo_out" "owned (pbufs demo_mem3) (\<lambda>_. 100) demo_out [4104]"
  "heap_data_inside (pbufs demo_mem3) (\<lambda>_. 100) [4104]"
proof -
  show "mem_ok demo_pcfg demo_descs demo_mem3 demo_out" using demo_mem_ok by (simp add: demo_mem3_def)
  have "(4104, 100) \<in> allocs demo_cfg (MEM_SIZE_ALIGNED demo_cfg) demo_blocks" by (simp add: demo_blocks_def demo_cfg_values)
  then show "owned (pbufs demo_mem3) (\<lambda>_. 100) demo_out [4104]"
    by (simp add: owned_def demo_mem3_def demo_pbuf3_def std_pbuf_def pbuf_get_allocsrc_def PBUF_TYPE_ALLOC_SRC_MASK_def
        demo_out_def outstanding_def alloc_srcs)
  show "heap_data_inside (pbufs demo_mem3) (\<lambda>_. 100) [4104]" by (simp add: heap_data_inside_def demo_mem3_def demo_pbuf3_def)
qed

theorem pbuf_realloc_correct_witness:
  "\<exists>s' n. pbuf_realloc demo_pcfg 4104 8 demo_mem3 = Some s' \<and>
     was_cut demo_pcfg demo_descs demo_out (\<lambda>_. 100) demo_mem3 4104 [] 4104 [] 8 n s'"
proof -
  have "\<not> trim_aborts demo_pcfg 4104 100 k" for k by (simp add: trim_aborts_def demo_sizes demo_cfg_values)
  moreover have "sum_len (pbufs demo_mem3) [4104] = 20" by (simp add: demo_mem3_def demo_pbuf3_def)
  ultimately show ?thesis
    using pbuf_realloc_correct [OF demo_chains(1) _ demo_mem3_ok, of 8] by (auto simp: Let_def Cons_eq_append_conv)
qed

end
