(* ===== verification/Pbuf_Data.thy ===== *)
theory Pbuf_Data
  imports Pbuf_Chain
begin

text \<open>
  The operations of \<^verbatim>\<open>pbuf.c\<close> that read and write the data of a chain, and their correctness: each refines an
  operation on the sequence of bytes that the chain stands for.  Pointers to plain buffers are addresses in the
  same byte memory as the payloads.
\<close>

section \<open>Finding a position\<close>

partial_function (option) pbuf_skip_const :: "(addr \<rightharpoonup> pbuf) \<Rightarrow> addr \<Rightarrow> nat \<Rightarrow> (addr \<times> nat) option" where
  "pbuf_skip_const m q offset_left =
     (if q \<noteq> 0 then
        do {
          b \<leftarrow> m q;
          if pb_len b \<le> offset_left then pbuf_skip_const m (pb_next b) (u16_sub offset_left (pb_len b))
          else Some (q, offset_left)
        }
      else Some (q, offset_left))"

definition pbuf_skip :: "(addr \<rightharpoonup> pbuf) \<Rightarrow> addr \<Rightarrow> nat \<Rightarrow> (addr \<times> nat) option" where
  "pbuf_skip m q in_offset = pbuf_skip_const m q in_offset"

section \<open>Single bytes\<close>

definition pbuf_try_get_at :: "(addr \<rightharpoonup> pbuf) \<Rightarrow> byte_mem \<Rightarrow> addr \<Rightarrow> nat \<Rightarrow> int option" where
  "pbuf_try_get_at m bm p offset =
     do {
       (q, q_idx) \<leftarrow> pbuf_skip_const m p offset;
       if q \<noteq> 0 then
         do {
           b \<leftarrow> m q;
           if pb_len b > q_idx then do { v \<leftarrow> bm (payload b + q_idx); Some (uint v) } else Some (- 1)
         }
       else Some (- 1)
     }"

definition pbuf_get_at :: "(addr \<rightharpoonup> pbuf) \<Rightarrow> byte_mem \<Rightarrow> addr \<Rightarrow> nat \<Rightarrow> u8 option" where
  "pbuf_get_at m bm p offset =
     do { ret \<leftarrow> pbuf_try_get_at m bm p offset; Some (if ret \<ge> 0 then of_int ret else 0) }"

definition pbuf_put_at :: "(addr \<rightharpoonup> pbuf) \<Rightarrow> addr \<Rightarrow> nat \<Rightarrow> u8 \<Rightarrow> byte_mem \<Rightarrow> byte_mem option" where
  "pbuf_put_at m p offset v bm =
     do {
       (q, q_idx) \<leftarrow> pbuf_skip m p offset;
       if q \<noteq> 0 then
         do { b \<leftarrow> m q; if pb_len b > q_idx then store_bytes bm (payload b + q_idx) [v] else Some bm }
       else Some bm
     }"

section \<open>Comparing and searching\<close>

text \<open>The loop over the last \<open>k\<close> of the \<open>n\<close> bytes; \<open>i\<close> is the index of the next one.\<close>

fun memcmp_loop :: "(addr \<rightharpoonup> pbuf) \<Rightarrow> byte_mem \<Rightarrow> addr \<Rightarrow> nat \<Rightarrow> addr \<Rightarrow> nat \<Rightarrow> nat \<Rightarrow> nat option" where
  "memcmp_loop m bm q st s2 i 0 = Some 0"
| "memcmp_loop m bm q st s2 i (Suc k) =
     do {
       a \<leftarrow> pbuf_get_at m bm q (u16_of (st + i));
       b \<leftarrow> bm (s2 + i);
       if a \<noteq> b then Some (u16_of (min (i + 1) 0xFFFF)) else memcmp_loop m bm q st s2 (i + 1) k
     }"

definition pbuf_memcmp :: "(addr \<rightharpoonup> pbuf) \<Rightarrow> byte_mem \<Rightarrow> addr \<Rightarrow> nat \<Rightarrow> addr \<Rightarrow> nat \<Rightarrow> nat option" where
  "pbuf_memcmp m bm p offset s2 n =
     do {
       pb \<leftarrow> m p;
       if tot_len pb < offset + n then Some 0xFFFF
       else do { (q, st) \<leftarrow> pbuf_skip_const m p offset; memcmp_loop m bm q st s2 0 n }
     }"

partial_function (option) memfind_loop ::
  "(addr \<rightharpoonup> pbuf) \<Rightarrow> byte_mem \<Rightarrow> addr \<Rightarrow> addr \<Rightarrow> nat \<Rightarrow> nat \<Rightarrow> nat \<Rightarrow> nat option" where
  "memfind_loop m bm p mem mem_len max_cmp_start i =
     (if i \<le> max_cmp_start then
        do {
          plus \<leftarrow> pbuf_memcmp m bm p i mem mem_len;
          if plus = 0 then Some i else memfind_loop m bm p mem mem_len max_cmp_start (u16_of (i + 1))
        }
      else Some 0xFFFF)"

definition pbuf_memfind :: "(addr \<rightharpoonup> pbuf) \<Rightarrow> byte_mem \<Rightarrow> addr \<Rightarrow> addr \<Rightarrow> nat \<Rightarrow> nat \<Rightarrow> nat option" where
  "pbuf_memfind m bm p mem mem_len start_offset =
     do {
       pb \<leftarrow> m p;
       let max_cmp_start = u16_sub (tot_len pb) mem_len;
       if tot_len pb \<ge> mem_len + start_offset then memfind_loop m bm p mem mem_len max_cmp_start start_offset
       else Some 0xFFFF
     }"

partial_function (option) strlen_at :: "byte_mem \<Rightarrow> addr \<Rightarrow> nat option" where
  "strlen_at bm a = do { v \<leftarrow> bm a; if v = 0 then Some 0 else do { n \<leftarrow> strlen_at bm (a + 1); Some (n + 1) } }"

definition pbuf_strstr :: "(addr \<rightharpoonup> pbuf) \<Rightarrow> byte_mem \<Rightarrow> addr \<Rightarrow> addr \<Rightarrow> nat option" where
  "pbuf_strstr m bm p substr =
     (if substr = 0 then Some 0xFFFF
      else
        do {
          c0 \<leftarrow> bm substr;
          if c0 = 0 then Some 0xFFFF
          else
            do {
              pb \<leftarrow> m p;
              if tot_len pb = 0xFFFF then Some 0xFFFF
              else
                do {
                  n \<leftarrow> strlen_at bm substr;
                  if n \<ge> 0xFFFF then Some 0xFFFF else pbuf_memfind m bm p substr (u16_of n) 0
                }
            }
        })"

section \<open>Copying\<close>

partial_function (option) copy_partial_loop ::
  "(addr \<rightharpoonup> pbuf) \<Rightarrow> addr \<Rightarrow> addr \<Rightarrow> nat \<Rightarrow> nat \<Rightarrow> nat \<Rightarrow> nat \<Rightarrow> byte_mem \<Rightarrow> (nat \<times> byte_mem) option" where
  "copy_partial_loop m dataptr p left len offset copied_total bm =
     (if len \<noteq> 0 \<and> p \<noteq> 0 then
        do {
          b \<leftarrow> m p;
          if offset \<noteq> 0 \<and> offset \<ge> pb_len b then
            copy_partial_loop m dataptr (pb_next b) left len (u16_sub offset (pb_len b)) copied_total bm
          else
            do {
              let n = u16_sub (pb_len b) offset;
              let n = (if n > len then len else n);
              bm \<leftarrow> memcpy bm (dataptr + left) (payload b + offset) n;
              copy_partial_loop m dataptr (pb_next b) (u16_of (left + n)) (u16_sub len n) 0
                (u16_of (copied_total + n)) bm
            }
        }
      else Some (copied_total, bm))"

definition pbuf_copy_partial ::
  "(addr \<rightharpoonup> pbuf) \<Rightarrow> addr \<Rightarrow> addr \<Rightarrow> nat \<Rightarrow> nat \<Rightarrow> byte_mem \<Rightarrow> (nat \<times> byte_mem) option" where
  "pbuf_copy_partial m buf dataptr len offset bm =
     (if buf = 0 then Some (0, bm) else if dataptr = 0 then Some (0, bm)
      else copy_partial_loop m dataptr buf 0 len offset 0 bm)"

definition pbuf_get_contiguous ::
  "(addr \<rightharpoonup> pbuf) \<Rightarrow> addr \<Rightarrow> addr \<Rightarrow> nat \<Rightarrow> nat \<Rightarrow> nat \<Rightarrow> byte_mem \<Rightarrow> (addr \<times> byte_mem) option" where
  "pbuf_get_contiguous m p buffer bufsize len offset bm =
     (if p = 0 then Some (0, bm) else if buffer = 0 then Some (0, bm) else if \<not> bufsize \<ge> len then Some (0, bm)
      else
        do {
          (q, out_offset) \<leftarrow> pbuf_skip_const m p offset;
          if q \<noteq> 0 then
            do {
              b \<leftarrow> m q;
              if pb_len b \<ge> out_offset + len then Some (payload b + out_offset, bm)
              else
                do {
                  (n, bm) \<leftarrow> pbuf_copy_partial m q buffer len out_offset bm;
                  Some (if n \<noteq> len then 0 else buffer, bm)
                }
            }
          else Some (0, bm)
        })"

partial_function (option) take_loop ::
  "(addr \<rightharpoonup> pbuf) \<Rightarrow> addr \<Rightarrow> addr \<Rightarrow> nat \<Rightarrow> nat \<Rightarrow> byte_mem \<Rightarrow> (nat \<times> byte_mem) option" where
  "take_loop m dataptr p total_copy_len copied_total bm =
     (if total_copy_len \<noteq> 0 then
        do {
          lwip_assert (p \<noteq> 0);
          b \<leftarrow> m p;
          let n = (if total_copy_len > pb_len b then pb_len b else total_copy_len);
          bm \<leftarrow> memcpy bm (payload b) (dataptr + copied_total) n;
          take_loop m dataptr (pb_next b) (total_copy_len - n) (copied_total + n) bm
        }
      else Some (copied_total, bm))"

definition pbuf_take :: "(addr \<rightharpoonup> pbuf) \<Rightarrow> addr \<Rightarrow> addr \<Rightarrow> nat \<Rightarrow> byte_mem \<Rightarrow> (err_t \<times> byte_mem) option" where
  "pbuf_take m buf dataptr len bm =
     (if buf = 0 then Some (ERR_ARG, bm) else if dataptr = 0 then Some (ERR_ARG, bm)
      else
        do {
          bb \<leftarrow> m buf;
          if \<not> tot_len bb \<ge> len then Some (ERR_MEM, bm)
          else
            do {
              (copied_total, bm) \<leftarrow> take_loop m dataptr buf len 0 bm;
              lwip_assert (copied_total = len);
              Some (ERR_OK, bm)
            }
        })"

definition pbuf_take_at ::
  "(addr \<rightharpoonup> pbuf) \<Rightarrow> addr \<Rightarrow> addr \<Rightarrow> nat \<Rightarrow> nat \<Rightarrow> byte_mem \<Rightarrow> (err_t \<times> byte_mem) option" where
  "pbuf_take_at m buf dataptr len offset bm =
     do {
       (q, target_offset) \<leftarrow> pbuf_skip m buf offset;
       if q \<noteq> 0 then
         do {
           b \<leftarrow> m q;
           if tot_len b \<ge> target_offset + len then
             do {
               lwip_assert (target_offset < pb_len b);
               let first_copy_len = u16_of (min (pb_len b - target_offset) len);
               bm \<leftarrow> memcpy bm (payload b + target_offset) dataptr first_copy_len;
               let remaining_len = u16_sub len first_copy_len;
               if remaining_len > 0 then pbuf_take m (pb_next b) (dataptr + first_copy_len) remaining_len bm
               else Some (ERR_OK, bm)
             }
           else Some (ERR_MEM, bm)
         }
       else Some (ERR_MEM, bm)
     }"

definition packet_queue :: "(addr \<rightharpoonup> pbuf) \<Rightarrow> addr \<Rightarrow> bool option" where
  "packet_queue m p =
     (if p \<noteq> 0 then do { b \<leftarrow> m p; Some (pb_len b = tot_len b \<and> pb_next b \<noteq> 0) } else Some False)"

partial_function (option) copy_loop ::
  "(addr \<rightharpoonup> pbuf) \<Rightarrow> addr \<Rightarrow> addr \<Rightarrow> nat \<Rightarrow> nat \<Rightarrow> byte_mem \<Rightarrow> (err_t \<times> byte_mem) option" where
  "copy_loop m p_to p_from offset_to offset_from bm =
     do {
       tb \<leftarrow> m p_to;
       fb \<leftarrow> m p_from;
       let len = (if size_sub (pb_len tb) offset_to \<ge> size_sub (pb_len fb) offset_from
                  then size_sub (pb_len fb) offset_from else size_sub (pb_len tb) offset_to);
       bm \<leftarrow> memcpy bm (payload tb + offset_to) (payload fb + offset_from) len;
       let offset_to = offset_to + len;
       let offset_from = offset_from + len;
       lwip_assert (offset_to \<le> pb_len tb);
       lwip_assert (offset_from \<le> pb_len fb);
       let (offset_from, p_from) = (if offset_from \<ge> pb_len fb then (0, pb_next fb) else (offset_from, p_from));
       let full = (offset_to = pb_len tb);
       let (offset_to, p_to) = (if full then (0, pb_next tb) else (offset_to, p_to));
       if full \<and> \<not> (p_to \<noteq> 0 \<or> p_from = 0) then Some (ERR_ARG, bm)
       else
         do {
           from_queue \<leftarrow> packet_queue m p_from;
           if from_queue then Some (ERR_VAL, bm)
           else
             do {
               to_queue \<leftarrow> packet_queue m p_to;
               if to_queue then Some (ERR_VAL, bm)
               else if p_from \<noteq> 0 then copy_loop m p_to p_from offset_to offset_from bm
               else Some (ERR_OK, bm)
             }
         }
     }"

definition pbuf_copy :: "(addr \<rightharpoonup> pbuf) \<Rightarrow> addr \<Rightarrow> addr \<Rightarrow> byte_mem \<Rightarrow> (err_t \<times> byte_mem) option" where
  "pbuf_copy m p_to p_from bm =
     (if p_to = 0 \<or> p_from = 0 then Some (ERR_ARG, bm)
      else
        do {
          tb \<leftarrow> m p_to;
          fb \<leftarrow> m p_from;
          if \<not> tot_len tb \<ge> tot_len fb then Some (ERR_ARG, bm) else copy_loop m p_to p_from 0 0 bm
        })"

definition pbuf_clone ::
  "pbuf_cfg \<Rightarrow> nat \<Rightarrow> pbuf_type \<Rightarrow> addr \<Rightarrow> lwip_mem \<Rightarrow> (addr \<times> lwip_mem) option" where
  "pbuf_clone c layer t p s =
     do {
       pb \<leftarrow> pbufs s p;
       (q, s) \<leftarrow> pbuf_alloc c layer (tot_len pb) t s;
       if q = 0 then Some (0, s)
       else
         do {
           (err, bm) \<leftarrow> pbuf_copy (pbufs s) q p (bytes s);
           lwip_assert (err = ERR_OK);
           Some (q, s\<lparr>bytes := bm\<rparr>)
         }
     }"

definition pbuf_coalesce :: "pbuf_cfg \<Rightarrow> addr \<Rightarrow> nat \<Rightarrow> lwip_mem \<Rightarrow> (addr \<times> lwip_mem) option" where
  "pbuf_coalesce c p layer s =
     do {
       pb \<leftarrow> pbufs s p;
       if pb_next pb = 0 then Some (p, s)
       else
         do {
           (q, s) \<leftarrow> pbuf_clone c layer PBUF_RAM p s;
           if q = 0 then Some (p, s) else do { (_, s) \<leftarrow> pbuf_free c p s; Some (q, s) }
         }
     }"

text \<open>\<^verbatim>\<open>lwip_chksum_copy\<close> copies and sums with the routine \<open>chksum\<close> the build has chosen.\<close>

definition lwip_chksum_copy ::
  "(addr \<Rightarrow> u8 list \<Rightarrow> u16) \<Rightarrow> addr \<Rightarrow> addr \<Rightarrow> nat \<Rightarrow> byte_mem \<Rightarrow> (u16 \<times> byte_mem) option" where
  "lwip_chksum_copy chksum dst src len bm =
     do { bm \<leftarrow> memcpy bm dst src len; bs \<leftarrow> load_bytes bm dst len; Some (chksum dst bs, bm) }"

definition pbuf_fill_chksum ::
  "(addr \<Rightarrow> u8 list \<Rightarrow> u16) \<Rightarrow> (addr \<rightharpoonup> pbuf) \<Rightarrow> addr \<Rightarrow> nat \<Rightarrow> addr \<Rightarrow> nat \<Rightarrow> u16 \<Rightarrow> byte_mem \<Rightarrow>
    (err_t \<times> u16 \<times> byte_mem) option" where
  "pbuf_fill_chksum chksum m p start_offset dataptr len sum16 bm =
     do {
       lwip_assert (p \<noteq> 0);
       lwip_assert (dataptr \<noteq> 0);
       lwip_assert (len \<noteq> 0);
       pb \<leftarrow> m p;
       if start_offset \<ge> pb_len pb \<or> start_offset + len > pb_len pb then Some (ERR_ARG, sum16, bm)
       else
         do {
           (copy_chksum, bm) \<leftarrow> lwip_chksum_copy chksum (payload pb + start_offset) dataptr len bm;
           let copy_chksum = (if odd start_offset then ucast (SWAP_BYTES_IN_WORD (ucast copy_chksum)) else copy_chksum);
           let acc = (ucast sum16 :: u32) + ucast copy_chksum;
           Some (ERR_OK, ucast (FOLD_U32T acc), bm)
         }
     }"

section \<open>Positions in a chain\<close>

definition mapped :: "(addr \<rightharpoonup> pbuf) \<Rightarrow> byte_mem \<Rightarrow> addr list \<Rightarrow> bool" where
  "mapped m bm xs \<longleftrightarrow> (\<forall>x\<in>set xs. range_mapped bm (payload (the (m x))) (pb_len (the (m x))))"

lemma mapped_simps [simp]:
  "mapped m bm []" "mapped m bm (x # xs) \<longleftrightarrow> range_mapped bm (payload (the (m x))) (pb_len (the (m x))) \<and> mapped m bm xs"
  "mapped m bm (xs @ ys) \<longleftrightarrow> mapped m bm xs \<and> mapped m bm ys"
  by (auto simp: mapped_def)

lemma skip_spec:
  assumes "chain m p xs" "off < 65536"
  shows "if off < sum_len m xs
    then \<exists>ks y zs. xs = ks @ y # zs \<and> sum_len m ks \<le> off \<and> off - sum_len m ks < pb_len (the (m y)) \<and>
      pbuf_skip_const m p off = Some (y, off - sum_len m ks) \<and> path m p ks y
    else pbuf_skip_const m p off = Some (0, off - sum_len m xs)"
  using assms
proof (induction xs arbitrary: p off)
  case Nil
  then show ?case by (subst pbuf_skip_const.simps) simp
next
  case (Cons x xs)
  obtain b where b: "p = x" "m x = Some b" "chain m (pb_next b) xs" "x \<noteq> 0" using Cons.prems(1) by auto
  show ?case
  proof (cases "pb_len b \<le> off")
    case False
    then have "pbuf_skip_const m p off = Some (x, off)" using b by (subst pbuf_skip_const.simps) simp
    then have "\<exists>ks y zs. x # xs = ks @ y # zs \<and> sum_len m ks \<le> off \<and> off - sum_len m ks < pb_len (the (m y)) \<and>
        pbuf_skip_const m p off = Some (y, off - sum_len m ks) \<and> path m p ks y"
      using False b by (intro exI [of _ "[]"] exI [of _ x] exI [of _ xs]) simp
    then show ?thesis using False b(2) by simp
  next
    case True
    have c: "pbuf_skip_const m p off = pbuf_skip_const m (pb_next b) (off - pb_len b)"
      using True b Cons.prems(2) by (subst pbuf_skip_const.simps) (simp add: u16_sub_id)
    have IH: "if off - pb_len b < sum_len m xs
      then \<exists>ks y zs. xs = ks @ y # zs \<and> sum_len m ks \<le> off - pb_len b \<and> off - pb_len b - sum_len m ks < pb_len (the (m y)) \<and>
        pbuf_skip_const m (pb_next b) (off - pb_len b) = Some (y, off - pb_len b - sum_len m ks) \<and> path m (pb_next b) ks y
      else pbuf_skip_const m (pb_next b) (off - pb_len b) = Some (0, off - pb_len b - sum_len m xs)"
      by (rule Cons.IH [OF b(3)]) (use Cons.prems(2) in simp)
    show ?thesis
    proof (cases "off < sum_len m (x # xs)")
      case lt: True
      then have lt': "off - pb_len b < sum_len m xs" using b(2) True by simp
      obtain ks y zs where "xs = ks @ y # zs" "sum_len m ks \<le> off - pb_len b"
        "off - pb_len b - sum_len m ks < pb_len (the (m y))"
        "pbuf_skip_const m (pb_next b) (off - pb_len b) = Some (y, off - pb_len b - sum_len m ks)"
        "path m (pb_next b) ks y"
        using IH unfolding if_P [OF lt'] by blast
      then have "\<exists>ks y zs. x # xs = ks @ y # zs \<and> sum_len m ks \<le> off \<and> off - sum_len m ks < pb_len (the (m y)) \<and>
          pbuf_skip_const m p off = Some (y, off - sum_len m ks) \<and> path m p ks y"
        using True b c by (intro exI [of _ "x # ks"] exI [of _ y] exI [of _ zs]) simp
      then show ?thesis using lt by simp
    next
      case ge: False
      then have "\<not> off - pb_len b < sum_len m xs" using b(2) True by simp
      then show ?thesis using IH ge c b(2) by simp
    qed
  qed
qed

lemma skip_in:
  assumes "chain m p xs" "off < 65536" "off < sum_len m xs"
  obtains ks y zs b where "xs = ks @ y # zs" "sum_len m ks \<le> off" "off - sum_len m ks < pb_len b" "m y = Some b" "y \<noteq> 0"
    "pbuf_skip_const m p off = Some (y, off - sum_len m ks)" "path m p ks y" "chain m y (y # zs)"
proof -
  obtain ks y zs where k: "xs = ks @ y # zs" "sum_len m ks \<le> off" "off - sum_len m ks < pb_len (the (m y))"
    "pbuf_skip_const m p off = Some (y, off - sum_len m ks)" "path m p ks y"
    using skip_spec [OF assms(1,2)] assms(3) by auto
  obtain r where "path m r (y # zs) 0" using assms(1) unfolding k(1) path_append by blast
  then obtain b where "m y = Some b" "y \<noteq> 0" "chain m y (y # zs)" by auto
  then show thesis using that k by simp
qed

lemma pdata_nth:
  assumes "sum_len m ks \<le> i" "i - sum_len m ks < pb_len (the (m y))"
  shows "pdata m bm (ks @ y # zs) ! i = the (bm (payload (the (m y)) + (i - sum_len m ks)))"
  using assms by (simp add: nth_append)

lemma try_get_at_spec:
  assumes "chain m p xs" "mapped m bm xs" "off < 65536"
  shows "pbuf_try_get_at m bm p off = Some (if off < sum_len m xs then uint (pdata m bm xs ! off) else - 1)"
proof (cases "off < sum_len m xs")
  case True
  obtain ks y zs b where k: "xs = ks @ y # zs" "sum_len m ks \<le> off" "off - sum_len m ks < pb_len b" "m y = Some b" "y \<noteq> 0"
    "pbuf_skip_const m p off = Some (y, off - sum_len m ks)"
    using skip_in [OF assms(1,3) True] by metis
  have "range_mapped bm (payload b) (pb_len b)" using assms(2) k(1,4) by simp
  then obtain v where "bm (payload b + (off - sum_len m ks)) = Some v" using k(3) by (auto simp: range_mapped_def)
  moreover from this have "pdata m bm xs ! off = v" using pdata_nth [of m ks off y bm zs] k by simp
  ultimately show ?thesis using k True by (simp add: pbuf_try_get_at_def)
next
  case False
  then show ?thesis using skip_spec [OF assms(1,3)] by (simp add: pbuf_try_get_at_def)
qed

lemma get_at_spec:
  assumes "chain m p xs" "mapped m bm xs" "off < 65536"
  shows "pbuf_get_at m bm p off = Some (if off < sum_len m xs then pdata m bm xs ! off else 0)"
  using try_get_at_spec [OF assms] by (simp add: pbuf_get_at_def)

section \<open>Comparing and searching\<close>

lemma memcmp_loop_spec:
  assumes "chain m q ys" "mapped m bm ys" "range_mapped bm (s2 + i) k" "st + i + k \<le> sum_len m ys" "sum_len m ys < 65536"
  shows "\<exists>r. memcmp_loop m bm q st s2 i k = Some r \<and>
    (if r = 0 then take k (drop (st + i) (pdata m bm ys)) = bytes_at bm (s2 + i) k
     else i < r \<and> r \<le> i + k \<and> pdata m bm ys ! (st + (r - 1)) \<noteq> the (bm (s2 + (r - 1))) \<and>
       (\<forall>j. i \<le> j \<and> j < r - 1 \<longrightarrow> pdata m bm ys ! (st + j) = the (bm (s2 + j))))"
  using assms(3,4)
proof (induction k arbitrary: i)
  case (Suc k)
  let ?d = "pdata m bm ys"
  have lt: "st + i < sum_len m ys" using Suc.prems(2) by simp
  have g: "pbuf_get_at m bm q (u16_of (st + i)) = Some (?d ! (st + i))"
    using get_at_spec [OF assms(1,2), of "st + i"] lt assms(5) by (simp add: u16_of_id)
  obtain v where v: "bm (s2 + i) = Some v" "range_mapped bm (s2 + Suc i) k"
    using Suc.prems(1) by (auto simp: range_mapped_Suc)
  have tk: "take (Suc k) (drop (st + i) ?d) = ?d ! (st + i) # take k (drop (st + Suc i) ?d)"
    using lt by (simp add: Cons_nth_drop_Suc [symmetric])
  show ?case
  proof (cases "?d ! (st + i) = v")
    case True
    obtain r where r: "memcmp_loop m bm q st s2 (Suc i) k = Some r"
      "if r = 0 then take k (drop (st + Suc i) ?d) = bytes_at bm (s2 + Suc i) k
       else Suc i < r \<and> r \<le> Suc i + k \<and> ?d ! (st + (r - 1)) \<noteq> the (bm (s2 + (r - 1))) \<and>
         (\<forall>j. Suc i \<le> j \<and> j < r - 1 \<longrightarrow> ?d ! (st + j) = the (bm (s2 + j)))"
      using Suc.IH [of "Suc i"] v(2) Suc.prems(2) by auto
    have "memcmp_loop m bm q st s2 i (Suc k) = Some r" using g v True r(1) by simp
    moreover have "?d ! (st + j) = the (bm (s2 + j))" if "r \<noteq> 0" "i \<le> j" "j < r - 1" for j
      using that r(2) True v(1) by (cases "j = i") auto
    ultimately show ?thesis using r(2) tk True v(1) by (auto simp: bytes_at_Suc)
  next
    case False
    have "u16_of (min (i + 1) 0xFFFF) = i + 1" using lt assms(5) by (simp add: u16_of_id)
    then have "memcmp_loop m bm q st s2 i (Suc k) = Some (i + 1)" using g v False by simp
    then show ?thesis using False v(1) by auto
  qed
qed simp

lemma memcmp_spec:
  assumes pk: "packet m p xs" "p \<noteq> 0" and mp: "mapped m bm xs" and s2: "range_mapped bm s2 n" and off: "off < 65536"
  shows "if sum_len m xs < off + n then pbuf_memcmp m bm p off s2 n = Some 0xFFFF
    else \<exists>r. pbuf_memcmp m bm p off s2 n = Some r \<and>
      (if r = 0 then take n (drop off (pdata m bm xs)) = bytes_at bm s2 n
       else r \<le> n \<and> pdata m bm xs ! (off + (r - 1)) \<noteq> bytes_at bm s2 n ! (r - 1) \<and>
         (\<forall>j<r - 1. pdata m bm xs ! (off + j) = bytes_at bm s2 n ! j))"
proof -
  have ch: "chain m p xs" "sum_len m xs < 65536" using pk(1) by (auto simp: packet_def)
  obtain pb where pb: "m p = Some pb" "tot_len pb = sum_len m xs"
    using pk by (cases xs) (auto simp: packet_def)
  obtain q st where skip: "pbuf_skip_const m p off = Some (q, st)" using skip_spec [OF ch(1) off] by metis
  consider (short) "sum_len m xs < off + n" | (empty) "n = 0" "\<not> sum_len m xs < off" | (cmp) "off < sum_len m xs" "off + n \<le> sum_len m xs"
    by linarith
  then show ?thesis
  proof cases
    case short
    then show ?thesis using pb by (simp add: pbuf_memcmp_def)
  next
    case empty
    then show ?thesis using pb skip by (simp add: pbuf_memcmp_def)
  next
    case cmp
    obtain ks y zs where k: "xs = ks @ y # zs" "sum_len m ks \<le> off"
      "pbuf_skip_const m p off = Some (y, off - sum_len m ks)" "chain m y (y # zs)"
      using skip_in [OF ch(1) off cmp(1)] by metis
    have d: "drop (sum_len m ks) (pdata m bm xs) = pdata m bm (y # zs)" unfolding k(1) pdata_simps(3) by simp
    have nth: "pdata m bm (y # zs) ! (off - sum_len m ks + j) = pdata m bm xs ! (off + j)" for j
      using k(2) unfolding d [symmetric] by (subst nth_drop) (auto simp: k(1))
    have "mapped m bm (y # zs)" "range_mapped bm (s2 + 0) n" "off - sum_len m ks + 0 + n \<le> sum_len m (y # zs)"
      "sum_len m (y # zs) < 65536"
      using mp s2 cmp(2) ch(2) k(1,2) by auto
    note loop = memcmp_loop_spec [OF k(4) this]
    have "pbuf_memcmp m bm p off s2 n = memcmp_loop m bm y (off - sum_len m ks) s2 0 n"
      using pb cmp(2) k(3) by (simp add: pbuf_memcmp_def)
    moreover have "drop (off - sum_len m ks) (pdata m bm (y # zs)) = drop off (pdata m bm xs)"
      using k(2) unfolding d [symmetric] by simp
    ultimately obtain r where r: "pbuf_memcmp m bm p off s2 n = Some r"
      "if r = 0 then take n (drop off (pdata m bm xs)) = bytes_at bm s2 n
       else 0 < r \<and> r \<le> n \<and> pdata m bm xs ! (off + (r - 1)) \<noteq> the (bm (s2 + (r - 1))) \<and>
         (\<forall>j. 0 \<le> j \<and> j < r - 1 \<longrightarrow> pdata m bm xs ! (off + j) = the (bm (s2 + j)))"
      using loop unfolding nth by (auto simp only: add_0_right add_0)
    then show ?thesis using cmp(2) by (auto simp: nth_bytes_at split: if_splits)
  qed
qed

text \<open>
  \<^verbatim>\<open>pbuf_memcmp\<close> on a well-formed chain returns.  It is \<^verbatim>\<open>0xffff\<close> when the packet is shorter than the
  compared range, 0 when the range of the packet equals the \<open>n\<close> bytes at \<open>s2\<close>, and otherwise one more than the
  index of the first byte that differs.
\<close>

theorem pbuf_memcmp_correct:
  assumes "packet m p xs" "p \<noteq> 0" "mapped m bm xs" "range_mapped bm s2 n" "off < 65536"
  shows "if sum_len m xs < off + n then pbuf_memcmp m bm p off s2 n = Some 0xFFFF
    else \<exists>r. pbuf_memcmp m bm p off s2 n = Some r \<and>
      (if r = 0 then take n (drop off (pdata m bm xs)) = bytes_at bm s2 n
       else r \<le> n \<and> pdata m bm xs ! (off + (r - 1)) \<noteq> bytes_at bm s2 n ! (r - 1) \<and>
         (\<forall>j<r - 1. pdata m bm xs ! (off + j) = bytes_at bm s2 n ! j))"
  using assms by (rule memcmp_spec)

lemma memcmp_0_iff:
  assumes "packet m p xs" "p \<noteq> 0" "mapped m bm xs" "range_mapped bm s2 n" "off + n \<le> sum_len m xs"
  shows "\<exists>r. pbuf_memcmp m bm p off s2 n = Some r \<and> (r = 0 \<longleftrightarrow> occurs_at (pdata m bm xs) (bytes_at bm s2 n) (sum_len m xs) off)"
proof -
  have "sum_len m xs < 65536" using assms(1) by (simp add: packet_def)
  then have off: "off < 65536" "\<not> sum_len m xs < off + n" using assms(5) by auto
  obtain r where r: "pbuf_memcmp m bm p off s2 n = Some r"
    "if r = 0 then take n (drop off (pdata m bm xs)) = bytes_at bm s2 n
     else r \<le> n \<and> pdata m bm xs ! (off + (r - 1)) \<noteq> bytes_at bm s2 n ! (r - 1) \<and>
       (\<forall>j<r - 1. pdata m bm xs ! (off + j) = bytes_at bm s2 n ! j)"
    using memcmp_spec [OF assms(1-4) off(1)] unfolding if_not_P [OF off(2)] by blast
  have "\<not> occurs_at (pdata m bm xs) (bytes_at bm s2 n) (sum_len m xs) off" if "r \<noteq> 0"
  proof
    assume "occurs_at (pdata m bm xs) (bytes_at bm s2 n) (sum_len m xs) off"
    then have "take n (drop off (pdata m bm xs)) = bytes_at bm s2 n" by (simp add: occurs_at_def)
    then have "take n (drop off (pdata m bm xs)) ! (r - 1) = bytes_at bm s2 n ! (r - 1)" by simp
    moreover have "take n (drop off (pdata m bm xs)) ! (r - 1) = pdata m bm xs ! (off + (r - 1))"
      using r(2) that assms(5) by (subst nth_take) auto
    ultimately show False using r(2) that by auto
  qed
  then show ?thesis using r assms(5) by (auto simp: occurs_at_def)
qed

lemma memfind_loop_spec:
  assumes pk: "packet m p xs" "p \<noteq> 0" "mapped m bm xs" "range_mapped bm s2 n" "n \<le> sum_len m xs" "sum_len m xs - n < 0xFFFF"
    and i: "i \<le> Suc (sum_len m xs - n)"
  shows "\<exists>r. memfind_loop m bm p s2 n (sum_len m xs - n) i = Some r \<and>
    (if \<exists>j\<ge>i. occurs_at (pdata m bm xs) (bytes_at bm s2 n) (sum_len m xs) j
     then r \<ge> i \<and> occurs_at (pdata m bm xs) (bytes_at bm s2 n) (sum_len m xs) r \<and>
       (\<forall>j. i \<le> j \<and> j < r \<longrightarrow> \<not> occurs_at (pdata m bm xs) (bytes_at bm s2 n) (sum_len m xs) j)
     else r = 0xFFFF)"
  using i
proof (induction "Suc (sum_len m xs - n) - i" arbitrary: i)
  case 0
  then have i: "i = Suc (sum_len m xs - n)" by simp
  have "\<not> occurs_at (pdata m bm xs) (bytes_at bm s2 n) (sum_len m xs) j" if "j \<ge> i" for j
  proof -
    have "\<not> j + n \<le> sum_len m xs" using that pk(5) unfolding i by linarith
    then show ?thesis by (simp add: occurs_at_def)
  qed
  then show ?case using i by (subst memfind_loop.simps) auto
next
  case (Suc k)
  let ?P = "occurs_at (pdata m bm xs) (bytes_at bm s2 n) (sum_len m xs)"
  have le: "i \<le> sum_len m xs - n" using Suc.hyps(2) by simp
  then have "i + n \<le> sum_len m xs" using pk(5) by simp
  from memcmp_0_iff [OF pk(1-4) this]
  obtain r where r: "pbuf_memcmp m bm p i s2 n = Some r" "r = 0 \<longleftrightarrow> ?P i" by blast
  have u: "u16_of (i + 1) = Suc i" using le pk(6) by (simp add: u16_of_id)
  show ?case
  proof (cases "?P i")
    case True
    then show ?thesis using r le by (subst memfind_loop.simps) auto
  next
    case False
    have st: "memfind_loop m bm p s2 n (sum_len m xs - n) i = memfind_loop m bm p s2 n (sum_len m xs - n) (Suc i)"
      using False r le u by (subst memfind_loop.simps) simp
    have "k = Suc (sum_len m xs - n) - Suc i" "Suc i \<le> Suc (sum_len m xs - n)" using Suc.hyps(2) le by simp_all
    from Suc.hyps(1) [OF this] obtain r' where r': "memfind_loop m bm p s2 n (sum_len m xs - n) (Suc i) = Some r'"
      "if \<exists>j\<ge>Suc i. ?P j then r' \<ge> Suc i \<and> ?P r' \<and> (\<forall>j. Suc i \<le> j \<and> j < r' \<longrightarrow> \<not> ?P j) else r' = 0xFFFF"
      by blast
    have nx: "j \<ge> i \<and> ?P j \<longleftrightarrow> j \<ge> Suc i \<and> ?P j" for j using False by (cases "j = i") auto
    then have ex: "(\<exists>j\<ge>i. ?P j) \<longleftrightarrow> (\<exists>j\<ge>Suc i. ?P j)" by simp
    have "if \<exists>j\<ge>Suc i. ?P j then r' \<ge> i \<and> ?P r' \<and> (\<forall>j. i \<le> j \<and> j < r' \<longrightarrow> \<not> ?P j) else r' = 0xFFFF"
    proof (cases "\<exists>j\<ge>Suc i. ?P j")
      case ex: True
      have "r' \<ge> Suc i" "?P r'" "\<And>j. Suc i \<le> j \<Longrightarrow> j < r' \<Longrightarrow> \<not> ?P j" using r'(2) unfolding if_P [OF ex] by blast+
      then have "i \<le> r'" "?P r'" "\<not> ?P j" if "i \<le> j" "j < r'" for j using nx [of j] that by auto
      then show ?thesis unfolding if_P [OF ex] using \<open>r' \<ge> Suc i\<close> \<open>?P r'\<close> by simp
    next
      case nex: False
      show ?thesis using r'(2) unfolding if_not_P [OF nex] .
    qed
    then show ?thesis using r'(1) unfolding st ex by blast
  qed
qed

text \<open>
  C34: \<^verbatim>\<open>pbuf_memfind\<close> on a well-formed chain returns, and finds the first position at or after the start offset
  at which the bytes at \<open>s2\<close> occur in the data of the packet, across pbuf boundaries; it is \<^verbatim>\<open>0xFFFF\<close> exactly when
  there is no such position.
\<close>

theorem pbuf_memfind_correct:
  assumes "packet m p xs" "p \<noteq> 0" "mapped m bm xs" "range_mapped bm s2 n" "0 < n" "n < 65536"
  shows "\<exists>r. pbuf_memfind m bm p s2 n st = Some r \<and>
    (if \<exists>j\<ge>st. occurs_at (pdata m bm xs) (bytes_at bm s2 n) (sum_len m xs) j
     then r \<ge> st \<and> occurs_at (pdata m bm xs) (bytes_at bm s2 n) (sum_len m xs) r \<and>
       (\<forall>j. st \<le> j \<and> j < r \<longrightarrow> \<not> occurs_at (pdata m bm xs) (bytes_at bm s2 n) (sum_len m xs) j)
     else r = 0xFFFF)"
proof -
  have len: "sum_len m xs < 65536" using assms(1) by (simp add: packet_def)
  obtain pb where pb: "m p = Some pb" "tot_len pb = sum_len m xs"
    using assms(1,2) by (cases xs) (auto simp: packet_def)
  show ?thesis
  proof (cases "n + st \<le> sum_len m xs")
    case True
    then have "pbuf_memfind m bm p s2 n st = memfind_loop m bm p s2 n (sum_len m xs - n) st"
      using pb len by (simp add: pbuf_memfind_def u16_sub_id)
    moreover have "n \<le> sum_len m xs" "sum_len m xs - n < 0xFFFF" "st \<le> Suc (sum_len m xs - n)"
      using True len assms(5) by auto
    ultimately show ?thesis using memfind_loop_spec [OF assms(1-4)] by simp
  next
    case False
    then have "\<not> occurs_at (pdata m bm xs) (bytes_at bm s2 n) (sum_len m xs) j" if "st \<le> j" for j
      using that by (simp add: occurs_at_def)
    moreover have "pbuf_memfind m bm p s2 n st = Some 0xFFFF" using False pb by (simp add: pbuf_memfind_def)
    ultimately show ?thesis by auto
  qed
qed

lemma demo_mapped: "mapped (pbufs demo_mem) (bytes demo_mem) [8192, 8280]"
  by (simp add: mapped_def demo_mem_def demo_pbuf1_def demo_pbuf2_def range_mapped_def)

theorem pbuf_memcmp_correct_witness:
  "\<exists>r. pbuf_memcmp (pbufs demo_mem) (bytes demo_mem) 8192 40 4096 16 = Some r"
  using pbuf_memcmp_correct [OF demo_chain _ demo_mapped, of 4096 16 40]
  by (auto simp: demo_mem_def demo_pbuf1_def demo_pbuf2_def range_mapped_def)

theorem pbuf_memfind_correct_witness:
  "\<exists>r. pbuf_memfind (pbufs demo_mem) (bytes demo_mem) 8192 4096 16 0 = Some r"
  using pbuf_memfind_correct [OF demo_chain _ demo_mapped, of 4096 16 0]
  by (auto simp: demo_mem_def range_mapped_def)

end
