(* ===== verification/Ip4_Addr.thy ===== *)
theory Ip4_Addr
  imports Inet_Chksum
begin

text \<open>
  IPv4 addresses: \<^verbatim>\<open>lwip/src/core/ipv4/ip4_addr.c\<close> and the macros of \<^verbatim>\<open>lwip/ip4_addr.h\<close>.  An
  \<^verbatim>\<open>ip4_addr_t\<close> is its only field, a 32-bit word in network byte order; \<^verbatim>\<open>struct netif\<close> is a record
  of the fields the IPv4 code reads.  Text arguments are byte lists that reach to the end of their
  array.
\<close>

section \<open>Addresses and interfaces\<close>

type_synonym ip4_addr = u32

definition IPADDR_ANY :: ip4_addr where
  "IPADDR_ANY = 0x00000000"

definition IPADDR_BROADCAST :: ip4_addr where
  "IPADDR_BROADCAST = 0xffffffff"

definition IPADDR_NONE :: ip4_addr where
  "IPADDR_NONE = 0xffffffff"

definition NETIF_FLAG_UP :: u8 where "NETIF_FLAG_UP = 0x01"
definition NETIF_FLAG_BROADCAST :: u8 where "NETIF_FLAG_BROADCAST = 0x02"
definition NETIF_FLAG_LINK_UP :: u8 where "NETIF_FLAG_LINK_UP = 0x04"
definition NETIF_FLAG_ETHARP :: u8 where "NETIF_FLAG_ETHARP = 0x08"
definition NETIF_FLAG_ETHERNET :: u8 where "NETIF_FLAG_ETHERNET = 0x10"
definition NETIF_FLAG_IGMP :: u8 where "NETIF_FLAG_IGMP = 0x20"

record netif =
  ip_addr :: ip4_addr
  netmask :: ip4_addr
  gw :: ip4_addr
  mtu :: nat
  hwaddr :: "u8 list"
  hwaddr_len :: nat
  netif_flags :: u8
  netif_name :: "u8 list"
  netif_num :: nat

definition ip4_addr_netcmp :: "ip4_addr \<Rightarrow> ip4_addr \<Rightarrow> ip4_addr \<Rightarrow> bool" where
  "ip4_addr_netcmp addr1 addr2 m \<longleftrightarrow> addr1 AND m = addr2 AND m"

definition ip4_addr_isany_val :: "ip4_addr \<Rightarrow> bool" where
  "ip4_addr_isany_val addr1 \<longleftrightarrow> addr1 = IPADDR_ANY"

definition ip4_addr_ismulticast :: "ip4_addr \<Rightarrow> bool" where
  "ip4_addr_ismulticast addr1 \<longleftrightarrow> addr1 AND lwip_htonl 0xf0000000 = lwip_htonl 0xe0000000"

definition ip4_addr_islinklocal :: "ip4_addr \<Rightarrow> bool" where
  "ip4_addr_islinklocal addr1 \<longleftrightarrow> addr1 AND lwip_htonl 0xffff0000 = lwip_htonl 0xa9fe0000"

definition ip4_addr_isloopback :: "ip4_addr \<Rightarrow> bool" where
  "ip4_addr_isloopback ipaddr \<longleftrightarrow> ipaddr AND lwip_htonl 0xff000000 = lwip_htonl (push_bit 24 127)"

definition IP4_ADDR :: "u8 \<Rightarrow> u8 \<Rightarrow> u8 \<Rightarrow> u8 \<Rightarrow> ip4_addr" where
  "IP4_ADDR a b c d = lwip_htonl (LWIP_MAKEU32 a b c d)"

definition ip4_addr_get_byte_val :: "ip4_addr \<Rightarrow> nat \<Rightarrow> u8" where
  "ip4_addr_get_byte_val ipaddr idx = ucast (drop_bit (idx * 8) ipaddr AND 0xff)"

definition ip4_addr_isbroadcast_u32 :: "ip4_addr \<Rightarrow> netif \<Rightarrow> bool" where
  "ip4_addr_isbroadcast_u32 ad netif =
     (if NOT ad = IPADDR_ANY \<or> ad = IPADDR_ANY then True
      else if netif_flags netif AND NETIF_FLAG_BROADCAST = 0 then False
      else if ad = ip_addr netif then False
      else if ip4_addr_netcmp ad (ip_addr netif) (netmask netif) \<and>
              ad AND NOT (netmask netif) = IPADDR_BROADCAST AND NOT (netmask netif) then True
      else False)"

section \<open>Netmasks\<close>

function mask_first_zero :: "u32 \<Rightarrow> u32 \<Rightarrow> u32" where
  "mask_first_zero nm m =
     (if m \<noteq> 0 then (if nm AND m = 0 then m else mask_first_zero nm (drop_bit 1 m)) else m)"
  by pat_completeness auto

function mask_no_one :: "u32 \<Rightarrow> u32 \<Rightarrow> bool" where
  "mask_no_one nm m =
     (if m \<noteq> 0 then (if nm AND m \<noteq> 0 then False else mask_no_one nm (drop_bit 1 m)) else True)"
  by pat_completeness auto

lemma drop_bit_1_less: "x \<noteq> 0 \<Longrightarrow> unat (drop_bit 1 x) < unat x" for x :: u32
  by (simp only: unat_drop_bit) (simp add: unat_gt_0)

termination mask_first_zero
  by (relation "measure (\<lambda>(nm, m). unat m)")
    (rule wf_measure, simp only: in_measure prod.case, erule drop_bit_1_less)

termination mask_no_one
  by (relation "measure (\<lambda>(nm, m). unat m)")
    (rule wf_measure, simp only: in_measure prod.case, erule drop_bit_1_less)

definition ip4_addr_netmask_valid :: "ip4_addr \<Rightarrow> bool" where
  "ip4_addr_netmask_valid nmask =
     (let nm_hostorder = lwip_htonl nmask;
          m = mask_first_zero nm_hostorder (push_bit 31 1)
      in mask_no_one nm_hostorder m)"

section \<open>Text to address\<close>

definition lwip_in_range :: "u8 \<Rightarrow> u8 \<Rightarrow> u8 \<Rightarrow> bool" where
  "lwip_in_range c lo up \<longleftrightarrow> c \<ge> lo \<and> c \<le> up"

definition lwip_isdigit :: "u8 \<Rightarrow> bool" where
  "lwip_isdigit c = lwip_in_range c 0x30 0x39"

definition lwip_isxdigit :: "u8 \<Rightarrow> bool" where
  "lwip_isxdigit c \<longleftrightarrow> lwip_isdigit c \<or> lwip_in_range c 0x61 0x66 \<or> lwip_in_range c 0x41 0x46"

definition lwip_islower :: "u8 \<Rightarrow> bool" where
  "lwip_islower c = lwip_in_range c 0x61 0x7a"

definition lwip_isspace :: "u8 \<Rightarrow> bool" where
  "lwip_isspace c \<longleftrightarrow> c = 0x20 \<or> c = 0x0c \<or> c = 0x0a \<or> c = 0x0d \<or> c = 0x09 \<or> c = 0x0b"

text \<open>
  The inner loop that collects the digits of one part, from the pointer \<open>cp\<close>, whose first byte is the
  variable \<^verbatim>\<open>c\<close> of the code.
\<close>

fun aton_digits :: "u32 \<Rightarrow> u32 \<Rightarrow> u8 list \<Rightarrow> (u32 \<times> u8 list) option" where
  "aton_digits base val [] = None"
| "aton_digits base val (c # cp) =
     (if lwip_isdigit c then aton_digits base (val * base + ucast (c - 0x30)) cp
      else if base = 16 \<and> lwip_isxdigit c then
        aton_digits base (push_bit 4 val OR ucast (c + 10 - (if lwip_islower c then 0x61 else 0x41))) cp
      else Some (val, c # cp))"

definition aton_number :: "u8 list \<Rightarrow> (u32 \<times> u8 list) option" where
  "aton_number cp =
     (case cp of
        [] \<Rightarrow> None
      | c # cp1 \<Rightarrow>
          if c = 0x30 then
            (case cp1 of
               [] \<Rightarrow> None
             | c1 # cp2 \<Rightarrow>
                 if c1 = 0x78 \<or> c1 = 0x58 then aton_digits 16 0 cp2 else aton_digits 8 0 cp1)
          else aton_digits 10 0 cp)"

lemma aton_digits_length: "aton_digits base val cp = Some (val', cp') \<Longrightarrow> length cp' \<le> length cp \<and> cp' \<noteq> []"
  by (induction base val cp rule: aton_digits.induct) (auto split: if_splits)

lemma aton_number_length: "aton_number cp = Some (val', cp') \<Longrightarrow> length cp' \<le> length cp \<and> cp' \<noteq> []"
  unfolding aton_number_def
  by (auto dest: aton_digits_length split: list.splits if_splits)

text \<open>
  The outer loop: the parts before the last one, the last value and the character after it;
  the inner \<^term>\<open>None\<close> is the early \<^verbatim>\<open>return 0\<close>.
\<close>

function aton_parts :: "u32 list \<Rightarrow> u8 list \<Rightarrow> (u32 list \<times> u32 \<times> u8) option option" where
  "aton_parts parts [] = None"
| "aton_parts parts (c # cp) =
     (if \<not> lwip_isdigit c then Some None
      else
        (case aton_number (c # cp) of
           None \<Rightarrow> None
         | Some (val, cp') \<Rightarrow>
             if hd cp' = 0x2e then
               if length parts \<ge> 3 then Some None else aton_parts (parts @ [val]) (tl cp')
             else Some (Some (parts, val, hd cp'))))"
  by pat_completeness auto
termination
proof (relation "measure (\<lambda>(parts, cp). length cp)")
  fix parts :: "u32 list" and c and cp :: "u8 list" and x val cp'
  assume "aton_number (c # cp) = Some x" "(val, cp') = x"
  then have "length cp' \<le> Suc (length cp)" "cp' \<noteq> []" using aton_number_length [of "c # cp" val cp'] by auto
  then show "((parts @ [val], tl cp'), parts, c # cp) \<in> measure (\<lambda>(parts, cp). length cp)"
    by (cases cp') auto
qed simp

definition ip4addr_aton :: "u8 list \<Rightarrow> ip4_addr option option" where
  "ip4addr_aton cp =
     (case aton_parts [] cp of
        None \<Rightarrow> None
      | Some None \<Rightarrow> Some None
      | Some (Some (parts, val, c)) \<Rightarrow>
          if c \<noteq> 0 \<and> \<not> lwip_isspace c then Some None
          else
            (case parts of
               [] \<Rightarrow> Some (Some (lwip_htonl val))
             | [p0] \<Rightarrow>
                 if val > 0xffffff then Some None
                 else if p0 > 0xff then Some None
                 else Some (Some (lwip_htonl (val OR push_bit 24 p0)))
             | [p0, p1] \<Rightarrow>
                 if val > 0xffff then Some None
                 else if p0 > 0xff \<or> p1 > 0xff then Some None
                 else Some (Some (lwip_htonl (val OR (push_bit 24 p0 OR push_bit 16 p1))))
             | [p0, p1, p2] \<Rightarrow>
                 if val > 0xff then Some None
                 else if p0 > 0xff \<or> p1 > 0xff \<or> p2 > 0xff then Some None
                 else Some (Some (lwip_htonl (val OR (push_bit 24 p0 OR push_bit 16 p1 OR push_bit 8 p2))))
             | _ \<Rightarrow> None))"

definition ipaddr_addr :: "u8 list \<Rightarrow> ip4_addr option" where
  "ipaddr_addr cp =
     do { r \<leftarrow> ip4addr_aton cp; Some (case r of Some val \<Rightarrow> val | None \<Rightarrow> IPADDR_NONE) }"

section \<open>Address to text\<close>

text \<open>
  The \<^verbatim>\<open>do ... while (*ap)\<close> loop fills \<^verbatim>\<open>inv\<close> with the digits of one byte, the last digit first.
\<close>

function ntoa_inv :: "nat \<Rightarrow> u8 list" where
  "ntoa_inv ap =
     (let rem = ap mod 10; ap' = ap div 10; c = of_nat (48 + rem)
      in if ap' \<noteq> 0 then c # ntoa_inv ap' else [c])"
  by pat_completeness auto
termination
  by (relation "measure id") auto

text \<open>
  Writing one character: the inner \<^term>\<open>None\<close> is \<^verbatim>\<open>return NULL\<close> (the buffer is too short), the outer
  one a store behind the end of the array.  The pointer \<^verbatim>\<open>rp\<close> is \<^verbatim>\<open>buf + len\<close>.
\<close>

fun ntoa_put :: "nat \<Rightarrow> u8 list \<Rightarrow> u8 list \<Rightarrow> nat \<Rightarrow> (u8 list \<times> nat option) option" where
  "ntoa_put buflen [] buf len = Some (buf, Some len)"
| "ntoa_put buflen (c # cs) buf len =
     (if len \<ge> buflen then Some (buf, None)
      else if len < length buf then ntoa_put buflen cs (buf[len := c]) (Suc len)
      else None)"

fun ntoa_loop :: "nat \<Rightarrow> u8 list \<Rightarrow> u8 list \<Rightarrow> nat \<Rightarrow> (u8 list \<times> nat option) option" where
  "ntoa_loop buflen [] buf len = Some (buf, Some len)"
| "ntoa_loop buflen (ap # aps) buf len =
     (case ntoa_put buflen (rev (ntoa_inv (unat ap)) @ [0x2e]) buf len of
        Some (buf', Some len') \<Rightarrow> ntoa_loop buflen aps buf' len'
      | r \<Rightarrow> r)"

definition ip4addr_ntoa_r :: "ip4_addr \<Rightarrow> u8 list \<Rightarrow> nat \<Rightarrow> (u8 list \<times> bool) option" where
  "ip4addr_ntoa_r ad buf buflen =
     (case ntoa_loop buflen (map (ip4_addr_get_byte_val ad) [0..<4]) buf 0 of
        None \<Rightarrow> None
      | Some (buf', None) \<Rightarrow> Some (buf', False)
      | Some (buf', Some len) \<Rightarrow> Some (buf'[len - 1 := 0], True))"

definition IP4ADDR_STRLEN_MAX :: nat where
  "IP4ADDR_STRLEN_MAX = 16"

definition ip4addr_ntoa :: "ip4_addr \<Rightarrow> u8 list \<Rightarrow> (u8 list \<times> bool) option" where
  "ip4addr_ntoa ad str = ip4addr_ntoa_r ad str IP4ADDR_STRLEN_MAX"

declare mask_first_zero.simps [simp del] mask_no_one.simps [simp del] ntoa_inv.simps [simp del]

section \<open>Netmasks: correctness\<close>

lemma drop_bit_exp_Suc: "Suc k < 32 \<Longrightarrow> drop_bit 1 (2 ^ Suc k :: u32) = 2 ^ k"
  by (rule bit_word_eqI) (auto simp: bit_drop_bit_eq bit_exp_iff simp del: power_Suc)

lemma drop_bit_exp_0: "drop_bit 1 (2 ^ 0 :: u32) = 0"
  by (rule bit_word_eqI) (auto simp: bit_drop_bit_eq bit_1_iff)

lemma mask_no_one_exp: "k < 32 \<Longrightarrow> mask_no_one nm (2 ^ k) \<longleftrightarrow> (\<forall>i\<le>k. \<not> bit nm i)"
proof (induction k)
  case 0
  show ?case
    by (subst mask_no_one.simps, subst drop_bit_exp_0, subst mask_no_one.simps)
      (simp add: and_exp_eq_0_iff_not_bit del: power_0)
next
  case (Suc k)
  then show ?case
    by (subst mask_no_one.simps, subst drop_bit_exp_Suc)
      (auto simp: and_exp_eq_0_iff_not_bit le_Suc_eq simp del: power_Suc)
qed

lemma mask_valid_exp:
  "k < 32 \<Longrightarrow> mask_no_one nm (mask_first_zero nm (2 ^ k)) \<longleftrightarrow> (\<exists>n\<le>Suc k. \<forall>i\<le>k. bit nm i \<longleftrightarrow> n \<le> i)"
proof (induction k)
  case 0
  have "mask_no_one nm (mask_first_zero nm (2 ^ 0))"
    using mask_no_one_exp [of 0 nm]
    by (subst mask_first_zero.simps, subst drop_bit_exp_0, subst mask_first_zero.simps)
      (auto simp: and_exp_eq_0_iff_not_bit mask_no_one.simps [of _ 0] simp del: power_0)
  moreover have "\<exists>n\<le>Suc 0. \<forall>i\<le>0. bit nm i \<longleftrightarrow> n \<le> i"
    by (rule exI [of _ "if bit nm 0 then 0 else 1"]) auto
  ultimately show ?case by simp
next
  case (Suc k)
  have first: "mask_first_zero nm (2 ^ Suc k) = (if bit nm (Suc k) then mask_first_zero nm (2 ^ k) else 2 ^ Suc k)"
    using Suc.prems by (subst mask_first_zero.simps, subst drop_bit_exp_Suc)
      (auto simp: and_exp_eq_0_iff_not_bit simp del: power_Suc)
  have all: "(\<forall>i\<le>Suc k. P i) \<longleftrightarrow> (\<forall>i\<le>k. P i) \<and> P (Suc k)" for P by (auto simp: le_Suc_eq)
  show ?case
  proof (cases "bit nm (Suc k)")
    case True
    then show ?thesis using Suc by (auto simp: first all simp del: power_Suc intro: le_SucI)
  next
    case False
    then have "mask_no_one nm (mask_first_zero nm (2 ^ Suc k)) \<longleftrightarrow> (\<forall>i\<le>Suc k. \<not> bit nm i)"
      using Suc.prems by (simp only: first if_False mask_no_one_exp)
    also have "\<dots> \<longleftrightarrow> (\<exists>n\<le>Suc (Suc k). \<forall>i\<le>Suc k. bit nm i \<longleftrightarrow> n \<le> i)"
      using False by (auto intro!: exI [of _ "Suc (Suc k)"])
    finally show ?thesis .
  qed
qed

text \<open>
  \<^verbatim>\<open>ip4_addr_netmask_valid\<close> accepts exactly the netmasks that consist of leading ones followed by
  zeros: for some number of host bits the mask in host order is all ones above them.
\<close>

theorem netmask_valid_iff_prefix:
  "ip4_addr_netmask_valid nmask \<longleftrightarrow> (\<exists>n\<le>32. lwip_htonl nmask = NOT (mask n))"
proof -
  let ?h = "lwip_htonl nmask"
  have eq: "?h = NOT (mask n) \<longleftrightarrow> (\<forall>i\<le>31. bit ?h i \<longleftrightarrow> n \<le> i)" for n
    by (auto simp: bit_eq_iff bit_not_iff bit_mask_iff not_less)
  have "ip4_addr_netmask_valid nmask \<longleftrightarrow> mask_no_one ?h (mask_first_zero ?h (2 ^ 31))"
    unfolding ip4_addr_netmask_valid_def Let_def by simp
  also have "\<dots> \<longleftrightarrow> (\<exists>n\<le>32. \<forall>i\<le>31. bit ?h i \<longleftrightarrow> n \<le> i)"
    using mask_valid_exp [of 31 ?h] by simp
  finally show ?thesis by (simp only: eq)
qed

section \<open>Broadcast addresses\<close>

lemma directed_broadcast_iff:
  "(ad AND m = ip AND m \<and> ad AND NOT m = NOT m) \<longleftrightarrow> ad = (ip AND m) OR NOT m" for ad m ip :: u32
proof -
  have "ad = (ip AND m) OR NOT m" if "ad AND m = ip AND m" "ad AND NOT m = NOT m"
  proof -
    have "ad = (ad AND m) OR (ad AND NOT m)" by (simp add: bit.conj_disj_distrib [symmetric])
    then show ?thesis using that by simp
  qed
  moreover have "((ip AND m) OR NOT m) AND m = ip AND m" "((ip AND m) OR NOT m) AND NOT m = NOT m"
    by (rule bit_word_eqI, auto simp: bit_simps)+
  ultimately show ?thesis by auto
qed

text \<open>
  \<^verbatim>\<open>ip4_addr_isbroadcast\<close> holds for the two limited broadcast addresses and, on an interface with
  broadcast capability, for the directed broadcast address of its subnet unless that is the
  interface's own address.
\<close>

theorem isbroadcast_iff:
  "ip4_addr_isbroadcast_u32 ad n \<longleftrightarrow>
     ad = 0 \<or> ad = 0xffffffff \<or>
     netif_flags n AND NETIF_FLAG_BROADCAST \<noteq> 0 \<and> ad \<noteq> ip_addr n \<and>
     ad = (ip_addr n AND netmask n) OR NOT (netmask n)"
proof -
  have ones: "(0xffffffff :: u32) = NOT 0" by simp
  have "(NOT ad = 0) \<longleftrightarrow> ad = 0xffffffff" unfolding ones by (metis bit.double_compl)
  moreover have "0xffffffff AND NOT (netmask n) = NOT (netmask n)" unfolding ones by simp
  ultimately show ?thesis
    using directed_broadcast_iff [of ad "netmask n" "ip_addr n"]
    by (auto simp: ip4_addr_isbroadcast_u32_def ip4_addr_netcmp_def IPADDR_ANY_def IPADDR_BROADCAST_def)
qed

section \<open>Printing: correctness\<close>

definition byte_str :: "nat \<Rightarrow> u8 list" where
  "byte_str n = (if n = 0 then [0x30] else dec_str n)"

definition dotted :: "u8 \<Rightarrow> u8 \<Rightarrow> u8 \<Rightarrow> u8 \<Rightarrow> u8 list" where
  "dotted a b c d =
     byte_str (unat a) @ 0x2e # byte_str (unat b) @ 0x2e # byte_str (unat c) @ 0x2e # byte_str (unat d)"

definition dotted_addr :: "ip4_addr \<Rightarrow> u8 list" where
  "dotted_addr ad = dotted (ip4_addr_get_byte_val ad 0) (ip4_addr_get_byte_val ad 1)
     (ip4_addr_get_byte_val ad 2) (ip4_addr_get_byte_val ad 3)"

lemma rev_ntoa_inv: "rev (ntoa_inv n) = byte_str n"
proof (induction n rule: ntoa_inv.induct)
  case (1 n)
  show ?case
  proof (cases "n div 10 = 0")
    case True
    then show ?thesis by (auto simp: ntoa_inv.simps [of n] byte_str_def dec_str_pos)
  next
    case False
    then have "n \<noteq> 0" by auto
    with False 1 show ?thesis by (simp add: ntoa_inv.simps [of n] byte_str_def dec_str_pos Let_def)
  qed
qed

lemma byte_str_no_zero: "0 \<notin> set (byte_str n)"
  by (simp add: byte_str_def)

lemma length_byte_str: "n < 1000 \<Longrightarrow> 0 < length (byte_str n) \<and> length (byte_str n) \<le> 3"
proof -
  assume "n < 1000"
  have 1: "k < 10 \<Longrightarrow> length (dec_str k) \<le> 1" for k
    by (cases "k = 0") (auto simp: dec_str_pos)
  have 2: "k < 100 \<Longrightarrow> length (dec_str k) \<le> 2" for k
    using 1 [of "k div 10"] by (cases "k = 0") (auto simp: dec_str_pos)
  show ?thesis
    using 2 [of "n div 10"] \<open>n < 1000\<close> by (cases "n = 0") (auto simp: byte_str_def dec_str_pos)
qed

lemma ntoa_put_append:
  "ntoa_put buflen (xs @ ys) buf len =
     (case ntoa_put buflen xs buf len of
        Some (buf', Some len') \<Rightarrow> ntoa_put buflen ys buf' len' | r \<Rightarrow> r)"
  by (induction buflen xs buf len rule: ntoa_put.induct) auto

lemma ntoa_loop_put:
  "ntoa_loop buflen aps buf len =
     ntoa_put buflen (concat (map (\<lambda>ap. byte_str (unat ap) @ [0x2e]) aps)) buf len"
proof (induction aps arbitrary: buf len)
  case (Cons ap aps)
  show ?case
    by (simp only: ntoa_loop.simps concat.simps list.map ntoa_put_append rev_ntoa_inv)
      (simp add: Cons.IH split: option.split prod.split)
qed simp

lemma ntoa_put_fits:
  "len + length cs \<le> buflen \<Longrightarrow> buflen \<le> length buf \<Longrightarrow>
   ntoa_put buflen cs buf len = Some (take len buf @ cs @ drop (len + length cs) buf, Some (len + length cs))"
proof (induction buflen cs buf len rule: ntoa_put.induct)
  case (2 buflen c cs buf len)
  then have "take (Suc len) (buf[len := c]) = take len buf @ [c]" by (simp add: take_Suc_conv_app_nth)
  with 2 show ?case by simp
qed simp

lemma ntoa_put_short:
  "buflen < len + length cs \<Longrightarrow> buflen \<le> length buf \<Longrightarrow> len \<le> buflen \<Longrightarrow>
   \<exists>buf'. ntoa_put buflen cs buf len = Some (buf', None) \<and> length buf' = length buf"
proof (induction buflen cs buf len rule: ntoa_put.induct)
  case (2 buflen c cs buf len)
  then show ?case by (cases "len = buflen") auto
qed simp

lemma ntoa_r_dotted:
  assumes "buflen \<le> length buf"
  shows "\<exists>buf'. ip4addr_ntoa_r ad buf buflen = Some (buf', length (dotted_addr ad) < buflen) \<and>
    length buf' = length buf \<and>
    (length (dotted_addr ad) < buflen \<longrightarrow> cstring buf' = dotted_addr ad \<and> terminated buf')"
proof -
  define s where "s = dotted_addr ad"
  have upt4: "[0..<4] = [0, 1, 2, 3 :: nat]" by (simp add: upt_rec)
  have loop: "ntoa_loop buflen (map (ip4_addr_get_byte_val ad) [0..<4]) buf 0 = ntoa_put buflen (s @ [0x2e]) buf 0"
    by (simp add: ntoa_loop_put upt4 s_def dotted_addr_def dotted_def)
  show ?thesis
  proof (cases "length s < buflen")
    case True
    then have "ntoa_put buflen (s @ [0x2e]) buf 0 = Some (s @ [0x2e] @ drop (Suc (length s)) buf, Some (Suc (length s)))"
      using assms(1) ntoa_put_fits [of 0 "s @ [0x2e]" buflen buf] by simp
    then have "ip4addr_ntoa_r ad buf buflen = Some (s @ 0 # drop (Suc (length s)) buf, True)"
      unfolding ip4addr_ntoa_r_def loop by (simp add: list_update_append)
    moreover have "0 \<notin> set s" by (simp add: s_def dotted_addr_def dotted_def byte_str_no_zero)
    ultimately show ?thesis using True assms(1) by (auto simp: s_def cstring_append_0 terminated_def)
  next
    case False
    then show ?thesis
      using ntoa_put_short [of buflen 0 "s @ [0x2e]" buf] assms(1)
      unfolding ip4addr_ntoa_r_def loop by (auto simp: s_def)
  qed
qed

section \<open>Parsing: correctness\<close>

definition digit_val :: "nat \<Rightarrow> u8 list \<Rightarrow> nat" where
  "digit_val v ds = foldl (\<lambda>a c. 10 * a + (unat c - 48)) v ds"

lemma isdigit_iff: "lwip_isdigit c \<longleftrightarrow> 48 \<le> unat c \<and> unat c \<le> 57"
  by (simp add: lwip_isdigit_def lwip_in_range_def word_le_nat_alt)

lemma of_nat_unat_u8: "(of_nat (unat (b :: u8)) :: u32) = ucast b"
  by simp

lemma aton_digits_decimal:
  assumes "\<forall>d\<in>set ds. lwip_isdigit d" "\<not> lwip_isdigit c"
  shows "aton_digits 10 (of_nat v) (ds @ c # r) = Some (of_nat (digit_val v ds), c # r)"
  using assms(1)
proof (induction ds arbitrary: v)
  case Nil
  then show ?case using assms(2) by (simp add: digit_val_def)
next
  case (Cons d ds)
  then have "0x30 \<le> d" by (simp add: lwip_isdigit_def lwip_in_range_def)
  then have "unat (d - 0x30) = unat d - 48" by (simp add: unat_sub)
  moreover have "(ucast (d - 0x30) :: u32) = of_nat (unat (d - 0x30))" by (simp only: of_nat_unat_u8)
  ultimately have "(ucast (d - 0x30) :: u32) = of_nat (unat d - 48)" by (simp only:)
  then have "of_nat v * 10 + ucast (d - 0x30) = (of_nat (10 * v + (unat d - 48)) :: u32)" by simp
  moreover have "lwip_isdigit d" using Cons.prems by simp
  ultimately have "aton_digits 10 (of_nat v) ((d # ds) @ c # r) = aton_digits 10 (of_nat (10 * v + (unat d - 48))) (ds @ c # r)"
    by (simp only: append_Cons aton_digits.simps if_True)
  also have "\<dots> = Some (of_nat (digit_val (10 * v + (unat d - 48)) ds), c # r)"
    by (rule Cons.IH) (use Cons.prems in simp)
  finally show ?case by (simp only: digit_val_def foldl_Cons)
qed

lemma dec_str_digits: "\<forall>d\<in>set (dec_str n). lwip_isdigit d"
proof (induction n rule: dec_str.induct)
  case (1 n)
  then show ?case
    using unat_digit [of n] by (cases "n = 0") (auto simp: dec_str_pos isdigit_iff)
qed

lemma dec_str_hd: "0 < n \<Longrightarrow> hd (dec_str n) \<noteq> 0x30"
proof (induction n rule: dec_str.induct)
  case (1 n)
  show ?case
  proof (cases "n div 10 = 0")
    case True
    then have "n mod 10 \<noteq> 0" using "1.prems" by simp
    then have "unat (of_nat (48 + n mod 10) :: u8) \<noteq> 48" using unat_digit [of n] by simp
    then show ?thesis using True "1.prems" by (auto simp: dec_str_pos)
  next
    case False
    then show ?thesis using 1 by (simp add: dec_str_pos [of n] hd_append)
  qed
qed

lemma aton_number_byte_str:
  assumes "\<not> lwip_isdigit c" "c \<noteq> 0x78" "c \<noteq> 0x58"
  shows "aton_number (byte_str n @ c # r) = Some (of_nat n, c # r)"
proof (cases "n = 0")
  case True
  then show ?thesis using assms by (simp add: byte_str_def aton_number_def)
next
  case False
  then obtain d ds where ds: "dec_str n = d # ds" by (cases "dec_str n") auto
  have "aton_number (byte_str n @ c # r) = aton_digits 10 (of_nat 0) (dec_str n @ c # r)"
    using False dec_str_hd [of n] by (simp add: byte_str_def aton_number_def ds)
  also have "\<dots> = Some (of_nat n, c # r)"
    using aton_digits_decimal [OF dec_str_digits assms(1), of 0 n r] dec_str_value [of n]
    by (simp add: digit_val_def)
  finally show ?thesis .
qed

lemma byte_str_hd: "\<exists>d ds. byte_str n = d # ds \<and> lwip_isdigit d"
  using dec_str_digits [of n] by (cases "dec_str n") (auto simp: byte_str_def isdigit_iff)

lemma aton_parts_step:
  assumes "\<not> lwip_isdigit c" "c \<noteq> 0x78" "c \<noteq> 0x58"
  shows "aton_parts parts (byte_str n @ c # r) =
    (if c = 0x2e then if length parts \<ge> 3 then Some None else aton_parts (parts @ [of_nat n]) r
     else Some (Some (parts, of_nat n, c)))"
proof -
  obtain d ds where d: "byte_str n = d # ds" "lwip_isdigit d" using byte_str_hd by blast
  then show ?thesis using aton_number_byte_str [OF assms, of n r] by simp
qed

lemma not_isdigit_sep: "\<not> lwip_isdigit 0x2e" "\<not> lwip_isdigit 0"
  by (simp_all add: isdigit_iff)

lemma aton_parts_dotted:
  "aton_parts [] (dotted a b c d @ 0 # r) =
     Some (Some ([of_nat (unat a), of_nat (unat b), of_nat (unat c)], of_nat (unat d), 0))"
  by (simp add: dotted_def aton_parts_step not_isdigit_sep)

lemma ucast_u8_le: "\<not> (0xff < (ucast (b :: u8) :: u32))"
proof -
  have "unat b \<le> 255" using unat_u8_less [of b] by linarith
  then show ?thesis by (simp add: word_less_nat_alt)
qed

lemma aton_dotted: "ip4addr_aton (dotted a b c d @ 0 # r) = Some (Some (IP4_ADDR a b c d))"
proof -
  have "ucast d OR (push_bit 24 (ucast a) OR push_bit 16 (ucast b) OR push_bit 8 (ucast c)) = LWIP_MAKEU32 a b c d"
    by (simp add: LWIP_MAKEU32_def ac_simps)
  then show ?thesis
    unfolding ip4addr_aton_def aton_parts_dotted of_nat_unat_u8
    by (simp add: ucast_u8_le IP4_ADDR_def)
qed

lemma IP4_ADDR_bytes:
  "IP4_ADDR (ip4_addr_get_byte_val ad 0) (ip4_addr_get_byte_val ad 1)
     (ip4_addr_get_byte_val ad 2) (ip4_addr_get_byte_val ad 3) = ad"
  unfolding IP4_ADDR_def htonl_MAKEU32
  by (rule bit_word_eqI) (simp only: bit_MAKEU32 ip4_addr_get_byte_val_def u32_low_masks bit_ops, auto)


lemma length_dotted: "length (dotted a b c d) \<le> 15"
proof -
  have "length (byte_str (unat x)) \<le> 3" for x :: u8
    using length_byte_str [of "unat x"] unat_u8_less [of x] by linarith
  from this [of a] this [of b] this [of c] this [of d] show ?thesis by (simp add: dotted_def)
qed

lemma aton_dotted_addr:
  "cstring s = dotted_addr ad \<Longrightarrow> terminated s \<Longrightarrow> ip4addr_aton s = Some (Some ad)"
proof (elim terminatedE)
  fix xs r assume "cstring s = dotted_addr ad" "s = xs @ 0 # r" "cstring s = xs"
  then have "s = dotted_addr ad @ 0 # r" by simp
  then show ?thesis by (simp only: dotted_addr_def aton_dotted IP4_ADDR_bytes)
qed

text \<open>
  C37: Printing an address and parsing the text gives the address back: \<^verbatim>\<open>ip4addr_ntoa\<close> into its buffer
  of \<^verbatim>\<open>IP4ADDR_STRLEN_MAX\<close> bytes never runs out of space, and \<^verbatim>\<open>ip4addr_aton\<close> of what it wrote is
  the address.
\<close>

theorem ntoa_aton_roundtrip:
  assumes "length str = IP4ADDR_STRLEN_MAX"
  shows "\<exists>str'. ip4addr_ntoa ad str = Some (str', True) \<and> ip4addr_aton str' = Some (Some ad)"
proof -
  have "length (dotted_addr ad) < 16" using length_dotted unfolding dotted_addr_def
    by (rule le_less_trans) simp
  then show ?thesis
    using ntoa_r_dotted [of 16 str ad] assms aton_dotted_addr
    by (auto simp: ip4addr_ntoa_def IP4ADDR_STRLEN_MAX_def)
qed

theorem ntoa_aton_roundtrip_witness:
  "\<exists>str'. ip4addr_ntoa 0x0100007f (replicate 16 0) = Some (str', True) \<and>
     ip4addr_aton str' = Some (Some 0x0100007f)"
  by (rule ntoa_aton_roundtrip) (simp add: IP4ADDR_STRLEN_MAX_def)

text \<open>
  \<^verbatim>\<open>ip4addr_ntoa_r\<close> with a buffer of at least \<^verbatim>\<open>buflen\<close> bytes never writes behind it; it returns the
  buffer exactly when the dotted decimal text of the address and its terminator fit in \<^verbatim>\<open>buflen\<close>
  bytes, and then the buffer holds that text.
\<close>

theorem ntoa_r_bounded:
  assumes "buflen \<le> length buf"
  shows "\<exists>buf'. ip4addr_ntoa_r ad buf buflen = Some (buf', length (dotted_addr ad) < buflen) \<and>
    length buf' = length buf \<and>
    (length (dotted_addr ad) < buflen \<longrightarrow> cstring buf' = dotted_addr ad \<and> terminated buf')"
  using assms by (rule ntoa_r_dotted)

theorem ntoa_r_bounded_witness:
  "\<exists>buf'. ip4addr_ntoa_r 0x04030201 [0, 0, 0, 0, 0, 0, 0, 0, 0] 8 = Some (buf', True) \<and>
     cstring buf' = [0x31, 0x2e, 0x32, 0x2e, 0x33, 0x2e, 0x34]"
proof -
  have "dotted_addr 0x04030201 = [0x31, 0x2e, 0x32, 0x2e, 0x33, 0x2e, 0x34]"
    by (simp add: dotted_addr_def dotted_def byte_str_def ip4_addr_get_byte_val_def dec_str_pos)
  then show ?thesis
    using ntoa_r_bounded [of 8 "[0, 0, 0, 0, 0, 0, 0, 0, 0]" "0x04030201"] by auto
qed

text \<open>
  \<^verbatim>\<open>ip4addr_aton\<close> does not detect overflow of a part: the decimal text of any number parses, as a
  single part, to the number modulo 2 to the 32, so \<open>"4294967297"\<close> is accepted as 0.0.0.1.
\<close>

theorem aton_part_wraps:
  "ip4addr_aton (byte_str n @ [0]) = Some (Some (lwip_htonl (of_nat (n mod 2 ^ 32))))"
proof -
  have "(of_nat (n mod 2 ^ 32) :: u32) = of_nat n"
    unfolding word_unat_eq_iff unat_of_nat by simp
  then show ?thesis
    by (simp add: ip4addr_aton_def aton_parts_step not_isdigit_sep)
qed

end
