(* ===== verification/Inet_Chksum_Pbuf.thy ===== *)
theory Inet_Chksum_Pbuf
  imports Pbuf_Data Ip4_Addr
begin

text \<open>
  The checksums over chains of pbufs in \<^verbatim>\<open>lwip/src/core/inet_chksum.c\<close>, with the pseudo headers of IPv4 and IPv6,
  over a whole chain or over its first bytes.  They work with any of the three summing routines, through the
  interface \<open>chksum_routine\<close>, and are shown to be the plain checksum of the pseudo header followed by the data of
  the packet, however it is cut into pbufs.
\<close>

section \<open>Operations\<close>

text \<open>The loop that \<^verbatim>\<open>inet_cksum_pseudo_base\<close> and \<^verbatim>\<open>inet_chksum_pbuf\<close> have in common.\<close>

partial_function (option) chksum_chain_loop ::
  "(addr \<Rightarrow> u8 list \<Rightarrow> u16) \<Rightarrow> (addr \<rightharpoonup> pbuf) \<Rightarrow> byte_mem \<Rightarrow> addr \<Rightarrow> bool \<Rightarrow> u32 \<Rightarrow> (bool \<times> u32) option" where
  "chksum_chain_loop LWIP_CHKSUM m bm q swapped acc =
     (if q \<noteq> 0 then
        do {
          b \<leftarrow> m q;
          bs \<leftarrow> load_bytes bm (payload b) (pb_len b);
          let acc = acc + ucast (LWIP_CHKSUM (payload b) bs);
          let acc = FOLD_U32T acc;
          let (swapped, acc) = (if pb_len b mod 2 \<noteq> 0 then (\<not> swapped, SWAP_BYTES_IN_WORD acc) else (swapped, acc));
          chksum_chain_loop LWIP_CHKSUM m bm (pb_next b) swapped acc
        }
      else Some (swapped, acc))"

definition inet_cksum_pseudo_base ::
  "(addr \<Rightarrow> u8 list \<Rightarrow> u16) \<Rightarrow> (addr \<rightharpoonup> pbuf) \<Rightarrow> byte_mem \<Rightarrow> addr \<Rightarrow> u8 \<Rightarrow> u16 \<Rightarrow> u32 \<Rightarrow> u16 option" where
  "inet_cksum_pseudo_base LWIP_CHKSUM m bm p proto proto_len acc =
     do {
       (swapped, acc) \<leftarrow> chksum_chain_loop LWIP_CHKSUM m bm p False acc;
       let acc = (if swapped then SWAP_BYTES_IN_WORD acc else acc);
       let acc = acc + ucast (lwip_htons (ucast proto));
       let acc = acc + ucast (lwip_htons proto_len);
       let acc = FOLD_U32T acc;
       let acc = FOLD_U32T acc;
       Some (ucast (NOT (acc AND 0xffff)))
     }"

definition add_addr :: "u32 \<Rightarrow> u32 \<Rightarrow> u32" where
  "add_addr acc addr = (let acc = acc + (addr AND 0xffff) in acc + (drop_bit 16 addr AND 0xffff))"

definition inet_chksum_pseudo ::
  "(addr \<Rightarrow> u8 list \<Rightarrow> u16) \<Rightarrow> (addr \<rightharpoonup> pbuf) \<Rightarrow> byte_mem \<Rightarrow> addr \<Rightarrow> u8 \<Rightarrow> u16 \<Rightarrow> ip4_addr \<Rightarrow> ip4_addr \<Rightarrow> u16 option" where
  "inet_chksum_pseudo LWIP_CHKSUM m bm p proto proto_len src dest =
     (let acc = add_addr 0 src;
          acc = add_addr acc dest;
          acc = FOLD_U32T acc;
          acc = FOLD_U32T acc
      in inet_cksum_pseudo_base LWIP_CHKSUM m bm p proto proto_len acc)"

text \<open>The four words of an IPv6 address, in network byte order.\<close>

record ip6_addr =
  addr6 :: "u32 list"

fun add_addr6_loop :: "u32 \<Rightarrow> u32 list \<Rightarrow> u32 list \<Rightarrow> u32" where
  "add_addr6_loop acc (s # ss) (d # ds) = add_addr6_loop (add_addr (add_addr acc s) d) ss ds"
| "add_addr6_loop acc _ _ = acc"

definition ip6_chksum_pseudo ::
  "(addr \<Rightarrow> u8 list \<Rightarrow> u16) \<Rightarrow> (addr \<rightharpoonup> pbuf) \<Rightarrow> byte_mem \<Rightarrow> addr \<Rightarrow> u8 \<Rightarrow> u16 \<Rightarrow> ip6_addr \<Rightarrow> ip6_addr \<Rightarrow> u16 option" where
  "ip6_chksum_pseudo LWIP_CHKSUM m bm p proto proto_len src dest =
     (let acc = add_addr6_loop 0 (addr6 src) (addr6 dest);
          acc = FOLD_U32T acc;
          acc = FOLD_U32T acc
      in inet_cksum_pseudo_base LWIP_CHKSUM m bm p proto proto_len acc)"

text \<open>An address of either version: the union holds the words of an IPv6 address, the first of which is the IPv4 one.\<close>

record ip_addr_t =
  u_addr :: ip6_addr
  ip_type :: u8

definition IPADDR_TYPE_V6 :: u8 where
  "IPADDR_TYPE_V6 = 6"

definition IP_IS_V6 :: "ip_addr_t \<Rightarrow> bool" where
  "IP_IS_V6 a \<longleftrightarrow> ip_type a = IPADDR_TYPE_V6"

definition ip_2_ip4 :: "ip_addr_t \<Rightarrow> ip4_addr" where
  "ip_2_ip4 a = addr6 (u_addr a) ! 0"

definition ip_2_ip6 :: "ip_addr_t \<Rightarrow> ip6_addr" where
  "ip_2_ip6 a = u_addr a"

definition ip_chksum_pseudo ::
  "(addr \<Rightarrow> u8 list \<Rightarrow> u16) \<Rightarrow> (addr \<rightharpoonup> pbuf) \<Rightarrow> byte_mem \<Rightarrow> addr \<Rightarrow> u8 \<Rightarrow> u16 \<Rightarrow> ip_addr_t \<Rightarrow> ip_addr_t \<Rightarrow> u16 option" where
  "ip_chksum_pseudo LWIP_CHKSUM m bm p proto proto_len src dest =
     (if IP_IS_V6 dest then ip6_chksum_pseudo LWIP_CHKSUM m bm p proto proto_len (ip_2_ip6 src) (ip_2_ip6 dest)
      else inet_chksum_pseudo LWIP_CHKSUM m bm p proto proto_len (ip_2_ip4 src) (ip_2_ip4 dest))"

partial_function (option) chksum_partial_loop ::
  "(addr \<Rightarrow> u8 list \<Rightarrow> u16) \<Rightarrow> (addr \<rightharpoonup> pbuf) \<Rightarrow> byte_mem \<Rightarrow> addr \<Rightarrow> nat \<Rightarrow> bool \<Rightarrow> u32 \<Rightarrow> (bool \<times> u32) option" where
  "chksum_partial_loop LWIP_CHKSUM m bm q chksum_len swapped acc =
     (if q \<noteq> 0 \<and> chksum_len > 0 then
        do {
          b \<leftarrow> m q;
          let chklen = pb_len b;
          let chklen = (if chklen > chksum_len then chksum_len else chklen);
          bs \<leftarrow> load_bytes bm (payload b) chklen;
          let acc = acc + ucast (LWIP_CHKSUM (payload b) bs);
          let chksum_len = u16_sub chksum_len chklen;
          lwip_assert (chksum_len < 0x7fff);
          let acc = FOLD_U32T acc;
          let (swapped, acc) = (if pb_len b mod 2 \<noteq> 0 then (\<not> swapped, SWAP_BYTES_IN_WORD acc) else (swapped, acc));
          chksum_partial_loop LWIP_CHKSUM m bm (pb_next b) chksum_len swapped acc
        }
      else Some (swapped, acc))"

definition inet_cksum_pseudo_partial_base ::
  "(addr \<Rightarrow> u8 list \<Rightarrow> u16) \<Rightarrow> (addr \<rightharpoonup> pbuf) \<Rightarrow> byte_mem \<Rightarrow> addr \<Rightarrow> u8 \<Rightarrow> u16 \<Rightarrow> nat \<Rightarrow> u32 \<Rightarrow> u16 option" where
  "inet_cksum_pseudo_partial_base LWIP_CHKSUM m bm p proto proto_len chksum_len acc =
     do {
       (swapped, acc) \<leftarrow> chksum_partial_loop LWIP_CHKSUM m bm p chksum_len False acc;
       let acc = (if swapped then SWAP_BYTES_IN_WORD acc else acc);
       let acc = acc + ucast (lwip_htons (ucast proto));
       let acc = acc + ucast (lwip_htons proto_len);
       let acc = FOLD_U32T acc;
       let acc = FOLD_U32T acc;
       Some (ucast (NOT (acc AND 0xffff)))
     }"

definition inet_chksum_pseudo_partial ::
  "(addr \<Rightarrow> u8 list \<Rightarrow> u16) \<Rightarrow> (addr \<rightharpoonup> pbuf) \<Rightarrow> byte_mem \<Rightarrow> addr \<Rightarrow> u8 \<Rightarrow> u16 \<Rightarrow> nat \<Rightarrow> ip4_addr \<Rightarrow> ip4_addr \<Rightarrow>
    u16 option" where
  "inet_chksum_pseudo_partial LWIP_CHKSUM m bm p proto proto_len chksum_len src dest =
     (let acc = add_addr 0 src;
          acc = add_addr acc dest;
          acc = FOLD_U32T acc;
          acc = FOLD_U32T acc
      in inet_cksum_pseudo_partial_base LWIP_CHKSUM m bm p proto proto_len chksum_len acc)"

definition ip6_chksum_pseudo_partial ::
  "(addr \<Rightarrow> u8 list \<Rightarrow> u16) \<Rightarrow> (addr \<rightharpoonup> pbuf) \<Rightarrow> byte_mem \<Rightarrow> addr \<Rightarrow> u8 \<Rightarrow> u16 \<Rightarrow> nat \<Rightarrow> ip6_addr \<Rightarrow> ip6_addr \<Rightarrow>
    u16 option" where
  "ip6_chksum_pseudo_partial LWIP_CHKSUM m bm p proto proto_len chksum_len src dest =
     (let acc = add_addr6_loop 0 (addr6 src) (addr6 dest);
          acc = FOLD_U32T acc;
          acc = FOLD_U32T acc
      in inet_cksum_pseudo_partial_base LWIP_CHKSUM m bm p proto proto_len chksum_len acc)"

definition ip_chksum_pseudo_partial ::
  "(addr \<Rightarrow> u8 list \<Rightarrow> u16) \<Rightarrow> (addr \<rightharpoonup> pbuf) \<Rightarrow> byte_mem \<Rightarrow> addr \<Rightarrow> u8 \<Rightarrow> u16 \<Rightarrow> nat \<Rightarrow> ip_addr_t \<Rightarrow> ip_addr_t \<Rightarrow>
    u16 option" where
  "ip_chksum_pseudo_partial LWIP_CHKSUM m bm p proto proto_len chksum_len src dest =
     (if IP_IS_V6 dest
      then ip6_chksum_pseudo_partial LWIP_CHKSUM m bm p proto proto_len chksum_len (ip_2_ip6 src) (ip_2_ip6 dest)
      else inet_chksum_pseudo_partial LWIP_CHKSUM m bm p proto proto_len chksum_len (ip_2_ip4 src) (ip_2_ip4 dest))"

definition inet_chksum_pbuf :: "(addr \<Rightarrow> u8 list \<Rightarrow> u16) \<Rightarrow> (addr \<rightharpoonup> pbuf) \<Rightarrow> byte_mem \<Rightarrow> addr \<Rightarrow> u16 option" where
  "inet_chksum_pbuf LWIP_CHKSUM m bm p =
     do {
       (swapped, acc) \<leftarrow> chksum_chain_loop LWIP_CHKSUM m bm p False 0;
       let acc = (if swapped then SWAP_BYTES_IN_WORD acc else acc);
       Some (ucast (NOT (acc AND 0xffff)))
     }"

section \<open>The sum over a chain\<close>

text \<open>The weight of a byte pair that starts after \<open>n\<close> bytes.\<close>

definition wt :: "nat \<Rightarrow> nat" where
  "wt n = (if odd n then 256 else 1)"

lemma wt_simps [simp]: "wt 0 = 1" "oc (wt n * (wt n * S) + c) = oc (S + c)" "wt n = 0 \<longleftrightarrow> False"
proof -
  have "256 * (256 * S) + c = S + c + 65535 * S" by simp
  then have "oc (S + c) = oc (256 * (256 * S) + c)" by (rule oc_shift) simp
  then show "oc (wt n * (wt n * S) + c) = oc (S + c)" by (simp add: wt_def)
qed (auto simp: wt_def)

lemma oc_lesum_append: "oc (c + lesum (xs @ ys)) = oc (c + lesum xs + wt (length xs) * lesum ys)"
proof (induction xs arbitrary: c rule: lesum.induct)
  case (1 b0 b1 bs)
  show ?case using 1 [of "c + unat b0 + 256 * unat b1"] by (simp add: wt_def add.assoc)
next
  case (2 b)
  have "(c + lesum (b # ys)) mod 65535 = (c + (unat b + 256 * lesum ys)) mod 65535"
    using lesum_Cons_mod [of b ys] by (metis mod_add_right_eq)
  moreover have "lesum (b # ys) = 0 \<longleftrightarrow> unat b + 256 * lesum ys = 0"
    by (auto simp: lesum_eq_0 unsigned_eq_0_iff)
  ultimately show ?case by (intro oc_cong) (auto simp: wt_def add.assoc)
qed simp

lemma unat_FOLD_oc: "unat u < 131071 \<Longrightarrow> unat (FOLD_U32T u) = oc (unat u)"
  using oc_small [OF FOLD_less [of u]] oc_cong [of "unat (FOLD_U32T u)" "unat u"] by (simp add: FOLD_mod FOLD_eq_0)

lemma oc_le: "oc S \<le> 65535"
  using oc_less [of S] by linarith

lemma oc_add_oc2: "oc (oc S + oc T) = oc (S + T)"
  using oc_add_oc [of S "oc T"] oc_add_oc [of T S] by (simp add: add.commute)

text \<open>
  Adding the sum of one more piece of \<open>n\<close> bytes: \<open>k\<close> bytes have been summed, \<open>S\<close> is the sum so far and the
  accumulator has its bytes swapped when \<open>k\<close> is odd.
\<close>

definition chain_acc :: "nat \<Rightarrow> nat \<Rightarrow> u32 \<Rightarrow> bool" where
  "chain_acc k S acc \<longleftrightarrow> unat acc = oc (wt k * S)"

lemma chain_acc_step:
  assumes "chain_acc k S acc" "unat c = oc T"
  defines "a \<equiv> FOLD_U32T (acc + ucast (c :: u16))"
  shows "chain_acc (k + n) (S + wt k * T) (if n mod 2 \<noteq> 0 then SWAP_BYTES_IN_WORD a else a)"
proof -
  have "unat (acc + ucast c) = oc (wt k * S) + oc T"
    using assms(1,2) oc_le [of "wt k * S"] oc_le [of T] by (simp add: chain_acc_def unat_add_lem [THEN iffD1])
  then have a: "unat a = oc (wt k * S + T)"
    using oc_le [of "wt k * S"] oc_le [of T] by (simp add: a_def unat_FOLD_oc oc_add_oc2)
  then have sw: "unat (SWAP_BYTES_IN_WORD a) = oc (256 * (wt k * S + T))" by (simp add: unat_SWAP_oc oc_mult_oc)
  have e: "oc (wt k * (S + wt k * T)) = oc (wt k * S + T)"
    using wt_simps(2) [of k T "wt k * S"] by (simp add: algebra_simps)
  show ?thesis
  proof (cases "n mod 2 = 0")
    case True
    then have "wt (k + n) = wt k" by (auto simp: wt_def)
    then show ?thesis using True a e by (simp add: chain_acc_def)
  next
    case False
    then have "oc (wt (k + n) * (S + wt k * T)) = oc (256 * (wt k * (S + wt k * T)))"
      using wt_simps(2) [of 1 "S + wt k * T" 0] by (auto simp: wt_def algebra_simps)
    also have "\<dots> = oc (256 * (wt k * S + T))" using e by (metis oc_mult_oc)
    finally show ?thesis using False sw by (simp add: chain_acc_def)
  qed
qed

lemma chain_acc_end:
  "chain_acc k S acc \<Longrightarrow> unat (if odd k then SWAP_BYTES_IN_WORD acc else acc) = oc S"
  using wt_simps(2) [of k S 0] by (auto simp: chain_acc_def wt_def unat_SWAP_oc oc_mult_oc)

lemma chain_acc_start: "unat acc < 65536 \<Longrightarrow> chain_acc 0 (unat acc) acc"
  by (simp add: chain_acc_def oc_small)

definition lens_ok :: "(addr \<rightharpoonup> pbuf) \<Rightarrow> addr list \<Rightarrow> bool" where
  "lens_ok m xs \<longleftrightarrow> (\<forall>x\<in>set xs. pb_len (the (m x)) < 65536)"

lemma lens_ok_packet: "packet m p xs \<Longrightarrow> lens_ok m xs"
  using member_le_sum_list [of _ "map (\<lambda>x. pb_len (the (m x))) xs"] by (force simp: lens_ok_def packet_def sum_len_def)

lemma oc_sum_step: "oc (S + wt k * T + wt (k + n) * U) = oc (S + wt k * (T + wt n * U))"
proof -
  have "oc (wt k * (wt n * U) + c) = oc (wt (k + n) * U + c)" for c
    using wt_simps(2) [of 1 U c] by (auto simp: wt_def)
  from this [of "S + wt k * T"] show ?thesis by (simp add: algebra_simps)
qed

lemma oc_weighted:
  assumes "oc T = oc U" shows "oc (S + wt k * T) = oc (S + wt k * U)"
proof (rule oc_cong)
  have "T mod 65535 = U mod 65535" using assms oc_mod by metis
  then show "(S + wt k * T) mod 65535 = (S + wt k * U) mod 65535" by (intro mod_add_cong mod_mult_cong refl)
  show "S + wt k * T = 0 \<longleftrightarrow> S + wt k * U = 0" using assms oc_eq_0 [of T] oc_eq_0 [of U] by auto
qed

lemma chain_acc_cong: "oc S = oc T \<Longrightarrow> chain_acc k S acc = chain_acc k T acc"
  by (simp add: chain_acc_def wt_def) (metis oc_mult_oc)

context chksum_routine
begin

lemma chain_loop_sum:
  assumes "chain m q ys" "mapped m bm ys" "lens_ok m ys" "chain_acc k S acc"
  shows "\<exists>acc'. chksum_chain_loop LWIP_CHKSUM m bm q (odd k) acc = Some (odd (k + sum_len m ys), acc') \<and>
    chain_acc (k + sum_len m ys) (S + wt k * lesum (pdata m bm ys)) acc'"
  using assms
proof (induction ys arbitrary: q k S acc)
  case Nil
  then show ?case by (subst chksum_chain_loop.simps) simp
next
  case (Cons y ys)
  obtain b where b: "q = y" "m y = Some b" "chain m (pb_next b) ys" "y \<noteq> 0" using Cons.prems(1) by auto
  let ?bs = "bytes_at bm (payload b) (pb_len b)"
  let ?a = "FOLD_U32T (acc + ucast (LWIP_CHKSUM (payload b) ?bs))"
  let ?acc = "if pb_len b mod 2 \<noteq> 0 then SWAP_BYTES_IN_WORD ?a else ?a"
  have ld: "load_bytes bm (payload b) (pb_len b) = Some ?bs" using Cons.prems(2) b by (simp add: load_bytes_mapped)
  have "unat (LWIP_CHKSUM (payload b) ?bs) = oc (lesum ?bs)"
    using Cons.prems(3) b by (intro chksum_lesum) (simp add: lens_ok_def)
  then have acc: "chain_acc (k + pb_len b) (S + wt k * lesum ?bs) ?acc" by (rule chain_acc_step [OF Cons.prems(4)])
  obtain acc' where IH: "chksum_chain_loop LWIP_CHKSUM m bm (pb_next b) (odd (k + pb_len b)) ?acc =
      Some (odd (k + pb_len b + sum_len m ys), acc')"
    "chain_acc (k + pb_len b + sum_len m ys) (S + wt k * lesum ?bs + wt (k + pb_len b) * lesum (pdata m bm ys)) acc'"
    using Cons.IH [OF b(3) _ _ acc] Cons.prems(2,3) by (auto simp: lens_ok_def)
  have "chksum_chain_loop LWIP_CHKSUM m bm q (odd k) acc = chksum_chain_loop LWIP_CHKSUM m bm (pb_next b) (odd (k + pb_len b)) ?acc"
  proof -
    have "(if pb_len b mod 2 \<noteq> 0 then (\<not> odd k, SWAP_BYTES_IN_WORD ?a) else (odd k, ?a)) = (odd (k + pb_len b), ?acc)"
      by auto
    then show ?thesis using b ld by (subst chksum_chain_loop.simps) (simp add: Let_def)
  qed
  moreover have e: "oc (S + wt k * lesum ?bs + wt (k + pb_len b) * lesum (pdata m bm ys)) =
      oc (S + wt k * lesum (pdata m bm (y # ys)))"
    unfolding oc_sum_step using oc_lesum_append [of 0 ?bs "pdata m bm ys"] b(2) by (intro oc_weighted) simp
  moreover have "k + pb_len b + sum_len m ys = k + sum_len m (y # ys)" using b(2) by simp
  ultimately show ?case using IH chain_acc_cong [OF e] by metis
qed

lemma partial_loop_sum:
  assumes "chain m q ys" "mapped m bm ys" "lens_ok m ys" "chain_acc k S acc" "n < 0x7fff"
  shows "\<exists>acc' k'. chksum_partial_loop LWIP_CHKSUM m bm q n (odd k) acc = Some (odd k', acc') \<and>
    chain_acc k' (S + wt k * lesum (take n (pdata m bm ys))) acc'"
  using assms
proof (induction ys arbitrary: q k S acc n)
  case Nil
  then show ?case by (subst chksum_partial_loop.simps) auto
next
  case (Cons y ys)
  obtain b where b: "q = y" "m y = Some b" "chain m (pb_next b) ys" "y \<noteq> 0" using Cons.prems(1) by auto
  show ?case
  proof (cases "n = 0")
    case True
    then show ?thesis using Cons.prems(4) by (subst chksum_partial_loop.simps) auto
  next
    case False
    define c where "c = min (pb_len b) n"
    let ?bs = "bytes_at bm (payload b) c"
    let ?a = "FOLD_U32T (acc + ucast (LWIP_CHKSUM (payload b) ?bs))"
    let ?acc = "if pb_len b mod 2 \<noteq> 0 then SWAP_BYTES_IN_WORD ?a else ?a"
    have ld: "load_bytes bm (payload b) c = Some ?bs"
      using Cons.prems(2) b by (intro load_bytes_mapped) (auto simp: c_def intro: range_mapped_prefix)
    have "unat (LWIP_CHKSUM (payload b) ?bs) = oc (lesum ?bs)"
      using Cons.prems(5) by (intro chksum_lesum) (simp add: c_def)
    then have acc: "chain_acc (k + pb_len b) (S + wt k * lesum ?bs) ?acc" by (rule chain_acc_step [OF Cons.prems(4)])
    let ?r = "lesum (take (n - c) (pdata m bm ys))"
    obtain acc' k' where IH: "chksum_partial_loop LWIP_CHKSUM m bm (pb_next b) (n - c) (odd (k + pb_len b)) ?acc = Some (odd k', acc')"
      "chain_acc k' (S + wt k * lesum ?bs + wt (k + pb_len b) * ?r) acc'"
    proof -
      have "mapped m bm ys" "lens_ok m ys" "n - c < 0x7fff" using Cons.prems(2,3,5) by (auto simp: lens_ok_def)
      then show ?thesis using Cons.IH [OF b(3) _ _ acc, of "n - c"] that by blast
    qed
    have st: "chksum_partial_loop LWIP_CHKSUM m bm q n (odd k) acc =
        chksum_partial_loop LWIP_CHKSUM m bm (pb_next b) (n - c) (odd (k + pb_len b)) ?acc"
    proof -
      have "(if pb_len b mod 2 \<noteq> 0 then (\<not> odd k, SWAP_BYTES_IN_WORD ?a) else (odd k, ?a)) = (odd (k + pb_len b), ?acc)"
        by auto
      moreover have "(if pb_len b > n then n else pb_len b) = c" "u16_sub n c = n - c" "n - c < 0x7fff"
        using Cons.prems(5) by (simp_all add: c_def u16_sub_id)
      ultimately show ?thesis using b ld False Cons.prems(5) by (subst chksum_partial_loop.simps) (simp add: Let_def)
    qed
    have e: "oc (S + wt k * lesum ?bs + wt (k + pb_len b) * ?r) = oc (S + wt k * lesum (take n (pdata m bm (y # ys))))"
    proof -
      have w: "wt (k + pb_len b) * ?r = wt (k + c) * ?r" by (simp add: c_def min_def)
      have t: "take n (pdata m bm (y # ys)) = ?bs @ take (n - c) (pdata m bm ys)" using b(2) by (simp add: c_def min_def)
      show ?thesis
        unfolding w t oc_sum_step using oc_lesum_append [of 0 ?bs "take (n - c) (pdata m bm ys)"]
        by (intro oc_weighted) simp
    qed
    show ?thesis using IH st chain_acc_cong [OF e] by metis
  qed
qed

end

section \<open>Pseudo headers\<close>

text \<open>The bytes of the words of an address, which are in network byte order in memory.\<close>

definition u32_bytes :: "u32 \<Rightarrow> u8 list" where
  "u32_bytes x = u16_bytes (ucast x) @ u16_bytes (ucast (drop_bit 16 x))"

definition pseudo_tail :: "u8 \<Rightarrow> u16 \<Rightarrow> u8 list" where
  "pseudo_tail proto len = [0, proto, ucast (drop_bit 8 len), ucast len]"

definition pseudo_header :: "ip4_addr \<Rightarrow> ip4_addr \<Rightarrow> u8 \<Rightarrow> u16 \<Rightarrow> u8 list" where
  "pseudo_header src dest proto len = u32_bytes src @ u32_bytes dest @ pseudo_tail proto len"

lemma length_u32_bytes [simp]: "length (u32_bytes x) = 4"
  by (simp add: u32_bytes_def u16_bytes_def)

lemma length_pseudo_header [simp]: "length (pseudo_header src dest proto len) = 12"
  by (simp add: pseudo_header_def pseudo_tail_def)

lemma u16_bytes_htons: "u16_bytes (lwip_htons x) = [ucast (drop_bit 8 x), ucast x]"
proof -
  have "ucast (lwip_htons x) = (ucast (drop_bit 8 x) :: u8)"
    by (rule bit_word_eqI) (auto simp: bit_htons bit_simps ac_simps dest: bit_imp_le_length)
  moreover have "ucast (drop_bit 8 (lwip_htons x)) = (ucast x :: u8)"
    by (rule bit_word_eqI) (auto simp: bit_htons bit_simps ac_simps dest: bit_imp_le_length)
  ultimately show ?thesis by (simp add: u16_bytes_def)
qed

lemma pseudo_tail_eq: "pseudo_tail proto len = u16_bytes (lwip_htons (ucast proto)) @ u16_bytes (lwip_htons len)"
proof -
  have "ucast (drop_bit 8 (ucast proto :: u16)) = (0 :: u8)"
    by (rule bit_word_eqI) (auto simp: bit_simps dest: bit_imp_le_length)
  moreover have "ucast (ucast proto :: u16) = proto"
    by (rule bit_word_eqI) (auto simp: bit_simps dest: bit_imp_le_length)
  ultimately show ?thesis by (simp add: pseudo_tail_def u16_bytes_htons)
qed

lemma unat_low_half: "unat (u AND 0xffff) = unat u mod 65536" for u :: u32
  unfolding u32_low_masks unat_and_mask by simp

lemma unat_high_half: "unat (drop_bit 16 u) = unat u div 65536" for u :: u32
  unfolding unat_drop_bit by simp

lemma high_half_less: "unat u div 65536 < 65536" for u :: u32
proof -
  have "unat u < 65536 * 65536" using unsigned_less [of u] by simp
  then show ?thesis by (rule less_mult_imp_div_less)
qed

lemma lesum_u32_bytes: "lesum (u32_bytes x) = unat x mod 65536 + unat x div 65536"
proof -
  have "even (length (u16_bytes (ucast x)))" by (simp add: u16_bytes_def)
  then show ?thesis
    by (simp add: u32_bytes_def lesum_append lesum_u16_bytes unat_ucast_u32_u16 unat_high_half high_half_less)
qed

lemma lesum_u32_le: "lesum (u32_bytes x) \<le> 131070"
  using high_half_less [of x] mod_less_divisor [of 65536 "unat x"] unfolding lesum_u32_bytes by linarith

lemma add_addr_sum:
  assumes "unat acc + 131070 < 2 ^ 32"
  shows "unat (add_addr acc x) = unat acc + lesum (u32_bytes x)"
proof -
  note hl = high_half_less [of x]
  then have h: "unat (drop_bit 16 x AND 0xffff) = unat x div 65536" by (simp add: unat_low_half unat_high_half)
  have m: "unat x mod 65536 < 65536" by simp
  have l: "unat (acc + (x AND 0xffff)) = unat acc + unat x mod 65536"
    using assms m by (subst unat_add_lem [THEN iffD1]) (auto simp: unat_low_half)
  have "unat (acc + (x AND 0xffff) + (drop_bit 16 x AND 0xffff)) = unat acc + unat x mod 65536 + unat x div 65536"
    using assms m l h hl by (subst unat_add_lem [THEN iffD1]) auto
  then show ?thesis by (simp add: add_addr_def lesum_u32_bytes)
qed

section \<open>Correctness\<close>

context chksum_routine
begin

lemma finish_sum: "unat (ucast (NOT (acc AND 0xffff)) :: u16) = 65535 - unat acc" if "unat acc < 65536" for acc :: u32
proof -
  have "ucast (NOT (acc AND 0xffff)) = NOT (ucast acc :: u16)"
    unfolding u32_low_masks by (rule bit_word_eqI) (auto simp: bit_simps)
  then show ?thesis using that by (simp add: unat_NOT_u16 unat_ucast_u32_u16)
qed

lemma inet_chksum_pbuf_sum:
  assumes "packet m p xs" "mapped m bm xs"
  shows "inet_chksum_pbuf LWIP_CHKSUM m bm p = Some (inet_chksum LWIP_CHKSUM a (pdata m bm xs))"
proof -
  obtain acc' where l: "chksum_chain_loop LWIP_CHKSUM m bm p False 0 = Some (odd (sum_len m xs), acc')"
    "chain_acc (sum_len m xs) (lesum (pdata m bm xs)) acc'"
    using chain_loop_sum [OF packet_chain [OF assms(1)] assms(2) lens_ok_packet [OF assms(1)], of 0 0 0]
    by (auto simp: chain_acc_def)
  let ?acc = "if odd (sum_len m xs) then SWAP_BYTES_IN_WORD acc' else acc'"
  have e: "unat ?acc = oc (lesum (pdata m bm xs))" by (rule chain_acc_end [OF l(2)])
  have "unat (ucast (NOT (?acc AND 0xffff)) :: u16) = 65535 - unat ?acc" by (rule finish_sum) (simp only: e oc_less)
  also have "\<dots> = unat (inet_chksum LWIP_CHKSUM a (pdata m bm xs))"
    unfolding e using assms(1) by (simp add: unat_inet_chksum packet_def)
  finally show ?thesis unfolding inet_chksum_pbuf_def l(1) by (simp only: Let_def word_unat_eq_iff bind.bind_lunit prod.case option.inject)
qed

text \<open>The end of both pseudo header checksums, for the sum \<open>S\<close> of the addresses and the data.\<close>

lemma pseudo_finish:
  assumes "unat acc = oc S" "length bs < 65536" "oc (lesum bs) = oc (S + lesum (pseudo_tail proto len))"
  shows "(let acc = acc + ucast (lwip_htons (ucast proto)); acc = acc + ucast (lwip_htons len);
      acc = FOLD_U32T acc; acc = FOLD_U32T acc in ucast (NOT (acc AND 0xffff))) = inet_chksum LWIP_CHKSUM a bs"
proof -
  let ?p = "lwip_htons (ucast proto)" and ?l = "lwip_htons len"
  have lt: "unat ?p < 65536" "unat ?l < 65536" using unsigned_less [of ?p] unsigned_less [of ?l] by simp_all
  have "even (length (u16_bytes ?p))" by (simp add: u16_bytes_def)
  then have t: "lesum (pseudo_tail proto len) = unat ?p + unat ?l"
    by (simp add: pseudo_tail_eq lesum_append lesum_u16_bytes)
  have "unat (acc + ucast ?p) = oc S + unat ?p"
    using lt oc_le [of S] assms(1) by (subst unat_add_lem [THEN iffD1]) auto
  then have "unat (acc + ucast ?p + ucast ?l) = oc S + unat ?p + unat ?l"
    using lt oc_le [of S] by (subst unat_add_lem [THEN iffD1]) auto
  then have e: "unat (FOLD_U32T (FOLD_U32T (acc + ucast ?p + ucast ?l))) = oc (lesum bs)"
    by (simp add: unat_FOLD_FOLD assms(3) t add.assoc oc_add_oc)
  have "unat (ucast (NOT (FOLD_U32T (FOLD_U32T (acc + ucast ?p + ucast ?l)) AND 0xffff)) :: u16) =
      unat (inet_chksum LWIP_CHKSUM a bs)"
    using finish_sum [OF e [THEN ord_eq_less_trans, OF oc_less]] e assms(2) by (simp only: unat_inet_chksum)
  then show ?thesis by (simp only: word_unat_eq_iff Let_def)
qed

end

lemma addrs_sum:
  "unat (FOLD_U32T (FOLD_U32T (add_addr (add_addr 0 src) dest))) = oc (lesum (u32_bytes src) + lesum (u32_bytes dest))"
proof -
  have s: "unat (add_addr 0 src) = lesum (u32_bytes src)" by (simp add: add_addr_sum)
  then have "unat (add_addr (add_addr 0 src) dest) = lesum (u32_bytes src) + lesum (u32_bytes dest)"
    using lesum_u32_le [of src] by (subst add_addr_sum) auto
  then show ?thesis by (simp add: unat_FOLD_FOLD)
qed

lemma lesum_pseudo_header:
  "lesum (pseudo_header src dest proto len @ bs) =
   lesum (u32_bytes src) + lesum (u32_bytes dest) + lesum bs + lesum (pseudo_tail proto len)"
  by (simp add: pseudo_header_def lesum_append pseudo_tail_def)

context chksum_routine
begin

lemma pseudo_base_sum:
  assumes "packet m p xs" "mapped m bm xs" "unat acc = oc S" "length bs < 65536"
    "lesum bs = S + lesum (pdata m bm xs) + lesum (pseudo_tail proto len)"
  shows "inet_cksum_pseudo_base LWIP_CHKSUM m bm p proto len acc = Some (inet_chksum LWIP_CHKSUM a bs)"
proof -
  have "chain_acc 0 S acc" using assms(3) by (simp add: chain_acc_def)
  then obtain acc' where l: "chksum_chain_loop LWIP_CHKSUM m bm p False acc = Some (odd (sum_len m xs), acc')"
    "chain_acc (sum_len m xs) (S + lesum (pdata m bm xs)) acc'"
    using chain_loop_sum [OF packet_chain [OF assms(1)] assms(2) lens_ok_packet [OF assms(1)]] by fastforce
  show ?thesis
    using pseudo_finish [OF chain_acc_end [OF l(2)] assms(4)] assms(5)
    unfolding inet_cksum_pseudo_base_def l(1) by (simp add: Let_def)
qed

lemma inet_chksum_pseudo_sum:
  assumes "packet m p xs" "mapped m bm xs" "sum_len m xs + 12 < 65536"
  shows "inet_chksum_pseudo LWIP_CHKSUM m bm p proto len src dest =
    Some (inet_chksum LWIP_CHKSUM a (pseudo_header src dest proto len @ pdata m bm xs))"
  unfolding inet_chksum_pseudo_def Let_def
  by (rule pseudo_base_sum [OF assms(1,2) addrs_sum]) (use assms(3) in \<open>simp_all add: lesum_pseudo_header\<close>)

lemma inet_chksum_pseudo_partial_sum:
  assumes "packet m p xs" "mapped m bm xs" "n < 0x7fff"
  shows "inet_chksum_pseudo_partial LWIP_CHKSUM m bm p proto len n src dest =
    Some (inet_chksum LWIP_CHKSUM a (pseudo_header src dest proto len @ take n (pdata m bm xs)))"
proof -
  let ?S = "lesum (u32_bytes src) + lesum (u32_bytes dest)"
  let ?acc = "FOLD_U32T (FOLD_U32T (add_addr (add_addr 0 src) dest))"
  have "chain_acc 0 ?S ?acc" using addrs_sum by (simp add: chain_acc_def)
  then obtain acc' k where l: "chksum_partial_loop LWIP_CHKSUM m bm p n False ?acc = Some (odd k, acc')"
    "chain_acc k (?S + lesum (take n (pdata m bm xs))) acc'"
    using partial_loop_sum [OF packet_chain [OF assms(1)] assms(2) lens_ok_packet [OF assms(1)] _ assms(3)] by fastforce
  have "length (pseudo_header src dest proto len @ take n (pdata m bm xs)) < 65536" using assms(3) by simp
  from pseudo_finish [OF chain_acc_end [OF l(2)] this] show ?thesis
    unfolding inet_chksum_pseudo_partial_def inet_cksum_pseudo_partial_base_def Let_def l(1)
    by (simp add: lesum_pseudo_header)
qed

lemma chain_sums:
  assumes "packet m p xs" "mapped m bm xs" "sum_len m xs + 12 < 65536" "n < 0x7fff"
  shows "inet_chksum_pbuf LWIP_CHKSUM m bm p = Some (inet_chksum LWIP_CHKSUM a (pdata m bm xs))"
    "inet_chksum_pseudo LWIP_CHKSUM m bm p proto len src dest =
      Some (inet_chksum LWIP_CHKSUM a (pseudo_header src dest proto len @ pdata m bm xs))"
    "inet_chksum_pseudo_partial LWIP_CHKSUM m bm p proto len n src dest =
      Some (inet_chksum LWIP_CHKSUM a (pseudo_header src dest proto len @ take n (pdata m bm xs)))"
  by (rule inet_chksum_pbuf_sum [OF assms(1,2)], rule inet_chksum_pseudo_sum [OF assms(1-3)],
      rule inet_chksum_pseudo_partial_sum [OF assms(1,2,4)])

end

text \<open>
  C16: The checksum of a packet does not depend on how it is cut into pbufs, on the addresses of its parts or on the
  summing routine: \<^verbatim>\<open>inet_chksum_pbuf\<close> is \<^verbatim>\<open>inet_chksum\<close> of the data of the packet, \<^verbatim>\<open>inet_chksum_pseudo\<close> that of the
  bytes of the IPv4 pseudo header followed by the data, and \<^verbatim>\<open>inet_chksum_pseudo_partial\<close> that of the pseudo header
  and the first bytes of the data, for lengths its assertion lets pass.
\<close>

theorem chain_chksum_correct:
  assumes "chk \<in> {lwip_standard_chksum1, lwip_standard_chksum2, lwip_standard_chksum3}"
    and "packet m p xs" "mapped m bm xs" "sum_len m xs + 12 < 65536" "n < 0x7fff"
  shows "inet_chksum_pbuf chk m bm p = Some (inet_chksum chk a (pdata m bm xs)) \<and>
    inet_chksum_pseudo chk m bm p proto len src dest =
      Some (inet_chksum chk a (pseudo_header src dest proto len @ pdata m bm xs)) \<and>
    inet_chksum_pseudo_partial chk m bm p proto len n src dest =
      Some (inet_chksum chk a (pseudo_header src dest proto len @ take n (pdata m bm xs)))"
proof -
  consider "chk = lwip_standard_chksum1" | "chk = lwip_standard_chksum2" | "chk = lwip_standard_chksum3"
    using assms(1) by blast
  then show ?thesis
    using v1.chain_sums [OF assms(2-5)] v2.chain_sums [OF assms(2-5)] v3.chain_sums [OF assms(2-5)] by cases simp_all
qed

theorem chain_chksum_correct_witness:
  "inet_chksum_pseudo lwip_standard_chksum2 (pbufs demo_mem) (bytes demo_mem) 8192 17 84 0x0100007f 0x0200007f =
   Some (inet_chksum lwip_standard_chksum2 0
     (pseudo_header 0x0100007f 0x0200007f 17 84 @ pdata (pbufs demo_mem) (bytes demo_mem) [8192, 8280]))"
proof -
  have "sum_len (pbufs demo_mem) [8192, 8280] = 84" by (simp add: demo_mem_def demo_pbuf1_def demo_pbuf2_def)
  then show ?thesis
    using chain_chksum_correct [OF _ demo_chain demo_mapped, of lwip_standard_chksum2 0 0 17 84] by auto
qed

end
