(* ===== verification/Pbuf_Copy.thy ===== *)
theory Pbuf_Copy
  imports Pbuf_Data
begin

text \<open>
  The operations of \<^verbatim>\<open>pbuf.c\<close> that write through a chain, as operations on the sequence of addresses the
  chain stands for: \<open>scatter\<close> writes a list of bytes to a list of addresses and \<open>gather\<close> reads one.  The data
  of a packet is what \<open>gather\<close> reads at the addresses of its payloads.
\<close>

section \<open>Writing to and reading from lists of addresses\<close>

fun scatter :: "byte_mem \<Rightarrow> addr list \<Rightarrow> u8 list \<Rightarrow> byte_mem" where
  "scatter bm (a # as) (b # bs) = scatter (bm(a \<mapsto> b)) as bs"
| "scatter bm _ _ = bm"

definition gather :: "byte_mem \<Rightarrow> addr list \<Rightarrow> u8 list" where
  "gather bm as = map (\<lambda>a. the (bm a)) as"

lemma scatter_Nil [simp]: "scatter bm as [] = bm"
  by (cases as) simp_all

lemma length_gather [simp]: "length (gather bm as) = length as"
  by (simp add: gather_def)

lemma gather_append [simp]: "gather bm (as @ cs) = gather bm as @ gather bm cs"
  by (simp add: gather_def)

lemma take_gather: "take n (gather bm as) = gather bm (take n as)"
  by (simp add: gather_def take_map)

lemma drop_gather: "drop n (gather bm as) = gather bm (drop n as)"
  by (simp add: gather_def drop_map)

lemma scatter_append:
  "length as = length bs \<Longrightarrow> scatter bm (as @ cs) (bs @ ds) = scatter (scatter bm as bs) cs ds"
  by (induction bm as bs rule: scatter.induct) auto

lemma scatter_other: "x \<notin> set as \<Longrightarrow> scatter bm as bs x = bm x"
  by (induction bm as bs rule: scatter.induct) auto

lemma gather_scatter_other: "set as \<inter> set cs = {} \<Longrightarrow> gather (scatter bm as bs) cs = gather bm cs"
  by (auto simp: gather_def disjoint_iff intro!: scatter_other arg_cong [where f = the])

lemma gather_scatter:
  "distinct as \<Longrightarrow> length as = length bs \<Longrightarrow> gather (scatter bm as bs) as = bs"
proof (induction bm as bs rule: scatter.induct)
  case (1 bm a as b bs)
  then show ?case by (simp add: gather_def scatter_other fun_upd_def)
qed (auto simp: gather_def)

lemma dom_scatter: "set as \<subseteq> dom bm \<Longrightarrow> dom (scatter bm as bs) = dom bm"
proof (induction bm as bs rule: scatter.induct)
  case (1 bm a as b bs)
  have d: "dom (bm(a \<mapsto> b)) = dom bm" using 1(2) by auto
  then show ?case using 1(1) 1(2) unfolding d by (simp only: scatter.simps list.set insert_subset)
qed auto

lemma gather_scatter_part:
  assumes "distinct as" "off + length bs \<le> length as"
  shows "gather (scatter bm (take (length bs) (drop off as)) bs) as =
    take off (gather bm as) @ bs @ drop (off + length bs) (gather bm as)"
proof -
  let ?w = "take (length bs) (drop off as)" and ?bm = "scatter bm (take (length bs) (drop off as)) bs"
  have as: "as = take off as @ ?w @ drop (off + length bs) as"
    by (metis append_take_drop_id drop_drop add.commute)
  then have d: "set (take off as) \<inter> set ?w = {}" "set ?w \<inter> set (drop (off + length bs) as) = {}" "distinct ?w"
    using assms(1) by (metis distinct_append Int_Un_distrib set_append Un_empty)+
  have "gather ?bm as = gather ?bm (take off as) @ gather ?bm ?w @ gather ?bm (drop (off + length bs) as)"
    by (subst as) simp
  then show ?thesis
    using d assms(2) by (simp add: gather_scatter gather_scatter_other Int_commute take_gather drop_gather)
qed

lemma bytes_at_gather: "bytes_at bm a n = gather bm [a..<a + n]"
  by (rule nth_equalityI) (auto simp: gather_def)

lemma mem_upd_scatter: "mem_upd bm a bs = scatter bm [a..<a + length bs] bs"
proof (induction bs arbitrary: bm a)
  case (Cons b bs)
  show ?case using Cons [of "bm(a \<mapsto> b)" "Suc a"] by (simp add: mem_upd_Cons upt_conv_Cons fun_upd_def del: upt_Suc)
qed simp

lemma range_mapped_dom: "range_mapped bm a n \<longleftrightarrow> set [a..<a + n] \<subseteq> dom bm"
proof -
  have "set [a..<a + n] = (\<lambda>i. a + i) ` {..<n}" by (auto simp: image_def lessThan_def) presburger
  then show ?thesis by (auto simp: range_mapped_def)
qed

lemma memcpy_scatter:
  assumes "range_mapped bm dst n" "range_mapped bm src n"
  shows "memcpy bm dst src n = Some (scatter bm [dst..<dst + n] (bytes_at bm src n))"
  using assms by (simp add: memcpy_def load_bytes_mapped store_bytes_mapped mem_upd_scatter)

section \<open>The addresses of a chain\<close>

definition paddrs :: "(addr \<rightharpoonup> pbuf) \<Rightarrow> addr list \<Rightarrow> addr list" where
  "paddrs m xs = concat (map (\<lambda>x. [payload (the (m x))..<payload (the (m x)) + pb_len (the (m x))]) xs)"

lemma paddrs_simps [simp]:
  "paddrs m [] = []"
  "paddrs m (x # xs) = [payload (the (m x))..<payload (the (m x)) + pb_len (the (m x))] @ paddrs m xs"
  "paddrs m (xs @ ys) = paddrs m xs @ paddrs m ys"
  by (simp_all add: paddrs_def)

lemma length_paddrs [simp]: "length (paddrs m xs) = sum_len m xs"
  by (induction xs) auto

lemma pdata_gather: "pdata m bm xs = gather bm (paddrs m xs)"
  by (induction xs) (auto simp: bytes_at_gather gather_def)

lemma mapped_paddrs: "mapped m bm xs \<longleftrightarrow> set (paddrs m xs) \<subseteq> dom bm"
  by (induction xs) (simp_all add: range_mapped_dom)

lemma pdata_scatter_part:
  assumes "distinct (paddrs m xs)" "off + length bs \<le> sum_len m xs"
  shows "pdata m (scatter bm (take (length bs) (drop off (paddrs m xs))) bs) xs =
    take off (pdata m bm xs) @ bs @ drop (off + length bs) (pdata m bm xs)"
  using gather_scatter_part [OF assms(1), of off bs] assms(2) by (simp add: pdata_gather)

section \<open>Writing into a packet\<close>

lemma disjoint_parts: "A \<inter> B = {} \<Longrightarrow> C \<subseteq> A \<Longrightarrow> D \<subseteq> B \<Longrightarrow> D \<inter> C = {}"
  by blast

lemma take_loop_spec:
  assumes "chain m p xs" "mapped m bm xs" "range_mapped bm (d + c) n" "n \<le> sum_len m xs"
    "set [d + c..<d + c + n] \<inter> set (paddrs m xs) = {}"
  shows "take_loop m d p n c bm = Some (c + n, scatter bm (take n (paddrs m xs)) (bytes_at bm (d + c) n))"
  using assms
proof (induction xs arbitrary: p n c bm)
  case Nil
  then show ?case by (subst take_loop.simps) simp
next
  case (Cons x xs)
  show ?case
  proof (cases "n = 0")
    case True
    then show ?thesis by (subst take_loop.simps) simp
  next
    case False
    obtain b where b: "p = x" "m x = Some b" "chain m (pb_next b) xs" "x \<noteq> 0" using Cons.prems(1) by auto
    let ?a = "payload b" and ?k = "min (pb_len b) n"
    let ?bm = "scatter bm [?a..<?a + ?k] (bytes_at bm (d + c) ?k)"
    have rm: "range_mapped bm ?a (pb_len b)" using Cons.prems(2) b by simp
    then have ra: "range_mapped bm ?a ?k" "range_mapped bm (d + c) ?k"
      using Cons.prems(3) by (auto intro: range_mapped_prefix)
    then have c: "memcpy bm ?a (d + c) ?k = Some ?bm" by (rule memcpy_scatter)
    have dom: "dom ?bm = dom bm" using ra(1) by (intro dom_scatter) (simp add: range_mapped_dom)
    have dis: "set [?a..<?a + ?k] \<inter> set [d + c + ?k..<d + c + n] = {}"
      by (rule disjoint_parts [OF Cons.prems(5)]) (use b in auto)
    have rest: "bytes_at ?bm (d + (c + ?k)) (n - ?k) = bytes_at bm (d + (c + ?k)) (n - ?k)"
      unfolding bytes_at_gather using dis by (intro gather_scatter_other) (simp add: add.assoc)
    have IH: "take_loop m d (pb_next b) (n - ?k) (c + ?k) ?bm =
        Some (c + ?k + (n - ?k), scatter ?bm (take (n - ?k) (paddrs m xs)) (bytes_at ?bm (d + (c + ?k)) (n - ?k)))"
    proof (rule Cons.IH [OF b(3)])
      show "mapped m ?bm xs" using Cons.prems(2) by (simp add: mapped_paddrs dom)
      show "range_mapped ?bm (d + (c + ?k)) (n - ?k)"
        using range_mapped_mono [OF Cons.prems(3), of ?k "n - ?k"] by (simp add: range_mapped_dom dom add.assoc)
      show "n - ?k \<le> sum_len m xs" using Cons.prems(4) b(2) by auto
      show "set [d + (c + ?k)..<d + (c + ?k) + (n - ?k)] \<inter> set (paddrs m xs) = {}"
        using Cons.prems(5) by (auto simp: disjoint_iff)
    qed
    have "(if pb_len b < n then pb_len b else n) = ?k" by (simp add: min_def)
    then have "take_loop m d p n c bm = take_loop m d (pb_next b) (n - ?k) (c + ?k) ?bm"
      using False b c by (subst take_loop.simps) (simp add: Let_def)
    also note IH
    also have "scatter ?bm (take (n - ?k) (paddrs m xs)) (bytes_at ?bm (d + (c + ?k)) (n - ?k)) =
        scatter bm (take n (paddrs m (x # xs))) (bytes_at bm (d + c) n)"
    proof -
      have "bytes_at bm (d + c) n = bytes_at bm (d + c) ?k @ bytes_at bm (d + (c + ?k)) (n - ?k)"
        using bytes_at_add [of bm "d + c" ?k "n - ?k"] by (simp add: add.assoc)
      moreover have "take n (paddrs m (x # xs)) = [?a..<?a + ?k] @ take (n - ?k) (paddrs m xs)"
        using b(2) by (simp add: min_def)
      ultimately show ?thesis unfolding rest by (simp add: scatter_append)
    qed
    finally show ?thesis by simp
  qed
qed

lemma pbuf_take_spec:
  assumes "packet m p xs" "p \<noteq> 0" "d \<noteq> 0" "mapped m bm xs" "range_mapped bm d n" "n \<le> sum_len m xs"
    "set [d..<d + n] \<inter> set (paddrs m xs) = {}"
  shows "pbuf_take m p d n bm = Some (ERR_OK, scatter bm (take n (paddrs m xs)) (bytes_at bm d n))"
proof -
  obtain pb where pb: "m p = Some pb" "tot_len pb = sum_len m xs"
    using assms(1,2) by (cases xs) (auto simp: packet_def)
  show ?thesis
    using take_loop_spec [OF packet_chain [OF assms(1)] assms(4), of d 0 n] assms pb by (simp add: pbuf_take_def)
qed

lemma take_at_spec:
  assumes pk: "packet m p xs" and dn: "d \<noteq> 0" and mp: "mapped m bm xs" and rd: "range_mapped bm d n"
    and off: "off < 65536" "n < 65536" and ds: "set [d..<d + n] \<inter> set (paddrs m xs) = {}"
  shows "pbuf_take_at m p d n off bm =
    (if off < sum_len m xs \<and> off + n \<le> sum_len m xs
     then Some (ERR_OK, scatter bm (take n (drop off (paddrs m xs))) (bytes_at bm d n))
     else Some (ERR_MEM, bm))"
proof (cases "off < sum_len m xs")
  case False
  then show ?thesis using skip_spec [OF packet_chain [OF pk] off(1)] by (simp add: pbuf_take_at_def pbuf_skip_def)
next
  case True
  obtain ks y zs b where k: "xs = ks @ y # zs" "sum_len m ks \<le> off" "off - sum_len m ks < pb_len b" "m y = Some b" "y \<noteq> 0"
    "pbuf_skip_const m p off = Some (y, off - sum_len m ks)" "chain m y (y # zs)"
    using skip_in [OF packet_chain [OF pk] off(1) True] by metis
  define o' where "o' = off - sum_len m ks"
  define f where "f = min (pb_len b - o') n"
  let ?bm = "scatter bm [payload b + o'..<payload b + o' + f] (bytes_at bm d f)"
  have tb: "tot_len b = pb_len b + sum_len m zs" "sum_len m xs = sum_len m ks + (pb_len b + sum_len m zs)"
    using pk k(1,4) tot_ok_append by (auto simp: packet_def)
  show ?thesis
  proof (cases "off + n \<le> sum_len m xs")
    case False
    then have "\<not> off - sum_len m ks + n \<le> tot_len b" using k(2) tb by simp
    then show ?thesis using False k by (simp add: pbuf_take_at_def pbuf_skip_def)
  next
    case le: True
    have fn: "f \<le> n" by (simp add: f_def)
    have ra: "range_mapped bm (payload b + o') f" "range_mapped bm d f"
      using mp k(1,3,4) rd range_mapped_mono [of bm "payload b" "pb_len b" o' f]
      by (auto simp: f_def o'_def intro: range_mapped_prefix)
    then have c: "memcpy bm (payload b + o') d f = Some ?bm" by (rule memcpy_scatter)
    have uf: "u16_of (min (pb_len b - o') n) = f" "u16_sub n f = n - f"
      using off by (simp_all add: f_def u16_of_id u16_sub_id)
    have dom: "dom ?bm = dom bm" using ra(1) by (intro dom_scatter) (simp add: range_mapped_dom)
    have ad: "take n (drop off (paddrs m xs)) = [payload b + o'..<payload b + o' + f] @ take (n - f) (paddrs m zs)"
      using k(2,3,4) by (simp add: k(1) o'_def f_def min_def)
    have rest: "bytes_at ?bm (d + f) (n - f) = bytes_at bm (d + f) (n - f)"
      unfolding bytes_at_gather
      by (intro gather_scatter_other disjoint_parts [OF ds]) (use k(3,4) in \<open>auto simp: k(1) o'_def f_def\<close>)
    have bs: "bytes_at bm d n = bytes_at bm d f @ bytes_at bm (d + f) (n - f)"
      using bytes_at_add [of bm d f "n - f"] by (simp add: f_def)
    have t: "pbuf_take_at m p d n off bm = (if n - f > 0 then pbuf_take m (pb_next b) (d + f) (n - f) ?bm else Some (ERR_OK, ?bm))"
    proof -
      have "o' + n \<le> tot_len b" "o' < pb_len b" using le k(2,3) tb by (auto simp: o'_def)
      then show ?thesis using k(4-6) uf c by (simp add: pbuf_take_at_def pbuf_skip_def o'_def [symmetric] Let_def)
    qed
    show ?thesis
    proof (cases "n - f > 0")
      case False
      then show ?thesis using t le True ad bs by simp
    next
      case more: True
      have "pbuf_take m (pb_next b) (d + f) (n - f) ?bm =
          Some (ERR_OK, scatter ?bm (take (n - f) (paddrs m zs)) (bytes_at ?bm (d + f) (n - f)))"
      proof (rule pbuf_take_spec)
        have zs: "n - f \<le> sum_len m zs" using le k(2,3) tb(2) by (auto simp: f_def o'_def)
        then have "zs \<noteq> []" using more by auto
        then show "pb_next b \<noteq> 0" using k(4,7) by (cases zs) auto
        show "packet m (pb_next b) zs" using pk k(1,4,7) by (simp add: packet_def tot_ok_append)
        show "d + f \<noteq> 0" using dn by simp
        show "mapped m ?bm zs" using mp by (simp add: mapped_paddrs dom k(1))
        show "range_mapped ?bm (d + f) (n - f)"
          using range_mapped_mono [OF rd, of f "n - f"] fn by (simp add: range_mapped_dom dom)
        show "n - f \<le> sum_len m zs" by (rule zs)
        show "set [d + f..<d + f + (n - f)] \<inter> set (paddrs m zs) = {}"
          by (subst Int_commute, rule disjoint_parts [OF ds]) (auto simp: k(1))
      qed
      then show ?thesis using t more le True unfolding rest ad bs by (simp add: scatter_append)
    qed
  qed
qed

lemma put_at_spec:
  assumes "chain m p xs" "mapped m bm xs" "off < 65536"
  shows "pbuf_put_at m p off v bm =
    Some (if off < sum_len m xs then scatter bm (take 1 (drop off (paddrs m xs))) [v] else bm)"
proof (cases "off < sum_len m xs")
  case False
  then show ?thesis using skip_spec [OF assms(1,3)] by (simp add: pbuf_put_at_def pbuf_skip_def)
next
  case True
  obtain ks y zs b where k: "xs = ks @ y # zs" "sum_len m ks \<le> off" "off - sum_len m ks < pb_len b" "m y = Some b" "y \<noteq> 0"
    "pbuf_skip_const m p off = Some (y, off - sum_len m ks)"
    using skip_in [OF assms(1,3) True] by metis
  let ?a = "payload b + (off - sum_len m ks)"
  have "range_mapped bm (payload b) (pb_len b)" using assms(2) k(1,4) by simp
  then have "range_mapped bm ?a 1" using range_mapped_mono [of bm "payload b" "pb_len b" _ 1] k(3) by simp
  then have "store_bytes bm ?a [v] = Some (scatter bm [?a] [v])" by (auto simp: range_mapped_Suc)
  moreover have "drop off (paddrs m xs) = [?a..<payload b + pb_len b] @ paddrs m zs"
    using k(2,3,4) by (simp add: k(1))
  then have "take 1 (drop off (paddrs m xs)) = [?a]" using k(3) upt_conv_Cons [of ?a "payload b + pb_len b"] by simp
  ultimately show ?thesis using k True by (simp add: pbuf_put_at_def pbuf_skip_def)
qed

lemma copy_partial_loop_spec:
  assumes "chain m p xs" "mapped m bm xs" "left + len < 65536" "off < 65536" "len + ct < 65536"
    and "k = min len (sum_len m xs - off)"
    and "range_mapped bm (d + left) k" "set [d + left..<d + left + k] \<inter> set (paddrs m xs) = {}" "\<forall>x\<in>set xs. pb_len (the (m x)) < 65536"
  shows "copy_partial_loop m d p left len off ct bm =
    Some (ct + k, scatter bm [d + left..<d + left + k] (take k (drop off (pdata m bm xs))))"
  using assms
proof (induction xs arbitrary: p left len off ct bm k)
  case Nil
  then show ?case by (subst copy_partial_loop.simps) simp
next
  case (Cons x xs)
  obtain b where b: "p = x" "m x = Some b" "chain m (pb_next b) xs" "x \<noteq> 0" using Cons.prems(1) by auto
  show ?case
  proof (cases "len = 0")
    case True
    then show ?thesis using Cons.prems(6) by (subst copy_partial_loop.simps) simp
  next
    case len: False
    show ?thesis
    proof (cases "off \<noteq> 0 \<and> off \<ge> pb_len b")
      case True
      have "copy_partial_loop m d p left len off ct bm = copy_partial_loop m d (pb_next b) left len (off - pb_len b) ct bm"
        using len True b Cons.prems(4) by (subst copy_partial_loop.simps) (simp add: u16_sub_id)
      also have "\<dots> = Some (ct + k, scatter bm [d + left..<d + left + k] (take k (drop (off - pb_len b) (pdata m bm xs))))"
        by (rule Cons.IH [OF b(3)]) (use Cons.prems b True in \<open>auto simp: disjoint_iff\<close>)
      finally show ?thesis using True b by simp
    next
      case False
      define n where "n = min (pb_len b - off) len"
      let ?s = "payload b + off"
      let ?bm = "scatter bm [d + left..<d + left + n] (bytes_at bm ?s n)"
      have on: "off \<le> pb_len b" "n \<le> len" "n \<le> k" "n \<le> pb_len b - off" using False b Cons.prems(6) by (auto simp: n_def)
      have un: "(if u16_sub (pb_len b) off > len then len else u16_sub (pb_len b) off) = n"
        using on(1) Cons.prems(9) b(2) by (simp add: n_def u16_sub_id)
      have rm: "range_mapped bm ?s n" "range_mapped bm (d + left) n"
        using Cons.prems(2) b(2) on range_mapped_mono [of bm "payload b" "pb_len b" off n]
          range_mapped_prefix [OF Cons.prems(7)] by auto
      then have c: "memcpy bm (d + left) ?s n = Some ?bm" by (intro memcpy_scatter)
      have dom: "dom ?bm = dom bm" using rm(2) by (intro dom_scatter) (simp add: range_mapped_dom)
      have step: "copy_partial_loop m d p left len off ct bm =
          copy_partial_loop m d (pb_next b) (left + n) (len - n) 0 (ct + n) ?bm"
        using len False b un c on(2) Cons.prems(3,5)
        by (subst copy_partial_loop.simps) (auto simp: Let_def u16_of_id u16_sub_id)
      have kn: "k - n = min (len - n) (sum_len m xs - 0)" using Cons.prems(6) b(2) on(1) unfolding n_def by simp arith
      have IH: "copy_partial_loop m d (pb_next b) (left + n) (len - n) 0 (ct + n) ?bm =
          Some (ct + n + (k - n), scatter ?bm [d + (left + n)..<d + (left + n) + (k - n)] (take (k - n) (drop 0 (pdata m ?bm xs))))"
      proof (rule Cons.IH [OF b(3) _ _ _ _ kn])
        show "mapped m ?bm xs" using Cons.prems(2) by (simp add: mapped_paddrs dom)
        show "range_mapped ?bm (d + (left + n)) (k - n)"
          using range_mapped_mono [OF Cons.prems(7), of n "k - n"] on(3) unfolding range_mapped_dom dom by (simp add: add.assoc)
        show "set [d + (left + n)..<d + (left + n) + (k - n)] \<inter> set (paddrs m xs) = {}"
          by (subst Int_commute, rule disjoint_parts [OF Cons.prems(8)]) auto
      qed (use Cons.prems on(2) in auto)
      have pd: "pdata m ?bm xs = pdata m bm xs"
        unfolding pdata_gather
        by (rule gather_scatter_other, subst Int_commute, rule disjoint_parts [OF Cons.prems(8)]) (use on in auto)
      have split: "take k (drop off (pdata m bm (x # xs))) = bytes_at bm ?s n @ take (k - n) (pdata m bm xs)"
      proof -
        have "k \<le> len" "k = len \<or> k = pb_len b - off + sum_len m xs"
          using Cons.prems(6) b(2) on(1) by (auto simp: min_def)
        then have "min k (pb_len b - off) = n" "k - (pb_len b - off) = k - n" unfolding n_def by arith+
        then show ?thesis using on(1) b(2) by simp
      qed
      have up: "[d + left..<d + left + k] = [d + left..<d + left + n] @ [d + (left + n)..<d + (left + n) + (k - n)]"
        using on(3) upt_add_eq_append [of "d + left" "d + left + n" "k - n"] by (simp add: add.assoc)
      show ?thesis using step IH on(3) unfolding pd split up by (simp add: scatter_append)
    qed
  qed
qed

lemma copy_partial_spec:
  assumes "packet m p xs" "p \<noteq> 0" "d \<noteq> 0" "mapped m bm xs" "len < 65536" "off < 65536"
    and "range_mapped bm d (min len (sum_len m xs - off))" "set [d..<d + min len (sum_len m xs - off)] \<inter> set (paddrs m xs) = {}"
  shows "pbuf_copy_partial m p d len off bm =
    Some (min len (sum_len m xs - off),
      scatter bm [d..<d + min len (sum_len m xs - off)] (take (min len (sum_len m xs - off)) (drop off (pdata m bm xs))))"
proof -
  have "\<forall>x\<in>set xs. pb_len (the (m x)) < 65536"
    using assms(1) member_le_sum_list [of _ "map (\<lambda>x. pb_len (the (m x))) xs"] by (force simp: packet_def sum_len_def)
  then show ?thesis
    using copy_partial_loop_spec [OF packet_chain [OF assms(1)] assms(4) _ assms(6) _ refl, of 0 len 0 d] assms
    by (simp add: pbuf_copy_partial_def)
qed

section \<open>Copying a packet\<close>

definition no_empty :: "(addr \<rightharpoonup> pbuf) \<Rightarrow> addr list \<Rightarrow> bool" where
  "no_empty m xs \<longleftrightarrow> (\<forall>x\<in>set xs. 0 < pb_len (the (m x)))"

lemma no_empty_simps [simp]:
  "no_empty m []" "no_empty m (x # xs) \<longleftrightarrow> 0 < pb_len (the (m x)) \<and> no_empty m xs"
  by (simp_all add: no_empty_def)

definition pos_ok :: "(addr \<rightharpoonup> pbuf) \<Rightarrow> addr \<Rightarrow> addr list \<Rightarrow> bool" where
  "pos_ok m p xs \<longleftrightarrow> chain m p xs \<and> tot_ok m xs \<and> no_empty m xs \<and> sum_len m xs < 65536"

lemma pos_ok_Cons:
  "pos_ok m p (x # xs) \<longleftrightarrow> p = x \<and> x \<noteq> 0 \<and> (\<exists>b. m x = Some b \<and> 0 < pb_len b \<and> pb_len b + sum_len m xs < 65536 \<and>
     tot_len b = pb_len b + sum_len m xs \<and> pos_ok m (pb_next b) xs)"
  by (auto simp: pos_ok_def)

lemma pos_ok_sum: "pos_ok m p xs \<Longrightarrow> sum_len m xs = 0 \<longleftrightarrow> xs = []"
  by (cases xs) (auto simp: pos_ok_def)

lemma pos_ok_0: "pos_ok m p xs \<Longrightarrow> p = 0 \<longleftrightarrow> xs = []"
  by (cases xs) (auto simp: pos_ok_def)

text \<open>In a packet without empty pbufs only the last pbuf has all of the remaining length.\<close>

lemma not_queue:
  assumes "pos_ok m p xs"
  shows "packet_queue m p = Some False"
proof (cases xs)
  case Nil
  then show ?thesis using assms by (simp add: pos_ok_def packet_queue_def)
next
  case (Cons x ys)
  then obtain b where b: "p = x" "x \<noteq> 0" "m x = Some b" "tot_len b = pb_len b + sum_len m ys" "pos_ok m (pb_next b) ys"
    using assms by (auto simp: pos_ok_Cons)
  then show ?thesis using pos_ok_sum [OF b(5)] pos_ok_0 [OF b(5)] by (auto simp: packet_queue_def)
qed

lemma copy_loop_step:
  assumes t: "pos_ok m p (t # ts)" "m t = Some tb" "o1 < pb_len tb" and f: "pos_ok m q (f # fs)" "m f = Some fb" "o2 < pb_len fb"
    and n: "n = min (pb_len tb - o1) (pb_len fb - o2)"
    and cp: "memcpy bm (payload tb + o1) (payload fb + o2) n = Some bm'"
    and room: "n = pb_len tb - o1 \<Longrightarrow> ts = [] \<Longrightarrow> n = pb_len fb - o2 \<and> fs = []"
  shows "copy_loop m p q o1 o2 bm =
    (if n = pb_len fb - o2 \<and> fs = [] then Some (ERR_OK, bm')
     else copy_loop m (if n = pb_len tb - o1 then pb_next tb else p) (if n = pb_len fb - o2 then pb_next fb else q)
       (if n = pb_len tb - o1 then 0 else o1 + n) (if n = pb_len fb - o2 then 0 else o2 + n) bm')"
proof -
  have pt: "p = t" "pos_ok m (pb_next tb) ts" "pb_next tb = 0 \<longleftrightarrow> ts = []" "pb_len tb < 65536" "t \<noteq> 0"
    and qf: "q = f" "pos_ok m (pb_next fb) fs" "pb_next fb = 0 \<longleftrightarrow> fs = []" "pb_len fb < 65536" "f \<noteq> 0"
    using t f pos_ok_0 by (auto simp: pos_ok_Cons)
  have l: "(if size_sub (pb_len tb) o1 \<ge> size_sub (pb_len fb) o2 then size_sub (pb_len fb) o2 else size_sub (pb_len tb) o1) = n"
    using t(3) f(3) pt(4) qf(4) n by (simp add: size_sub_id)
  note nq = not_queue [OF t(1)] not_queue [OF f(1)] not_queue [OF pt(2)] not_queue [OF qf(2)]
  define p' where "p' = (if n = pb_len tb - o1 then pb_next tb else p)"
  define q' where "q' = (if n = pb_len fb - o2 then pb_next fb else q)"
  define o1' where "o1' = (if n = pb_len tb - o1 then 0 else o1 + n)"
  define o2' where "o2' = (if n = pb_len fb - o2 then 0 else o2 + n)"
  have e: "o1 + n \<le> pb_len tb" "o2 + n \<le> pb_len fb"
    "(if o2 + n \<ge> pb_len fb then (0, pb_next fb) else (o2 + n, q)) = (o2', q')"
    "(if o1 + n = pb_len tb then (0, pb_next tb) else (o1 + n, p)) = (o1', p')"
    "\<not> (o1 + n = pb_len tb \<and> \<not> (p' \<noteq> 0 \<or> q' = 0))"
  proof -
    show "o1 + n \<le> pb_len tb" "o2 + n \<le> pb_len fb" using t(3) f(3) n by simp_all
    have "o2 + n \<ge> pb_len fb \<longleftrightarrow> n = pb_len fb - o2" using f(3) n by linarith
    then show "(if o2 + n \<ge> pb_len fb then (0, pb_next fb) else (o2 + n, q)) = (o2', q')"
      by (simp add: q'_def o2'_def)
    have ot: "o1 + n = pb_len tb \<longleftrightarrow> n = pb_len tb - o1" using t(3) n by linarith
    then show "(if o1 + n = pb_len tb then (0, pb_next tb) else (o1 + n, p)) = (o1', p')"
      by (simp add: p'_def o1'_def)
    show "\<not> (o1 + n = pb_len tb \<and> \<not> (p' \<noteq> 0 \<or> q' = 0))"
      unfolding ot using pt(3) qf(3) room unfolding p'_def q'_def by presburger
  qed
  have nq': "packet_queue m p' = Some False" "packet_queue m q' = Some False"
    using nq by (simp_all add: p'_def q'_def)
  have "copy_loop m p q o1 o2 bm = (if q' \<noteq> 0 then copy_loop m p' q' o1' o2' bm' else Some (ERR_OK, bm'))"
    unfolding copy_loop.simps [of m p q o1 o2 bm]
    using t(2) f(2) pt(1) qf(1) cp e nq' by (auto simp: l Let_def cong: if_cong)
  moreover have "q' = 0 \<longleftrightarrow> n = pb_len fb - o2 \<and> fs = []" using qf by (simp add: q'_def)
  ultimately show ?thesis unfolding p'_def q'_def o1'_def o2'_def by simp
qed

lemma drop_paddrs_step:
  assumes "m t = Some b" "k < pb_len b" "n \<le> pb_len b - k"
  shows "drop k (paddrs m (t # ts)) = [payload b + k..<payload b + k + n] @
    drop (if n = pb_len b - k then 0 else k + n) (paddrs m (if n = pb_len b - k then ts else t # ts))"
proof -
  have "[payload b + k..<payload b + pb_len b] = [payload b + k..<payload b + k + n] @ [payload b + k + n..<payload b + pb_len b]"
    using upt_add_eq_append [of "payload b + k" "payload b + k + n" "pb_len b - k - n"] assms(2,3) by (simp add: add.assoc)
  moreover have "[payload b + k + n..<payload b + pb_len b] = []" if "n = pb_len b - k" using that assms(2) by simp
  ultimately show ?thesis using assms by (simp add: add.assoc)
qed

text \<open>One round leaves the rest of both chains, and all of the invariant of the loop.\<close>

lemma copy_rest:
  assumes "pos_ok m p (t # ts)" "m t = Some b" "k < pb_len b" "n \<le> pb_len b - k" "ts \<noteq> [] \<or> n \<noteq> pb_len b - k"
  defines "p' \<equiv> (if n = pb_len b - k then pb_next b else p)" and "ts' \<equiv> (if n = pb_len b - k then ts else t # ts)"
    and "k' \<equiv> (if n = pb_len b - k then 0 else k + n)"
  shows "pos_ok m p' ts'" "ts' \<noteq> []" "k' < pb_len (the (m (hd ts')))" "set (paddrs m ts') \<subseteq> set (paddrs m (t # ts))"
    "sum_len m (t # ts) - k = n + (sum_len m ts' - k')"
    "length ts' \<le> length (t # ts)" "n = pb_len b - k \<Longrightarrow> length ts' < length (t # ts)"
proof -
  show p: "pos_ok m p' ts'" "ts' \<noteq> []" using assms(1,2,5) by (auto simp: p'_def ts'_def pos_ok_Cons)
  have "0 < pb_len (the (m (hd ts')))" using p by (cases ts') (auto simp: pos_ok_def)
  then show "k' < pb_len (the (m (hd ts')))" using assms(2-4) by (auto simp: k'_def ts'_def)
  show "sum_len m (t # ts) - k = n + (sum_len m ts' - k')" using assms(2-4) by (auto simp: k'_def ts'_def)
qed (auto simp: ts'_def)

lemma copy_loop_spec:
  assumes "pos_ok m p ts" "pos_ok m q fs" "ts \<noteq> []" "fs \<noteq> []"
    and "o1 < pb_len (the (m (hd ts)))" "o2 < pb_len (the (m (hd fs)))"
    and "sum_len m fs - o2 \<le> sum_len m ts - o1" "mapped m bm ts" "mapped m bm fs"
    and "set (paddrs m ts) \<inter> set (paddrs m fs) = {}"
  shows "copy_loop m p q o1 o2 bm =
    Some (ERR_OK, scatter bm (take (sum_len m fs - o2) (drop o1 (paddrs m ts))) (drop o2 (pdata m bm fs)))"
  using assms
proof (induction "length ts + length fs" arbitrary: ts fs p q o1 o2 bm rule: less_induct)
  case less
  obtain t ts1 f fs1 where l: "ts = t # ts1" "fs = f # fs1" using less.prems(3,4) by (cases ts; cases fs) auto
  obtain tb fb where b: "m t = Some tb" "m f = Some fb" "pos_ok m (pb_next fb) fs1" "o1 < pb_len tb" "o2 < pb_len fb"
    using less.prems(1,2,5,6) l by (auto simp: pos_ok_Cons)
  define n where "n = min (pb_len tb - o1) (pb_len fb - o2)"
  have n: "n \<le> pb_len tb - o1" "n \<le> pb_len fb - o2" "n = pb_len tb - o1 \<or> n = pb_len fb - o2" by (auto simp: n_def)
  let ?a = "payload tb + o1" and ?c = "payload fb + o2"
  let ?bm = "scatter bm [?a..<?a + n] (bytes_at bm ?c n)"
  let ?ts = "if n = pb_len tb - o1 then ts1 else t # ts1" and ?fs = "if n = pb_len fb - o2 then fs1 else f # fs1"
  let ?o1 = "if n = pb_len tb - o1 then 0 else o1 + n" and ?o2 = "if n = pb_len fb - o2 then 0 else o2 + n"
  let ?p = "if n = pb_len tb - o1 then pb_next tb else p" and ?q = "if n = pb_len fb - o2 then pb_next fb else q"
  have rm: "range_mapped bm ?a n" "range_mapped bm ?c n"
    using less.prems(8,9) l b n range_mapped_mono [of bm "payload tb" "pb_len tb" o1 n]
      range_mapped_mono [of bm "payload fb" "pb_len fb" o2 n] by auto
  have dom: "dom ?bm = dom bm" using rm(1) by (intro dom_scatter) (simp add: range_mapped_dom)
  have room: "n = pb_len fb - o2 \<and> fs1 = []" if e: "n = pb_len tb - o1" "ts1 = []"
  proof -
    have "pb_len fb + sum_len m fs1 - o2 \<le> pb_len tb - o1" using less.prems(7) l b e(2) by simp
    then have "sum_len m fs1 = 0 \<and> n = pb_len fb - o2" using e(1) n(2) b(5) by linarith
    then show ?thesis using pos_ok_sum [OF b(3)] by simp
  qed
  have ra: "drop o1 (paddrs m ts) = [?a..<?a + n] @ drop ?o1 (paddrs m ?ts)"
    unfolding l by (rule drop_paddrs_step [where m = m, OF b(1,4) n(1)])
  have rd: "drop o2 (pdata m bm' fs) = bytes_at bm' ?c n @ drop ?o2 (pdata m bm' ?fs)" for bm'
    unfolding pdata_gather drop_gather l drop_paddrs_step [where m = m, OF b(2,5) n(2)] by (simp only: gather_append bytes_at_gather)
  have rl: "sum_len m fs - o2 = n + (sum_len m ?fs - ?o2)"
    using arg_cong [OF rd [of bm], of length] by simp
  have step: "copy_loop m p q o1 o2 bm =
    (if n = pb_len fb - o2 \<and> fs1 = [] then Some (ERR_OK, ?bm) else copy_loop m ?p ?q ?o1 ?o2 ?bm)"
    by (rule copy_loop_step [where m = m, OF less.prems(1) [unfolded l] b(1,4) less.prems(2) [unfolded l] b(2,5) n_def memcpy_scatter [OF rm] room])
  show ?case
  proof (cases "n = pb_len fb - o2 \<and> fs1 = []")
    case True
    then show ?thesis using step ra rd rl by simp
  next
    case False
    then have e: "ts1 \<noteq> [] \<or> n \<noteq> pb_len tb - o1" "fs1 \<noteq> [] \<or> n \<noteq> pb_len fb - o2" using room by auto
    note rt = copy_rest [where m = m, OF less.prems(1) [unfolded l] b(1,4) n(1) e(1)]
      and rf = copy_rest [where m = m, OF less.prems(2) [unfolded l] b(2,5) n(2) e(2)]
    have "copy_loop m ?p ?q ?o1 ?o2 ?bm =
        Some (ERR_OK, scatter ?bm (take (sum_len m ?fs - ?o2) (drop ?o1 (paddrs m ?ts))) (drop ?o2 (pdata m ?bm ?fs)))"
    proof (rule less.hyps)
      show "length ?ts + length ?fs < length ts + length fs" using n(3) rt(6,7) rf(6,7) unfolding l by linarith
      show "sum_len m ?fs - ?o2 \<le> sum_len m ?ts - ?o1" using less.prems(7) rt(5) rf(5) unfolding l by linarith
      show "mapped m ?bm ?ts" using less.prems(8) rt(4) unfolding l mapped_paddrs dom by blast
      show "mapped m ?bm ?fs" using less.prems(9) rf(4) unfolding l mapped_paddrs dom by blast
      show "set (paddrs m ?ts) \<inter> set (paddrs m ?fs) = {}" using less.prems(10) rt(4) rf(4) unfolding l by blast
    qed (rule rt rf)+
    moreover have "pdata m ?bm ?fs = pdata m bm ?fs"
    proof -
      have "set [?a..<?a + n] \<subseteq> set (drop o1 (paddrs m ts))" unfolding ra by simp
      then have "set [?a..<?a + n] \<inter> set (paddrs m ?fs) = {}"
        using set_drop_subset [of o1 "paddrs m ts"] rf(4) less.prems(10) unfolding l by blast
      then show ?thesis unfolding pdata_gather by (rule gather_scatter_other)
    qed
    ultimately show ?thesis unfolding step if_not_P [OF False] rl ra rd by (simp add: scatter_append)
  qed
qed

lemma pos_ok_packet: "packet m p xs \<Longrightarrow> no_empty m xs \<Longrightarrow> pos_ok m p xs"
  by (simp add: packet_def pos_ok_def)

lemma copy_spec:
  assumes "packet m p ts" "packet m q fs" "p \<noteq> 0" "q \<noteq> 0" "no_empty m ts" "no_empty m fs" "mapped m bm ts" "mapped m bm fs"
    "set (paddrs m ts) \<inter> set (paddrs m fs) = {}" "sum_len m fs \<le> sum_len m ts"
  shows "pbuf_copy m p q bm = Some (ERR_OK, scatter bm (take (sum_len m fs) (paddrs m ts)) (pdata m bm fs))"
proof -
  have ne: "ts \<noteq> []" "fs \<noteq> []" using assms(1-4) by (auto simp: packet_def)
  obtain tb fb where b: "m p = Some tb" "tot_len tb = sum_len m ts" "m q = Some fb" "tot_len fb = sum_len m fs"
    using assms(1,2) ne by (cases ts; cases fs) (auto simp: packet_def)
  have "copy_loop m p q 0 0 bm = Some (ERR_OK, scatter bm (take (sum_len m fs - 0) (drop 0 (paddrs m ts))) (drop 0 (pdata m bm fs)))"
    using assms ne by (intro copy_loop_spec pos_ok_packet) (auto simp: no_empty_def)
  then show ?thesis using b assms(3,4,10) by (simp add: pbuf_copy_def)
qed

text \<open>
  C20: \<^verbatim>\<open>pbuf_copy\<close> between two packets without empty pbufs whose payloads do not overlap copies all data, however
  the two chains are cut into pbufs: it ends with \<open>ERR_OK\<close>, the target then starts with the data of the source and
  keeps what lies behind, and the source is unchanged.  When the target is too short the result is \<open>ERR_ARG\<close> and
  nothing is written.
\<close>

theorem pbuf_copy_correct:
  assumes "packet m p ts" "packet m q fs" "p \<noteq> 0" "q \<noteq> 0" "no_empty m ts" "no_empty m fs" "mapped m bm ts" "mapped m bm fs"
    "distinct (paddrs m ts)" "set (paddrs m ts) \<inter> set (paddrs m fs) = {}"
  shows "\<exists>r bm'. pbuf_copy m p q bm = Some (r, bm') \<and>
    (if sum_len m fs \<le> sum_len m ts
     then r = ERR_OK \<and> pdata m bm' ts = pdata m bm fs @ drop (sum_len m fs) (pdata m bm ts) \<and> pdata m bm' fs = pdata m bm fs
     else r = ERR_ARG \<and> bm' = bm)"
proof (cases "sum_len m fs \<le> sum_len m ts")
  case True
  let ?bm = "scatter bm (take (sum_len m fs) (paddrs m ts)) (pdata m bm fs)"
  have "pdata m ?bm ts = pdata m bm fs @ drop (sum_len m fs) (pdata m bm ts)"
    using pdata_scatter_part [OF assms(9), of 0 "pdata m bm fs" bm] True by simp
  moreover have "pdata m ?bm fs = pdata m bm fs"
    unfolding pdata_gather using assms(10) set_take_subset [of "sum_len m fs" "paddrs m ts"]
    by (intro gather_scatter_other) blast
  ultimately show ?thesis using copy_spec [OF assms(1-8,10) True] True by auto
next
  case False
  obtain tb fb where "m p = Some tb" "tot_len tb = sum_len m ts" "m q = Some fb" "tot_len fb = sum_len m fs"
    using assms(1-4) by (cases ts; cases fs) (auto simp: packet_def)
  then show ?thesis using False assms(3,4) by (auto simp: pbuf_copy_def)
qed

theorem pbuf_copy_correct_witness:
  "\<exists>bm'. pbuf_copy (pbufs demo_mem3) 8192 4104 (bytes demo_mem3) = Some (ERR_OK, bm') \<and>
     take 20 (pdata (pbufs demo_mem3) bm' [8192, 8280]) = pdata (pbufs demo_mem3) (bytes demo_mem3) [4104]"
proof -
  have "no_empty (pbufs demo_mem3) [8192, 8280]" "no_empty (pbufs demo_mem3) [4104]"
    "mapped (pbufs demo_mem3) (bytes demo_mem3) [8192, 8280]" "mapped (pbufs demo_mem3) (bytes demo_mem3) [4104]"
    "distinct (paddrs (pbufs demo_mem3) [8192, 8280])"
    "set (paddrs (pbufs demo_mem3) [8192, 8280]) \<inter> set (paddrs (pbufs demo_mem3) [4104]) = {}"
    "sum_len (pbufs demo_mem3) [4104] = 20" "sum_len (pbufs demo_mem3) [8192, 8280] = 84"
    by (auto simp: mapped_def demo_mem3_def demo_mem_def demo_pbuf1_def demo_pbuf2_def demo_pbuf3_def range_mapped_def)
  then show ?thesis
    using pbuf_copy_correct [OF demo_chains(2,1) _ _ , of "bytes demo_mem3"]
    by (auto simp del: pdata_simps)
qed

text \<open>
  C21: \<^verbatim>\<open>pbuf_take_at\<close> is the overwriting of a part of the packet: it ends with \<open>ERR_OK\<close> and replaces the \<open>n\<close> bytes
  from the offset on by the given ones, across pbuf boundaries, when the packet is long enough, and otherwise ends
  with \<open>ERR_MEM\<close> and writes nothing.  \<^verbatim>\<open>pbuf_copy_partial\<close> then reads the same bytes back into any buffer
  outside of the packet.
\<close>

theorem pbuf_take_copy_partial:
  assumes "packet m p xs" "p \<noteq> 0" "d \<noteq> 0" "mapped m bm xs" "range_mapped bm d n" "off < 65536" "n < 65536"
    "distinct (paddrs m xs)" "set [d..<d + n] \<inter> set (paddrs m xs) = {}"
    "e \<noteq> 0" "range_mapped bm e n" "set [e..<e + n] \<inter> set (paddrs m xs) = {}"
  shows "\<exists>r bm'. pbuf_take_at m p d n off bm = Some (r, bm') \<and>
    (if off < sum_len m xs \<and> off + n \<le> sum_len m xs
     then r = ERR_OK \<and> pdata m bm' xs = take off (pdata m bm xs) @ bytes_at bm d n @ drop (off + n) (pdata m bm xs) \<and>
       (\<exists>bm''. pbuf_copy_partial m p e n off bm' = Some (n, bm'') \<and> bytes_at bm'' e n = bytes_at bm d n)
     else r = ERR_MEM \<and> bm' = bm)"
proof (cases "off < sum_len m xs \<and> off + n \<le> sum_len m xs")
  case True
  let ?w = "take n (drop off (paddrs m xs))"
  let ?bm = "scatter bm ?w (bytes_at bm d n)"
  have d: "pdata m ?bm xs = take off (pdata m bm xs) @ bytes_at bm d n @ drop (off + n) (pdata m bm xs)"
    using pdata_scatter_part [OF assms(8), of off "bytes_at bm d n" bm] True by simp
  have "set ?w \<subseteq> set (paddrs m xs)" by (meson order_trans set_drop_subset set_take_subset)
  then have dom: "dom ?bm = dom bm" using assms(4) by (intro dom_scatter) (auto simp: mapped_paddrs)
  have mn: "min n (sum_len m xs - off) = n" using True by linarith
  have "pbuf_copy_partial m p e n off ?bm = Some (n, scatter ?bm [e..<e + n] (take n (drop off (pdata m ?bm xs))))"
    using copy_partial_spec [where m = m and p = p and xs = xs and d = e and bm = ?bm and len = n and off = off, unfolded mn]
      assms(1,2,4,6,7,10-12) by (simp add: mapped_paddrs range_mapped_dom dom)
  moreover have "take n (drop off (pdata m ?bm xs)) = bytes_at bm d n" unfolding d using True by simp
  moreover have "bytes_at (scatter ?bm [e..<e + n] (bytes_at bm d n)) e n = bytes_at bm d n"
    unfolding bytes_at_gather [of _ e] by (intro gather_scatter) simp_all
  ultimately show ?thesis using take_at_spec [OF assms(1,3-7,9)] d True by auto
next
  case False
  then show ?thesis using take_at_spec [OF assms(1,3-7,9)] by auto
qed

theorem pbuf_take_copy_partial_witness:
  "\<exists>bm' bm''. pbuf_take_at (pbufs demo_mem) 8192 4096 20 40 (bytes demo_mem) = Some (ERR_OK, bm') \<and>
     pbuf_copy_partial (pbufs demo_mem) 8192 5000 20 40 bm' = Some (20, bm'') \<and>
     bytes_at bm'' 5000 20 = bytes_at (bytes demo_mem) 4096 20"
proof -
  have d: "distinct (paddrs (pbufs demo_mem) [8192, 8280])" "sum_len (pbufs demo_mem) [8192, 8280] = 84"
    by (auto simp: demo_mem_def demo_pbuf1_def demo_pbuf2_def)
  have x: "set [4096..<4096 + 20] \<inter> set (paddrs (pbufs demo_mem) [8192, 8280]) = {}"
    "set [5000..<5000 + 20] \<inter> set (paddrs (pbufs demo_mem) [8192, 8280]) = {}"
    by (auto simp: demo_mem_def demo_pbuf1_def demo_pbuf2_def)
  have r: "range_mapped (bytes demo_mem) 4096 20" "range_mapped (bytes demo_mem) 5000 20"
    by (simp_all add: range_mapped_def demo_mem_def)
  show ?thesis
    using pbuf_take_copy_partial [OF demo_chain _ _ demo_mapped r(1) _ _ d(1) x(1) _ r(2) x(2), of 40] d(2) by auto
qed

end
