(* ===== verification/Timeouts.thy ===== *)
theory Timeouts
  imports Memp
begin

text \<open>
  The timers of \<^verbatim>\<open>lwip/src/core/timeouts.c\<close>: a list of \<^verbatim>\<open>struct sys_timeo\<close>, linked through the elements of the pool
  \<^verbatim>\<open>MEMP_SYS_TIMEOUT\<close> and ordered by due time, where times are 32-bit milliseconds that wrap around.  The clock and
  the handlers of the clients are parameters.  A handler may use all operations of this module: it maps the whole
  state.
\<close>

section \<open>State\<close>

datatype 'h sys_timeout_handler = NULL_HANDLER | LWIP_CYCLIC_TIMER | TCPIP_TCP_TIMER | HANDLER 'h

record 'h sys_timeo =
  tmo_next :: addr
  tmo_time :: u32
  tmo_h :: "'h sys_timeout_handler"
  tmo_arg :: addr

text \<open>\<open>world\<close> is what lies outside of this module: the clock and whatever the handlers work on.\<close>

record ('h, 'w) timers =
  tpools :: memp_pools
  timeos :: "addr \<rightharpoonup> 'h sys_timeo"
  next_timeout :: addr
  current_timeout_due_time :: u32
  tcpip_tcp_timer_active :: bool
  world :: 'w

text \<open>
  What the module calls: \<^verbatim>\<open>sys_now\<close>, the handlers, the table \<^verbatim>\<open>lwip_cyclic_timers\<close> (the argument of a cyclic timer is an
  index into it), the TCP timer and whether there are active or time-wait TCP connections.
\<close>

record ('h, 'w) timers_env =
  tmemcfg :: mem_cfg
  sys_now :: "'w \<Rightarrow> u32 \<times> 'w"
  run_client :: "'h \<Rightarrow> addr \<Rightarrow> ('h, 'w) timers \<Rightarrow> ('h, 'w) timers option"
  cyclic_timers :: "(u32 \<times> (('h, 'w) timers \<Rightarrow> ('h, 'w) timers option)) list"
  tcp_tmr :: "('h, 'w) timers \<Rightarrow> ('h, 'w) timers option"
  tcp_pcbs :: "'w \<Rightarrow> bool"

definition LWIP_MAX_TIMEOUT :: u32 where
  "LWIP_MAX_TIMEOUT = 0x7fffffff"

definition TIME_LESS_THAN :: "u32 \<Rightarrow> u32 \<Rightarrow> bool" where
  "TIME_LESS_THAN t compare_to \<longleftrightarrow> t - compare_to > LWIP_MAX_TIMEOUT"

definition TCP_TMR_INTERVAL :: u32 where
  "TCP_TMR_INTERVAL = 250"

definition SYS_TIMEOUTS_SLEEPTIME_INFINITE :: u32 where
  "SYS_TIMEOUTS_SLEEPTIME_INFINITE = 0xFFFFFFFF"

definition read_clock :: "('h, 'w) timers_env \<Rightarrow> ('h, 'w) timers \<Rightarrow> u32 \<times> ('h, 'w) timers" where
  "read_clock e s = (let (now, w) = sys_now e (world s) in (now, s\<lparr>world := w\<rparr>))"

section \<open>Starting and stopping timers\<close>

text \<open>The element after which a timer due at \<open>time\<close> goes.\<close>

partial_function (option) insert_pos :: "(addr \<rightharpoonup> 'h sys_timeo) \<Rightarrow> u32 \<Rightarrow> addr \<Rightarrow> addr option" where
  "insert_pos m time t =
     (if t \<noteq> 0 then
        do {
          b \<leftarrow> m t;
          here \<leftarrow> (if tmo_next b = 0 then Some True
                   else do { nb \<leftarrow> m (tmo_next b); Some (TIME_LESS_THAN time (tmo_time nb)) });
          if here then Some t else insert_pos m time (tmo_next b)
        }
      else Some 0)"

definition link_timeout ::
  "u32 \<Rightarrow> 'h sys_timeout_handler \<Rightarrow> addr \<Rightarrow> addr \<Rightarrow> ('h, 'w) timers \<Rightarrow> ('h, 'w) timers option" where
  "link_timeout abs_time handler arg timeout s =
     (let s = s\<lparr>timeos := (timeos s)(timeout \<mapsto> \<lparr>tmo_next = 0, tmo_time = abs_time, tmo_h = handler, tmo_arg = arg\<rparr>)\<rparr> in
      if next_timeout s = 0 then Some (s\<lparr>next_timeout := timeout\<rparr>)
      else
        do {
          nt \<leftarrow> timeos s (next_timeout s);
          tb \<leftarrow> timeos s timeout;
          if TIME_LESS_THAN (tmo_time tb) (tmo_time nt) then
            Some (s\<lparr>timeos := (timeos s)(timeout \<mapsto> tb\<lparr>tmo_next := next_timeout s\<rparr>), next_timeout := timeout\<rparr>)
          else
            do {
              t \<leftarrow> insert_pos (timeos s) (tmo_time tb) (next_timeout s);
              if t = 0 then Some s
              else
                do {
                  b \<leftarrow> timeos s t;
                  Some (s\<lparr>timeos := (timeos s)(timeout \<mapsto> tb\<lparr>tmo_next := tmo_next b\<rparr>, t \<mapsto> b\<lparr>tmo_next := timeout\<rparr>)\<rparr>)
                }
            }
        })"

definition sys_timeout_abs ::
  "('h, 'w) timers_env \<Rightarrow> u32 \<Rightarrow> 'h sys_timeout_handler \<Rightarrow> addr \<Rightarrow> ('h, 'w) timers \<Rightarrow> ('h, 'w) timers option" where
  "sys_timeout_abs e abs_time handler arg s =
     do {
       (timeout, pools) \<leftarrow> memp_malloc (tmemcfg e) MEMP_SYS_TIMEOUT (tpools s);
       lwip_assert (timeout \<noteq> 0);
       link_timeout abs_time handler arg timeout (s\<lparr>tpools := pools\<rparr>)
     }"

definition sys_timeout ::
  "('h, 'w) timers_env \<Rightarrow> u32 \<Rightarrow> 'h sys_timeout_handler \<Rightarrow> addr \<Rightarrow> ('h, 'w) timers \<Rightarrow> ('h, 'w) timers option" where
  "sys_timeout e msecs handler arg s =
     do {
       lwip_assert (msecs \<le> 0xffffffff div 4);
       let (now, s) = read_clock e s;
       sys_timeout_abs e (now + msecs) handler arg s
     }"

text \<open>The search for the first entry with this handler and argument, with the element before it.\<close>

partial_function (option) untimeout_find ::
  "(addr \<rightharpoonup> 'h sys_timeo) \<Rightarrow> 'h sys_timeout_handler \<Rightarrow> addr \<Rightarrow> addr \<Rightarrow> addr \<Rightarrow> (addr \<times> addr) option" where
  "untimeout_find m handler arg prev_t t =
     (if t \<noteq> 0 then
        do {
          b \<leftarrow> m t;
          if tmo_h b = handler \<and> tmo_arg b = arg then Some (prev_t, t)
          else untimeout_find m handler arg t (tmo_next b)
        }
      else Some (prev_t, 0))"

definition sys_untimeout ::
  "('h, 'w) timers_env \<Rightarrow> 'h sys_timeout_handler \<Rightarrow> addr \<Rightarrow> ('h, 'w) timers \<Rightarrow> ('h, 'w) timers option" where
  "sys_untimeout e handler arg s =
     (if next_timeout s = 0 then Some s
      else
        do {
          (prev_t, t) \<leftarrow> untimeout_find (timeos s) handler arg 0 (next_timeout s);
          if t = 0 then Some s
          else
            do {
              b \<leftarrow> timeos s t;
              s \<leftarrow> (if prev_t = 0 then Some (s\<lparr>next_timeout := tmo_next b\<rparr>)
                    else
                      do {
                        pb \<leftarrow> timeos s prev_t;
                        Some (s\<lparr>timeos := (timeos s)(prev_t \<mapsto> pb\<lparr>tmo_next := tmo_next b\<rparr>)\<rparr>)
                      });
              pools \<leftarrow> memp_free (tmemcfg e) MEMP_SYS_TIMEOUT t (tpools s);
              Some (s\<lparr>tpools := pools, timeos := (timeos s)(t := None)\<rparr>)
            }
        })"

section \<open>The timers of the stack\<close>

definition tcpip_tcp_timer :: "('h, 'w) timers_env \<Rightarrow> addr \<Rightarrow> ('h, 'w) timers \<Rightarrow> ('h, 'w) timers option" where
  "tcpip_tcp_timer e arg s =
     do {
       s \<leftarrow> tcp_tmr e s;
       if tcp_pcbs e (world s) then sys_timeout e TCP_TMR_INTERVAL TCPIP_TCP_TIMER 0 s
       else Some (s\<lparr>tcpip_tcp_timer_active := False\<rparr>)
     }"

definition tcp_timer_needed :: "('h, 'w) timers_env \<Rightarrow> ('h, 'w) timers \<Rightarrow> ('h, 'w) timers option" where
  "tcp_timer_needed e s =
     (if \<not> tcpip_tcp_timer_active s \<and> tcp_pcbs e (world s)
      then sys_timeout e TCP_TMR_INTERVAL TCPIP_TCP_TIMER 0 (s\<lparr>tcpip_tcp_timer_active := True\<rparr>)
      else Some s)"

definition lwip_cyclic_timer :: "('h, 'w) timers_env \<Rightarrow> addr \<Rightarrow> ('h, 'w) timers \<Rightarrow> ('h, 'w) timers option" where
  "lwip_cyclic_timer e arg s =
     do {
       lwip_assert (arg < length (cyclic_timers e));
       let (interval_ms, handler) = cyclic_timers e ! arg;
       s \<leftarrow> handler s;
       let (now, s) = read_clock e s;
       let next_timeout_time = current_timeout_due_time s + interval_ms;
       if TIME_LESS_THAN next_timeout_time now then sys_timeout_abs e (now + interval_ms) LWIP_CYCLIC_TIMER arg s
       else sys_timeout_abs e next_timeout_time LWIP_CYCLIC_TIMER arg s
     }"

fun timeouts_init_loop :: "('h, 'w) timers_env \<Rightarrow> addr list \<Rightarrow> ('h, 'w) timers \<Rightarrow> ('h, 'w) timers option" where
  "timeouts_init_loop e [] s = Some s"
| "timeouts_init_loop e (i # is) s =
     do { s \<leftarrow> sys_timeout e (fst (cyclic_timers e ! i)) LWIP_CYCLIC_TIMER i s; timeouts_init_loop e is s }"

text \<open>With TCP the first entry of the table, the TCP timer, is started on demand.\<close>

definition sys_timeouts_init :: "('h, 'w) timers_env \<Rightarrow> ('h, 'w) timers \<Rightarrow> ('h, 'w) timers option" where
  "sys_timeouts_init e s = timeouts_init_loop e [1..<length (cyclic_timers e)] s"

section \<open>Running timers\<close>

definition run_handler ::
  "('h, 'w) timers_env \<Rightarrow> 'h sys_timeout_handler \<Rightarrow> addr \<Rightarrow> ('h, 'w) timers \<Rightarrow> ('h, 'w) timers option" where
  "run_handler e h arg s =
     (case h of
        NULL_HANDLER \<Rightarrow> Some s
      | LWIP_CYCLIC_TIMER \<Rightarrow> lwip_cyclic_timer e arg s
      | TCPIP_TCP_TIMER \<Rightarrow> tcpip_tcp_timer e arg s
      | HANDLER f \<Rightarrow> run_client e f arg s)"

partial_function (option) check_timeouts_loop ::
  "('h, 'w) timers_env \<Rightarrow> u32 \<Rightarrow> ('h, 'w) timers \<Rightarrow> ('h, 'w) timers option" where
  "check_timeouts_loop e now s =
     (if next_timeout s = 0 then Some s
      else
        do {
          tmptimeout \<leftarrow> timeos s (next_timeout s);
          if TIME_LESS_THAN now (tmo_time tmptimeout) then Some s
          else
            do {
              pools \<leftarrow> memp_free (tmemcfg e) MEMP_SYS_TIMEOUT (next_timeout s) (tpools s);
              s \<leftarrow> run_handler e (tmo_h tmptimeout) (tmo_arg tmptimeout)
                (s\<lparr>tpools := pools, timeos := (timeos s)(next_timeout s := None), next_timeout := tmo_next tmptimeout,
                   current_timeout_due_time := tmo_time tmptimeout\<rparr>);
              check_timeouts_loop e now s
            }
        })"

definition sys_check_timeouts :: "('h, 'w) timers_env \<Rightarrow> ('h, 'w) timers \<Rightarrow> ('h, 'w) timers option" where
  "sys_check_timeouts e s = (let (now, s) = read_clock e s in check_timeouts_loop e now s)"

partial_function (option) rebase_loop ::
  "u32 \<Rightarrow> u32 \<Rightarrow> addr \<Rightarrow> (addr \<rightharpoonup> 'h sys_timeo) \<Rightarrow> (addr \<rightharpoonup> 'h sys_timeo) option" where
  "rebase_loop base now t m =
     (if t \<noteq> 0 then
        do { b \<leftarrow> m t; rebase_loop base now (tmo_next b) (m(t \<mapsto> b\<lparr>tmo_time := (tmo_time b - base) + now\<rparr>)) }
      else Some m)"

definition sys_restart_timeouts :: "('h, 'w) timers_env \<Rightarrow> ('h, 'w) timers \<Rightarrow> ('h, 'w) timers option" where
  "sys_restart_timeouts e s =
     (if next_timeout s = 0 then Some s
      else
        do {
          let (now, s) = read_clock e s;
          b \<leftarrow> timeos s (next_timeout s);
          m \<leftarrow> rebase_loop (tmo_time b) now (next_timeout s) (timeos s);
          Some (s\<lparr>timeos := m\<rparr>)
        })"

definition sys_timeouts_sleeptime :: "('h, 'w) timers_env \<Rightarrow> ('h, 'w) timers \<Rightarrow> (u32 \<times> ('h, 'w) timers) option" where
  "sys_timeouts_sleeptime e s =
     (if next_timeout s = 0 then Some (SYS_TIMEOUTS_SLEEPTIME_INFINITE, s)
      else
        do {
          let (now, s) = read_clock e s;
          b \<leftarrow> timeos s (next_timeout s);
          if TIME_LESS_THAN (tmo_time b) now then Some (0, s)
          else
            do {
              let ret = tmo_time b - now;
              lwip_assert (ret \<le> LWIP_MAX_TIMEOUT);
              Some (ret, s)
            }
        })"

section \<open>Time with wrap-around\<close>

text \<open>The age of a time relative to a base; times within half the range of the base compare like their ages.\<close>

definition age :: "u32 \<Rightarrow> u32 \<Rightarrow> nat" where
  "age base t = unat (t - base)"

definition near :: "u32 \<Rightarrow> u32 \<Rightarrow> bool" where
  "near base t \<longleftrightarrow> age base t < 2 ^ 31"

lemma unat_diff_u32: "unat (a - b) = (if unat b \<le> unat a then unat a - unat b else unat a + 2 ^ 32 - unat b)" for a b :: u32
  by (subst unat_sub_if_size) (simp add: word_size)

lemma less_max_iff: "x > LWIP_MAX_TIMEOUT \<longleftrightarrow> 2 ^ 31 \<le> unat x"
  by (simp add: LWIP_MAX_TIMEOUT_def word_less_nat_alt) linarith

lemma TIME_LESS_THAN_age:
  assumes "near base s" "near base t"
  shows "TIME_LESS_THAN s t \<longleftrightarrow> age base s < age base t"
proof -
  have "s - t = (s - base) - (t - base)" by simp
  then have "unat (s - t) = (if age base t \<le> age base s then age base s - age base t else age base s + 2 ^ 32 - age base t)"
    unfolding age_def by (simp only: unat_diff_u32 [of "s - base" "t - base"])
  then show ?thesis using assms unfolding TIME_LESS_THAN_def less_max_iff near_def by auto
qed

section \<open>The list of timers\<close>

fun tlist :: "(addr \<rightharpoonup> 'h sys_timeo) \<Rightarrow> addr \<Rightarrow> addr list \<Rightarrow> addr \<Rightarrow> bool" where
  "tlist m p [] q \<longleftrightarrow> p = q"
| "tlist m p (x # xs) q \<longleftrightarrow> p = x \<and> x \<noteq> 0 \<and> (\<exists>b. m x = Some b \<and> tlist m (tmo_next b) xs q)"

lemma tlist_append [simp]: "tlist m p (xs @ ys) q \<longleftrightarrow> (\<exists>r. tlist m p xs r \<and> tlist m r ys q)"
  by (induction xs arbitrary: p) auto

lemma tlist_cong: "(\<And>x. x \<in> set xs \<Longrightarrow> m x = m' x) \<Longrightarrow> tlist m p xs q = tlist m' p xs q"
  by (induction xs arbitrary: p) auto

lemma tlist_upd [simp]: "x \<notin> set xs \<Longrightarrow> tlist (m(x := v)) p xs q = tlist m p xs q"
  by (rule tlist_cong) auto

lemma tlist_0: "tlist m p xs 0 \<Longrightarrow> p = 0 \<longleftrightarrow> xs = []"
  by (cases xs) auto

lemma tlist_nz: "tlist m p xs q \<Longrightarrow> 0 \<notin> set xs"
  by (induction xs arbitrary: p) auto

text \<open>What a timer stands for: its due time, handler and argument.\<close>

definition entry :: "(addr \<rightharpoonup> 'h sys_timeo) \<Rightarrow> addr \<Rightarrow> u32 \<times> 'h sys_timeout_handler \<times> addr" where
  "entry m x = (tmo_time (the (m x)), tmo_h (the (m x)), tmo_arg (the (m x)))"

abbreviation due :: "(addr \<rightharpoonup> 'h sys_timeo) \<Rightarrow> addr \<Rightarrow> u32" where
  "due m x \<equiv> tmo_time (the (m x))"

definition in_order :: "u32 \<Rightarrow> (addr \<rightharpoonup> 'h sys_timeo) \<Rightarrow> addr list \<Rightarrow> bool" where
  "in_order base m xs \<longleftrightarrow> sorted (map (\<lambda>x. age base (due m x)) xs) \<and> (\<forall>x\<in>set xs. near base (due m x))"

lemma in_order_simps [simp]:
  "in_order base m []"
  "in_order base m (x # xs) \<longleftrightarrow> near base (due m x) \<and> (\<forall>y\<in>set xs. age base (due m x) \<le> age base (due m y)) \<and> in_order base m xs"
  by (auto simp: in_order_def)

lemma in_order_append:
  "in_order base m (xs @ ys) \<longleftrightarrow> in_order base m xs \<and> in_order base m ys \<and>
     (\<forall>x\<in>set xs. \<forall>y\<in>set ys. age base (due m x) \<le> age base (due m y))"
  by (auto simp: in_order_def sorted_append)

lemma in_order_cong: "(\<And>x. x \<in> set xs \<Longrightarrow> due m x = due m' x) \<Longrightarrow> in_order base m xs = in_order base m' xs"
  by (induction xs) auto

lemma insert_pos_spec:
  assumes "tlist m t (x # xs) 0" "in_order base m (x # xs)" "near base time" "age base (due m x) \<le> age base time"
  shows "\<exists>ys y zs. x # xs = ys @ y # zs \<and> insert_pos m time t = Some y \<and>
    (\<forall>u\<in>set (ys @ [y]). age base (due m u) \<le> age base time) \<and> (\<forall>u\<in>set zs. age base time < age base (due m u))"
  using assms
proof (induction xs arbitrary: t x)
  case Nil
  then have "insert_pos m time t = Some x" by (subst insert_pos.simps) auto
  then show ?case using Nil by (intro exI [of _ "[]"]) auto
next
  case (Cons z zs)
  obtain b c where b: "t = x" "x \<noteq> 0" "m x = Some b" "tmo_next b = z" "z \<noteq> 0" "m z = Some c" "tlist m z (z # zs) 0"
    using Cons.prems(1) by auto
  have z: "near base (due m z)" using Cons.prems(2) by simp
  show ?case
  proof (cases "age base time < age base (due m z)")
    case True
    then have "insert_pos m time t = Some x"
      using b TIME_LESS_THAN_age [OF Cons.prems(3) z] by (subst insert_pos.simps) simp
    moreover have "\<forall>u\<in>set (z # zs). age base time < age base (due m u)" using True Cons.prems(2) by auto
    ultimately show ?thesis using Cons.prems(4) by (intro exI [of _ "[]"] exI [of _ x] exI [of _ "z # zs"]) simp
  next
    case False
    then have e: "insert_pos m time t = insert_pos m time z"
      using b TIME_LESS_THAN_age [OF Cons.prems(3) z] by (subst insert_pos.simps) simp
    obtain ys y ws where "z # zs = ys @ y # ws" "insert_pos m time z = Some y"
      "\<forall>u\<in>set (ys @ [y]). age base (due m u) \<le> age base time" "\<forall>u\<in>set ws. age base time < age base (due m u)"
      using Cons.IH [OF b(7) _ Cons.prems(3)] Cons.prems(2) False by auto
    then show ?thesis using e Cons.prems(4) by (intro exI [of _ "x # ys"] exI [of _ y] exI [of _ ws]) simp
  qed
qed

lemma link_spec:
  assumes l: "tlist (timeos s) (next_timeout s) xs 0" "distinct xs" and n: "n \<noteq> 0" "n \<notin> set xs"
    and o: "in_order base (timeos s) xs" "near base time"
  shows "\<exists>m nt ys zs. link_timeout time h arg n s = Some (s\<lparr>timeos := m, next_timeout := nt\<rparr>) \<and>
    xs = ys @ zs \<and> tlist m nt (ys @ n # zs) 0 \<and> entry m n = (time, h, arg) \<and> (\<forall>x\<in>set xs. entry m x = entry (timeos s) x) \<and>
    (\<forall>y\<in>set ys. age base (due (timeos s) y) \<le> age base time) \<and> (\<forall>z\<in>set zs. age base time < age base (due (timeos s) z)) \<and>
    (\<forall>x. x \<noteq> n \<and> x \<notin> set xs \<longrightarrow> m x = timeos s x)"
proof (cases xs)
  case Nil
  then show ?thesis using l n by (auto simp: link_timeout_def entry_def Let_def intro!: exI [of _ "[]"])
next
  case (Cons x ws)
  let ?tb = "\<lparr>tmo_next = 0, tmo_time = time, tmo_h = h, tmo_arg = arg\<rparr>"
  let ?m = "(timeos s)(n \<mapsto> ?tb)"
  obtain b where b: "next_timeout s = x" "x \<noteq> 0" "timeos s x = Some b" using l(1) Cons by auto
  have nx: "near base (due (timeos s) x)" using o(1) Cons by simp
  have tl: "tlist ?m x xs 0" using l n b by simp
  have io: "in_order base ?m xs" by (subst in_order_cong [of xs ?m "timeos s"]) (use o(1) n in auto)
  show ?thesis
  proof (cases "age base time < age base (due (timeos s) x)")
    case True
    then have "link_timeout time h arg n s =
        Some (s\<lparr>timeos := ?m(n \<mapsto> ?tb\<lparr>tmo_next := x\<rparr>), next_timeout := n\<rparr>)"
      using b n Cons TIME_LESS_THAN_age [OF o(2) nx] by (auto simp: link_timeout_def Let_def)
    moreover have "\<forall>z\<in>set xs. age base time < age base (due (timeos s) z)" using True o(1) Cons by auto
    ultimately show ?thesis
      using tl n b by (intro exI [of _ "?m(n \<mapsto> ?tb\<lparr>tmo_next := x\<rparr>)"] exI [of _ n] exI [of _ "[]"] exI [of _ xs])
        (auto simp: entry_def)
  next
    case False
    then have le: "age base (due ?m x) \<le> age base time" using n Cons by auto
    obtain ys y zs where y: "xs = ys @ y # zs" "insert_pos ?m time x = Some y"
      "\<forall>u\<in>set (ys @ [y]). age base (due ?m u) \<le> age base time" "\<forall>u\<in>set zs. age base time < age base (due ?m u)"
      using insert_pos_spec [of ?m x x ws base time] tl io le o(2) unfolding Cons by blast
    obtain c where c: "timeos s y = Some c" "y \<noteq> 0" "y \<noteq> n" "tlist (timeos s) (tmo_next c) zs 0"
      using l(1) n unfolding y(1) by auto
    let ?m' = "?m(n \<mapsto> ?tb\<lparr>tmo_next := tmo_next c\<rparr>, y \<mapsto> c\<lparr>tmo_next := n\<rparr>)"
    have "link_timeout time h arg n s = Some (s\<lparr>timeos := ?m'\<rparr>)"
      using b n Cons False y(2) c TIME_LESS_THAN_age [OF o(2) nx] by (auto simp: link_timeout_def Let_def)
    moreover have "tlist ?m' x ((ys @ [y]) @ n # zs) 0"
      using l n b c(4) unfolding y(1) by (auto simp: fun_upd_twist)
    moreover
    have eq: "due ?m u = due (timeos s) u" if "u \<in> set xs" for u using that n by auto
    have "\<forall>u\<in>set (ys @ [y]). age base (due (timeos s) u) \<le> age base time"
      "\<forall>u\<in>set zs. age base time < age base (due (timeos s) u)"
    proof -
      have "age base (due (timeos s) u) \<le> age base time" if u: "u \<in> set (ys @ [y])" for u
      proof -
        have "u \<in> set xs" using u y(1) by auto
        then show ?thesis using bspec [OF y(3) u] by (simp only: eq)
      qed
      then show "\<forall>u\<in>set (ys @ [y]). age base (due (timeos s) u) \<le> age base time" by blast
      have "age base time < age base (due (timeos s) u)" if u: "u \<in> set zs" for u
      proof -
        have "u \<in> set xs" using u y(1) by auto
        then show ?thesis using bspec [OF y(4) u] by (simp only: eq)
      qed
      then show "\<forall>u\<in>set zs. age base time < age base (due (timeos s) u)" by blast
    qed
    moreover have "entry ?m' n = (time, h, arg)" "\<forall>u\<in>set xs. entry ?m' u = entry (timeos s) u"
      "\<forall>u. u \<noteq> n \<and> u \<notin> set xs \<longrightarrow> ?m' u = timeos s u"
      using n c y(1) by (auto simp: entry_def)
    ultimately show ?thesis
      using y(1) b(1) by (intro exI [of _ ?m'] exI [of _ x] exI [of _ "ys @ [y]"] exI [of _ zs]) simp
  qed
qed

section \<open>The queue of timers\<close>

text \<open>
  The list of timers \<open>xs\<close> and the free elements \<open>fs\<close> of the pool; \<open>tqueue\<close> is the queue of due times, handlers and
  arguments it stands for.
\<close>

definition timers_ok :: "mem_cfg \<Rightarrow> memp_desc \<Rightarrow> ('h, 'w) timers \<Rightarrow> addr list \<Rightarrow> addr list \<Rightarrow> bool" where
  "timers_ok c desc s xs fs \<longleftrightarrow>
     desc_ok c desc \<and> pool_rep c desc (tpools s MEMP_SYS_TIMEOUT) fs \<and>
     tlist (timeos s) (next_timeout s) xs 0 \<and> distinct xs \<and> set xs \<subseteq> elems c desc \<and> set xs \<inter> set fs = {}"

type_synonym 'h tentry = "u32 \<times> 'h sys_timeout_handler \<times> addr"

definition tqueue :: "('h, 'w) timers \<Rightarrow> addr list \<Rightarrow> 'h tentry list" where
  "tqueue s xs = map (entry (timeos s)) xs"

definition queue_ordered :: "u32 \<Rightarrow> 'h tentry list \<Rightarrow> bool" where
  "queue_ordered base es \<longleftrightarrow> sorted (map (\<lambda>e. age base (fst e)) es) \<and> (\<forall>e\<in>set es. near base (fst e))"

text \<open>Where a new timer goes: behind all that are not due later.\<close>

definition place :: "u32 \<Rightarrow> 'h tentry \<Rightarrow> 'h tentry list \<Rightarrow> 'h tentry list" where
  "place base n es = takeWhile (\<lambda>e. age base (fst e) \<le> age base (fst n)) es @ n #
     dropWhile (\<lambda>e. age base (fst e) \<le> age base (fst n)) es"

lemma queue_ordered_tqueue: "queue_ordered base (tqueue s xs) \<longleftrightarrow> in_order base (timeos s) xs"
  by (simp add: queue_ordered_def tqueue_def in_order_def entry_def o_def)

lemma queue_ordered_place:
  assumes "queue_ordered base es" "near base (fst n)"
  shows "queue_ordered base (place base n es)"
proof -
  let ?f = "\<lambda>e :: 'a tentry. age base (fst e)"
  let ?P = "\<lambda>e. ?f e \<le> ?f n"
  let ?t = "takeWhile ?P es" and ?d = "dropWhile ?P es"
  have "sorted (map ?f (?t @ ?d))" using assms(1) unfolding queue_ordered_def by simp
  then have s: "sorted (map ?f ?t)" "sorted (map ?f ?d)" unfolding map_append sorted_append by blast+
  have t: "?f x \<le> ?f n" if "x \<in> set ?t" for x using that by (auto dest: set_takeWhileD)
  have d: "?f n \<le> ?f y" if y: "y \<in> set ?d" for y
  proof -
    obtain z zs where z: "?d = z # zs" using y by (cases ?d) auto
    then have "?f n < ?f z" by (simp add: dropWhile_eq_Cons_conv)
    moreover have "?f z \<le> ?f y" using s(2) y unfolding z by auto
    ultimately show ?thesis by simp
  qed
  have "?f x \<le> ?f y" if "x \<in> set ?t" "y \<in> set ?d" for x y
    using t [OF that(1)] d [OF that(2)] by (rule order_trans)
  then have "sorted (map ?f (?t @ n # ?d))"
    unfolding map_append sorted_append list.map sorted_simps list.set set_map using s t d by blast
  moreover have "set (?t @ n # ?d) \<subseteq> insert n (set es)" by (auto dest: set_takeWhileD set_dropWhileD)
  ultimately show ?thesis using assms unfolding queue_ordered_def place_def by blast
qed

lemma place_eq:
  assumes "\<forall>y\<in>set ys. age base (fst y) \<le> age base (fst n)" "\<forall>z\<in>set zs. age base (fst n) < age base (fst z)"
  shows "place base n (ys @ zs) = ys @ n # zs"
  using assms by (cases zs) (auto simp: place_def takeWhile_append2 dropWhile_append2)

lemma timeout_abs_spec:
  assumes ok: "timers_ok (tmemcfg e) desc s xs (f # fs)"
    and o: "queue_ordered base (tqueue s xs)" "near base time"
  shows "\<exists>s' ys. sys_timeout_abs e time h arg s = Some s' \<and> timers_ok (tmemcfg e) desc s' ys fs \<and>
    tqueue s' ys = place base (time, h, arg) (tqueue s xs) \<and> world s' = world s \<and>
    (\<forall>t. t \<noteq> MEMP_SYS_TIMEOUT \<longrightarrow> tpools s' t = tpools s t) \<and>
    current_timeout_due_time s' = current_timeout_due_time s \<and> tcpip_tcp_timer_active s' = tcpip_tcp_timer_active s"
proof -
  let ?c = "tmemcfg e"
  have k: "desc_ok ?c desc" "pool_rep ?c desc (tpools s MEMP_SYS_TIMEOUT) (f # fs)" "tlist (timeos s) (next_timeout s) xs 0"
    "distinct xs" "set xs \<subseteq> elems ?c desc" "set xs \<inter> set (f # fs) = {}" using ok by (auto simp: timers_ok_def)
  obtain pool where p: "do_memp_malloc_pool ?c (tpools s MEMP_SYS_TIMEOUT) = Some (f, pool)" "pool_rep ?c desc pool fs"
    using memp_malloc_Cons [OF k(1,2)] by blast
  have f: "f \<in> elems ?c desc" "f \<noteq> 0" "f \<notin> set xs" "f \<notin> set fs"
    using k(2,6) elem_facts(1) [OF k(1), of f] by (auto simp: pool_rep_def)
  let ?s = "s\<lparr>tpools := (tpools s)(MEMP_SYS_TIMEOUT := pool)\<rparr>"
  have io: "in_order base (timeos s) xs" using o(1) by (simp add: queue_ordered_tqueue)
  obtain m nt ys zs where l: "link_timeout time h arg f ?s = Some (?s\<lparr>timeos := m, next_timeout := nt\<rparr>)"
    "xs = ys @ zs" "tlist m nt (ys @ f # zs) 0" "entry m f = (time, h, arg)" "\<forall>x\<in>set xs. entry m x = entry (timeos s) x"
    "\<forall>y\<in>set ys. age base (due (timeos s) y) \<le> age base time" "\<forall>z\<in>set zs. age base time < age base (due (timeos s) z)"
    using link_spec [of ?s xs f base time h arg] k(3,4) f io o(2) by auto
  let ?s' = "?s\<lparr>timeos := m, next_timeout := nt\<rparr>"
  have "sys_timeout_abs e time h arg s = Some ?s'"
    using p(1) f(2) l(1) by (simp add: sys_timeout_abs_def memp_malloc_def)
  moreover have "timers_ok ?c desc ?s' (ys @ f # zs) fs"
    using k p(2) f l(2,3) by (auto simp: timers_ok_def)
  moreover have "tqueue ?s' (ys @ f # zs) = place base (time, h, arg) (tqueue s xs)"
    using l(2,4,5,6,7) place_eq [of "map (entry (timeos s)) ys" base "(time, h, arg)" "map (entry (timeos s)) zs"]
    by (simp add: tqueue_def entry_def)
  ultimately show ?thesis by (intro exI [of _ ?s'] exI [of _ "ys @ f # zs"]) simp
qed

lemma timeout_abs_empty:
  assumes "timers_ok (tmemcfg e) desc s xs []"
  shows "sys_timeout_abs e time h arg s = None"
  using assms memp_malloc_Nil [of "tmemcfg e" desc "tpools s MEMP_SYS_TIMEOUT"]
  by (simp add: timers_ok_def sys_timeout_abs_def memp_malloc_def)

text \<open>Reading the clock changes only the world outside.\<close>

lemma read_clock_simps:
  assumes "read_clock e s = (now, s')"
  shows "s' = s\<lparr>world := snd (sys_now e (world s))\<rparr>" "now = fst (sys_now e (world s))"
  using assms by (auto simp: read_clock_def split: prod.splits)

lemma timers_ok_world [simp]:
  "timers_ok c desc (s\<lparr>world := w\<rparr>) xs fs = timers_ok c desc s xs fs" "tqueue (s\<lparr>world := w\<rparr>) xs = tqueue s xs"
  "timers_ok c desc (s\<lparr>current_timeout_due_time := d\<rparr>) xs fs = timers_ok c desc s xs fs"
  "tqueue (s\<lparr>current_timeout_due_time := d\<rparr>) xs = tqueue s xs"
  by (simp_all add: timers_ok_def tqueue_def)

text \<open>
  C14: \<^verbatim>\<open>sys_timeout\<close> takes an element of the pool and puts the timer into the list behind all timers that are not due
  later, so that the list stays ordered by due time although times wrap around; it fails its assertion exactly when
  the pool is empty.
\<close>

theorem sys_timeout_correct:
  assumes "timers_ok (tmemcfg e) desc s xs fs" "msecs \<le> 0x3fffffff"
    and "queue_ordered base (tqueue s xs)" "near base (fst (sys_now e (world s)) + msecs)"
  shows "case fs of
      [] \<Rightarrow> sys_timeout e msecs h arg s = None
    | f # fs' \<Rightarrow> \<exists>s' ys. sys_timeout e msecs h arg s = Some s' \<and> timers_ok (tmemcfg e) desc s' ys fs' \<and>
        tqueue s' ys = place base (fst (sys_now e (world s)) + msecs, h, arg) (tqueue s xs) \<and>
        queue_ordered base (tqueue s' ys)"
proof -
  let ?s = "s\<lparr>world := snd (sys_now e (world s))\<rparr>" and ?t = "fst (sys_now e (world s)) + msecs"
  have e: "sys_timeout e msecs h arg s = sys_timeout_abs e ?t h arg ?s"
    using assms(2) by (simp add: sys_timeout_def read_clock_def split: prod.splits)
  show ?thesis
  proof (cases fs)
    case Nil
    then show ?thesis using e assms(1) timeout_abs_empty [of e desc ?s xs] by simp
  next
    case (Cons f fs')
    then obtain s' ys where "sys_timeout_abs e ?t h arg ?s = Some s'" "timers_ok (tmemcfg e) desc s' ys fs'"
      "tqueue s' ys = place base (?t, h, arg) (tqueue s xs)"
      using timeout_abs_spec [of e desc ?s xs f fs' base ?t h arg] assms(1,3,4) by auto
    moreover from this(3) have "queue_ordered base (tqueue s' ys)"
      using queue_ordered_place [OF assms(3)] assms(4) by simp
    ultimately show ?thesis using e Cons by auto
  qed
qed

subsection \<open>Removing a timer\<close>

fun remove_first :: "('a \<Rightarrow> bool) \<Rightarrow> 'a list \<Rightarrow> 'a list" where
  "remove_first P [] = []"
| "remove_first P (x # xs) = (if P x then xs else x # remove_first P xs)"

lemma remove_first_append: "\<forall>x\<in>set xs. \<not> P x \<Longrightarrow> remove_first P (xs @ ys) = xs @ remove_first P ys"
  by (induction xs) auto

lemma remove_first_none: "\<forall>x\<in>set xs. \<not> P x \<Longrightarrow> remove_first P xs = xs"
  by (induction xs) auto

lemma untimeout_find_spec:
  assumes "tlist m t xs 0"
  shows "(\<exists>ys y zs. xs = ys @ y # zs \<and> untimeout_find m h arg pt t = Some (last (pt # ys), y) \<and>
      snd (entry m y) = (h, arg) \<and> (\<forall>u\<in>set ys. snd (entry m u) \<noteq> (h, arg))) \<or>
    (\<exists>pt'. untimeout_find m h arg pt t = Some (pt', 0)) \<and> (\<forall>u\<in>set xs. snd (entry m u) \<noteq> (h, arg))"
  using assms
proof (induction xs arbitrary: t pt)
  case Nil
  then show ?case by (subst untimeout_find.simps) simp
next
  case (Cons x xs)
  obtain b where b: "t = x" "x \<noteq> 0" "m x = Some b" "tlist m (tmo_next b) xs 0" using Cons.prems by auto
  show ?case
  proof (cases "tmo_h b = h \<and> tmo_arg b = arg")
    case True
    then have "untimeout_find m h arg pt t = Some (last [pt], x)" using b by (subst untimeout_find.simps) simp
    then show ?thesis using True b by (intro disjI1 exI [of _ "[]"] exI [of _ x] exI [of _ xs]) (simp add: entry_def)
  next
    case False
    then have "untimeout_find m h arg pt t = untimeout_find m h arg x (tmo_next b)"
      using b by (subst untimeout_find.simps) auto
    moreover have "snd (entry m x) \<noteq> (h, arg)" using False b(3) by (auto simp: entry_def)
    ultimately have e: "untimeout_find m h arg pt t = untimeout_find m h arg x (tmo_next b)" "snd (entry m x) \<noteq> (h, arg)" .
    show ?thesis using Cons.IH [OF b(4), of x]
    proof (elim disjE exE conjE)
      fix ys y zs
      assume "xs = ys @ y # zs" "untimeout_find m h arg x (tmo_next b) = Some (last (x # ys), y)"
        "snd (entry m y) = (h, arg)" "\<forall>u\<in>set ys. snd (entry m u) \<noteq> (h, arg)"
      then show ?thesis using e by (intro disjI1 exI [of _ "x # ys"] exI [of _ y] exI [of _ zs]) simp
    next
      fix pt'
      assume "\<forall>u\<in>set xs. snd (entry m u) \<noteq> (h, arg)" "untimeout_find m h arg x (tmo_next b) = Some (pt', 0)"
      then show ?thesis using e by (intro disjI2) simp
    qed
  qed
qed

lemma pool_release:
  assumes "timers_ok c desc s (ys @ y # zs) fs" "tlist m nt (ys @ zs) 0"
  shows "\<exists>pool. memp_free c MEMP_SYS_TIMEOUT y (tpools s) = Some ((tpools s)(MEMP_SYS_TIMEOUT := pool)) \<and>
    timers_ok c desc (s\<lparr>tpools := (tpools s)(MEMP_SYS_TIMEOUT := pool), timeos := m(y := None), next_timeout := nt\<rparr>) (ys @ zs) (y # fs)"
proof -
  have k: "desc_ok c desc" "pool_rep c desc (tpools s MEMP_SYS_TIMEOUT) fs" "distinct (ys @ y # zs)"
    "set (ys @ y # zs) \<subseteq> elems c desc" "set (ys @ y # zs) \<inter> set fs = {}" using assms(1) by (auto simp: timers_ok_def)
  then obtain pool where p: "do_memp_free_pool c y (tpools s MEMP_SYS_TIMEOUT) = Some pool" "pool_rep c desc pool (y # fs)"
    using memp_free_rep [OF k(1,2), of y] by auto
  have "y \<noteq> 0" using elem_facts(1) [OF k(1), of y] k(4) by auto
  moreover have "y \<notin> set (ys @ zs)" using k(3) by auto
  then have "tlist (m(y := None)) nt (ys @ zs) 0" using assms(2) by (subst tlist_upd)
  ultimately show ?thesis using p k by (auto simp: memp_free_def timers_ok_def)
qed

lemma untimeout_unlink:
  assumes tl: "tlist (timeos s) (next_timeout s) (ys @ y # zs) 0" "distinct (ys @ y # zs)"
    and f: "untimeout_find (timeos s) h arg 0 (next_timeout s) = Some (last (0 # ys), y)"
  shows "\<exists>m nt. sys_untimeout e h arg s =
      do { pools \<leftarrow> memp_free (tmemcfg e) MEMP_SYS_TIMEOUT y (tpools s);
           Some (s\<lparr>tpools := pools, timeos := m(y := None), next_timeout := nt\<rparr>) } \<and>
    tlist m nt (ys @ zs) 0 \<and> (\<forall>u\<in>set (ys @ zs). entry m u = entry (timeos s) u)"
proof -
  obtain b where b: "timeos s y = Some b" "y \<noteq> 0" "tlist (timeos s) (tmo_next b) zs 0" using tl(1) by auto
  have nz: "next_timeout s \<noteq> 0" using tlist_0 [OF tl(1)] by simp
  show ?thesis
  proof (cases ys rule: rev_cases)
    case Nil
    then have "sys_untimeout e h arg s =
        do { pools \<leftarrow> memp_free (tmemcfg e) MEMP_SYS_TIMEOUT y (tpools s);
             Some (s\<lparr>tpools := pools, timeos := (timeos s)(y := None), next_timeout := tmo_next b\<rparr>) }"
      using f b nz by (cases s) (simp add: sys_untimeout_def)
    then show ?thesis using Nil b by auto
  next
    case (snoc ws w)
    obtain c where c: "timeos s w = Some c" "w \<noteq> 0" "w \<noteq> y" "tlist (timeos s) (next_timeout s) ws w" "w \<notin> set ws" "w \<notin> set zs"
      using tl snoc by auto
    let ?m = "(timeos s)(w \<mapsto> c\<lparr>tmo_next := tmo_next b\<rparr>)"
    have "sys_untimeout e h arg s =
        do { pools \<leftarrow> memp_free (tmemcfg e) MEMP_SYS_TIMEOUT y (tpools s);
             Some (s\<lparr>tpools := pools, timeos := ?m(y := None), next_timeout := next_timeout s\<rparr>) }"
      using f b c nz snoc by (cases s) (simp add: sys_untimeout_def)
    moreover have "tlist ?m (next_timeout s) (ys @ zs) 0" using c b snoc by auto
    moreover have "\<forall>u\<in>set (ys @ zs). entry ?m u = entry (timeos s) u" using c(1) by (auto simp: entry_def)
    ultimately show ?thesis by blast
  qed
qed

text \<open>
  C35: \<^verbatim>\<open>sys_untimeout\<close> removes the first timer with this handler and argument, whether or not it is the head of the
  list, and gives its element back to the pool; without such a timer nothing changes.
\<close>

theorem sys_untimeout_correct:
  assumes "timers_ok (tmemcfg e) desc s xs fs"
  shows "\<exists>s' ys gs. sys_untimeout e h arg s = Some s' \<and> timers_ok (tmemcfg e) desc s' ys gs \<and>
    tqueue s' ys = remove_first (\<lambda>t. snd t = (h, arg)) (tqueue s xs) \<and> length ys + length gs = length xs + length fs \<and>
    world s' = world s"
proof -
  have tl: "tlist (timeos s) (next_timeout s) xs 0" "distinct xs" using assms by (auto simp: timers_ok_def)
  from untimeout_find_spec [OF tl(1), of h arg 0] show ?thesis
  proof (elim disjE exE conjE)
    fix pt'
    assume n: "\<forall>u\<in>set xs. snd (entry (timeos s) u) \<noteq> (h, arg)"
      and f: "untimeout_find (timeos s) h arg 0 (next_timeout s) = Some (pt', 0)"
    have "sys_untimeout e h arg s = Some s" using f by (simp add: sys_untimeout_def)
    moreover have "remove_first (\<lambda>t. snd t = (h, arg)) (tqueue s xs) = tqueue s xs"
      using n by (intro remove_first_none) (auto simp: tqueue_def)
    ultimately show ?thesis using assms by (intro exI [of _ s] exI [of _ xs] exI [of _ fs]) simp
  next
    fix ys y zs
    assume xs: "xs = ys @ y # zs" and f: "untimeout_find (timeos s) h arg 0 (next_timeout s) = Some (last (0 # ys), y)"
      and y: "snd (entry (timeos s) y) = (h, arg)" and n: "\<forall>u\<in>set ys. snd (entry (timeos s) u) \<noteq> (h, arg)"
    have q: "remove_first (\<lambda>t. snd t = (h, arg)) (tqueue s xs) = tqueue s (ys @ zs)"
      using n y remove_first_append [of "tqueue s ys" "\<lambda>t. snd t = (h, arg)"] by (auto simp: tqueue_def xs)
    obtain m nt where m: "sys_untimeout e h arg s =
        do { pools \<leftarrow> memp_free (tmemcfg e) MEMP_SYS_TIMEOUT y (tpools s);
             Some (s\<lparr>tpools := pools, timeos := m(y := None), next_timeout := nt\<rparr>) }"
      "tlist m nt (ys @ zs) 0" "\<forall>u\<in>set (ys @ zs). entry m u = entry (timeos s) u"
      using untimeout_unlink [OF tl [unfolded xs] f] by blast
    obtain pool where p: "memp_free (tmemcfg e) MEMP_SYS_TIMEOUT y (tpools s) = Some ((tpools s)(MEMP_SYS_TIMEOUT := pool))"
      "timers_ok (tmemcfg e) desc
        (s\<lparr>tpools := (tpools s)(MEMP_SYS_TIMEOUT := pool), timeos := m(y := None), next_timeout := nt\<rparr>) (ys @ zs) (y # fs)"
      using pool_release [OF assms [unfolded xs] m(2)] by blast
    have "tqueue (s\<lparr>tpools := (tpools s)(MEMP_SYS_TIMEOUT := pool), timeos := m(y := None), next_timeout := nt\<rparr>) (ys @ zs) =
        tqueue s (ys @ zs)"
      using m(3) tl(2) xs by (auto simp: tqueue_def entry_def)
    then show ?thesis
      using m(1) p q xs by (intro exI [of _ "s\<lparr>tpools := (tpools s)(MEMP_SYS_TIMEOUT := pool), timeos := m(y := None), next_timeout := nt\<rparr>"]
        exI [of _ "ys @ zs"] exI [of _ "y # fs"]) simp
  qed
qed

section \<open>Running the timers that are due\<close>

text \<open>
  What the handlers do.  A handler of a client works on the world and may then set one timer with \<^verbatim>\<open>sys_timeout\<close>; the
  functions behind the cyclic timers and the TCP timer work on the world, and the module sets their timers
  again.
\<close>

record ('h, 'w) timer_clients =
  client_eff :: "'h \<Rightarrow> addr \<Rightarrow> 'w \<Rightarrow> 'w"
  client_arms :: "'h \<Rightarrow> addr \<Rightarrow> 'w \<Rightarrow> (u32 \<times> 'h sys_timeout_handler \<times> addr) option"
  cyclic_eff :: "addr \<Rightarrow> 'w \<Rightarrow> 'w"
  tcp_eff :: "'w \<Rightarrow> 'w"

definition clients_ok :: "('h, 'w) timers_env \<Rightarrow> ('h, 'w) timer_clients \<Rightarrow> bool" where
  "clients_ok e B \<longleftrightarrow>
     (\<forall>f a s. run_client e f a s =
        (let s' = s\<lparr>world := client_eff B f a (world s)\<rparr> in
         case client_arms B f a (world s) of None \<Rightarrow> Some s' | Some (msecs, h, b) \<Rightarrow> sys_timeout e msecs h b s')) \<and>
     (\<forall>f a w. case client_arms B f a w of None \<Rightarrow> True | Some (msecs, h, b) \<Rightarrow> msecs \<le> 0x3fffffff) \<and>
     (\<forall>i<length (cyclic_timers e). \<forall>s. snd (cyclic_timers e ! i) s = Some (s\<lparr>world := cyclic_eff B i (world s)\<rparr>)) \<and>
     (\<forall>s. tcp_tmr e s = Some (s\<lparr>world := tcp_eff B (world s)\<rparr>))"

text \<open>The timer that the handler of an entry sets, if any, and the world after the handler.\<close>

fun rearm :: "('h, 'w) timers_env \<Rightarrow> ('h, 'w) timer_clients \<Rightarrow> 'h tentry \<Rightarrow> 'w \<Rightarrow> 'h tentry option \<times> 'w" where
  "rearm e B (t, NULL_HANDLER, a) w = (None, w)"
| "rearm e B (t, HANDLER f, a) w =
     (case client_arms B f a w of
        None \<Rightarrow> (None, client_eff B f a w)
      | Some (msecs, h, b) \<Rightarrow> let (n, w') = sys_now e (client_eff B f a w) in (Some (n + msecs, h, b), w'))"
| "rearm e B (t, LWIP_CYCLIC_TIMER, a) w =
     (let i = fst (cyclic_timers e ! a); (n, w') = sys_now e (cyclic_eff B a w)
      in (Some (if TIME_LESS_THAN (t + i) n then n + i else t + i, LWIP_CYCLIC_TIMER, a), w'))"
| "rearm e B (t, TCPIP_TCP_TIMER, a) w =
     (let w1 = tcp_eff B w
      in if tcp_pcbs e w1 then let (n, w') = sys_now e w1 in (Some (n + TCP_TMR_INTERVAL, TCPIP_TCP_TIMER, 0), w')
         else (None, w1))"

text \<open>
  The timers that are due run one after the other; the queue receives the timers that they set.  There is no result when one
  of these is not due later than \<open>now\<close>, or for a cyclic timer that is not in the table.
\<close>

fun run_due ::
  "u32 \<Rightarrow> u32 \<Rightarrow> ('h, 'w) timers_env \<Rightarrow> ('h, 'w) timer_clients \<Rightarrow> 'h tentry list \<Rightarrow> 'h tentry list \<Rightarrow> 'w \<Rightarrow>
   ('h tentry list \<times> 'w) option" where
  "run_due base now e B [] q w = Some (q, w)"
| "run_due base now e B (d # ds) q w =
     (if fst (snd d) = LWIP_CYCLIC_TIMER \<and> length (cyclic_timers e) \<le> snd (snd d) then None
      else case rearm e B d w of
        (None, w') \<Rightarrow> run_due base now e B ds q w'
      | (Some n, w') \<Rightarrow>
          if age base now < age base (fst n) \<and> near base (fst n) then run_due base now e B ds (place base n q) w' else None)"

lemma timeout_now_spec:
  assumes "timers_ok (tmemcfg e) desc s xs (f # fs)" "queue_ordered base (tqueue s xs)" "msecs \<le> 0x3fffffff"
    and "sys_now e (world s) = (n, w)" "near base (n + msecs)"
  shows "\<exists>s' ys. sys_timeout e msecs h arg s = Some s' \<and> timers_ok (tmemcfg e) desc s' ys fs \<and>
    tqueue s' ys = place base (n + msecs, h, arg) (tqueue s xs) \<and> world s' = w"
  using timeout_abs_spec [of e desc "s\<lparr>world := w\<rparr>" xs f fs base "n + msecs" h arg] assms
  by (auto simp: sys_timeout_def read_clock_def)

lemma run_handler_spec:
  assumes B: "clients_ok e B" and ok: "timers_ok (tmemcfg e) desc s xs (f # fs)" and o: "queue_ordered base (tqueue s xs)"
    and t: "current_timeout_due_time s = t" and cy: "h = LWIP_CYCLIC_TIMER \<Longrightarrow> a < length (cyclic_timers e)"
    and r: "rearm e B (t, h, a) (world s) = (new, w)" and n: "\<And>n. new = Some n \<Longrightarrow> near base (fst n)"
  shows "\<exists>s' ys gs. run_handler e h a s = Some s' \<and> timers_ok (tmemcfg e) desc s' ys gs \<and> world s' = w \<and>
    tqueue s' ys = (case new of None \<Rightarrow> tqueue s xs | Some n \<Rightarrow> place base n (tqueue s xs)) \<and>
    length ys + length gs = length xs + length (f # fs)"
proof -
  have len: "length ys = Suc (length xs)" if "tqueue s' ys = place base n (tqueue s xs)" for s' :: "('a, 'b) timers" and ys n
  proof -
    have "length (takeWhile P es) + length (dropWhile P es) = length es" for P and es :: "'a tentry list"
      by (simp flip: length_append)
    then have "length (place base n (tqueue s xs)) = Suc (length (tqueue s xs))" by (simp add: place_def)
    then show ?thesis using arg_cong [OF that, of length] by (simp add: tqueue_def)
  qed
  have still: ?thesis if "run_handler e h a s = Some s'" "timers_ok (tmemcfg e) desc s' xs (f # fs)" "world s' = w"
    "tqueue s' xs = tqueue s xs" "new = None" for s'
    using that by (intro exI [of _ s'] exI [of _ xs] exI [of _ "f # fs"]) simp
  have put: ?thesis if ex: "\<exists>s' ys. run_handler e h a s = Some s' \<and> timers_ok (tmemcfg e) desc s' ys fs \<and>
    tqueue s' ys = place base n (tqueue s xs) \<and> world s' = w" and nn: "new = Some n" for n
  proof -
    obtain s' ys where s': "run_handler e h a s = Some s'" "timers_ok (tmemcfg e) desc s' ys fs"
      "tqueue s' ys = place base n (tqueue s xs)" "world s' = w" using ex by blast
    show ?thesis using s' len [OF s'(3)] nn by (intro exI [of _ s'] exI [of _ ys] exI [of _ fs]) simp
  qed
  have call: ?thesis if "run_handler e h a s = sys_timeout e msecs h' b (s\<lparr>world := v\<rparr>)" "sys_now e v = (m, w)"
    "new = Some (m + msecs, h', b)" "msecs \<le> 0x3fffffff" for msecs h' b v m
  proof (rule put)
    show "\<exists>s' ys. run_handler e h a s = Some s' \<and> timers_ok (tmemcfg e) desc s' ys fs \<and>
      tqueue s' ys = place base (m + msecs, h', b) (tqueue s xs) \<and> world s' = w"
      using timeout_now_spec [of e desc "s\<lparr>world := v\<rparr>" xs f fs base msecs m w h' b] ok o that n [OF that(3)] by simp
  qed (rule that)
  show ?thesis
  proof (cases h)
    case NULL_HANDLER
    then show ?thesis using r ok by (intro still [of s]) (simp_all add: run_handler_def)
  next
    case (HANDLER g)
    have c: "run_handler e h a s = (let s' = s\<lparr>world := client_eff B g a (world s)\<rparr> in
        case client_arms B g a (world s) of None \<Rightarrow> Some s' | Some (msecs, h, b) \<Rightarrow> sys_timeout e msecs h b s')"
      using B HANDLER by (simp add: run_handler_def clients_ok_def)
    show ?thesis
    proof (cases "client_arms B g a (world s)")
      case None
      then show ?thesis using c r ok HANDLER by (intro still [of "s\<lparr>world := w\<rparr>"]) (simp_all add: Let_def)
    next
      case (Some k)
      obtain msecs h' b where k: "k = (msecs, h', b)" by (cases k)
      have "msecs \<le> 0x3fffffff" using B Some k unfolding clients_ok_def by (metis (mono_tags, lifting) case_prod_conv option.simps(5))
      moreover obtain m v where m: "sys_now e (client_eff B g a (world s)) = (m, v)" by (cases "sys_now e (client_eff B g a (world s))")
      moreover have "new = Some (m + msecs, h', b)" "w = v" using r Some k HANDLER m by auto
      moreover have "run_handler e h a s = sys_timeout e msecs h' b (s\<lparr>world := client_eff B g a (world s)\<rparr>)"
        using c Some k by (simp add: Let_def)
      ultimately show ?thesis using call by blast
    qed
  next
    case LWIP_CYCLIC_TIMER
    obtain i g where ig: "cyclic_timers e ! a = (i, g)" by (cases "cyclic_timers e ! a")
    obtain m v where m: "sys_now e (cyclic_eff B a (world s)) = (m, v)" by (cases "sys_now e (cyclic_eff B a (world s))")
    define nx where "nx = (if TIME_LESS_THAN (t + i) m then m + i else t + i)"
    have w: "new = Some (nx, LWIP_CYCLIC_TIMER, a)" "w = v" using r LWIP_CYCLIC_TIMER ig m by (auto simp: nx_def)
    have "g s = Some (s\<lparr>world := cyclic_eff B a (world s)\<rparr>)"
      using B cy [OF LWIP_CYCLIC_TIMER] ig unfolding clients_ok_def by (metis snd_conv)
    then have "run_handler e h a s = sys_timeout_abs e nx LWIP_CYCLIC_TIMER a (s\<lparr>world := w\<rparr>)"
      using LWIP_CYCLIC_TIMER cy ig m t w(2) by (simp add: run_handler_def lwip_cyclic_timer_def read_clock_def nx_def)
    then show ?thesis
      using timeout_abs_spec [of e desc "s\<lparr>world := w\<rparr>" xs f fs base nx LWIP_CYCLIC_TIMER a] ok o n [OF w(1)]
      by (intro put [OF _ w(1)]) auto
  next
    case TCPIP_TCP_TIMER
    have c: "run_handler e h a s = (let s = s\<lparr>world := tcp_eff B (world s)\<rparr> in
        if tcp_pcbs e (world s) then sys_timeout e TCP_TMR_INTERVAL TCPIP_TCP_TIMER 0 s else Some (s\<lparr>tcpip_tcp_timer_active := False\<rparr>))"
      using B TCPIP_TCP_TIMER by (simp add: run_handler_def tcpip_tcp_timer_def clients_ok_def Let_def)
    show ?thesis
    proof (cases "tcp_pcbs e (tcp_eff B (world s))")
      case True
      obtain m v where m: "sys_now e (tcp_eff B (world s)) = (m, v)" by (cases "sys_now e (tcp_eff B (world s))")
      have "new = Some (m + TCP_TMR_INTERVAL, TCPIP_TCP_TIMER, 0)" "w = v" using r TCPIP_TCP_TIMER m True by auto
      moreover have "run_handler e h a s = sys_timeout e TCP_TMR_INTERVAL TCPIP_TCP_TIMER 0 (s\<lparr>world := tcp_eff B (world s)\<rparr>)"
        using c True by (simp add: Let_def)
      moreover have "TCP_TMR_INTERVAL \<le> 0x3fffffff" by (simp add: TCP_TMR_INTERVAL_def)
      ultimately show ?thesis using call m by blast
    next
      case False
      then show ?thesis using c r ok TCPIP_TCP_TIMER
        by (intro still [of "s\<lparr>world := w, tcpip_tcp_timer_active := False\<rparr>"]) (simp_all add: Let_def timers_ok_def tqueue_def)
    qed
  qed
qed

lemma place_behind:
  assumes "\<forall>d\<in>set ds. age base (fst d) \<le> age base (fst n)"
  shows "place base n (ds @ q) = ds @ place base n q"
  using assms by (simp add: place_def takeWhile_append2 dropWhile_append2)

lemma queue_ordered_append: "queue_ordered base (d # ds) \<Longrightarrow> queue_ordered base ds"
  by (simp add: queue_ordered_def)

text \<open>The timer at the head of the list is due: its element is released and its handler runs.\<close>

lemma check_loop_step:
  assumes B: "clients_ok e B" and nw: "near base now" and ok: "timers_ok (tmemcfg e) desc s xs fs"
    and q: "tqueue s xs = (t, h, a) # q" "queue_ordered base ((t, h, a) # q)" "age base t \<le> age base now"
    and cy: "h = LWIP_CYCLIC_TIMER \<Longrightarrow> a < length (cyclic_timers e)"
    and r: "rearm e B (t, h, a) (world s) = (new, w)" and n: "\<And>n. new = Some n \<Longrightarrow> near base (fst n)"
  shows "\<exists>s' ys gs. check_timeouts_loop e now s = check_timeouts_loop e now s' \<and> timers_ok (tmemcfg e) desc s' ys gs \<and>
    world s' = w \<and> tqueue s' ys = (case new of None \<Rightarrow> q | Some n \<Rightarrow> place base n q) \<and>
    length ys + length gs = length xs + length fs"
proof -
  obtain x zs where xs: "xs = x # zs" using q(1) by (cases xs) (auto simp: tqueue_def)
  obtain b where b: "next_timeout s = x" "x \<noteq> 0" "timeos s x = Some b" "tlist (timeos s) (tmo_next b) ([] @ zs) 0" "x \<notin> set zs"
    using ok by (auto simp: timers_ok_def xs)
  have e: "tmo_time b = t" "tmo_h b = h" "tmo_arg b = a" "tqueue s zs = q" using q(1) b(3) by (auto simp: xs tqueue_def entry_def)
  have "near base t" using q(2) by (simp add: queue_ordered_def)
  then have lt: "\<not> TIME_LESS_THAN now t" using TIME_LESS_THAN_age [OF nw] q(3) by auto
  obtain pool where p: "memp_free (tmemcfg e) MEMP_SYS_TIMEOUT x (tpools s) = Some ((tpools s)(MEMP_SYS_TIMEOUT := pool))"
    "timers_ok (tmemcfg e) desc (s\<lparr>tpools := (tpools s)(MEMP_SYS_TIMEOUT := pool), timeos := (timeos s)(x := None),
      next_timeout := tmo_next b\<rparr>) ([] @ zs) (x # fs)"
    using pool_release [of "tmemcfg e" desc s "[]" x zs fs "timeos s" "tmo_next b"] ok b(4) xs by auto
  let ?s = "s\<lparr>tpools := (tpools s)(MEMP_SYS_TIMEOUT := pool), timeos := (timeos s)(x := None),
      next_timeout := tmo_next b, current_timeout_due_time := t\<rparr>"
  have okz: "timers_ok (tmemcfg e) desc ?s zs (x # fs)" using p(2) by (simp add: timers_ok_def)
  have qz: "tqueue ?s zs = q" using b(5) e(4) by (auto simp: tqueue_def entry_def)
  have oz: "queue_ordered base (tqueue ?s zs)" unfolding qz by (rule queue_ordered_append [OF q(2)])
  have rz: "rearm e B (t, h, a) (world ?s) = (new, w)" using r by simp
  obtain s' ys gs where s': "run_handler e h a ?s = Some s'" "timers_ok (tmemcfg e) desc s' ys gs" "world s' = w"
    "tqueue s' ys = (case new of None \<Rightarrow> q | Some n \<Rightarrow> place base n q)" "length ys + length gs = length zs + length (x # fs)"
    using run_handler_spec [OF B okz oz _ cy rz n] unfolding qz by auto
  have "check_timeouts_loop e now s = check_timeouts_loop e now s'"
    using b e(1-3) lt p(1) s'(1) by (subst check_timeouts_loop.simps) simp
  then show ?thesis using s' xs by (intro exI [of _ s'] exI [of _ ys] exI [of _ gs]) simp
qed

lemma check_loop_done:
  assumes nw: "near base now" and ok: "timers_ok c desc s xs fs" and o: "queue_ordered base (tqueue s xs)"
    and l: "\<forall>x\<in>set (tqueue s xs). age base now < age base (fst x)"
  shows "check_timeouts_loop e now s = Some s"
proof (cases xs)
  case Nil
  then show ?thesis using ok by (subst check_timeouts_loop.simps) (simp add: timers_ok_def)
next
  case (Cons x zs)
  then obtain b where b: "next_timeout s = x" "timeos s x = Some b" using ok by (auto simp: timers_ok_def)
  then have "near base (tmo_time b)" "age base now < age base (tmo_time b)"
    using o l Cons by (auto simp: queue_ordered_def tqueue_def entry_def)
  then show ?thesis using b TIME_LESS_THAN_age [OF nw] by (subst check_timeouts_loop.simps) simp
qed

lemma check_loop_run:
  assumes B: "clients_ok e B" and nw: "near base now"
  shows "timers_ok (tmemcfg e) desc s xs fs \<Longrightarrow> tqueue s xs = ds @ q \<Longrightarrow> queue_ordered base (ds @ q) \<Longrightarrow>
    \<forall>d\<in>set ds. age base (fst d) \<le> age base now \<Longrightarrow> \<forall>x\<in>set q. age base now < age base (fst x) \<Longrightarrow>
    run_due base now e B ds q (world s) = Some (q', w') \<Longrightarrow>
    \<exists>s' ys gs. check_timeouts_loop e now s = Some s' \<and> timers_ok (tmemcfg e) desc s' ys gs \<and> tqueue s' ys = q' \<and>
      queue_ordered base q' \<and> world s' = w' \<and> length ys + length gs = length xs + length fs"
proof (induction ds arbitrary: s xs fs q)
  case Nil
  then show ?case using check_loop_done [OF nw Nil.prems(1)]
    by (intro exI [of _ s] exI [of _ xs] exI [of _ fs]) auto
next
  case (Cons d ds)
  obtain t h a where d: "d = (t, h, a)" by (cases d)
  obtain new w where r: "rearm e B d (world s) = (new, w)" by (cases "rearm e B d (world s)")
  have cy: "h = LWIP_CYCLIC_TIMER \<Longrightarrow> a < length (cyclic_timers e)" using Cons.prems(6) d by (auto split: if_splits)
  have later: "age base now < age base (fst n) \<and> near base (fst n)" if "new = Some n" for n
    using Cons.prems(6) r that by (auto split: if_splits)
  let ?q = "case new of None \<Rightarrow> q | Some n \<Rightarrow> place base n q"
  have run: "run_due base now e B ds ?q w = Some (q', w')"
    using Cons.prems(6) r later by (cases new) (auto split: if_splits)
  obtain s1 ys gs where s1: "check_timeouts_loop e now s = check_timeouts_loop e now s1" "timers_ok (tmemcfg e) desc s1 ys gs"
    "world s1 = w" "tqueue s1 ys = (case new of None \<Rightarrow> ds @ q | Some n \<Rightarrow> place base n (ds @ q))"
    "length ys + length gs = length xs + length fs"
    using check_loop_step [OF B nw Cons.prems(1), of t h a "ds @ q"] Cons.prems(2,3,4) cy r later unfolding d by force
  have o: "queue_ordered base (ds @ q)" using queue_ordered_append Cons.prems(3) by fastforce
  have q: "tqueue s1 ys = ds @ ?q"
  proof (cases new)
    case (Some n)
    have "\<forall>d\<in>set ds. age base (fst d) \<le> age base (fst n)" using Cons.prems(4) later [OF Some] by fastforce
    then show ?thesis using s1(4) Some place_behind by simp
  qed (use s1(4) in simp)
  have oq: "queue_ordered base (ds @ ?q)"
    using s1(4) q o queue_ordered_place [OF o] later by (cases new) auto
  have "set ?q \<subseteq> set q \<union> set_option new" by (cases new) (auto simp: place_def dest: set_takeWhileD set_dropWhileD)
  then have "\<forall>x\<in>set ?q. age base now < age base (fst x)" using Cons.prems(5) later by auto
  then show ?case using Cons.IH [OF s1(2) q oq _ _ run [folded s1(3)]] Cons.prems(4) s1(1,5) by auto
qed

lemma due_first:
  fixes f :: "'a \<Rightarrow> nat"
  assumes "sorted (map f es)"
  shows "filter (\<lambda>x. f x \<le> k) es @ filter (\<lambda>x. k < f x) es = es"
  using assms
proof (induction es)
  case (Cons x es)
  show ?case
  proof (cases "f x \<le> k")
    case False
    then have "\<forall>y\<in>set es. k < f y" using Cons.prems by auto
    then have "filter (\<lambda>x. f x \<le> k) es = []" "filter (\<lambda>x. k < f x) es = es" by (auto simp: filter_empty_conv filter_id_conv not_le)
    then show ?thesis using False by simp
  qed (use Cons in simp)
qed simp

text \<open>
  C12: \<^verbatim>\<open>sys_check_timeouts\<close> returns.  It has called exactly the handlers of the timers that were due when it started, each once
  and in the order of their due times, and has removed exactly these timers; a timer that a handler sets while it runs goes to its
  place in the ordered list.  This holds for all handlers, those of clients, which may set one timer each, the cyclic timers and the TCP
  timer, which set themselves again, as long as no timer they set is due by the time the call started.  No element of the
  pool is lost, and none of the settings fails for lack of one.
\<close>

theorem sys_check_timeouts_correct:
  assumes "clients_ok e B" "timers_ok (tmemcfg e) desc s xs fs" "queue_ordered base (tqueue s xs)"
    and "sys_now e (world s) = (now, w)" "near base now"
    and "run_due base now e B (filter (\<lambda>t. age base (fst t) \<le> age base now) (tqueue s xs))
      (filter (\<lambda>t. age base now < age base (fst t)) (tqueue s xs)) w = Some (q', w')"
  shows "\<exists>s' ys gs. sys_check_timeouts e s = Some s' \<and> timers_ok (tmemcfg e) desc s' ys gs \<and> tqueue s' ys = q' \<and>
    queue_ordered base q' \<and> world s' = w' \<and> length ys + length gs = length xs + length fs"
proof -
  let ?s = "s\<lparr>world := w\<rparr>"
  let ?ds = "filter (\<lambda>t. age base (fst t) \<le> age base now) (tqueue s xs)"
  let ?q = "filter (\<lambda>t. age base now < age base (fst t)) (tqueue s xs)"
  have "sorted (map (\<lambda>t. age base (fst t)) (tqueue s xs))" using assms(3) by (simp add: queue_ordered_def)
  note d = due_first [OF this, of "age base now"]
  have q: "timers_ok (tmemcfg e) desc ?s xs fs" "tqueue ?s xs = ?ds @ ?q" using assms(2) d by simp_all
  have o: "queue_ordered base (?ds @ ?q)" unfolding d by (rule assms(3))
  have r: "run_due base now e B ?ds ?q (world ?s) = Some (q', w')" using assms(6) by simp
  have "sys_check_timeouts e s = check_timeouts_loop e now ?s" using assms(4) by (simp add: sys_check_timeouts_def read_clock_def)
  then show ?thesis using check_loop_run [OF assms(1,5) q o _ _ r] by auto
qed

text \<open>
  C38: A cyclic timer that runs is scheduled again: for its last due time plus the interval, so that delays do not add up,
  or, when that has already passed, for one interval from now.
\<close>

theorem lwip_cyclic_timer_rearms:
  assumes "timers_ok (tmemcfg e) desc s xs (f # fs)" "queue_ordered base (tqueue s xs)" "arg < length (cyclic_timers e)"
    and "cyclic_timers e ! arg = (interval, g)" "g s = Some (s\<lparr>world := w\<rparr>)" "sys_now e w = (now, w')"
    and "next = (if TIME_LESS_THAN (current_timeout_due_time s + interval) now then now + interval
                 else current_timeout_due_time s + interval)" "near base next"
  shows "\<exists>s' ys. lwip_cyclic_timer e arg s = Some s' \<and> timers_ok (tmemcfg e) desc s' ys fs \<and>
    tqueue s' ys = place base (next, LWIP_CYCLIC_TIMER, arg) (tqueue s xs) \<and> (next, LWIP_CYCLIC_TIMER, arg) \<in> set (tqueue s' ys)"
proof -
  have e: "lwip_cyclic_timer e arg s = sys_timeout_abs e next LWIP_CYCLIC_TIMER arg (s\<lparr>world := w'\<rparr>)"
    using assms(3-7) by (simp add: lwip_cyclic_timer_def read_clock_def)
  obtain s' ys where s': "sys_timeout_abs e next LWIP_CYCLIC_TIMER arg (s\<lparr>world := w'\<rparr>) = Some s'"
    "timers_ok (tmemcfg e) desc s' ys fs" "tqueue s' ys = place base (next, LWIP_CYCLIC_TIMER, arg) (tqueue s xs)"
    using timeout_abs_spec [of e desc "s\<lparr>world := w'\<rparr>" xs f fs base "next" LWIP_CYCLIC_TIMER arg] assms(1,2,8) by auto
  moreover have "(next, LWIP_CYCLIC_TIMER, arg) \<in> set (tqueue s' ys)" unfolding s'(3) by (simp add: place_def)
  ultimately show ?thesis unfolding e by blast
qed

text \<open>
  \<^verbatim>\<open>sys_timeouts_sleeptime\<close> is the time until the first timer is due: 0 when one is overdue, the smallest distance
  otherwise, and \<^verbatim>\<open>0xffffffff\<close> without timers; its assertion never fails.
\<close>

theorem sys_timeouts_sleeptime_correct:
  assumes "timers_ok c desc s xs fs" "queue_ordered base (tqueue s xs)" "sys_now e (world s) = (now, w)" "near base now"
  shows "\<exists>r s'. sys_timeouts_sleeptime e s = Some (r, s') \<and>
    (if xs = [] then r = 0xFFFFFFFF
     else if \<exists>t\<in>set (tqueue s xs). age base (fst t) < age base now then r = 0
     else unat r = Min ((\<lambda>t. age base (fst t) - age base now) ` set (tqueue s xs)))"
proof (cases xs)
  case Nil
  then show ?thesis
    using assms(1) by (simp add: timers_ok_def sys_timeouts_sleeptime_def SYS_TIMEOUTS_SLEEPTIME_INFINITE_def)
next
  case (Cons x zs)
  then obtain b where b: "next_timeout s = x" "x \<noteq> 0" "timeos s x = Some b" using assms(1) by (auto simp: timers_ok_def)
  have q: "tqueue s xs = (tmo_time b, tmo_h b, tmo_arg b) # tqueue s zs" using b(3) Cons by (simp add: tqueue_def entry_def)
  have nb: "near base (tmo_time b)" using assms(2) q by (simp add: queue_ordered_def)
  have hd: "age base (tmo_time b) \<le> age base (fst t)" if "t \<in> set (tqueue s xs)" for t
    using that assms(2) q by (auto simp: queue_ordered_def)
  note lt = TIME_LESS_THAN_age [OF nb assms(4)]
  show ?thesis
  proof (cases "age base (tmo_time b) < age base now")
    case True
    then have "sys_timeouts_sleeptime e s = Some (0, s\<lparr>world := w\<rparr>)"
      using b lt assms(3) by (simp add: sys_timeouts_sleeptime_def read_clock_def)
    then show ?thesis using True q Cons by auto
  next
    case False
    have "tmo_time b - now = (tmo_time b - base) - (now - base)" by simp
    then have r: "unat (tmo_time b - now) = age base (tmo_time b) - age base now"
      using False unat_diff_u32 [of "tmo_time b - base" "now - base"] unfolding age_def by simp
    then have "\<not> tmo_time b - now > LWIP_MAX_TIMEOUT" using nb unfolding less_max_iff near_def by linarith
    then have s: "sys_timeouts_sleeptime e s = Some (tmo_time b - now, s\<lparr>world := w\<rparr>)"
      using b lt False assms(3) by (simp add: sys_timeouts_sleeptime_def read_clock_def Let_def not_less)
    have "Min ((\<lambda>t. age base (fst t) - age base now) ` set (tqueue s xs)) = age base (tmo_time b) - age base now"
    proof (rule Min_eqI)
      fix d
      assume "d \<in> (\<lambda>t. age base (fst t) - age base now) ` set (tqueue s xs)"
      then show "age base (tmo_time b) - age base now \<le> d" using hd by (auto intro: diff_le_mono)
    next
      show "age base (tmo_time b) - age base now \<in> (\<lambda>t. age base (fst t) - age base now) ` set (tqueue s xs)"
        unfolding q by simp
    qed simp
    moreover have "\<not> (\<exists>t\<in>set (tqueue s xs). age base (fst t) < age base now)" using hd False by fastforce
    ultimately show ?thesis using s r Cons by auto
  qed
qed

section \<open>An example\<close>

text \<open>
  Two timers due shortly before and shortly after the clock wraps around, one free element; the world is the clock
  and the log of the handlers called.
\<close>

definition demo_tdesc :: memp_desc where
  "demo_tdesc = \<lparr>desc_size = 32, desc_num = 3, desc_base = 4096\<rparr>"

definition demo_env :: "(nat, u32 \<times> nat list) timers_env" where
  "demo_env = \<lparr>tmemcfg = demo_cfg, sys_now = (\<lambda>w. (fst w, w)),
     run_client = (\<lambda>f a s. Some (s\<lparr>world := (fst (world s), f # snd (world s))\<rparr>)),
     cyclic_timers = [(250, Some), (1000, \<lambda>s. Some (s\<lparr>world := world s\<rparr>))], tcp_tmr = Some, tcp_pcbs = (\<lambda>w. False)\<rparr>"

text \<open>The handlers note that they were called; the first one sets a timer for 100 ms later.\<close>

definition demo_rearming :: "(nat, u32 \<times> nat list) timers_env" where
  "demo_rearming = demo_env\<lparr>run_client := (\<lambda>f a s. let s' = s\<lparr>world := (fst (world s), f # snd (world s))\<rparr> in
     if f = 1 then sys_timeout demo_env 100 (HANDLER 1) 0 s' else Some s')\<rparr>"

definition demo_clients :: "(nat, u32 \<times> nat list) timer_clients" where
  "demo_clients = \<lparr>client_eff = (\<lambda>f a w. (fst w, f # snd w)),
     client_arms = (\<lambda>f a w. if f = 1 then Some (100, HANDLER 1, 0) else None), cyclic_eff = (\<lambda>i w. w), tcp_eff = (\<lambda>w. w)\<rparr>"

definition demo_timers :: "(nat, u32 \<times> nat list) timers" where
  "demo_timers = \<lparr>tpools = (\<lambda>t. \<lparr>tab = 4096, nexts = [4096 \<mapsto> 0]\<rparr>),
     timeos = [4128 \<mapsto> \<lparr>tmo_next = 4160, tmo_time = 0xFFFFFF00, tmo_h = HANDLER 1, tmo_arg = 0\<rparr>,
               4160 \<mapsto> \<lparr>tmo_next = 0, tmo_time = 0x100, tmo_h = HANDLER 2, tmo_arg = 0\<rparr>],
     next_timeout = 4128, current_timeout_due_time = 0xFFFFFC00, tcpip_tcp_timer_active = False, world = (0x10, [])\<rparr>"

lemma demo_tdesc_ok: "desc_ok demo_cfg demo_tdesc" "elems demo_cfg demo_tdesc = {4096, 4128, 4160}"
proof -
  have "pool_start demo_cfg demo_tdesc = 4096"
    by (simp add: pool_start_def LWIP_MEM_ALIGN_def demo_cfg_values demo_tdesc_def)
  then show "desc_ok demo_cfg demo_tdesc" "elems demo_cfg demo_tdesc = {4096, 4128, 4160}"
    by (auto simp: desc_ok_def demo_cfg_ok demo_cfg_values demo_tdesc_def elems_def lessThan_nat_numeral)
qed

lemma demo_timers_ok: "timers_ok (tmemcfg demo_env) demo_tdesc demo_timers [4128, 4160] [4096]"
  by (auto simp: timers_ok_def demo_env_def demo_timers_def demo_tdesc_ok pool_rep_def)

lemma demo_tqueue: "tqueue demo_timers [4128, 4160] = [(0xFFFFFF00, HANDLER 1, 0), (0x100, HANDLER 2, 0)]"
  by (simp add: tqueue_def entry_def demo_timers_def)

lemma demo_ages:
  "age 0xFFFFF000 0xFFFFFF00 = 0xF00" "age 0xFFFFF000 0x100 = 0x1100" "age 0xFFFFF000 0x10 = 0x1010"
  "age 0xFFFFF000 0x74 = 0x1074" "age 0xFFFFF000 0x3F8 = 0x13F8"
  by (simp_all add: age_def)

lemma demo_ordered: "queue_ordered 0xFFFFF000 (tqueue demo_timers [4128, 4160])"
  by (simp add: queue_ordered_def demo_tqueue near_def demo_ages)

lemma demo_clock: "sys_now demo_env (world demo_timers) = (0x10, (0x10, []))"
  by (simp add: demo_env_def demo_timers_def)

theorem sys_timeout_correct_witness:
  "\<exists>s' ys. sys_timeout demo_env 100 (HANDLER 3) 0 demo_timers = Some s' \<and>
     tqueue s' ys = [(0xFFFFFF00, HANDLER 1, 0), (0x74, HANDLER 3, 0), (0x100, HANDLER 2, 0)]"
proof -
  have t: "fst (sys_now demo_env (world demo_timers)) + 100 = 0x74" by (simp add: demo_clock)
  have "near 0xFFFFF000 (fst (sys_now demo_env (world demo_timers)) + 100)" unfolding t by (simp add: near_def demo_ages)
  from sys_timeout_correct [OF demo_timers_ok _ demo_ordered this, of "HANDLER 3" 0] show ?thesis
    unfolding t by (auto simp: demo_tqueue place_def demo_ages)
qed

theorem sys_untimeout_correct_witness:
  "\<exists>s' ys. sys_untimeout demo_env (HANDLER 2) 0 demo_timers = Some s' \<and> tqueue s' ys = [(0xFFFFFF00, HANDLER 1, 0)]"
  using sys_untimeout_correct [OF demo_timers_ok, of "HANDLER 2" 0] by (auto simp: demo_tqueue)

lemma demo_clients_ok: "clients_ok demo_rearming demo_clients"
proof -
  have t: "sys_timeout demo_rearming = sys_timeout demo_env"
    by (simp add: sys_timeout_def sys_timeout_abs_def read_clock_def demo_rearming_def fun_eq_iff)
  have "run_client demo_rearming f a s = (let s' = s\<lparr>world := client_eff demo_clients f a (world s)\<rparr> in
      case client_arms demo_clients f a (world s) of None \<Rightarrow> Some s' | Some (msecs, h, b) \<Rightarrow> sys_timeout demo_rearming msecs h b s')" for f a s
    unfolding t by (simp add: demo_rearming_def demo_clients_def)
  moreover have "snd (cyclic_timers demo_rearming ! i) s = Some (s\<lparr>world := cyclic_eff demo_clients i (world s)\<rparr>)"
    if "i < length (cyclic_timers demo_rearming)" for i s
    using that by (auto simp: demo_rearming_def demo_env_def demo_clients_def less_Suc_eq)
  ultimately show ?thesis by (simp add: clients_ok_def demo_clients_def demo_rearming_def demo_env_def)
qed

theorem sys_check_timeouts_correct_witness:
  "\<exists>s' ys. sys_check_timeouts demo_rearming demo_timers = Some s' \<and>
     tqueue s' ys = [(0x74, HANDLER 1, 0), (0x100, HANDLER 2, 0)] \<and> world s' = (0x10, [1])"
proof -
  have ok: "timers_ok (tmemcfg demo_rearming) demo_tdesc demo_timers [4128, 4160] [4096]"
    using demo_timers_ok by (simp add: demo_rearming_def)
  have c: "sys_now demo_rearming (world demo_timers) = (0x10, (0x10, []))" using demo_clock by (simp add: demo_rearming_def)
  have n: "near 0xFFFFF000 0x10" by (simp add: near_def demo_ages)
  have "run_due 0xFFFFF000 0x10 demo_rearming demo_clients
      (filter (\<lambda>t. age 0xFFFFF000 (fst t) \<le> age 0xFFFFF000 0x10) (tqueue demo_timers [4128, 4160]))
      (filter (\<lambda>t. age 0xFFFFF000 0x10 < age 0xFFFFF000 (fst t)) (tqueue demo_timers [4128, 4160])) (0x10, []) =
    Some ([(0x74, HANDLER 1, 0), (0x100, HANDLER 2, 0)], (0x10, [1]))"
    by (simp add: demo_tqueue demo_ages demo_clients_def demo_rearming_def demo_env_def near_def place_def)
  from sys_check_timeouts_correct [OF demo_clients_ok ok demo_ordered c n this] show ?thesis by blast
qed

theorem lwip_cyclic_timer_rearms_witness:
  "\<exists>s' ys. lwip_cyclic_timer demo_env 1 demo_timers = Some s' \<and> (0x3F8, LWIP_CYCLIC_TIMER, 1) \<in> set (tqueue s' ys)"
proof -
  have c: "1 < length (cyclic_timers demo_env)" "cyclic_timers demo_env ! 1 = (1000, \<lambda>s. Some (s\<lparr>world := world s\<rparr>))"
    "sys_now demo_env (world demo_timers) = (0x10, (0x10, []))" by (simp_all add: demo_env_def demo_timers_def)
  have n: "0x3F8 = (if TIME_LESS_THAN (current_timeout_due_time demo_timers + 1000) 0x10 then 0x10 + 1000
      else current_timeout_due_time demo_timers + 1000)"
    by (simp add: TIME_LESS_THAN_def LWIP_MAX_TIMEOUT_def demo_timers_def)
  have "near 0xFFFFF000 0x3F8" by (simp add: near_def demo_ages)
  from lwip_cyclic_timer_rearms [OF demo_timers_ok demo_ordered c(1,2) refl c(3) n this] show ?thesis by blast
qed

theorem sys_timeouts_sleeptime_correct_witness:
  "\<exists>s'. sys_timeouts_sleeptime demo_env demo_timers = Some (0, s')"
  using sys_timeouts_sleeptime_correct [OF demo_timers_ok demo_ordered demo_clock]
  by (auto simp: near_def demo_ages demo_tqueue)

end
