(* ===== verification/Sys_Arch.thy ===== *)
theory Sys_Arch
  imports Lwip_Prelude
begin

text \<open>
  The Unix port \<^verbatim>\<open>contrib/ports/unix/port/sys_arch.c\<close>: semaphores, mailboxes, critical sections and time.  The calls of
  the mailbox are programs of several threads that share it; \<open>thread_step\<close> is one step of one thread, from one
  semaphore operation to the next, and an execution is any sequence of such steps.  A semaphore operation is
  one step because the code runs it under the mutex of the semaphore.  The semaphores hold at most 1.  What the
  pthread library does is not modelled beyond that: waiting is a step that is possible only when the count is
  positive, or at any time for a wait that times out.
\<close>

section \<open>Semaphores\<close>

definition sys_sem_new_internal :: "nat \<Rightarrow> nat" where
  "sys_sem_new_internal count = count"

definition sys_sem_signal :: "nat \<Rightarrow> nat" where
  "sys_sem_signal c = (let c = c + 1 in if c > 1 then 1 else c)"

text \<open>The wait that succeeds; \<open>None\<close> is a thread that has to wait.\<close>

definition sys_arch_sem_wait :: "nat \<Rightarrow> nat option" where
  "sys_arch_sem_wait c = (if c > 0 then Some (c - 1) else None)"

section \<open>Mailboxes\<close>

definition SYS_MBOX_SIZE :: int where
  "SYS_MBOX_SIZE = 128"

record 'm sys_mbox =
  mb_first :: int
  mb_last :: int
  msgs :: "'m list"
  not_empty :: nat
  not_full :: nat
  mutex :: nat
  wait_send :: int

text \<open>The contents of the array are not initialised; \<open>junk\<close> stands for them.\<close>

definition sys_mbox_new :: "'m list \<Rightarrow> 'm sys_mbox" where
  "sys_mbox_new junk = \<lparr>mb_first = 0, mb_last = 0, msgs = junk, not_empty = sys_sem_new_internal 0, not_full = sys_sem_new_internal 0,
     mutex = sys_sem_new_internal 1, wait_send = 0\<rparr>"

text \<open>The C type \<^verbatim>\<open>int\<close> of the counters: going beyond it is undefined.\<close>

definition c_int :: "int \<Rightarrow> int option" where
  "c_int x = (if - (2 ^ 31) \<le> x \<and> x < 2 ^ 31 then Some x else None)"

definition mbox_full :: "'m sys_mbox \<Rightarrow> bool option" where
  "mbox_full mb = do { l \<leftarrow> c_int (mb_last mb + 1); f \<leftarrow> c_int (mb_first mb + SYS_MBOX_SIZE); Some (l \<ge> f) }"

text \<open>The part of \<^verbatim>\<open>sys_mbox_trypost\<close> and \<^verbatim>\<open>sys_mbox_post\<close> that stores a message; the flag tells whether the box was empty.\<close>

definition mbox_store :: "'m \<Rightarrow> 'm sys_mbox \<Rightarrow> (bool \<times> 'm sys_mbox) option" where
  "mbox_store msg mb =
     do {
       let i = nat (mb_last mb mod SYS_MBOX_SIZE);
       lwip_assert (mb_last mb \<ge> 0 \<and> i < length (msgs mb));
       let fresh = (mb_last mb = mb_first mb);
       l \<leftarrow> c_int (mb_last mb + 1);
       Some (fresh, mb\<lparr>msgs := (msgs mb)[i := msg], mb_last := l\<rparr>)
     }"

text \<open>The part of \<^verbatim>\<open>sys_arch_mbox_tryfetch\<close> and \<^verbatim>\<open>sys_arch_mbox_fetch\<close> that takes a message.\<close>

definition mbox_take :: "'m sys_mbox \<Rightarrow> ('m \<times> 'm sys_mbox) option" where
  "mbox_take mb =
     do {
       let i = nat (mb_first mb mod SYS_MBOX_SIZE);
       lwip_assert (mb_first mb \<ge> 0 \<and> i < length (msgs mb));
       f \<leftarrow> c_int (mb_first mb + 1);
       Some (msgs mb ! i, mb\<lparr>mb_first := f\<rparr>)
     }"

text \<open>The two calls that do not wait, when no other thread is in the mailbox.\<close>

definition sys_mbox_trypost :: "'m \<Rightarrow> 'm sys_mbox \<Rightarrow> (err_t \<times> 'm sys_mbox) option" where
  "sys_mbox_trypost msg mb =
     do {
       c \<leftarrow> sys_arch_sem_wait (mutex mb);
       let mb = mb\<lparr>mutex := c\<rparr>;
       full \<leftarrow> mbox_full mb;
       if full then Some (ERR_MEM, mb\<lparr>mutex := sys_sem_signal (mutex mb)\<rparr>)
       else
         do {
           (fresh, mb) \<leftarrow> mbox_store msg mb;
           let mb = (if fresh then mb\<lparr>not_empty := sys_sem_signal (not_empty mb)\<rparr> else mb);
           Some (ERR_OK, mb\<lparr>mutex := sys_sem_signal (mutex mb)\<rparr>)
         }
     }"

definition sys_mbox_trypost_fromisr :: "'m \<Rightarrow> 'm sys_mbox \<Rightarrow> (err_t \<times> 'm sys_mbox) option" where
  "sys_mbox_trypost_fromisr msg mb = sys_mbox_trypost msg mb"

text \<open>The result is the message, or nothing for \<^verbatim>\<open>SYS_MBOX_EMPTY\<close>.\<close>

definition sys_arch_mbox_tryfetch :: "'m sys_mbox \<Rightarrow> ('m option \<times> 'm sys_mbox) option" where
  "sys_arch_mbox_tryfetch mb =
     do {
       c \<leftarrow> sys_arch_sem_wait (mutex mb);
       let mb = mb\<lparr>mutex := c\<rparr>;
       if mb_first mb = mb_last mb then Some (None, mb\<lparr>mutex := sys_sem_signal (mutex mb)\<rparr>)
       else
         do {
           (msg, mb) \<leftarrow> mbox_take mb;
           let mb = (if wait_send mb \<noteq> 0 then mb\<lparr>not_full := sys_sem_signal (not_full mb)\<rparr> else mb);
           Some (Some msg, mb\<lparr>mutex := sys_sem_signal (mutex mb)\<rparr>)
         }
     }"

section \<open>Threads\<close>

datatype fetch_mode = Try | Timed | Forever

text \<open>
  Where a thread is: outside, or in front of the next semaphore operation or critical part of \<^verbatim>\<open>sys_mbox_post\<close>
  (blocking), \<^verbatim>\<open>sys_mbox_trypost\<close> (not blocking), \<^verbatim>\<open>sys_arch_mbox_fetch\<close> (with or without timeout) or
  \<^verbatim>\<open>sys_arch_mbox_tryfetch\<close>.
\<close>

datatype 'm pc =
    Idle
  | Post_lock bool 'm | Post_loop bool 'm | Post_fail | Post_full 'm | Post_wait 'm | Post_relock 'm | Post_back 'm
  | Post_signal bool | Post_unlock
  | Fetch_lock fetch_mode | Fetch_loop fetch_mode | Fetch_empty fetch_mode | Fetch_wait fetch_mode
  | Fetch_signal 'm | Fetch_unlock 'm

datatype 'm action = Call_post 'm | Call_trypost 'm | Call_fetch fetch_mode | Continue | Timeout

datatype 'm event = Silent | Stored 'm | Took 'm

fun continue_step :: "'m pc \<Rightarrow> 'm sys_mbox \<Rightarrow> ('m event \<times> 'm pc \<times> 'm sys_mbox) option" where
  "continue_step Idle mb = None"
| "continue_step (Post_lock blocking msg) mb =
     do { c \<leftarrow> sys_arch_sem_wait (mutex mb); Some (Silent, Post_loop blocking msg, mb\<lparr>mutex := c\<rparr>) }"
| "continue_step (Post_loop blocking msg) mb =
     do {
       full \<leftarrow> mbox_full mb;
       if full then
         if blocking then do { w \<leftarrow> c_int (wait_send mb + 1); Some (Silent, Post_full msg, mb\<lparr>wait_send := w\<rparr>) }
         else Some (Silent, Post_fail, mb)
       else do { (fresh, mb) \<leftarrow> mbox_store msg mb; Some (Stored msg, Post_signal fresh, mb) }
     }"
| "continue_step Post_fail mb = Some (Silent, Idle, mb\<lparr>mutex := sys_sem_signal (mutex mb)\<rparr>)"
| "continue_step (Post_full msg) mb = Some (Silent, Post_wait msg, mb\<lparr>mutex := sys_sem_signal (mutex mb)\<rparr>)"
| "continue_step (Post_wait msg) mb =
     do { c \<leftarrow> sys_arch_sem_wait (not_full mb); Some (Silent, Post_relock msg, mb\<lparr>not_full := c\<rparr>) }"
| "continue_step (Post_relock msg) mb =
     do { c \<leftarrow> sys_arch_sem_wait (mutex mb); Some (Silent, Post_back msg, mb\<lparr>mutex := c\<rparr>) }"
| "continue_step (Post_back msg) mb = Some (Silent, Post_loop True msg, mb\<lparr>wait_send := wait_send mb - 1\<rparr>)"
| "continue_step (Post_signal fresh) mb =
     Some (Silent, Post_unlock, if fresh then mb\<lparr>not_empty := sys_sem_signal (not_empty mb)\<rparr> else mb)"
| "continue_step Post_unlock mb = Some (Silent, Idle, mb\<lparr>mutex := sys_sem_signal (mutex mb)\<rparr>)"
| "continue_step (Fetch_lock mode) mb =
     do { c \<leftarrow> sys_arch_sem_wait (mutex mb); Some (Silent, Fetch_loop mode, mb\<lparr>mutex := c\<rparr>) }"
| "continue_step (Fetch_loop mode) mb =
     (if mb_first mb = mb_last mb then Some (Silent, Fetch_empty mode, mb)
      else do { (msg, mb) \<leftarrow> mbox_take mb; Some (Took msg, Fetch_signal msg, mb) })"
| "continue_step (Fetch_empty mode) mb =
     Some (Silent, if mode = Try then Idle else Fetch_wait mode, mb\<lparr>mutex := sys_sem_signal (mutex mb)\<rparr>)"
| "continue_step (Fetch_wait mode) mb =
     do { c \<leftarrow> sys_arch_sem_wait (not_empty mb); Some (Silent, Fetch_lock mode, mb\<lparr>not_empty := c\<rparr>) }"
| "continue_step (Fetch_signal msg) mb =
     Some (Silent, Fetch_unlock msg, if wait_send mb \<noteq> 0 then mb\<lparr>not_full := sys_sem_signal (not_full mb)\<rparr> else mb)"
| "continue_step (Fetch_unlock msg) mb = Some (Silent, Idle, mb\<lparr>mutex := sys_sem_signal (mutex mb)\<rparr>)"

definition thread_step :: "'m action \<Rightarrow> 'm pc \<Rightarrow> 'm sys_mbox \<Rightarrow> ('m event \<times> 'm pc \<times> 'm sys_mbox) option" where
  "thread_step a pc mb =
     (case a of
        Call_post msg \<Rightarrow> if pc = Idle then Some (Silent, Post_lock True msg, mb) else None
      | Call_trypost msg \<Rightarrow> if pc = Idle then Some (Silent, Post_lock False msg, mb) else None
      | Call_fetch mode \<Rightarrow> if pc = Idle then Some (Silent, Fetch_lock mode, mb) else None
      | Continue \<Rightarrow> continue_step pc mb
      | Timeout \<Rightarrow> if pc = Fetch_wait Timed then Some (Silent, Idle, mb) else None)"

text \<open>The mailbox, its threads and the messages stored and taken so far.\<close>

record 'm system =
  box :: "'m sys_mbox"
  pcs :: "nat \<Rightarrow> 'm pc"
  posted :: "'m list"
  fetched :: "'m list"

definition system_new :: "'m list \<Rightarrow> 'm system" where
  "system_new junk = \<lparr>box = sys_mbox_new junk, pcs = (\<lambda>t. Idle), posted = [], fetched = []\<rparr>"

fun log_event :: "'m event \<Rightarrow> 'm system \<Rightarrow> 'm system" where
  "log_event Silent s = s"
| "log_event (Stored m) s = s\<lparr>posted := posted s @ [m]\<rparr>"
| "log_event (Took m) s = s\<lparr>fetched := fetched s @ [m]\<rparr>"

definition system_step :: "nat \<Rightarrow> 'm action \<Rightarrow> 'm system \<Rightarrow> 'm system option" where
  "system_step t a s =
     do {
       (ev, pc, mb) \<leftarrow> thread_step a (pcs s t) (box s);
       Some (log_event ev (s\<lparr>pcs := (pcs s)(t := pc), box := mb\<rparr>))
     }"

inductive reachable :: "'m list \<Rightarrow> (nat \<Rightarrow> 'm action \<Rightarrow> bool) \<Rightarrow> 'm system \<Rightarrow> bool"
  for junk :: "'m list" and may :: "nat \<Rightarrow> 'm action \<Rightarrow> bool" where
  start: "reachable junk may (system_new junk)"
| step: "reachable junk may s \<Longrightarrow> may t a \<Longrightarrow> system_step t a s = Some s' \<Longrightarrow> reachable junk may s'"

section \<open>The mailbox as a bounded queue\<close>

definition contents :: "'m sys_mbox \<Rightarrow> 'm list" where
  "contents mb = map (\<lambda>k. msgs mb ! nat ((mb_first mb + int k) mod SYS_MBOX_SIZE)) [0..<nat (mb_last mb - mb_first mb)]"

definition box_ok :: "'m sys_mbox \<Rightarrow> bool" where
  "box_ok mb \<longleftrightarrow> length (msgs mb) = 128 \<and> 0 \<le> mb_first mb \<and> mb_first mb \<le> mb_last mb \<and> mb_last mb - mb_first mb \<le> 127"

lemma length_contents [simp]: "length (contents mb) = nat (mb_last mb - mb_first mb)"
  by (simp add: contents_def)

lemma contents_cong:
  "mb_first mb' = mb_first mb \<Longrightarrow> mb_last mb' = mb_last mb \<Longrightarrow> msgs mb' = msgs mb \<Longrightarrow>
   contents mb' = contents mb \<and> box_ok mb' = box_ok mb"
  by (simp add: contents_def box_ok_def)

lemma contents_Nil: "box_ok mb \<Longrightarrow> contents mb = [] \<longleftrightarrow> mb_first mb = mb_last mb"
  by (auto simp: contents_def box_ok_def)

lemma slot_less: "nat (i mod SYS_MBOX_SIZE) < 128"
  by (simp add: SYS_MBOX_SIZE_def nat_less_iff)

lemma slots_differ:
  assumes "i < j" "j - i < 128" shows "nat (i mod SYS_MBOX_SIZE) \<noteq> nat (j mod SYS_MBOX_SIZE)"
proof
  assume "nat (i mod SYS_MBOX_SIZE) = nat (j mod SYS_MBOX_SIZE)"
  then have "i mod 128 = j mod 128" by (simp add: SYS_MBOX_SIZE_def)
  then have "128 dvd j - i" by (simp add: mod_eq_dvd_iff dvd_diff_commute)
  then have "128 \<le> j - i" using assms(1) by (intro zdvd_imp_le) simp_all
  then show False using assms(2) by simp
qed

lemma store_contents:
  assumes "box_ok mb" "mb_last mb - mb_first mb < 127"
  defines "i \<equiv> nat (mb_last mb mod SYS_MBOX_SIZE)"
  shows "contents (mb\<lparr>msgs := (msgs mb)[i := m], mb_last := mb_last mb + 1\<rparr>) = contents mb @ [m]"
    "box_ok (mb\<lparr>msgs := (msgs mb)[i := m], mb_last := mb_last mb + 1\<rparr>)"
proof -
  have b: "length (msgs mb) = 128" "0 \<le> mb_first mb" "mb_first mb \<le> mb_last mb" using assms(1) by (auto simp: box_ok_def)
  define n where "n = nat (mb_last mb - mb_first mb)"
  have n: "mb_last mb = mb_first mb + int n" "nat (mb_last mb + 1 - mb_first mb) = Suc n" using b by (auto simp: n_def)
  have "(msgs mb)[i := m] ! nat ((mb_first mb + int k) mod SYS_MBOX_SIZE) = msgs mb ! nat ((mb_first mb + int k) mod SYS_MBOX_SIZE)"
    if "k < n" for k
  proof -
    have "nat ((mb_first mb + int k) mod SYS_MBOX_SIZE) \<noteq> i"
      unfolding i_def using that n(1) assms(2) by (intro slots_differ) auto
    then show ?thesis by simp
  qed
  moreover have "(msgs mb)[i := m] ! i = m" using b(1) slot_less by (simp add: i_def)
  ultimately show "contents (mb\<lparr>msgs := (msgs mb)[i := m], mb_last := mb_last mb + 1\<rparr>) = contents mb @ [m]"
    using n by (simp add: contents_def i_def)
  show "box_ok (mb\<lparr>msgs := (msgs mb)[i := m], mb_last := mb_last mb + 1\<rparr>)" using assms(1,2) by (simp add: box_ok_def)
qed

lemma take_contents:
  assumes "box_ok mb" "mb_first mb \<noteq> mb_last mb"
  shows "contents mb = msgs mb ! nat (mb_first mb mod SYS_MBOX_SIZE) # contents (mb\<lparr>mb_first := mb_first mb + 1\<rparr>)"
    "box_ok (mb\<lparr>mb_first := mb_first mb + 1\<rparr>)"
proof -
  define n where "n = nat (mb_last mb - (mb_first mb + 1))"
  have n: "nat (mb_last mb - mb_first mb) = Suc n" using assms by (auto simp: n_def box_ok_def)
  show "contents mb = msgs mb ! nat (mb_first mb mod SYS_MBOX_SIZE) # contents (mb\<lparr>mb_first := mb_first mb + 1\<rparr>)"
    unfolding contents_def n upt_conv_Cons [OF zero_less_Suc] list.map
    by (simp add: n_def [symmetric] map_Suc_upt [symmetric] add.assoc del: upt_Suc)
  show "box_ok (mb\<lparr>mb_first := mb_first mb + 1\<rparr>)" using assms by (auto simp: box_ok_def)
qed

lemma full_iff: "mbox_full mb = Some b \<Longrightarrow> b \<longleftrightarrow> mb_last mb - mb_first mb \<ge> 127"
  by (auto simp: mbox_full_def c_int_def SYS_MBOX_SIZE_def split: if_splits)

lemma store_SomeD:
  assumes "mbox_store m mb = Some (fresh, mb')" "box_ok mb" "mbox_full mb = Some False"
  shows "contents mb' = contents mb @ [m]" "box_ok mb'" "fresh \<longleftrightarrow> mb_first mb = mb_last mb" "mb_first mb' \<noteq> mb_last mb'"
    "mutex mb' = mutex mb" "not_empty mb' = not_empty mb" "not_full mb' = not_full mb" "wait_send mb' = wait_send mb"
  using assms store_contents [OF assms(2)] full_iff [OF assms(3)]
  by (auto simp: mbox_store_def c_int_def box_ok_def Let_def split: if_splits)

lemma take_SomeD:
  assumes "mbox_take mb = Some (m, mb')" "box_ok mb" "mb_first mb \<noteq> mb_last mb"
  shows "contents mb = m # contents mb'" "box_ok mb'"
    "mutex mb' = mutex mb" "not_empty mb' = not_empty mb" "not_full mb' = not_full mb" "wait_send mb' = wait_send mb"
  using assms take_contents [OF assms(2,3)] by (auto simp: mbox_take_def c_int_def Let_def split: if_splits)

text \<open>
  What users of a mailbox that do not wait rely on: a first-in first-out queue of bounded size.  The counters of an
  implementation may only last for a number of operations, the first argument of \<open>inv\<close>.
\<close>

locale bounded_queue =
  fixes inv :: "nat \<Rightarrow> 'q \<Rightarrow> bool"
    and cont :: "'q \<Rightarrow> 'm list"
    and cap :: nat
    and push :: "'m \<Rightarrow> 'q \<Rightarrow> (err_t \<times> 'q) option"
    and pull :: "'q \<Rightarrow> ('m option \<times> 'q) option"
  assumes push_law: "inv (Suc n) q \<Longrightarrow> \<exists>q'. push m q = Some (if length (cont q) < cap then ERR_OK else ERR_MEM, q') \<and>
      inv n q' \<and> cont q' = (if length (cont q) < cap then cont q @ [m] else cont q)"
    and pull_law: "inv (Suc n) q \<Longrightarrow> \<exists>q'. pull q = Some (if cont q = [] then None else Some (hd (cont q)), q') \<and>
      inv n q' \<and> cont q' = tl (cont q)"

fun push_all :: "('m \<Rightarrow> 'q \<Rightarrow> (err_t \<times> 'q) option) \<Rightarrow> 'm list \<Rightarrow> 'q \<Rightarrow> (err_t list \<times> 'q) option" where
  "push_all push [] q = Some ([], q)"
| "push_all push (m # ms) q = do { (r, q) \<leftarrow> push m q; (rs, q) \<leftarrow> push_all push ms q; Some (r # rs, q) }"

fun pull_all :: "('q \<Rightarrow> ('m option \<times> 'q) option) \<Rightarrow> nat \<Rightarrow> 'q \<Rightarrow> ('m option list \<times> 'q) option" where
  "pull_all pull 0 q = Some ([], q)"
| "pull_all pull (Suc k) q = do { (r, q) \<leftarrow> pull q; (rs, q) \<leftarrow> pull_all pull k q; Some (r # rs, q) }"

context bounded_queue
begin

lemma push_all_fits:
  "inv (n + length ms) q \<Longrightarrow> length (cont q) + length ms \<le> cap \<Longrightarrow>
   \<exists>q'. push_all push ms q = Some (replicate (length ms) ERR_OK, q') \<and> inv n q' \<and> cont q' = cont q @ ms"
proof (induction ms arbitrary: q)
  case (Cons m ms)
  then obtain q1 where q1: "push m q = Some (ERR_OK, q1)" "inv (n + length ms) q1" "cont q1 = cont q @ [m]"
    using push_law [of "n + length ms" q m] by auto
  obtain q2 where "push_all push ms q1 = Some (replicate (length ms) ERR_OK, q2)" "inv n q2" "cont q2 = cont q1 @ ms"
    using Cons.IH [OF q1(2)] Cons.prems(2) q1(3) by auto
  then show ?case using q1 by simp
qed simp

lemma pull_all_spec:
  "inv (n + k) q \<Longrightarrow> \<exists>q'. pull_all pull k q = Some (map Some (take k (cont q)) @ replicate (k - length (cont q)) None, q') \<and>
     inv n q' \<and> cont q' = drop k (cont q)"
proof (induction k arbitrary: q)
  case (Suc k)
  then obtain q1 where q1: "pull q = Some (if cont q = [] then None else Some (hd (cont q)), q1)" "inv (n + k) q1"
    "cont q1 = tl (cont q)" using pull_law [of "n + k" q] by auto
  obtain q2 where "pull_all pull k q1 = Some (map Some (take k (cont q1)) @ replicate (k - length (cont q1)) None, q2)"
    "inv n q2" "cont q2 = drop k (cont q1)" using Suc.IH [OF q1(2)] by auto
  then show ?case using q1 by (cases "cont q") auto
qed simp

lemma push_pull:
  assumes "inv (n + length ms + length (cont q) + length ms) q" "length (cont q) + length ms \<le> cap"
  shows "\<exists>q1 q2. push_all push ms q = Some (replicate (length ms) ERR_OK, q1) \<and>
    pull_all pull (length (cont q) + length ms) q1 = Some (map Some (cont q @ ms), q2) \<and> inv n q2 \<and> cont q2 = []"
proof -
  obtain q1 where q1: "push_all push ms q = Some (replicate (length ms) ERR_OK, q1)"
    "inv (n + (length (cont q) + length ms)) q1" "cont q1 = cont q @ ms"
    using push_all_fits [of "n + (length (cont q) + length ms)" ms q] assms by (auto simp: ac_simps)
  then show ?thesis using pull_all_spec [OF q1(2)] by auto
qed

end

text \<open>The mailbox lasts until the counters leave the range of \<^verbatim>\<open>int\<close>.\<close>

definition mbox_inv :: "nat \<Rightarrow> 'm sys_mbox \<Rightarrow> bool" where
  "mbox_inv n mb \<longleftrightarrow> box_ok mb \<and> mutex mb = 1 \<and> mb_last mb + int n + SYS_MBOX_SIZE < 2 ^ 31"

lemma mbox_steps_defined:
  assumes "mbox_inv (Suc n) mb"
  shows "mbox_full (mb\<lparr>mutex := c\<rparr>) = Some (mb_last mb - mb_first mb \<ge> 127)"
    "mbox_store m (mb\<lparr>mutex := c\<rparr>) = Some (mb_last mb = mb_first mb,
       mb\<lparr>mutex := c, msgs := (msgs mb)[nat (mb_last mb mod SYS_MBOX_SIZE) := m], mb_last := mb_last mb + 1\<rparr>)"
    "mbox_take (mb\<lparr>mutex := c\<rparr>) = Some (msgs mb ! nat (mb_first mb mod SYS_MBOX_SIZE), mb\<lparr>mutex := c, mb_first := mb_first mb + 1\<rparr>)"
  using assms slot_less [of "mb_last mb"] slot_less [of "mb_first mb"]
  by (auto simp: mbox_inv_def box_ok_def mbox_full_def mbox_store_def mbox_take_def c_int_def SYS_MBOX_SIZE_def Let_def)

lemma trypost_spec:
  assumes "mbox_inv (Suc n) mb"
  shows "\<exists>q'. sys_mbox_trypost m mb = Some (if length (contents mb) < 127 then ERR_OK else ERR_MEM, q') \<and> mbox_inv n q' \<and>
    contents q' = (if length (contents mb) < 127 then contents mb @ [m] else contents mb)"
proof -
  have b: "box_ok mb" "mutex mb = 1" "mb_last mb + int (Suc n) + SYS_MBOX_SIZE < 2 ^ 31"
    using assms by (auto simp: mbox_inv_def)
  have len: "length (contents mb) < 127 \<longleftrightarrow> \<not> mb_last mb - mb_first mb \<ge> 127" using b(1) by (auto simp: box_ok_def)
  note d = mbox_steps_defined [OF assms]
  show ?thesis
  proof (cases "mb_last mb - mb_first mb \<ge> 127")
    case True
    then have "sys_mbox_trypost m mb = Some (ERR_MEM, mb)"
      using b(2) d by (simp add: sys_mbox_trypost_def sys_arch_sem_wait_def sys_sem_signal_def)
    then show ?thesis using True b by (simp add: mbox_inv_def)
  next
    case False
    let ?w = "mb\<lparr>msgs := (msgs mb)[nat (mb_last mb mod SYS_MBOX_SIZE) := m], mb_last := mb_last mb + 1\<rparr>"
    have w: "contents ?w = contents mb @ [m]" "box_ok ?w" using store_contents [OF b(1)] False by auto
    have "\<exists>e. sys_mbox_trypost m mb = Some (ERR_OK, ?w\<lparr>not_empty := e\<rparr>)"
      using b(2) d False
      by (cases mb) (auto simp: sys_mbox_trypost_def sys_arch_sem_wait_def sys_sem_signal_def Let_def)
    moreover have "contents (?w\<lparr>not_empty := e\<rparr>) = contents mb @ [m] \<and> box_ok (?w\<lparr>not_empty := e\<rparr>)" for e
      using contents_cong [of "?w\<lparr>not_empty := e\<rparr>" ?w] w by simp
    ultimately show ?thesis using len False b by (fastforce simp: mbox_inv_def)
  qed
qed

lemma tryfetch_spec:
  assumes "mbox_inv (Suc n) mb"
  shows "\<exists>q'. sys_arch_mbox_tryfetch mb = Some (if contents mb = [] then None else Some (hd (contents mb)), q') \<and>
    mbox_inv n q' \<and> contents q' = tl (contents mb)"
proof -
  have b: "box_ok mb" "mutex mb = 1" "mb_last mb + int (Suc n) + SYS_MBOX_SIZE < 2 ^ 31"
    using assms by (auto simp: mbox_inv_def)
  note d = mbox_steps_defined [OF assms]
  show ?thesis
  proof (cases "mb_first mb = mb_last mb")
    case True
    then have "sys_arch_mbox_tryfetch mb = Some (None, mb)"
      using b(2) by (simp add: sys_arch_mbox_tryfetch_def sys_arch_sem_wait_def sys_sem_signal_def)
    then show ?thesis using True b contents_Nil [OF b(1)] by (simp add: mbox_inv_def)
  next
    case False
    let ?w = "mb\<lparr>mb_first := mb_first mb + 1\<rparr>" and ?m = "msgs mb ! nat (mb_first mb mod SYS_MBOX_SIZE)"
    have w: "contents mb = ?m # contents ?w" "box_ok ?w" using take_contents [OF b(1) False] by auto
    have "\<exists>e. sys_arch_mbox_tryfetch mb = Some (Some ?m, ?w\<lparr>not_full := e\<rparr>)"
      using b(2) d False
      by (cases mb) (auto simp: sys_arch_mbox_tryfetch_def sys_arch_sem_wait_def sys_sem_signal_def Let_def)
    moreover have "contents (?w\<lparr>not_full := e\<rparr>) = contents ?w \<and> box_ok (?w\<lparr>not_full := e\<rparr>)" for e
      using contents_cong [of "?w\<lparr>not_full := e\<rparr>" ?w] w by simp
    ultimately show ?thesis using w b by (fastforce simp: mbox_inv_def)
  qed
qed

interpretation mbox: bounded_queue mbox_inv contents 127 sys_mbox_trypost sys_arch_mbox_tryfetch
  by unfold_locales (rule trypost_spec, assumption, rule tryfetch_spec, assumption)

text \<open>
  Used by one thread, a mailbox is a queue of 127 messages: \<^verbatim>\<open>sys_mbox_trypost\<close> accepts messages as long as they fit,
  and \<^verbatim>\<open>sys_arch_mbox_tryfetch\<close> gives them back in the order in which they were posted, behind what was there before.
\<close>

theorem mbox_fifo:
  assumes "mbox_inv (n + length ms + length (contents mb) + length ms) mb" "length (contents mb) + length ms \<le> 127"
  shows "\<exists>mb1 mb2. push_all sys_mbox_trypost ms mb = Some (replicate (length ms) ERR_OK, mb1) \<and>
    pull_all sys_arch_mbox_tryfetch (length (contents mb) + length ms) mb1 = Some (map Some (contents mb @ ms), mb2) \<and>
    mbox_inv n mb2 \<and> contents mb2 = []"
  using assms by (rule mbox.push_pull)

theorem mbox_fifo_witness:
  "\<exists>mb1 mb2. push_all sys_mbox_trypost [7, 8 :: nat] (sys_mbox_new (replicate 128 0)) = Some ([ERR_OK, ERR_OK], mb1) \<and>
     pull_all sys_arch_mbox_tryfetch 2 mb1 = Some ([Some 7, Some 8], mb2)"
proof -
  let ?mb = "sys_mbox_new (replicate 128 0) :: nat sys_mbox"
  have "contents ?mb = []" "mbox_inv (0 + length [7, 8 :: nat] + length (contents ?mb) + length [7, 8 :: nat]) ?mb"
    by (simp_all add: contents_def sys_mbox_new_def mbox_inv_def box_ok_def sys_sem_new_internal_def SYS_MBOX_SIZE_def)
  from mbox_fifo [OF this(2)] this(1) show ?thesis by (fastforce simp: numeral_2_eq_2)
qed

text \<open>
  A mailbox does not last: once \<^verbatim>\<open>last\<close> has reached the largest \<^verbatim>\<open>int\<close>, the next \<^verbatim>\<open>sys_mbox_trypost\<close> overflows its
  counter, although the mailbox may be empty, because the counters are never reduced modulo the size.
\<close>

theorem mbox_counter_overflow:
  assumes "mb_last mb = 2 ^ 31 - 1" "mutex mb = 1"
  shows "sys_mbox_trypost m mb = None"
  using assms by (simp add: sys_mbox_trypost_def sys_arch_sem_wait_def mbox_full_def c_int_def)

theorem mbox_counter_overflow_witness:
  "sys_mbox_trypost (1 :: nat) (sys_mbox_new (replicate 128 0)\<lparr>mb_first := 2 ^ 31 - 1, mb_last := 2 ^ 31 - 1\<rparr>) = None"
  by (rule mbox_counter_overflow) (simp_all add: sys_mbox_new_def sys_sem_new_internal_def)

section \<open>All interleavings\<close>

text \<open>The threads that hold the mailbox: those between a wait for the mutex and the signal that ends it.\<close>

fun in_cs :: "'m pc \<Rightarrow> bool" where
  "in_cs (Post_loop _ _) = True" | "in_cs Post_fail = True" | "in_cs (Post_full _) = True" | "in_cs (Post_back _) = True"
| "in_cs (Post_signal _) = True" | "in_cs Post_unlock = True"
| "in_cs (Fetch_loop _) = True" | "in_cs (Fetch_empty _) = True" | "in_cs (Fetch_signal _) = True" | "in_cs (Fetch_unlock _) = True"
| "in_cs _ = False"

fun logged :: "'m event \<Rightarrow> 'm list \<Rightarrow> 'm list \<Rightarrow> bool" where
  "logged Silent xs ys \<longleftrightarrow> ys = xs"
| "logged (Stored m) xs ys \<longleftrightarrow> ys = xs @ [m]"
| "logged (Took m) xs ys \<longleftrightarrow> xs = m # ys"

text \<open>What one step does to the lock and to the messages.\<close>

definition lock_step :: "'m pc \<Rightarrow> nat \<Rightarrow> 'm pc \<Rightarrow> nat \<Rightarrow> bool" where
  "lock_step pc c pc' c' \<longleftrightarrow>
     (if in_cs pc = in_cs pc' then c' = c else if in_cs pc' then 0 < c \<and> c' = c - 1 else c' = 1)"

lemmas sem_defs = sys_arch_sem_wait_def sys_sem_signal_def

lemma continue_step_effect:
  assumes "continue_step pc mb = Some (ev, pc', mb')" "box_ok mb"
  shows "box_ok mb' \<and> logged ev (contents mb) (contents mb') \<and> lock_step pc (mutex mb) pc' (mutex mb')"
  using assms
proof (cases pc)
  case (Post_loop blocking msg)
  then obtain full where full: "mbox_full mb = Some full" using assms(1) by (auto split: Option.bind_splits)
  show ?thesis
  proof (cases full)
    case True
    then show ?thesis
      using Post_loop full assms contents_cong [of mb' mb]
      by (auto simp: lock_step_def split: if_splits Option.bind_splits)
  next
    case False
    then obtain fresh where st: "mbox_store msg mb = Some (fresh, mb')" "ev = Stored msg" "pc' = Post_signal fresh"
      using Post_loop full assms(1) by (auto split: Option.bind_splits)
    then show ?thesis using store_SomeD [OF st(1) assms(2)] full False Post_loop by (simp add: lock_step_def)
  qed
next
  case (Fetch_loop mode)
  show ?thesis
  proof (cases "mb_first mb = mb_last mb")
    case True
    then show ?thesis using Fetch_loop assms by (auto simp: lock_step_def)
  next
    case False
    then obtain m where tk: "mbox_take mb = Some (m, mb')" "ev = Took m" "pc' = Fetch_signal m"
      using Fetch_loop assms(1) by (auto split: Option.bind_splits)
    then show ?thesis using take_SomeD [OF tk(1) assms(2) False] Fetch_loop by (simp add: lock_step_def)
  qed
qed (use assms contents_cong [of mb' mb] in \<open>auto simp: lock_step_def sem_defs split: if_splits Option.bind_splits\<close>)

definition system_ok :: "'m system \<Rightarrow> bool" where
  "system_ok s \<longleftrightarrow> box_ok (box s) \<and> posted s = fetched s @ contents (box s) \<and> mutex (box s) \<le> 1 \<and>
     (mutex (box s) = 0 \<longleftrightarrow> (\<exists>t. in_cs (pcs s t))) \<and> (\<forall>t u. in_cs (pcs s t) \<and> in_cs (pcs s u) \<longrightarrow> t = u)"

lemma thread_step_effect:
  assumes "thread_step a pc mb = Some (ev, pc', mb')" "box_ok mb"
  shows "box_ok mb' \<and> logged ev (contents mb) (contents mb') \<and> lock_step pc (mutex mb) pc' (mutex mb')"
  using assms continue_step_effect [of pc mb ev pc' mb']
  by (auto simp: thread_step_def lock_step_def split: action.splits if_splits)

lemma system_step_ok:
  assumes "system_ok s" "system_step t a s = Some s'"
  shows "system_ok s'"
proof -
  obtain ev pc mb where st: "thread_step a (pcs s t) (box s) = Some (ev, pc, mb)"
    "s' = log_event ev (s\<lparr>pcs := (pcs s)(t := pc), box := mb\<rparr>)"
    using assms(2) by (auto simp: system_step_def split: Option.bind_splits)
  have e: "box_ok mb" "logged ev (contents (box s)) (contents mb)" "lock_step (pcs s t) (mutex (box s)) pc (mutex mb)"
    using thread_step_effect [OF st(1)] assms(1) by (auto simp: system_ok_def)
  have f: "box s' = mb" "pcs s' = (pcs s)(t := pc)" using st(2) by (cases ev; simp)+
  have "posted s' = fetched s' @ contents mb" using assms(1) e(2) st(2) by (cases ev) (auto simp: system_ok_def)
  moreover have "mutex mb \<le> 1 \<and> (mutex mb = 0 \<longleftrightarrow> (\<exists>u. in_cs (((pcs s)(t := pc)) u))) \<and>
      (\<forall>u v. in_cs (((pcs s)(t := pc)) u) \<and> in_cs (((pcs s)(t := pc)) v) \<longrightarrow> u = v)"
  proof (cases "in_cs (pcs s t) = in_cs pc")
    case True
    then have eq: "in_cs (((pcs s)(t := pc)) u) = in_cs (pcs s u)" for u by simp
    have m: "mutex mb = mutex (box s)" using e(3) True by (simp add: lock_step_def)
    show ?thesis unfolding eq m using assms(1) unfolding system_ok_def by blast
  next
    case False
    have k: "mutex (box s) \<le> 1" "mutex (box s) = 0 \<longleftrightarrow> (\<exists>t. in_cs (pcs s t))"
      "\<And>u v. in_cs (pcs s u) \<Longrightarrow> in_cs (pcs s v) \<Longrightarrow> u = v" using assms(1) unfolding system_ok_def by blast+
    show ?thesis
    proof (cases "in_cs pc")
      case True
      then have "mutex mb = 0" "\<not> in_cs (pcs s u)" for u using e(3) False k by (auto simp: lock_step_def)
      then show ?thesis using True by auto
    next
      case out: False
      then have "\<not> in_cs (pcs s u)" if "u \<noteq> t" for u using False k(3) [of t u] that by auto
      then have "\<not> in_cs (((pcs s)(t := pc)) u)" for u using out by simp
      moreover have "mutex mb = 1" using e(3) False out by (auto simp: lock_step_def)
      ultimately show ?thesis by simp
    qed
  qed
  ultimately show ?thesis unfolding system_ok_def f using e(1) by blast
qed

lemma system_new_ok: "length junk = 128 \<Longrightarrow> system_ok (system_new junk)"
  by (simp add: system_ok_def system_new_def sys_mbox_new_def box_ok_def contents_def sys_sem_new_internal_def)

lemma reachable_ok: "reachable junk may s \<Longrightarrow> length junk = 128 \<Longrightarrow> system_ok s"
  by (induction rule: reachable.induct) (auto intro: system_new_ok system_step_ok)

text \<open>
  C7: Whatever the interleaving of the threads that post and fetch, blocking or not: at most one thread is inside the
  mailbox, exactly then the mutex is taken, at most 127 messages are in it, and the messages fetched so far
  followed by those in the box are the messages posted so far in order: none is lost, duplicated or reordered.
\<close>

theorem mbox_interleavings:
  assumes "reachable junk may s" "length junk = 128"
  shows "system_ok s \<and> length (contents (box s)) \<le> 127"
proof -
  have ok: "system_ok s" using assms by (rule reachable_ok)
  then have "box_ok (box s)" unfolding system_ok_def by blast
  then have "length (contents (box s)) \<le> 127" by (simp add: box_ok_def nat_le_iff)
  then show ?thesis using ok by (intro conjI)
qed

section \<open>Waking up\<close>

fun run :: "(nat \<times> 'm action) list \<Rightarrow> 'm system \<Rightarrow> 'm system option" where
  "run [] s = Some s"
| "run ((t, a) # as) s = do { s \<leftarrow> system_step t a s; run as s }"

lemma reachable_run:
  "run as s = Some s' \<Longrightarrow> reachable junk may s \<Longrightarrow> \<forall>(t, a)\<in>set as. may t a \<Longrightarrow> reachable junk may s'"
  by (induction as s rule: run.induct) (auto split: Option.bind_splits intro: reachable.step)

theorem mbox_interleavings_witness:
  "\<exists>s. run [(0, Call_post 5), (1, Call_fetch Forever), (0, Continue), (0, Continue)] (system_new (replicate 128 (0 :: nat))) = Some s \<and>
     posted s = [5] \<and> system_ok s"
proof -
  let ?as = "[(0, Call_post 5), (1, Call_fetch Forever), (0, Continue), (0, Continue)] :: (nat \<times> nat action) list"
  let ?s = "system_new (replicate 128 (0 :: nat))"
  have "map_option posted (run ?as ?s) = Some [5]" by code_simp
  then obtain s where s: "run ?as ?s = Some s" "posted s = [5]" by auto
  have "reachable (replicate 128 0) (\<lambda>_ _. True) s" by (rule reachable_run [OF s(1) reachable.start]) simp
  then have "system_ok s" using mbox_interleavings [of "replicate 128 0" _ s] by simp
  then show ?thesis using s by blast
qed

fun fetching :: "'m pc \<Rightarrow> bool" where
  "fetching (Fetch_lock _) = True" | "fetching (Fetch_loop _) = True" | "fetching (Fetch_empty _) = True"
| "fetching (Fetch_wait _) = True" | "fetching (Fetch_signal _) = True" | "fetching (Fetch_unlock _) = True"
| "fetching _ = False"

definition one_fetcher :: "nat \<Rightarrow> nat \<Rightarrow> 'm action \<Rightarrow> bool" where
  "one_fetcher r t a \<longleftrightarrow> t = r \<or> (\<forall>mode. a \<noteq> Call_fetch mode)"

text \<open>A step of a thread that posts.\<close>

definition post_effect :: "'m pc \<Rightarrow> 'm sys_mbox \<Rightarrow> 'm pc \<Rightarrow> 'm sys_mbox \<Rightarrow> bool" where
  "post_effect pc mb pc' mb' \<longleftrightarrow>
     \<not> fetching pc' \<and> not_empty mb' = (if pc = Post_signal True then 1 else not_empty mb) \<and>
     (mb_first mb' = mb_first mb \<and> mb_last mb' = mb_last mb \<or>
      in_cs pc \<and> pc \<noteq> Post_signal True \<and> pc' = Post_signal (mb_first mb = mb_last mb))"

lemma post_step:
  assumes "thread_step a pc mb = Some (ev, pc', mb')" "\<not> fetching pc" "\<forall>mode. a \<noteq> Call_fetch mode" "not_empty mb \<le> 1"
  shows "post_effect pc mb pc' mb'"
proof (cases "a = Continue")
  case False
  then show ?thesis using assms by (cases a) (auto simp: thread_step_def post_effect_def split: if_splits)
next
  case True
  then have c: "continue_step pc mb = Some (ev, pc', mb')" using assms(1) by (simp add: thread_step_def)
  show ?thesis
  proof (cases pc)
    case (Post_loop blocking msg)
    obtain full where full: "mbox_full mb = Some full" using c Post_loop by (auto split: Option.bind_splits)
    show ?thesis
    proof (cases full)
      case True
      then show ?thesis using Post_loop full c by (auto simp: post_effect_def split: if_splits Option.bind_splits)
    next
      case False
      then obtain fresh where st: "mbox_store msg mb = Some (fresh, mb')" "pc' = Post_signal fresh"
        using Post_loop full c by (auto split: Option.bind_splits)
      then have "fresh = (mb_last mb = mb_first mb)" "not_empty mb' = not_empty mb"
        by (auto simp: mbox_store_def Let_def split: Option.bind_splits)
      then show ?thesis using st(2) Post_loop by (auto simp: post_effect_def)
    qed
  qed (use c assms(2,4) in \<open>auto simp: post_effect_def sem_defs split: if_splits Option.bind_splits\<close>)
qed

definition wakes :: "nat \<Rightarrow> 'm system \<Rightarrow> bool" where
  "wakes r s \<longleftrightarrow> (\<forall>t. t \<noteq> r \<longrightarrow> \<not> fetching (pcs s t)) \<and> not_empty (box s) \<le> 1 \<and>
     (\<forall>mode. pcs s r = Fetch_empty mode \<longrightarrow> mb_first (box s) = mb_last (box s)) \<and>
     (\<forall>mode. pcs s r = Fetch_wait mode \<and> mb_first (box s) \<noteq> mb_last (box s) \<longrightarrow>
        not_empty (box s) = 1 \<or> (\<exists>t. pcs s t = Post_signal True))"

text \<open>A step of the thread that fetches: it goes to sleep only with the mailbox empty.\<close>

lemma fetch_step:
  assumes "thread_step a pc mb = Some (ev, pc', mb')" "not_empty mb \<le> 1" "\<forall>mode. pc = Fetch_empty mode \<longrightarrow> mb_first mb = mb_last mb"
  shows "not_empty mb' \<le> 1 \<and> (\<forall>mode. pc' = Fetch_empty mode \<or> pc' = Fetch_wait mode \<longrightarrow> mb_first mb' = mb_last mb')"
proof (cases "a = Continue")
  case False
  then show ?thesis using assms by (cases a) (auto simp: thread_step_def split: if_splits)
next
  case True
  then have c: "continue_step pc mb = Some (ev, pc', mb')" using assms(1) by (simp add: thread_step_def)
  show ?thesis
  proof (cases pc)
    case (Post_loop blocking msg)
    then show ?thesis using c assms(2)
      by (auto simp: mbox_store_def Let_def split: if_splits Option.bind_splits)
  next
    case (Fetch_loop mode)
    then show ?thesis using c assms(2)
      by (auto simp: mbox_take_def Let_def split: if_splits Option.bind_splits)
  qed (use c assms(2,3) in \<open>auto simp: sem_defs split: if_splits Option.bind_splits\<close>)
qed

lemma wakes_step:
  assumes w: "wakes r s" and ok: "system_ok s" and m: "one_fetcher r t a" and st: "system_step t a s = Some s'"
  shows "wakes r s'"
proof -
  obtain ev pc mb where th: "thread_step a (pcs s t) (box s) = Some (ev, pc, mb)"
    "s' = log_event ev (s\<lparr>pcs := (pcs s)(t := pc), box := mb\<rparr>)"
    using st by (auto simp: system_step_def split: Option.bind_splits)
  have f: "box s' = mb" "pcs s' = (pcs s)(t := pc)" using th(2) by (cases ev; simp)+
  have k: "\<And>u. u \<noteq> r \<Longrightarrow> \<not> fetching (pcs s u)" "not_empty (box s) \<le> 1"
    "\<And>mode. pcs s r = Fetch_empty mode \<Longrightarrow> mb_first (box s) = mb_last (box s)"
    "\<And>mode. pcs s r = Fetch_wait mode \<Longrightarrow> mb_first (box s) \<noteq> mb_last (box s) \<Longrightarrow>
       not_empty (box s) = 1 \<or> (\<exists>t. pcs s t = Post_signal True)"
    using w unfolding wakes_def by blast+
  show ?thesis
  proof (cases "t = r")
    case True
    have "not_empty mb \<le> 1" "\<And>mode. pc = Fetch_empty mode \<or> pc = Fetch_wait mode \<Longrightarrow> mb_first mb = mb_last mb"
      using fetch_step [OF th(1) k(2)] k(3) True by auto
    then show ?thesis unfolding wakes_def f using True k(1) by auto
  next
    case False
    have pe: "post_effect (pcs s t) (box s) pc mb"
      using post_step [OF th(1) k(1) [OF False] _ k(2)] m False by (simp add: one_fetcher_def)
    have nf: "\<not> fetching (((pcs s)(t := pc)) u)" if "u \<noteq> r" for u using that k(1) pe by (simp add: post_effect_def)
    have ne: "not_empty mb \<le> 1" using pe k(2) by (simp add: post_effect_def)
    have r: "((pcs s)(t := pc)) r = pcs s r" using False by simp
    have "mb_first mb = mb_last mb" if e: "pcs s r = Fetch_empty mode" for mode
    proof -
      have "in_cs (pcs s r)" using e by simp
      then have "\<not> in_cs (pcs s t)" using ok False unfolding system_ok_def by blast
      then show ?thesis using pe k(3) [OF e] by (auto simp: post_effect_def)
    qed
    moreover have "not_empty mb = 1 \<or> (\<exists>u. ((pcs s)(t := pc)) u = Post_signal True)"
      if e: "pcs s r = Fetch_wait mode" "mb_first mb \<noteq> mb_last mb" for mode
    proof (cases "pcs s t = Post_signal True \<or> pc = Post_signal True")
      case True
      then show ?thesis using pe by (auto simp: post_effect_def intro: exI [of _ t])
    next
      case n: False
      then have "mb_first (box s) \<noteq> mb_last (box s)" "not_empty mb = not_empty (box s)" using pe e(2) by (auto simp: post_effect_def)
      then have "not_empty mb = 1 \<or> (\<exists>u. pcs s u = Post_signal True)" using k(4) [OF e(1)] by simp
      then show ?thesis using n by (metis fun_upd_other)
    qed
    ultimately show ?thesis unfolding wakes_def f r using nf ne by blast
  qed
qed

lemma wakes_reachable:
  assumes "reachable junk (one_fetcher r) s" "length junk = 128"
  shows "wakes r s"
  using assms
proof (induction rule: reachable.induct)
  case start
  then show ?case by (simp add: wakes_def system_new_def sys_mbox_new_def sys_sem_new_internal_def)
next
  case (step s t a s')
  then show ?case using wakes_step reachable_ok by blast
qed

text \<open>
  C18: With a single fetching thread no wake-up is lost: whenever that thread waits for a message and there is one,
  the semaphore it waits for has been signalled, or a posting thread is just about to signal it.
\<close>

theorem mbox_single_fetcher_wakes:
  assumes "reachable junk (one_fetcher r) s" "length junk = 128" "pcs s r = Fetch_wait mode" "contents (box s) \<noteq> []"
  shows "(\<exists>s'. system_step r Continue s = Some s' \<and> pcs s' r = Fetch_lock mode) \<or> (\<exists>t. pcs s t = Post_signal True)"
proof -
  have "box_ok (box s)" using reachable_ok [OF assms(1,2)] unfolding system_ok_def by blast
  then have "mb_first (box s) \<noteq> mb_last (box s)" using assms(4) contents_Nil by blast
  then have "not_empty (box s) = 1 \<or> (\<exists>t. pcs s t = Post_signal True)"
    using wakes_reachable [OF assms(1,2)] assms(3) unfolding wakes_def by blast
  then show ?thesis using assms(3) by (auto simp: system_step_def thread_step_def sys_arch_sem_wait_def)
qed

lemma run_pcs_other: "run as s = Some s' \<Longrightarrow> t \<notin> fst ` set as \<Longrightarrow> pcs s' t = pcs s t"
proof (induction as s rule: run.induct)
  case (2 u a as s)
  then obtain s1 where s1: "system_step u a s = Some s1" "run as s1 = Some s'" by (auto split: Option.bind_splits)
  then obtain ev pc mb where "s1 = log_event ev (s\<lparr>pcs := (pcs s)(u := pc), box := mb\<rparr>)"
    by (auto simp: system_step_def split: Option.bind_splits)
  then have "pcs s1 t = pcs s t" using "2.prems"(2) by (cases ev) auto
  then show ?case using "2.IH" [OF s1] "2.prems"(2) by auto
qed simp

definition wake_trace :: "(nat \<times> nat action) list" where
  "wake_trace = [(1, Call_fetch Forever), (1, Continue), (1, Continue), (1, Continue), (0, Call_post 5)] @
     replicate 4 (0, Continue)"

theorem mbox_single_fetcher_wakes_witness:
  "\<exists>s. run wake_trace (system_new (replicate 128 0)) = Some s \<and> pcs s 1 = Fetch_wait Forever \<and>
     (\<exists>s'. system_step 1 Continue s = Some s' \<and> pcs s' 1 = Fetch_lock Forever)"
proof -
  let ?j = "replicate 128 (0 :: nat)"
  have "map_option (\<lambda>s. (pcs s 1, contents (box s), pcs s 0, not_empty (box s))) (run wake_trace (system_new ?j)) =
      Some (Fetch_wait Forever, [5], Idle, 1)" by code_simp
  then obtain s where s: "run wake_trace (system_new ?j) = Some s" "pcs s 1 = Fetch_wait Forever" "contents (box s) = [5]"
    "not_empty (box s) = 1" by auto
  have "reachable ?j (one_fetcher 1) s"
    by (rule reachable_run [OF s(1) reachable.start]) (auto simp: wake_trace_def one_fetcher_def)
  then have "(\<exists>s'. system_step 1 Continue s = Some s' \<and> pcs s' 1 = Fetch_lock Forever) \<or> (\<exists>t. pcs s t = Post_signal True)"
    using s by (intro mbox_single_fetcher_wakes [of ?j 1 s Forever]) simp_all
  moreover have "\<exists>s'. system_step 1 Continue s = Some s' \<and> pcs s' 1 = Fetch_lock Forever"
    using s by (simp add: system_step_def thread_step_def sys_arch_sem_wait_def)
  ultimately show ?thesis using s by blast
qed

text \<open>Two threads wait, two messages are posted, one of the two threads fetches one.\<close>

definition lost_trace :: "(nat \<times> nat action) list" where
  "lost_trace = concat (map (\<lambda>t. (t, Call_fetch Forever) # replicate 3 (t, Continue)) [1, 2]) @
     concat (map (\<lambda>m. (0, Call_post m) # replicate 4 (0, Continue)) [5, 6]) @ replicate 5 (2, Continue)"

text \<open>
  C40: With two fetching threads a wake-up can be lost: after some execution a message is in the mailbox and every other
  thread is outside, but a thread that waits for a message has no step, because the semaphore \<^verbatim>\<open>not_empty\<close> counts
  to 1 only and is signalled only when the mailbox was empty.
\<close>

theorem mbox_two_fetchers_lost_wakeup:
  "\<exists>s. reachable (replicate 128 0) (\<lambda>t a. True) s \<and> pcs s = (\<lambda>t. if t = 1 then Fetch_wait Forever else Idle) \<and>
     contents (box s) = [6 :: nat] \<and> (\<forall>a. system_step 1 a s = None)"
proof -
  let ?j = "replicate 128 (0 :: nat)"
  have "map_option (\<lambda>s. (pcs s 0, pcs s 1, pcs s 2, contents (box s), not_empty (box s))) (run lost_trace (system_new ?j)) =
      Some (Idle, Fetch_wait Forever, Idle, [6], 0)" by code_simp
  then obtain s where s: "run lost_trace (system_new ?j) = Some s" "pcs s 0 = Idle" "pcs s 1 = Fetch_wait Forever"
    "pcs s 2 = Idle" "contents (box s) = [6]" "not_empty (box s) = 0" by auto
  have "pcs s t = Idle" if t: "t \<noteq> 1" for t
  proof (cases "t = 0 \<or> t = 2")
    case False
    then have "t \<notin> fst ` set lost_trace" using t by (auto simp: lost_trace_def)
    then show ?thesis using run_pcs_other [OF s(1)] by (simp add: system_new_def)
  qed (use s in auto)
  then have "pcs s = (\<lambda>t. if t = 1 then Fetch_wait Forever else Idle)" using s(3) by auto
  moreover have "reachable ?j (\<lambda>t a. True) s" by (rule reachable_run [OF s(1) reachable.start]) simp
  moreover have "system_step 1 a s = None" for a
    using s by (cases a) (simp_all add: system_step_def thread_step_def sys_arch_sem_wait_def)
  ultimately show ?thesis using s by blast
qed

section \<open>Time\<close>

record timespec =
  tv_sec :: int
  tv_nsec :: int

definition sys_now :: "timespec \<Rightarrow> u32" where
  "sys_now ts = word_of_int (tv_sec ts * 1000 + tv_nsec ts div 1000000)"

definition sys_jiffies :: "timespec \<Rightarrow> u32" where
  "sys_jiffies ts = word_of_int (tv_sec ts * 1000000000 + tv_nsec ts)"

text \<open>The point in time up to which \<^verbatim>\<open>cond_wait\<close> waits, and the milliseconds it reports to have waited.\<close>

definition cond_wait_deadline :: "timespec \<Rightarrow> u32 \<Rightarrow> timespec" where
  "cond_wait_deadline rtime1 timeout =
     (let ts = \<lparr>tv_sec = tv_sec rtime1 + uint timeout div 1000, tv_nsec = tv_nsec rtime1 + (uint timeout mod 1000) * 1000000\<rparr>
      in if tv_nsec ts \<ge> 1000000000 then ts\<lparr>tv_sec := tv_sec ts + 1, tv_nsec := tv_nsec ts - 1000000000\<rparr> else ts)"

definition cond_wait_elapsed :: "timespec \<Rightarrow> timespec \<Rightarrow> u32" where
  "cond_wait_elapsed rtime1 rtime2 =
     (let ts = \<lparr>tv_sec = tv_sec rtime2 - tv_sec rtime1, tv_nsec = tv_nsec rtime2 - tv_nsec rtime1\<rparr>;
          ts = (if tv_nsec ts < 0 then ts\<lparr>tv_sec := tv_sec ts - 1, tv_nsec := tv_nsec ts + 1000000000\<rparr> else ts)
      in word_of_int (tv_sec ts * 1000 + tv_nsec ts div 1000000))"

definition nanos :: "timespec \<Rightarrow> int" where
  "nanos ts = tv_sec ts * 1000000000 + tv_nsec ts"

definition timespec_ok :: "timespec \<Rightarrow> bool" where
  "timespec_ok ts \<longleftrightarrow> 0 \<le> tv_nsec ts \<and> tv_nsec ts < 1000000000"

lemma cond_wait_deadline_ok:
  assumes "timespec_ok t"
  shows "timespec_ok (cond_wait_deadline t timeout) \<and> nanos (cond_wait_deadline t timeout) = nanos t + uint timeout * 1000000"
proof -
  define q r where "q = uint timeout div 1000" and "r = uint timeout mod 1000"
  have "0 \<le> r" "r < 1000" "uint timeout = 1000 * q + r" by (simp_all add: q_def r_def)
  then show ?thesis
    using assms unfolding cond_wait_deadline_def q_def [symmetric] r_def [symmetric]
    by (auto simp: timespec_ok_def nanos_def Let_def)
qed

lemma cond_wait_elapsed_ok:
  assumes "timespec_ok t1" "timespec_ok t2"
  shows "cond_wait_elapsed t1 t2 = word_of_int ((nanos t2 - nanos t1) div 1000000)"
proof -
  have split: "(a * 1000000000 + b) div 1000000 = a * 1000 + b div 1000000" for a b :: int
  proof -
    have "a * 1000000000 + b = b + (a * 1000) * 1000000" by simp
    then show ?thesis by (simp only: div_mult_self1 [of "1000000 :: int"])
  qed
  have "nanos t2 - nanos t1 = (tv_sec t2 - tv_sec t1) * 1000000000 + (tv_nsec t2 - tv_nsec t1)"
    "nanos t2 - nanos t1 = (tv_sec t2 - tv_sec t1 - 1) * 1000000000 + (tv_nsec t2 - tv_nsec t1 + 1000000000)"
    by (simp_all add: nanos_def)
  then have "(nanos t2 - nanos t1) div 1000000 = (tv_sec t2 - tv_sec t1) * 1000 + (tv_nsec t2 - tv_nsec t1) div 1000000"
    "(nanos t2 - nanos t1) div 1000000 = (tv_sec t2 - tv_sec t1 - 1) * 1000 + (tv_nsec t2 - tv_nsec t1 + 1000000000) div 1000000"
    using split by metis+
  then show ?thesis
    by (cases "tv_nsec t2 - tv_nsec t1 < 0") (simp_all only: cond_wait_elapsed_def Let_def timespec.simps if_True if_False)
qed

section \<open>Critical sections\<close>

text \<open>The holder of the mutex, and the two variables it protects; \<open>0xDEAD\<close> is no thread.\<close>

record lwprot =
  lwprot_mutex :: "nat option"
  lwprot_thread :: nat
  lwprot_count :: int

definition NO_THREAD :: nat where
  "NO_THREAD = 0xDEAD"

definition sys_arch_protect :: "nat \<Rightarrow> lwprot \<Rightarrow> lwprot option" where
  "sys_arch_protect self p =
     (if lwprot_thread p \<noteq> self then
        if lwprot_mutex p = None then Some (p\<lparr>lwprot_mutex := Some self, lwprot_thread := self, lwprot_count := 1\<rparr>) else None
      else Some (p\<lparr>lwprot_count := lwprot_count p + 1\<rparr>))"

definition sys_arch_unprotect :: "nat \<Rightarrow> lwprot \<Rightarrow> lwprot" where
  "sys_arch_unprotect self p =
     (if lwprot_thread p = self then
        let p = p\<lparr>lwprot_count := lwprot_count p - 1\<rparr>
        in if lwprot_count p = 0 then p\<lparr>lwprot_thread := NO_THREAD, lwprot_mutex := None\<rparr> else p
      else p)"

definition lwprot_ok :: "lwprot \<Rightarrow> bool" where
  "lwprot_ok p \<longleftrightarrow> (case lwprot_mutex p of None \<Rightarrow> lwprot_thread p = NO_THREAD
     | Some t \<Rightarrow> t \<noteq> NO_THREAD \<and> lwprot_thread p = t \<and> lwprot_count p > 0)"

lemma protect_ok:
  assumes "lwprot_ok p" "self \<noteq> NO_THREAD"
  shows "case sys_arch_protect self p of
      None \<Rightarrow> \<exists>t. lwprot_mutex p = Some t \<and> t \<noteq> self
    | Some p' \<Rightarrow> lwprot_ok p' \<and> lwprot_mutex p' = Some self \<and>
        lwprot_count p' = (if lwprot_mutex p = Some self then lwprot_count p + 1 else 1)"
  using assms by (auto simp: lwprot_ok_def sys_arch_protect_def split: option.splits)

lemma unprotect_ok:
  assumes "lwprot_ok p" "self \<noteq> NO_THREAD"
  shows "lwprot_ok (sys_arch_unprotect self p) \<and>
    lwprot_mutex (sys_arch_unprotect self p) =
      (if lwprot_mutex p = Some self \<and> lwprot_count p = 1 then None else lwprot_mutex p)"
  using assms by (auto simp: lwprot_ok_def sys_arch_unprotect_def Let_def split: option.splits)

text \<open>
  Critical sections nest: in every state that \<^verbatim>\<open>sys_arch_protect\<close> and \<^verbatim>\<open>sys_arch_unprotect\<close> produce, the mutex is held by
  the thread that entered, another thread cannot enter, and leaving as often as it was entered releases it.
\<close>

theorem lwprot_nesting:
  assumes "lwprot_ok p" "self \<noteq> NO_THREAD" "other \<noteq> self" "sys_arch_protect self p = Some p'"
  shows "sys_arch_protect other p' = None \<and> lwprot_ok (sys_arch_unprotect self p') \<and>
    lwprot_mutex (sys_arch_unprotect self p') = lwprot_mutex p \<and>
    (lwprot_mutex p \<noteq> None \<longrightarrow> lwprot_count (sys_arch_unprotect self p') = lwprot_count p)"
  using assms by (auto simp: lwprot_ok_def sys_arch_protect_def sys_arch_unprotect_def Let_def split: option.splits if_splits)

theorem lwprot_nesting_witness:
  "sys_arch_protect 2 \<lparr>lwprot_mutex = Some 1, lwprot_thread = 1, lwprot_count = 3\<rparr> = None"
  using lwprot_nesting [of "\<lparr>lwprot_mutex = Some 1, lwprot_thread = 1, lwprot_count = 2\<rparr>" 1 2
      "\<lparr>lwprot_mutex = Some 1, lwprot_thread = 1, lwprot_count = 3\<rparr>"]
  by (simp add: lwprot_ok_def NO_THREAD_def sys_arch_protect_def)

end
