(* ===== verification/Ethernet.thy ===== *)
theory Ethernet
  imports Ip4_Addr Pbuf_Copy
begin

text \<open>
  Interfaces and frames: the list of network interfaces and the choice of one of them for a destination
  (\<^verbatim>\<open>ip4_route\<close> of \<^verbatim>\<open>lwip/src/core/ipv4/ip4.c\<close>), and \<^verbatim>\<open>ethernet_output\<close> of \<^verbatim>\<open>lwip/src/netif/ethernet.c\<close>, which puts the
  Ethernet header in front of a packet and hands it to the driver.

  The driver behind \<^verbatim>\<open>netif->linkoutput\<close> is a parameter: it reads the bytes of the chain, returns an error code
  and leaves the pbufs alone, which are the caller's.  The frames it was given are recorded in the state.
  \<^verbatim>\<open>ETH_PAD_SIZE\<close> is 0, and there are no VLAN tags.
\<close>

section \<open>Interfaces\<close>

record net_state =
  stack_mem :: lwip_mem
  netifs :: "addr \<rightharpoonup> netif"
  netif_list :: "addr list"
  netif_default :: addr
  sent :: "(addr \<times> u8 list) list"

record net_cfg =
  pcfg :: pbuf_cfg
  linkoutput :: "addr \<Rightarrow> u8 list \<Rightarrow> err_t"

text \<open>The interface a pointer refers to.\<close>

definition netif_at :: "net_state \<Rightarrow> addr \<Rightarrow> netif option" where
  "netif_at s nif = (if nif = 0 then None else netifs s nif)"

definition netif_is_up :: "netif \<Rightarrow> bool" where
  "netif_is_up n \<longleftrightarrow> netif_flags n AND NETIF_FLAG_UP \<noteq> 0"

definition netif_is_link_up :: "netif \<Rightarrow> bool" where
  "netif_is_link_up n \<longleftrightarrow> netif_flags n AND NETIF_FLAG_LINK_UP \<noteq> 0"

text \<open>The loop of \<^verbatim>\<open>ip4_route\<close>; 0 when no interface matches.\<close>

fun route_loop :: "(addr \<rightharpoonup> netif) \<Rightarrow> ip4_addr \<Rightarrow> addr list \<Rightarrow> addr option" where
  "route_loop m dest [] = Some 0"
| "route_loop m dest (a # as) =
     do {
       n \<leftarrow> m a;
       if netif_is_up n \<and> netif_is_link_up n \<and> \<not> ip4_addr_isany_val (ip_addr n) then
         if ip4_addr_netcmp dest (ip_addr n) (netmask n) then Some a
         else if netif_flags n AND NETIF_FLAG_BROADCAST = 0 \<and> dest = gw n then Some a
         else route_loop m dest as
       else route_loop m dest as
     }"

definition ip4_route :: "ip4_addr \<Rightarrow> net_state \<Rightarrow> addr option" where
  "ip4_route dest s =
     do {
       a \<leftarrow> route_loop (netifs s) dest (netif_list s);
       if a \<noteq> 0 then Some a
       else if netif_default s = 0 then Some 0
       else
         do {
           d \<leftarrow> netif_at s (netif_default s);
           if \<not> netif_is_up d \<or> \<not> netif_is_link_up d \<or> ip4_addr_isany_val (ip_addr d) then Some 0
           else Some (netif_default s)
         }
     }"

section \<open>Ethernet addresses and frames\<close>

datatype eth_addr = Eth_Addr u8 u8 u8 u8 u8 u8

fun eth_bytes :: "eth_addr \<Rightarrow> u8 list" where
  "eth_bytes (Eth_Addr a b c d e f) = [a, b, c, d, e, f]"

text \<open>Six bytes of memory read as a \<^verbatim>\<open>struct eth_addr\<close>.\<close>

fun eth_of :: "u8 list \<Rightarrow> eth_addr option" where
  "eth_of (a # b # c # d # e # f # r) = Some (Eth_Addr a b c d e f)"
| "eth_of _ = None"

definition ethbroadcast :: eth_addr where
  "ethbroadcast = Eth_Addr 0xff 0xff 0xff 0xff 0xff 0xff"

definition ethzero :: eth_addr where
  "ethzero = Eth_Addr 0 0 0 0 0 0"

definition ETH_HWADDR_LEN :: nat where
  "ETH_HWADDR_LEN = 6"

definition SIZEOF_ETH_HDR :: nat where
  "SIZEOF_ETH_HDR = 14"

definition ETHTYPE_IP :: u16 where "ETHTYPE_IP = 0x0800"
definition ETHTYPE_ARP :: u16 where "ETHTYPE_ARP = 0x0806"

text \<open>What a driver reads: the bytes of all pbufs of the chain.\<close>

partial_function (option) frame_bytes :: "(addr \<rightharpoonup> pbuf) \<Rightarrow> byte_mem \<Rightarrow> addr \<Rightarrow> u8 list option" where
  "frame_bytes m bm p =
     (if p = 0 then Some []
      else
        do {
          pb \<leftarrow> m p;
          bs \<leftarrow> load_bytes bm (payload pb) (pb_len pb);
          cs \<leftarrow> frame_bytes m bm (pb_next pb);
          Some (bs @ cs)
        })"

definition link_output :: "net_cfg \<Rightarrow> addr \<Rightarrow> addr \<Rightarrow> net_state \<Rightarrow> (err_t \<times> net_state) option" where
  "link_output c nif p s =
     do {
       bs \<leftarrow> frame_bytes (pbufs (stack_mem s)) (bytes (stack_mem s)) p;
       Some (linkoutput c nif bs, s\<lparr>sent := sent s @ [(nif, bs)]\<rparr>)
     }"

definition ethernet_output ::
  "net_cfg \<Rightarrow> addr \<Rightarrow> addr \<Rightarrow> eth_addr \<Rightarrow> eth_addr \<Rightarrow> u16 \<Rightarrow> net_state \<Rightarrow> (err_t \<times> net_state) option" where
  "ethernet_output c nif p src dst eth_type s =
     do {
       let eth_type_be = lwip_htons eth_type;
       (r, m) \<leftarrow> pbuf_add_header (pcfg c) p SIZEOF_ETH_HDR (stack_mem s);
       if r \<noteq> 0 then Some (ERR_BUF, s\<lparr>stack_mem := m\<rparr>)
       else
         do {
           pb \<leftarrow> pbufs m p;
           bm \<leftarrow> store_bytes (bytes m) (payload pb + 12) (u16_bytes eth_type_be);
           bm \<leftarrow> store_bytes bm (payload pb) (eth_bytes dst);
           bm \<leftarrow> store_bytes bm (payload pb + 6) (eth_bytes src);
           n \<leftarrow> netif_at s nif;
           lwip_assert (hwaddr_len n = ETH_HWADDR_LEN);
           link_output c nif p (s\<lparr>stack_mem := m\<lparr>bytes := bm\<rparr>\<rparr>)
         }
     }"

text \<open>The Ethernet header of a frame.\<close>

definition eth_header :: "eth_addr \<Rightarrow> eth_addr \<Rightarrow> u16 \<Rightarrow> u8 list" where
  "eth_header dst src eth_type = eth_bytes dst @ eth_bytes src @ u16_bytes (lwip_htons eth_type)"

lemma length_eth_bytes [simp]: "length (eth_bytes a) = 6"
  by (cases a) simp

lemma eth_of_bytes [simp]: "eth_of (eth_bytes a) = Some a" "eth_of (eth_bytes a @ bs) = Some a"
  by (cases a; simp)+

lemma length_u16_bytes [simp]: "length (u16_bytes w) = 2"
  by (simp add: u16_bytes_def)

lemma length_eth_header [simp]: "length (eth_header dst src t) = 14"
  by (simp add: eth_header_def)


section \<open>What is sent\<close>

lemma frame_bytes_spec:
  assumes "chain m p xs" "mapped m bm xs"
  shows "frame_bytes m bm p = Some (pdata m bm xs)"
  using assms
proof (induction xs arbitrary: p)
  case Nil
  then show ?case by (subst frame_bytes.simps) simp
next
  case (Cons x xs)
  then obtain pb where pb: "p = x" "x \<noteq> 0" "m x = Some pb" "chain m (pb_next pb) xs" by auto
  then show ?case using Cons.prems Cons.IH [OF pb(4)] by (subst frame_bytes.simps) (simp add: mem_simps)
qed

lemma mem_upd_append: "mem_upd m a (xs @ ys) = mem_upd (mem_upd m a xs) (a + length xs) ys"
  by (rule ext) (auto simp: mem_upd_def nth_append)

lemma mem_upd_swap:
  "a + length xs \<le> b \<Longrightarrow> mem_upd (mem_upd m b ys) a xs = mem_upd (mem_upd m a xs) b ys"
  by (rule ext) (auto simp: mem_upd_def)

lemma eth_header_stored:
  assumes r: "range_mapped bm a 14"
  shows "do { bm \<leftarrow> store_bytes bm (a + 12) (u16_bytes (lwip_htons t)); bm \<leftarrow> store_bytes bm a (eth_bytes dst);
      bm \<leftarrow> store_bytes bm (a + 6) (eth_bytes src); f bm } = f (mem_upd bm a (eth_header dst src t))"
proof -
  have r': "range_mapped bm (a + 12) 2" "range_mapped bm a 6" "range_mapped bm (a + 6) 6"
    using range_mapped_mono [OF r] range_mapped_prefix [OF r] by simp_all
  let ?w = "u16_bytes (lwip_htons t)"
  have "mem_upd (mem_upd (mem_upd bm (a + 12) ?w) a (eth_bytes dst)) (a + 6) (eth_bytes src) =
      mem_upd bm a (eth_header dst src t)"
    unfolding eth_header_def mem_upd_append by (simp add: mem_upd_swap add.assoc)
  then show ?thesis using r' by (simp add: mem_simps)
qed

lemma range_mapped_add: "range_mapped m a (n + k) \<longleftrightarrow> range_mapped m a n \<and> range_mapped m (a + n) k"
proof -
  have "(\<forall>i<n + k. P i) \<longleftrightarrow> (\<forall>i<n. P i) \<and> (\<forall>i<k. P (n + i))" for P :: "nat \<Rightarrow> bool"
    by (auto simp: less_diff_conv) (metis add.commute add_diff_inverse_nat nat_add_left_cancel_less)
  then show ?thesis by (simp add: range_mapped_def add.assoc)
qed

text \<open>No byte of the chain \<open>xs\<close> lies in the \<open>n\<close> bytes from \<open>a\<close> on.\<close>

definition clear_of :: "(addr \<rightharpoonup> pbuf) \<Rightarrow> addr list \<Rightarrow> addr \<Rightarrow> nat \<Rightarrow> bool" where
  "clear_of m xs a n \<longleftrightarrow>
     (\<forall>x\<in>set xs. payload (the (m x)) + pb_len (the (m x)) \<le> a \<or> a + n \<le> payload (the (m x)))"

lemma clear_of_simps [simp]:
  "clear_of m [] a n"
  "clear_of m (x # xs) a n \<longleftrightarrow>
     (payload (the (m x)) + pb_len (the (m x)) \<le> a \<or> a + n \<le> payload (the (m x))) \<and> clear_of m xs a n"
  by (simp_all add: clear_of_def)

lemma pdata_clear:
  "clear_of m xs a (length bs) \<Longrightarrow> pdata m (mem_upd bm a bs) xs = pdata m bm xs"
  by (induction xs) (auto simp: bytes_at_mem_upd_other)

lemma ethernet_output_spec:
  assumes pk: "packet (pbufs (stack_mem s)) p (p # xs)" "pbufs (stack_mem s) p = Some pb"
    and fits: "header_fits (pcfg c) p pb 14 False" "14 \<le> payload pb" "payload pb < 2 ^ 64"
    and map: "range_mapped (bytes (stack_mem s)) (payload pb - 14) 14" "mapped (pbufs (stack_mem s)) (bytes (stack_mem s)) (p # xs)"
    and clr: "clear_of (pbufs (stack_mem s)) xs (payload pb - 14) 14"
    and nif: "netif_at s nif = Some n" "hwaddr_len n = 6"
    and fr_def: "fr = eth_header dst src t @ pdata (pbufs (stack_mem s)) (bytes (stack_mem s)) (p # xs)"
  shows "ethernet_output c nif p src dst t s = Some (linkoutput c nif fr,
     s\<lparr>stack_mem := (put_pbuf p (grow 14 pb) (stack_mem s))
         \<lparr>bytes := mem_upd (bytes (stack_mem s)) (payload pb - 14) (eth_header dst src t)\<rparr>,
       sent := sent s @ [(nif, fr)]\<rparr>)"
proof -
  let ?m = "pbufs (stack_mem s)" and ?bm = "bytes (stack_mem s)" and ?a = "payload pb - 14"
  let ?m' = "?m(p \<mapsto> grow 14 pb)" and ?bm' = "mem_upd ?bm ?a (eth_header dst src t)"
  have p: "p \<noteq> 0" "pb_len pb \<le> tot_len pb" "tot_len pb < 65536" "p \<notin> set xs" "chain ?m (pb_next pb) xs"
    using pk chain_notin [of ?m p p xs] by (auto simp: packet_def)
  have add: "pbuf_add_header (pcfg c) p SIZEOF_ETH_HDR (stack_mem s) = Some (0, put_pbuf p (grow 14 pb) (stack_mem s))"
    using pbuf_add_header_spec [OF pk(2) p(1-3) fits(3), of 14 "pcfg c" False] fits(1,2)
    by (simp add: SIZEOF_ETH_HDR_def pbuf_add_header_def)
  have "packet ?m' p (p # xs)" using packet_grow [OF pk(1,2), of 14] fits(1) by (simp add: header_fits_def)
  then have ch: "chain ?m' p (p # xs)" by (rule packet_chain)
  have mp: "mapped ?m' ?bm' (p # xs)"
  proof -
    have "range_mapped ?bm ?a (14 + pb_len pb)" using map pk(2) fits(2) by (simp add: range_mapped_add)
    moreover have "mapped ?m' ?bm xs" using map(2) p(4) unfolding mapped_def by auto
    ultimately show ?thesis using map(1) by (simp add: mapped_def grow_def add.commute)
  qed
  have "pdata ?m' ?bm' xs = pdata ?m ?bm' xs" using p(4) by (intro pdata_cong) auto
  then have "pdata ?m' ?bm' xs = pdata ?m ?bm xs" using pdata_clear [of ?m xs ?a "eth_header dst src t" ?bm] clr by simp
  moreover have "bytes_at ?bm' ?a (pb_len pb + 14) = eth_header dst src t @ bytes_at ?bm (payload pb) (pb_len pb)"
    using bytes_at_add [of ?bm' ?a 14 "pb_len pb"] bytes_at_mem_upd_same [of ?bm ?a "eth_header dst src t"]
      bytes_at_mem_upd_other [of "payload pb" "pb_len pb" ?a "eth_header dst src t" ?bm] fits(2)
    by (simp add: add.commute)
  ultimately have fr: "pdata ?m' ?bm' (p # xs) = fr" using pk(2) by (simp add: fr_def grow_def)
  have "frame_bytes ?m' ?bm' p = Some fr" using frame_bytes_spec [OF ch mp] fr by simp
  then show ?thesis using nif
    by (simp add: ethernet_output_def add eth_header_stored [OF map(1)] link_output_def ETH_HWADDR_LEN_def grow_def netif_at_def)
qed

end
