(* ===== verification/Etharp.thy ===== *)
theory Etharp
  imports Ethernet
begin

text \<open>
  Address resolution, \<^verbatim>\<open>lwip/src/core/ipv4/etharp.c\<close>: the ARP table with its states, ageing and choice of an
  entry to recycle, the queue of one packet per pending entry, and ARP packets in and out.  The build is the
  one of \<^verbatim>\<open>opt.h\<close> (one queued packet per entry, entries match the interface, one cached entry for all pcbs), with
  static entries supported and without AutoIP and DHCP.  The result \<^verbatim>\<open>s16_t\<close> of the search is an index or an
  error code; that an index fits the type of the cached index is checked when the stack is compiled.
\<close>

section \<open>The table\<close>

datatype etharp_state =
    ETHARP_STATE_EMPTY | ETHARP_STATE_PENDING | ETHARP_STATE_STABLE
  | ETHARP_STATE_STABLE_REREQUESTING_1 | ETHARP_STATE_STABLE_REREQUESTING_2 | ETHARP_STATE_STATIC

text \<open>The states are ordered by their number in the \<^verbatim>\<open>enum\<close>.\<close>

primrec state_num :: "etharp_state \<Rightarrow> nat" where
  "state_num ETHARP_STATE_EMPTY = 0"
| "state_num ETHARP_STATE_PENDING = 1"
| "state_num ETHARP_STATE_STABLE = 2"
| "state_num ETHARP_STATE_STABLE_REREQUESTING_1 = 3"
| "state_num ETHARP_STATE_STABLE_REREQUESTING_2 = 4"
| "state_num ETHARP_STATE_STATIC = 5"

lemma state_num_inj: "state_num a = state_num b \<Longrightarrow> a = b"
  by (cases a; cases b) simp_all

instantiation etharp_state :: linorder
begin

definition less_eq_etharp_state :: "etharp_state \<Rightarrow> etharp_state \<Rightarrow> bool" where
  "less_eq_etharp_state a b \<longleftrightarrow> state_num a \<le> state_num b"

definition less_etharp_state :: "etharp_state \<Rightarrow> etharp_state \<Rightarrow> bool" where
  "less_etharp_state a b \<longleftrightarrow> state_num a < state_num b"

instance
  by standard (auto simp: less_eq_etharp_state_def less_etharp_state_def intro: state_num_inj)

end

record etharp_entry =
  arp_q :: addr
  arp_ip :: ip4_addr
  arp_netif :: addr
  arp_eth :: eth_addr
  ctime :: nat
  arp_st :: etharp_state

record arp_cfg =
  ncfg :: net_cfg
  ARP_TABLE_SIZE :: nat
  ARP_MAXAGE :: nat

definition ARP_MAXPENDING :: nat where
  "ARP_MAXPENDING = 5"

definition ARP_AGE_REREQUEST_USED_UNICAST :: "arp_cfg \<Rightarrow> nat" where
  "ARP_AGE_REREQUEST_USED_UNICAST c = ARP_MAXAGE c - 30"

definition ARP_AGE_REREQUEST_USED_BROADCAST :: "arp_cfg \<Rightarrow> nat" where
  "ARP_AGE_REREQUEST_USED_BROADCAST c = ARP_MAXAGE c - 15"

definition ETHARP_FLAG_TRY_HARD :: u8 where "ETHARP_FLAG_TRY_HARD = 1"
definition ETHARP_FLAG_FIND_ONLY :: u8 where "ETHARP_FLAG_FIND_ONLY = 2"
definition ETHARP_FLAG_STATIC_ENTRY :: u8 where "ETHARP_FLAG_STATIC_ENTRY = 4"

record arp_state =
  net :: net_state
  arp_table :: "etharp_entry list"
  etharp_cached_entry :: nat

definition arp_entry :: "nat \<Rightarrow> arp_state \<Rightarrow> etharp_entry option" where
  "arp_entry i s = (if i < length (arp_table s) then Some (arp_table s ! i) else None)"

definition put_entry :: "nat \<Rightarrow> etharp_entry \<Rightarrow> arp_state \<Rightarrow> arp_state" where
  "put_entry i e s = s\<lparr>arp_table := (arp_table s)[i := e]\<rparr>"

definition put_mem :: "lwip_mem \<Rightarrow> arp_state \<Rightarrow> arp_state" where
  "put_mem m s = s\<lparr>net := (net s)\<lparr>stack_mem := m\<rparr>\<rparr>"

abbreviation arp_mem :: "arp_state \<Rightarrow> lwip_mem" where
  "arp_mem s \<equiv> stack_mem (net s)"

section \<open>Freeing an entry and finding one\<close>

definition etharp_free_entry :: "arp_cfg \<Rightarrow> nat \<Rightarrow> arp_state \<Rightarrow> arp_state option" where
  "etharp_free_entry c i s =
     do {
       e \<leftarrow> arp_entry i s;
       (e, s) \<leftarrow> (if arp_q e \<noteq> 0 then
           do {
             (_, m) \<leftarrow> pbuf_free (pcfg (ncfg c)) (arp_q e) (arp_mem s);
             Some (e\<lparr>arp_q := 0\<rparr>, put_mem m s)
           }
         else Some (e, s));
       Some (put_entry i (e\<lparr>arp_st := ETHARP_STATE_EMPTY\<rparr>) s)
     }"

text \<open>The candidates that the sweep remembers; an index \<^verbatim>\<open>ARP_TABLE_SIZE\<close> stands for none.\<close>

record arp_scan =
  old_pending :: nat
  old_stable :: nat
  sc_empty :: nat
  old_queue :: nat
  age_queue :: nat
  age_pending :: nat
  age_stable :: nat

definition arp_match :: "ip4_addr option \<Rightarrow> addr \<Rightarrow> etharp_entry \<Rightarrow> bool" where
  "arp_match ipaddr nif e \<longleftrightarrow> ipaddr = Some (arp_ip e) \<and> (nif = 0 \<or> nif = arp_netif e)"

definition scan_entry :: "nat \<Rightarrow> etharp_entry \<Rightarrow> arp_scan \<Rightarrow> arp_scan" where
  "scan_entry i e sc =
     (if arp_st e = ETHARP_STATE_PENDING then
        if arp_q e \<noteq> 0 then
          if ctime e \<ge> age_queue sc then sc\<lparr>old_queue := i, age_queue := ctime e\<rparr> else sc
        else
          if ctime e \<ge> age_pending sc then sc\<lparr>old_pending := i, age_pending := ctime e\<rparr> else sc
      else if arp_st e \<ge> ETHARP_STATE_STABLE then
        if arp_st e < ETHARP_STATE_STATIC then
          if ctime e \<ge> age_stable sc then sc\<lparr>old_stable := i, age_stable := ctime e\<rparr> else sc
        else sc
      else sc)"

text \<open>The sweep stops at a matching entry (\<open>Inl\<close>) or returns its candidates (\<open>Inr\<close>).\<close>

fun find_scan :: "arp_cfg \<Rightarrow> ip4_addr option \<Rightarrow> addr \<Rightarrow> nat \<Rightarrow> etharp_entry list \<Rightarrow> arp_scan \<Rightarrow> nat + arp_scan" where
  "find_scan c ipaddr nif i [] sc = Inr sc"
| "find_scan c ipaddr nif i (e # es) sc =
     (if sc_empty sc = ARP_TABLE_SIZE c \<and> arp_st e = ETHARP_STATE_EMPTY then
        find_scan c ipaddr nif (Suc i) es (sc\<lparr>sc_empty := i\<rparr>)
      else if arp_st e \<noteq> ETHARP_STATE_EMPTY then
        if arp_match ipaddr nif e then Inl i
        else find_scan c ipaddr nif (Suc i) es (scan_entry i e sc)
      else find_scan c ipaddr nif (Suc i) es sc)"

definition scan_start :: "arp_cfg \<Rightarrow> arp_scan" where
  "scan_start c = \<lparr>old_pending = ARP_TABLE_SIZE c, old_stable = ARP_TABLE_SIZE c, sc_empty = ARP_TABLE_SIZE c,
     old_queue = ARP_TABLE_SIZE c, age_queue = 0, age_pending = 0, age_stable = 0\<rparr>"

text \<open>The candidate to recycle when there is no empty entry.\<close>

definition recycle_candidate :: "arp_cfg \<Rightarrow> arp_scan \<Rightarrow> arp_state \<Rightarrow> (err_t + nat) option" where
  "recycle_candidate c sc s =
     (if old_stable sc < ARP_TABLE_SIZE c then
        do { e \<leftarrow> arp_entry (old_stable sc) s; lwip_assert (arp_q e = 0); Some (Inr (old_stable sc)) }
      else if old_pending sc < ARP_TABLE_SIZE c then Some (Inr (old_pending sc))
      else if old_queue sc < ARP_TABLE_SIZE c then Some (Inr (old_queue sc))
      else Some (Inl ERR_MEM))"

text \<open>The end of the search: the chosen entry gets the address.\<close>

definition init_entry :: "arp_cfg \<Rightarrow> nat \<Rightarrow> ip4_addr option \<Rightarrow> addr \<Rightarrow> arp_state \<Rightarrow> ((err_t + nat) \<times> arp_state) option" where
  "init_entry c i ipaddr nif s =
     do {
       lwip_assert (i < ARP_TABLE_SIZE c);
       e \<leftarrow> arp_entry i s;
       lwip_assert (arp_st e = ETHARP_STATE_EMPTY);
       let e = (case ipaddr of Some a \<Rightarrow> e\<lparr>arp_ip := a\<rparr> | None \<Rightarrow> e);
       Some (Inr i, put_entry i (e\<lparr>ctime := 0, arp_netif := nif\<rparr>) s)
     }"

definition etharp_find_entry ::
  "arp_cfg \<Rightarrow> ip4_addr option \<Rightarrow> u8 \<Rightarrow> addr \<Rightarrow> arp_state \<Rightarrow> ((err_t + nat) \<times> arp_state) option" where
  "etharp_find_entry c ipaddr flags nif s =
     (case find_scan c ipaddr nif 0 (arp_table s) (scan_start c) of
        Inl i \<Rightarrow> Some (Inr i, s)
      | Inr sc \<Rightarrow>
          if flags AND ETHARP_FLAG_FIND_ONLY \<noteq> 0 \<or>
             sc_empty sc = ARP_TABLE_SIZE c \<and> flags AND ETHARP_FLAG_TRY_HARD = 0
          then Some (Inl ERR_MEM, s)
          else if sc_empty sc < ARP_TABLE_SIZE c then init_entry c (sc_empty sc) ipaddr nif s
          else
            do {
              r \<leftarrow> recycle_candidate c sc s;
              case r of
                Inl err \<Rightarrow> Some (Inl err, s)
              | Inr i \<Rightarrow>
                  do {
                    lwip_assert (i < ARP_TABLE_SIZE c);
                    s \<leftarrow> etharp_free_entry c i s;
                    init_entry c i ipaddr nif s
                  }
            })"

section \<open>Sending\<close>

definition SIZEOF_ETHARP_HDR :: nat where
  "SIZEOF_ETHARP_HDR = 28"

definition ARP_REQUEST :: u16 where "ARP_REQUEST = 1"
definition ARP_REPLY :: u16 where "ARP_REPLY = 2"
definition LWIP_IANA_HWTYPE_ETHERNET :: u16 where "LWIP_IANA_HWTYPE_ETHERNET = 1"

text \<open>An address in memory; it is in network order, so its bytes are those of the address.\<close>

definition ip4_bytes :: "ip4_addr \<Rightarrow> u8 list" where
  "ip4_bytes a = map (ip4_addr_get_byte_val a) [0..<4]"

fun ip4_of :: "u8 list \<Rightarrow> ip4_addr option" where
  "ip4_of (a # b # c # d # r) = Some (load_u32 a b c d)"
| "ip4_of _ = None"

definition etharp_raw ::
  "arp_cfg \<Rightarrow> addr \<Rightarrow> eth_addr \<Rightarrow> eth_addr \<Rightarrow> eth_addr \<Rightarrow> ip4_addr \<Rightarrow> eth_addr \<Rightarrow> ip4_addr \<Rightarrow> u16 \<Rightarrow> arp_state \<Rightarrow>
    (err_t \<times> arp_state) option" where
  "etharp_raw c nif ethsrc_addr ethdst_addr hwsrc_addr ipsrc_addr hwdst_addr ipdst_addr opcode s =
     do {
       lwip_assert (nif \<noteq> 0);
       (p, m) \<leftarrow> pbuf_alloc (pcfg (ncfg c)) (PBUF_LINK (pcfg (ncfg c))) SIZEOF_ETHARP_HDR PBUF_RAM (arp_mem s);
       let s = put_mem m s;
       if p = 0 then Some (ERR_MEM, s)
       else
         do {
           pb \<leftarrow> pbufs m p;
           lwip_assert (pb_len pb \<ge> SIZEOF_ETHARP_HDR);
           let hdr = payload pb;
           bm \<leftarrow> store_bytes (bytes m) (hdr + 6) (u16_bytes (lwip_htons opcode));
           n \<leftarrow> netif_at (net s) nif;
           lwip_assert (hwaddr_len n = ETH_HWADDR_LEN);
           bm \<leftarrow> store_bytes bm (hdr + 8) (eth_bytes hwsrc_addr);
           bm \<leftarrow> store_bytes bm (hdr + 18) (eth_bytes hwdst_addr);
           bm \<leftarrow> store_bytes bm (hdr + 14) (ip4_bytes ipsrc_addr);
           bm \<leftarrow> store_bytes bm (hdr + 24) (ip4_bytes ipdst_addr);
           bm \<leftarrow> store_bytes bm hdr (u16_bytes (lwip_htons LWIP_IANA_HWTYPE_ETHERNET));
           bm \<leftarrow> store_bytes bm (hdr + 2) (u16_bytes (lwip_htons ETHTYPE_IP));
           bm \<leftarrow> store_bytes bm (hdr + 4) [of_nat ETH_HWADDR_LEN];
           bm \<leftarrow> store_bytes bm (hdr + 5) [4];
           (_, ns) \<leftarrow> ethernet_output (ncfg c) nif p ethsrc_addr ethdst_addr ETHTYPE_ARP
              ((net s)\<lparr>stack_mem := m\<lparr>bytes := bm\<rparr>\<rparr>);
           (_, m) \<leftarrow> pbuf_free (pcfg (ncfg c)) p (stack_mem ns);
           Some (ERR_OK, s\<lparr>net := ns\<lparr>stack_mem := m\<rparr>\<rparr>)
         }
     }"

text \<open>The hardware address of an interface, read as a \<^verbatim>\<open>struct eth_addr\<close>.\<close>

definition netif_eth :: "addr \<Rightarrow> arp_state \<Rightarrow> (netif \<times> eth_addr) option" where
  "netif_eth nif s = do { n \<leftarrow> netif_at (net s) nif; a \<leftarrow> eth_of (hwaddr n); Some (n, a) }"

definition etharp_request_dst ::
  "arp_cfg \<Rightarrow> addr \<Rightarrow> ip4_addr \<Rightarrow> eth_addr \<Rightarrow> arp_state \<Rightarrow> (err_t \<times> arp_state) option" where
  "etharp_request_dst c nif ipaddr hw_dst_addr s =
     do {
       (n, hw) \<leftarrow> netif_eth nif s;
       etharp_raw c nif hw hw_dst_addr hw (ip_addr n) ethzero ipaddr ARP_REQUEST s
     }"

definition etharp_request :: "arp_cfg \<Rightarrow> addr \<Rightarrow> ip4_addr \<Rightarrow> arp_state \<Rightarrow> (err_t \<times> arp_state) option" where
  "etharp_request c nif ipaddr s = etharp_request_dst c nif ipaddr ethbroadcast s"

text \<open>An IP packet for \<open>dst\<close>, over the driver of \<open>nif\<close>.\<close>

definition send_ip :: "arp_cfg \<Rightarrow> addr \<Rightarrow> addr \<Rightarrow> eth_addr \<Rightarrow> arp_state \<Rightarrow> (err_t \<times> arp_state) option" where
  "send_ip c nif p dst s =
     do {
       (_, hw) \<leftarrow> netif_eth nif s;
       (err, ns) \<leftarrow> ethernet_output (ncfg c) nif p hw dst ETHTYPE_IP (net s);
       Some (err, s\<lparr>net := ns\<rparr>)
     }"

section \<open>Updating the table\<close>

text \<open>The second half of an update: the entry takes the address, and its queued packet is sent.\<close>

definition record_address ::
  "arp_cfg \<Rightarrow> addr \<Rightarrow> nat \<Rightarrow> eth_addr \<Rightarrow> etharp_state \<Rightarrow> arp_state \<Rightarrow> (err_t \<times> arp_state) option" where
  "record_address c nif i ethaddr st s =
     do {
       e \<leftarrow> arp_entry i s;
       let p = arp_q e;
       let s = put_entry i (e\<lparr>arp_st := st, arp_netif := nif, arp_eth := ethaddr, ctime := 0, arp_q := 0\<rparr>) s;
       if p \<noteq> 0 then
         do {
           (_, s) \<leftarrow> send_ip c nif p ethaddr s;
           (_, m) \<leftarrow> pbuf_free (pcfg (ncfg c)) p (arp_mem s);
           Some (ERR_OK, put_mem m s)
         }
       else Some (ERR_OK, s)
     }"

definition etharp_update_arp_entry ::
  "arp_cfg \<Rightarrow> addr \<Rightarrow> ip4_addr \<Rightarrow> eth_addr \<Rightarrow> u8 \<Rightarrow> arp_state \<Rightarrow> (err_t \<times> arp_state) option" where
  "etharp_update_arp_entry c nif ipaddr ethaddr flags s =
     do {
       n \<leftarrow> netif_at (net s) nif;
       lwip_assert (hwaddr_len n = ETH_HWADDR_LEN);
       if ip4_addr_isany_val ipaddr \<or> ip4_addr_isbroadcast_u32 ipaddr n \<or> ip4_addr_ismulticast ipaddr
       then Some (ERR_ARG, s)
       else
         do {
           (r, s) \<leftarrow> etharp_find_entry c (Some ipaddr) flags nif s;
           case r of
             Inl err \<Rightarrow> Some (err, s)
           | Inr i \<Rightarrow>
               do {
                 e \<leftarrow> arp_entry i s;
                 if flags AND ETHARP_FLAG_STATIC_ENTRY \<noteq> 0 then record_address c nif i ethaddr ETHARP_STATE_STATIC s
                 else if arp_st e = ETHARP_STATE_STATIC then Some (ERR_VAL, s)
                 else record_address c nif i ethaddr ETHARP_STATE_STABLE s
               }
         }
     }"

definition etharp_add_static_entry :: "arp_cfg \<Rightarrow> ip4_addr \<Rightarrow> eth_addr \<Rightarrow> arp_state \<Rightarrow> (err_t \<times> arp_state) option" where
  "etharp_add_static_entry c ipaddr ethaddr s =
     do {
       nif \<leftarrow> ip4_route ipaddr (net s);
       if nif = 0 then Some (ERR_RTE, s)
       else etharp_update_arp_entry c nif ipaddr ethaddr (ETHARP_FLAG_TRY_HARD OR ETHARP_FLAG_STATIC_ENTRY) s
     }"

definition etharp_remove_static_entry :: "arp_cfg \<Rightarrow> ip4_addr \<Rightarrow> arp_state \<Rightarrow> (err_t \<times> arp_state) option" where
  "etharp_remove_static_entry c ipaddr s =
     do {
       (r, s) \<leftarrow> etharp_find_entry c (Some ipaddr) ETHARP_FLAG_FIND_ONLY 0 s;
       case r of
         Inl err \<Rightarrow> Some (err, s)
       | Inr i \<Rightarrow>
           do {
             e \<leftarrow> arp_entry i s;
             if arp_st e \<noteq> ETHARP_STATE_STATIC then Some (ERR_ARG, s)
             else do { s \<leftarrow> etharp_free_entry c i s; Some (ERR_OK, s) }
           }
     }"

text \<open>The loops over the table run through its indices.\<close>

fun cleanup_loop :: "arp_cfg \<Rightarrow> addr \<Rightarrow> nat list \<Rightarrow> arp_state \<Rightarrow> arp_state option" where
  "cleanup_loop c nif [] s = Some s"
| "cleanup_loop c nif (i # is) s =
     do {
       e \<leftarrow> arp_entry i s;
       s \<leftarrow> (if arp_st e \<noteq> ETHARP_STATE_EMPTY \<and> arp_netif e = nif then etharp_free_entry c i s else Some s);
       cleanup_loop c nif is s
     }"

definition etharp_cleanup_netif :: "arp_cfg \<Rightarrow> addr \<Rightarrow> arp_state \<Rightarrow> arp_state option" where
  "etharp_cleanup_netif c nif s = cleanup_loop c nif [0..<ARP_TABLE_SIZE c] s"

definition tmr_entry :: "arp_cfg \<Rightarrow> nat \<Rightarrow> arp_state \<Rightarrow> arp_state option" where
  "tmr_entry c i s =
     do {
       e \<leftarrow> arp_entry i s;
       if arp_st e \<noteq> ETHARP_STATE_EMPTY \<and> arp_st e \<noteq> ETHARP_STATE_STATIC then
         do {
           let e = e\<lparr>ctime := u16_of (ctime e + 1)\<rparr>;
           let s = put_entry i e s;
           if ctime e \<ge> ARP_MAXAGE c \<or> arp_st e = ETHARP_STATE_PENDING \<and> ctime e \<ge> ARP_MAXPENDING
           then etharp_free_entry c i s
           else if arp_st e = ETHARP_STATE_STABLE_REREQUESTING_1
           then Some (put_entry i (e\<lparr>arp_st := ETHARP_STATE_STABLE_REREQUESTING_2\<rparr>) s)
           else if arp_st e = ETHARP_STATE_STABLE_REREQUESTING_2
           then Some (put_entry i (e\<lparr>arp_st := ETHARP_STATE_STABLE\<rparr>) s)
           else if arp_st e = ETHARP_STATE_PENDING
           then do { (_, s) \<leftarrow> etharp_request c (arp_netif e) (arp_ip e) s; Some s }
           else Some s
         }
       else Some s
     }"

fun tmr_loop :: "arp_cfg \<Rightarrow> nat list \<Rightarrow> arp_state \<Rightarrow> arp_state option" where
  "tmr_loop c [] s = Some s"
| "tmr_loop c (i # is) s = do { s \<leftarrow> tmr_entry c i s; tmr_loop c is s }"

definition etharp_tmr :: "arp_cfg \<Rightarrow> arp_state \<Rightarrow> arp_state option" where
  "etharp_tmr c s = tmr_loop c [0..<ARP_TABLE_SIZE c] s"

section \<open>Looking up\<close>

text \<open>The result is the index and the addresses that the return pointers refer to; \<open>None\<close> inside stands for -1.\<close>

definition etharp_find_addr ::
  "arp_cfg \<Rightarrow> addr \<Rightarrow> ip4_addr \<Rightarrow> arp_state \<Rightarrow> ((nat \<times> eth_addr \<times> ip4_addr) option \<times> arp_state) option" where
  "etharp_find_addr c nif ipaddr s =
     do {
       (r, s) \<leftarrow> etharp_find_entry c (Some ipaddr) ETHARP_FLAG_FIND_ONLY nif s;
       case r of
         Inl err \<Rightarrow> Some (None, s)
       | Inr i \<Rightarrow>
           do {
             e \<leftarrow> arp_entry i s;
             Some (if arp_st e \<ge> ETHARP_STATE_STABLE then Some (i, arp_eth e, arp_ip e) else None, s)
           }
     }"

definition etharp_get_entry :: "arp_cfg \<Rightarrow> nat \<Rightarrow> arp_state \<Rightarrow> (ip4_addr \<times> addr \<times> eth_addr) option option" where
  "etharp_get_entry c i s =
     (if i < ARP_TABLE_SIZE c then
        do {
          e \<leftarrow> arp_entry i s;
          Some (if arp_st e \<ge> ETHARP_STATE_STABLE then Some (arp_ip e, arp_netif e, arp_eth e) else None)
        }
      else Some None)"

section \<open>Output\<close>

definition etharp_output_to_arp_index :: "arp_cfg \<Rightarrow> addr \<Rightarrow> addr \<Rightarrow> nat \<Rightarrow> arp_state \<Rightarrow> (err_t \<times> arp_state) option" where
  "etharp_output_to_arp_index c nif q i s =
     do {
       e \<leftarrow> arp_entry i s;
       lwip_assert (arp_st e \<ge> ETHARP_STATE_STABLE);
       s \<leftarrow> (if arp_st e = ETHARP_STATE_STABLE \<and> ctime e \<ge> ARP_AGE_REREQUEST_USED_UNICAST c then
           do {
             (err, s) \<leftarrow> (if ctime e \<ge> ARP_AGE_REREQUEST_USED_BROADCAST c
               then etharp_request c nif (arp_ip e) s
               else etharp_request_dst c nif (arp_ip e) (arp_eth e) s);
             if err = ERR_OK then
               do {
                 e \<leftarrow> arp_entry i s;
                 Some (put_entry i (e\<lparr>arp_st := ETHARP_STATE_STABLE_REREQUESTING_1\<rparr>) s)
               }
             else Some s
           }
         else Some s);
       e \<leftarrow> arp_entry i s;
       send_ip c nif q (arp_eth e) s
     }"

partial_function (option) needs_copy_loop :: "(addr \<rightharpoonup> pbuf) \<Rightarrow> addr \<Rightarrow> bool option" where
  "needs_copy_loop m p =
     (if p = 0 then Some False
      else
        do {
          pb \<leftarrow> m p;
          lwip_assert (pb_len pb \<noteq> tot_len pb \<or> pb_next pb = 0);
          if PBUF_NEEDS_COPY pb then Some True else needs_copy_loop m (pb_next pb)
        })"

text \<open>Queueing a packet on a pending entry: a packet that may change is copied, any other is shared.\<close>

definition queue_packet :: "arp_cfg \<Rightarrow> nat \<Rightarrow> addr \<Rightarrow> arp_state \<Rightarrow> (err_t \<times> arp_state) option" where
  "queue_packet c i q s =
     do {
       copy_needed \<leftarrow> needs_copy_loop (pbufs (arp_mem s)) q;
       (p, m) \<leftarrow> (if copy_needed then pbuf_clone (pcfg (ncfg c)) (PBUF_LINK (pcfg (ncfg c))) PBUF_RAM q (arp_mem s)
                  else do { m \<leftarrow> pbuf_ref q (arp_mem s); Some (q, m) });
       if p \<noteq> 0 then
         do {
           e \<leftarrow> arp_entry i s;
           m \<leftarrow> (if arp_q e \<noteq> 0 then do { (_, m) \<leftarrow> pbuf_free (pcfg (ncfg c)) (arp_q e) m; Some m } else Some m);
           Some (ERR_OK, put_entry i (e\<lparr>arp_q := p\<rparr>) (put_mem m s))
         }
       else Some (ERR_MEM, put_mem m s)
     }"

text \<open>A given packet is sent when the entry is stable and queued while it is pending.\<close>

definition deliver_packet :: "arp_cfg \<Rightarrow> addr \<Rightarrow> nat \<Rightarrow> addr \<Rightarrow> err_t \<Rightarrow> arp_state \<Rightarrow> (err_t \<times> arp_state) option" where
  "deliver_packet c nif i q result s =
     do {
       e \<leftarrow> arp_entry i s;
       if arp_st e \<ge> ETHARP_STATE_STABLE then send_ip c nif q (arp_eth e) (s\<lparr>etharp_cached_entry := i\<rparr>)
       else if arp_st e = ETHARP_STATE_PENDING then queue_packet c i q s
       else Some (result, s)
     }"

definition etharp_query :: "arp_cfg \<Rightarrow> addr \<Rightarrow> ip4_addr \<Rightarrow> addr \<Rightarrow> arp_state \<Rightarrow> (err_t \<times> arp_state) option" where
  "etharp_query c nif ipaddr q s =
     do {
       n \<leftarrow> netif_at (net s) nif;
       if ip4_addr_isbroadcast_u32 ipaddr n \<or> ip4_addr_ismulticast ipaddr \<or> ip4_addr_isany_val ipaddr
       then Some (ERR_ARG, s)
       else
         do {
           (r, s) \<leftarrow> etharp_find_entry c (Some ipaddr) ETHARP_FLAG_TRY_HARD nif s;
           case r of
             Inl err \<Rightarrow> Some (err, s)
           | Inr i \<Rightarrow>
               do {
                 e \<leftarrow> arp_entry i s;
                 let is_new_entry = (arp_st e = ETHARP_STATE_EMPTY);
                 let s = (if is_new_entry then put_entry i (e\<lparr>arp_st := ETHARP_STATE_PENDING, arp_netif := nif\<rparr>) s
                          else s);
                 (result, s) \<leftarrow> (if is_new_entry \<or> q = 0 then etharp_request c nif ipaddr s
                                 else Some (ERR_MEM, s));
                 if q = 0 then Some (result, s) else deliver_packet c nif i q result s
               }
         }
     }"

definition stable_match :: "ip4_addr \<Rightarrow> addr \<Rightarrow> etharp_entry \<Rightarrow> bool" where
  "stable_match a nif e \<longleftrightarrow> arp_st e \<ge> ETHARP_STATE_STABLE \<and> arp_netif e = nif \<and> a = arp_ip e"

fun find_stable :: "ip4_addr \<Rightarrow> addr \<Rightarrow> nat \<Rightarrow> etharp_entry list \<Rightarrow> nat option" where
  "find_stable a nif i [] = None"
| "find_stable a nif i (e # es) = (if stable_match a nif e then Some i else find_stable a nif (Suc i) es)"

definition ip4_multicast_eth :: "ip4_addr \<Rightarrow> eth_addr" where
  "ip4_multicast_eth a = Eth_Addr 0x01 0x00 0x5e (ip4_addr_get_byte_val a 1 AND 0x7f)
     (ip4_addr_get_byte_val a 2) (ip4_addr_get_byte_val a 3)"

definition etharp_output :: "arp_cfg \<Rightarrow> addr \<Rightarrow> addr \<Rightarrow> ip4_addr \<Rightarrow> arp_state \<Rightarrow> (err_t \<times> arp_state) option" where
  "etharp_output c nif q ipaddr s =
     do {
       lwip_assert (nif \<noteq> 0);
       lwip_assert (q \<noteq> 0);
       n \<leftarrow> netif_at (net s) nif;
       if ip4_addr_isbroadcast_u32 ipaddr n then send_ip c nif q ethbroadcast s
       else if ip4_addr_ismulticast ipaddr then send_ip c nif q (ip4_multicast_eth ipaddr) s
       else
         let outside = \<not> ip4_addr_netcmp ipaddr (ip_addr n) (netmask n) \<and> \<not> ip4_addr_islinklocal ipaddr in
         if outside \<and> ip4_addr_isany_val (gw n) then Some (ERR_RTE, s)
         else
           do {
             let dst_addr = (if outside then gw n else ipaddr);
             e \<leftarrow> arp_entry (etharp_cached_entry s) s;
             if stable_match dst_addr nif e then etharp_output_to_arp_index c nif q (etharp_cached_entry s) s
             else
               case find_stable dst_addr nif 0 (arp_table s) of
                 Some i \<Rightarrow> etharp_output_to_arp_index c nif q i (s\<lparr>etharp_cached_entry := i\<rparr>)
               | None \<Rightarrow> etharp_query c nif dst_addr q s
           }
     }"

section \<open>Input\<close>

definition load_field :: "nat \<Rightarrow> nat \<Rightarrow> addr \<Rightarrow> arp_state \<Rightarrow> u8 list option" where
  "load_field off len p s =
     do { pb \<leftarrow> pbufs (arp_mem s) p; load_bytes (bytes (arp_mem s)) (payload pb + off) len }"

text \<open>The checks of the header: hardware and protocol type and the lengths of addresses.\<close>

definition arp_hdr_ok :: "addr \<Rightarrow> arp_state \<Rightarrow> bool option" where
  "arp_hdr_ok p s =
     do {
       hwtype \<leftarrow> load_field 0 2 p s;
       if hwtype \<noteq> u16_bytes (lwip_htons LWIP_IANA_HWTYPE_ETHERNET) then Some False
       else
         do {
           hwlen \<leftarrow> load_field 4 1 p s;
           if hwlen \<noteq> [of_nat ETH_HWADDR_LEN] then Some False
           else
             do {
               protolen \<leftarrow> load_field 5 1 p s;
               if protolen \<noteq> [4] then Some False
               else do { proto \<leftarrow> load_field 2 2 p s; Some (proto = u16_bytes (lwip_htons ETHTYPE_IP)) }
             }
         }
     }"

text \<open>A request for our address is answered.\<close>

definition arp_reply :: "arp_cfg \<Rightarrow> addr \<Rightarrow> addr \<Rightarrow> ip4_addr \<Rightarrow> bool \<Rightarrow> arp_state \<Rightarrow> arp_state option" where
  "arp_reply c p nif sipaddr for_us s =
     do {
       opcode \<leftarrow> load_field 6 2 p s;
       if opcode = u16_bytes (lwip_htons ARP_REQUEST) \<and> for_us then
         do {
           (n, hw) \<leftarrow> netif_eth nif s;
           hb \<leftarrow> load_field 8 6 p s;
           shwaddr \<leftarrow> eth_of hb;
           (_, s) \<leftarrow> etharp_raw c nif hw shwaddr hw (ip_addr n) shwaddr sipaddr ARP_REPLY s;
           Some s
         }
       else Some s
     }"

text \<open>What is done with a valid ARP packet: the table learns the sender before the message is acted on.\<close>

definition arp_message :: "arp_cfg \<Rightarrow> addr \<Rightarrow> addr \<Rightarrow> arp_state \<Rightarrow> arp_state option" where
  "arp_message c p nif s =
     do {
       sb \<leftarrow> load_field 14 4 p s;
       sipaddr \<leftarrow> ip4_of sb;
       db \<leftarrow> load_field 24 4 p s;
       dipaddr \<leftarrow> ip4_of db;
       n \<leftarrow> netif_at (net s) nif;
       let for_us = (\<not> ip4_addr_isany_val (ip_addr n) \<and> dipaddr = ip_addr n);
       hb \<leftarrow> load_field 8 6 p s;
       shwaddr \<leftarrow> eth_of hb;
       (_, s) \<leftarrow> etharp_update_arp_entry c nif sipaddr shwaddr
          (if for_us then ETHARP_FLAG_TRY_HARD else ETHARP_FLAG_FIND_ONLY) s;
       arp_reply c p nif sipaddr for_us s
     }"

definition etharp_input :: "arp_cfg \<Rightarrow> addr \<Rightarrow> addr \<Rightarrow> arp_state \<Rightarrow> arp_state option" where
  "etharp_input c p nif s =
     (if nif = 0 then Some s
      else
        do {
          ok \<leftarrow> arp_hdr_ok p s;
          s \<leftarrow> (if ok then arp_message c p nif s else Some s);
          (_, m) \<leftarrow> pbuf_free (pcfg (ncfg c)) p (arp_mem s);
          Some (put_mem m s)
        })"

end
