(* ===== verification/Etharp_Table.thy ===== *)
theory Etharp_Table
  imports Etharp
begin

text \<open>
  The invariant of the ARP table and the search for an entry: which entry \<^verbatim>\<open>etharp_find_entry\<close> returns, and which
  one it recycles.
\<close>

section \<open>Well-formed tables\<close>

definition arp_cfg_ok :: "arp_cfg \<Rightarrow> bool" where
  "arp_cfg_ok c \<longleftrightarrow> 0 < ARP_TABLE_SIZE c \<and> 0 < ARP_MAXAGE c \<and> ARP_MAXAGE c < 65536"

text \<open>
  An entry of the table: only pending entries have a queue, the age is below the limit of its kind, and the
  address is one that can be resolved.
\<close>

definition entry_ok :: "arp_cfg \<Rightarrow> etharp_entry \<Rightarrow> bool" where
  "entry_ok c e \<longleftrightarrow>
     (arp_st e \<noteq> ETHARP_STATE_PENDING \<longrightarrow> arp_q e = 0) \<and>
     (arp_st e = ETHARP_STATE_PENDING \<longrightarrow> ctime e < ARP_MAXPENDING) \<and>
     (arp_st e \<noteq> ETHARP_STATE_EMPTY \<longrightarrow> ctime e < ARP_MAXAGE c \<and> arp_netif e \<noteq> 0 \<and>
        \<not> ip4_addr_isany_val (arp_ip e) \<and> \<not> ip4_addr_ismulticast (arp_ip e))"

text \<open>Two entries in use do not hold the same address of the same interface.\<close>

definition distinct_keys :: "etharp_entry list \<Rightarrow> bool" where
  "distinct_keys es \<longleftrightarrow>
     (\<forall>i<length es. \<forall>j<length es. arp_st (es ! i) \<noteq> ETHARP_STATE_EMPTY \<and> arp_st (es ! j) \<noteq> ETHARP_STATE_EMPTY \<and>
        arp_ip (es ! i) = arp_ip (es ! j) \<and> arp_netif (es ! i) = arp_netif (es ! j) \<longrightarrow> i = j)"

lemma distinct_keysD:
  assumes "distinct_keys es" "i < length es" "j < length es" "arp_st (es ! i) \<noteq> ETHARP_STATE_EMPTY"
    "arp_st (es ! j) \<noteq> ETHARP_STATE_EMPTY" "arp_ip (es ! i) = arp_ip (es ! j)" "arp_netif (es ! i) = arp_netif (es ! j)"
  shows "i = j"
  using assms unfolding distinct_keys_def by blast

lemma distinct_keysI:
  assumes "\<And>i j. i < length es \<Longrightarrow> j < length es \<Longrightarrow> arp_st (es ! i) \<noteq> ETHARP_STATE_EMPTY \<Longrightarrow>
    arp_st (es ! j) \<noteq> ETHARP_STATE_EMPTY \<Longrightarrow> arp_ip (es ! i) = arp_ip (es ! j) \<Longrightarrow>
    arp_netif (es ! i) = arp_netif (es ! j) \<Longrightarrow> i = j"
  shows "distinct_keys es"
  using assms unfolding distinct_keys_def by blast

definition table_ok :: "arp_cfg \<Rightarrow> arp_state \<Rightarrow> bool" where
  "table_ok c s \<longleftrightarrow> arp_cfg_ok c \<and> length (arp_table s) = ARP_TABLE_SIZE c \<and> etharp_cached_entry s < ARP_TABLE_SIZE c \<and>
     (\<forall>i<ARP_TABLE_SIZE c. entry_ok c (arp_table s ! i)) \<and> distinct_keys (arp_table s)"

lemma state_order [simp]:
  "st \<ge> ETHARP_STATE_STABLE \<longleftrightarrow> st \<noteq> ETHARP_STATE_EMPTY \<and> st \<noteq> ETHARP_STATE_PENDING"
  "st < ETHARP_STATE_STATIC \<longleftrightarrow> st \<noteq> ETHARP_STATE_STATIC"
  by (cases st; simp add: less_eq_etharp_state_def less_etharp_state_def)+

lemma arp_entry_simps [simp]:
  "i < length (arp_table s) \<Longrightarrow> arp_entry i s = Some (arp_table s ! i)"
  "arp_entry i (put_mem m s) = arp_entry i s"
  by (simp_all add: arp_entry_def put_mem_def)

lemma arp_entry_SomeD: "arp_entry i s = Some e \<Longrightarrow> i < length (arp_table s) \<and> e = arp_table s ! i"
  by (simp add: arp_entry_def split: if_splits)

lemma put_simps [simp]:
  "arp_table (put_entry i e s) = (arp_table s)[i := e]" "etharp_cached_entry (put_entry i e s) = etharp_cached_entry s"
  "net (put_entry i e s) = net s" "arp_table (put_mem m s) = arp_table s"
  "etharp_cached_entry (put_mem m s) = etharp_cached_entry s" "stack_mem (net (put_mem m s)) = m"
  "netifs (net (put_mem m s)) = netifs (net s)" "sent (net (put_mem m s)) = sent (net s)"
  "netif_at (net (put_mem m s)) = netif_at (net s)"
  by (simp_all add: put_entry_def put_mem_def netif_at_def fun_eq_iff)

lemma put_entry_twice [simp]: "put_entry i e (put_entry i e' s) = put_entry i e s"
  by (simp add: put_entry_def)

lemma table_okD:
  assumes "table_ok c s"
  shows "arp_cfg_ok c" "length (arp_table s) = ARP_TABLE_SIZE c" "etharp_cached_entry s < ARP_TABLE_SIZE c"
    "i < ARP_TABLE_SIZE c \<Longrightarrow> entry_ok c (arp_table s ! i)" "distinct_keys (arp_table s)"
  using assms by (auto simp: table_ok_def)

text \<open>The invariant depends on the table and the cached index only.\<close>

lemma table_ok_cong:
  "arp_table s' = arp_table s \<Longrightarrow> etharp_cached_entry s' = etharp_cached_entry s \<Longrightarrow> table_ok c s' = table_ok c s"
  by (simp add: table_ok_def)

lemma table_ok_cached: "table_ok c s \<Longrightarrow> i < ARP_TABLE_SIZE c \<Longrightarrow> table_ok c (s\<lparr>etharp_cached_entry := i\<rparr>)"
  by (simp add: table_ok_def)

text \<open>An entry that is in use may be put where no other entry has its key.\<close>

definition fresh_key :: "nat \<Rightarrow> etharp_entry \<Rightarrow> etharp_entry list \<Rightarrow> bool" where
  "fresh_key i e es \<longleftrightarrow>
     (\<forall>j<length es. j \<noteq> i \<longrightarrow> arp_st (es ! j) = ETHARP_STATE_EMPTY \<or> arp_ip (es ! j) \<noteq> arp_ip e \<or>
        arp_netif (es ! j) \<noteq> arp_netif e)"

lemma table_ok_put:
  assumes ok: "table_ok c s" and e: "entry_ok c e" "arp_st e = ETHARP_STATE_EMPTY \<or> fresh_key i e (arp_table s)"
  shows "table_ok c (put_entry i e s)"
proof -
  note d = distinct_keysD [OF table_okD(5) [OF ok]]
  have f: "b = i" if "b < length (arp_table s)" "arp_st (arp_table s ! b) \<noteq> ETHARP_STATE_EMPTY" "arp_st e \<noteq> ETHARP_STATE_EMPTY"
    "arp_ip (arp_table s ! b) = arp_ip e" "arp_netif (arp_table s ! b) = arp_netif e" for b
    using e(2) that unfolding fresh_key_def by blast
  have "distinct_keys ((arp_table s)[i := e])"
  proof (rule distinct_keysI)
    fix a b
    assume ab: "a < length ((arp_table s)[i := e])" "b < length ((arp_table s)[i := e])"
      "arp_st ((arp_table s)[i := e] ! a) \<noteq> ETHARP_STATE_EMPTY" "arp_st ((arp_table s)[i := e] ! b) \<noteq> ETHARP_STATE_EMPTY"
      "arp_ip ((arp_table s)[i := e] ! a) = arp_ip ((arp_table s)[i := e] ! b)"
      "arp_netif ((arp_table s)[i := e] ! a) = arp_netif ((arp_table s)[i := e] ! b)"
    consider "a = i" "b = i" | "a = i" "b \<noteq> i" | "a \<noteq> i" "b = i" | "a \<noteq> i" "b \<noteq> i" by blast
    then show "a = b"
    proof cases
      case 2
      have "b = i" by (rule f) (use ab 2 in simp_all)
      then show ?thesis using 2 by simp
    next
      case 3
      have "a = i" by (rule f) (use ab 3 in simp_all)
      then show ?thesis using 3 by simp
    next
      case 4
      show ?thesis by (rule d) (use ab 4 in simp_all)
    qed simp
  qed
  moreover have "entry_ok c ((arp_table s)[i := e] ! k)" if "k < ARP_TABLE_SIZE c" for k
    using table_okD(2,4) [OF ok] that e(1) by (cases "k = i") simp_all
  ultimately show ?thesis using ok by (simp add: table_ok_def)
qed

lemma fresh_key_own:
  assumes "distinct_keys es" "i < length es" "arp_st (es ! i) \<noteq> ETHARP_STATE_EMPTY" "arp_ip e = arp_ip (es ! i)"
    "arp_netif e = arp_netif (es ! i)"
  shows "fresh_key i e es"
  using assms unfolding distinct_keys_def fresh_key_def by metis

section \<open>The sweep\<close>

text \<open>Entry \<open>k\<close> is the oldest of those that satisfy \<open>P\<close>, and the last of the oldest.\<close>

definition is_oldest :: "(etharp_entry \<Rightarrow> bool) \<Rightarrow> etharp_entry list \<Rightarrow> nat \<Rightarrow> bool" where
  "is_oldest P es k \<longleftrightarrow> k < length es \<and> P (es ! k) \<and>
     (\<forall>j<length es. P (es ! j) \<longrightarrow> ctime (es ! j) \<le> ctime (es ! k) \<and> (k < j \<longrightarrow> ctime (es ! j) < ctime (es ! k)))"

definition candidate :: "arp_cfg \<Rightarrow> (etharp_entry \<Rightarrow> bool) \<Rightarrow> etharp_entry list \<Rightarrow> nat \<Rightarrow> nat \<Rightarrow> bool" where
  "candidate c P es k age \<longleftrightarrow>
     (if \<exists>e\<in>set es. P e then is_oldest P es k \<and> age = ctime (es ! k) else k = ARP_TABLE_SIZE c \<and> age = 0)"

lemma candidate_Nil: "candidate c P [] k age \<longleftrightarrow> k = ARP_TABLE_SIZE c \<and> age = 0"
  by (simp add: candidate_def)

lemma is_oldest_snoc_other: "\<not> P e \<Longrightarrow> is_oldest P es k \<Longrightarrow> is_oldest P (es @ [e]) k"
  by (auto simp: is_oldest_def nth_append less_Suc_eq)

lemma candidate_new:
  assumes "candidate c P es k age" "P e" "age \<le> ctime e"
  shows "candidate c P (es @ [e]) (length es) (ctime e)"
proof -
  have "ctime (es ! j) \<le> ctime e" if "j < length es" "P (es ! j)" for j
  proof -
    have "\<exists>e\<in>set es. P e" using that by auto
    then have "ctime (es ! j) \<le> age" using assms(1) that by (simp add: candidate_def is_oldest_def)
    then show ?thesis using assms(3) by simp
  qed
  then show ?thesis using assms(2) by (auto simp: candidate_def is_oldest_def nth_append less_Suc_eq)
qed

lemma candidate_keep:
  assumes "candidate c P es k age" "P e \<Longrightarrow> ctime e < age"
  shows "candidate c P (es @ [e]) k age"
proof (cases "P e")
  case True
  then show ?thesis using assms by (auto simp: candidate_def is_oldest_def nth_append less_Suc_eq split: if_splits)
next
  case False
  then show ?thesis using assms(1) is_oldest_snoc_other [of P e es k]
    by (auto simp: candidate_def is_oldest_def nth_append split: if_splits)
qed

lemma candidate_step:
  assumes "candidate c P es k age"
  shows "candidate c P (es @ [e]) (if P e \<and> age \<le> ctime e then length es else k) (if P e \<and> age \<le> ctime e then ctime e else age)"
  using candidate_new [OF assms, of e] candidate_keep [OF assms, of e] by auto

definition idle_pending :: "etharp_entry \<Rightarrow> bool" where
  "idle_pending e \<longleftrightarrow> arp_st e = ETHARP_STATE_PENDING \<and> arp_q e = 0"

definition queued_pending :: "etharp_entry \<Rightarrow> bool" where
  "queued_pending e \<longleftrightarrow> arp_st e = ETHARP_STATE_PENDING \<and> arp_q e \<noteq> 0"

definition dynamic_stable :: "etharp_entry \<Rightarrow> bool" where
  "dynamic_stable e \<longleftrightarrow> ETHARP_STATE_STABLE \<le> arp_st e \<and> arp_st e < ETHARP_STATE_STATIC"

definition scan_ok :: "arp_cfg \<Rightarrow> etharp_entry list \<Rightarrow> arp_scan \<Rightarrow> bool" where
  "scan_ok c es sc \<longleftrightarrow>
     candidate c dynamic_stable es (old_stable sc) (age_stable sc) \<and>
     candidate c idle_pending es (old_pending sc) (age_pending sc) \<and>
     candidate c queued_pending es (old_queue sc) (age_queue sc)"

lemmas kind_defs = idle_pending_def queued_pending_def dynamic_stable_def

lemma scan_entry_fields:
  "old_stable (scan_entry i e sc) = (if dynamic_stable e \<and> age_stable sc \<le> ctime e then i else old_stable sc)"
  "age_stable (scan_entry i e sc) = (if dynamic_stable e \<and> age_stable sc \<le> ctime e then ctime e else age_stable sc)"
  "old_pending (scan_entry i e sc) = (if idle_pending e \<and> age_pending sc \<le> ctime e then i else old_pending sc)"
  "age_pending (scan_entry i e sc) = (if idle_pending e \<and> age_pending sc \<le> ctime e then ctime e else age_pending sc)"
  "old_queue (scan_entry i e sc) = (if queued_pending e \<and> age_queue sc \<le> ctime e then i else old_queue sc)"
  "age_queue (scan_entry i e sc) = (if queued_pending e \<and> age_queue sc \<le> ctime e then ctime e else age_queue sc)"
  by (simp_all add: scan_entry_def kind_defs)

lemma scan_entry_ok:
  assumes "scan_ok c es sc"
  shows "scan_ok c (es @ [e]) (scan_entry (length es) e sc)"
  using assms unfolding scan_ok_def scan_entry_fields by (intro conjI candidate_step) simp_all

lemma scan_skip_ok:
  assumes "scan_ok c es sc" "arp_st e = ETHARP_STATE_EMPTY"
  shows "scan_ok c (es @ [e]) sc"
  using assms unfolding scan_ok_def by (auto simp: kind_defs intro!: candidate_keep)

lemma scan_ok_update_empty [simp]: "scan_ok c es (sc\<lparr>sc_empty := i\<rparr>) = scan_ok c es sc"
  by (simp add: scan_ok_def)

lemma scan_entry_empty [simp]: "sc_empty (scan_entry i e sc) = sc_empty sc"
  by (simp add: scan_entry_def)

text \<open>The first empty entry, if there is one.\<close>

definition first_empty :: "arp_cfg \<Rightarrow> etharp_entry list \<Rightarrow> nat \<Rightarrow> bool" where
  "first_empty c es k \<longleftrightarrow>
     (if \<exists>e\<in>set es. arp_st e = ETHARP_STATE_EMPTY
      then k < length es \<and> arp_st (es ! k) = ETHARP_STATE_EMPTY \<and> (\<forall>j<k. arp_st (es ! j) \<noteq> ETHARP_STATE_EMPTY)
      else k = ARP_TABLE_SIZE c)"

definition used_match :: "ip4_addr option \<Rightarrow> addr \<Rightarrow> etharp_entry \<Rightarrow> bool" where
  "used_match ipaddr nif e \<longleftrightarrow> arp_st e \<noteq> ETHARP_STATE_EMPTY \<and> arp_match ipaddr nif e"

lemma find_scan_spec:
  assumes "scan_ok c ps sc" "first_empty c ps (sc_empty sc)" "length ps + length es \<le> ARP_TABLE_SIZE c"
    "\<forall>e\<in>set ps. \<not> used_match ipaddr nif e"
  shows "case find_scan c ipaddr nif (length ps) es sc of
      Inl k \<Rightarrow> k < length (ps @ es) \<and> used_match ipaddr nif ((ps @ es) ! k) \<and> (\<forall>j<k. \<not> used_match ipaddr nif ((ps @ es) ! j))
    | Inr sc' \<Rightarrow> (\<forall>e\<in>set (ps @ es). \<not> used_match ipaddr nif e) \<and> scan_ok c (ps @ es) sc' \<and> first_empty c (ps @ es) (sc_empty sc')"
  using assms
proof (induction es arbitrary: ps sc)
  case Nil
  then show ?case by simp
next
  case (Cons e es)
  have IH: "case find_scan c ipaddr nif (Suc (length ps)) es sc' of
      Inl k \<Rightarrow> k < length (ps @ e # es) \<and> used_match ipaddr nif ((ps @ e # es) ! k) \<and>
        (\<forall>j<k. \<not> used_match ipaddr nif ((ps @ e # es) ! j))
    | Inr sc'' \<Rightarrow> (\<forall>e\<in>set (ps @ e # es). \<not> used_match ipaddr nif e) \<and> scan_ok c (ps @ e # es) sc'' \<and>
        first_empty c (ps @ e # es) (sc_empty sc'')"
    if "scan_ok c (ps @ [e]) sc'" "first_empty c (ps @ [e]) (sc_empty sc')" "\<not> used_match ipaddr nif e" for sc'
    using Cons.IH [of "ps @ [e]" sc'] that Cons.prems unfolding append_assoc append_Cons append_Nil by simp
  show ?case
  proof (cases "arp_st e = ETHARP_STATE_EMPTY")
    case True
    have "first_empty c (ps @ [e]) (if sc_empty sc = ARP_TABLE_SIZE c then length ps else sc_empty sc)"
      using Cons.prems(2,3) True unfolding first_empty_def
      by (auto simp: nth_append less_Suc_eq dest: nth_mem split: if_splits)
    then show ?thesis
      using IH [OF scan_skip_ok [OF Cons.prems(1) True]] IH [of "sc\<lparr>sc_empty := length ps\<rparr>"]
        scan_skip_ok [OF Cons.prems(1) True] True by (auto simp: used_match_def)
  next
    case False
    have f: "first_empty c (ps @ [e]) (sc_empty sc)"
      using Cons.prems(2) False unfolding first_empty_def by (auto simp: nth_append split: if_splits)
    show ?thesis
    proof (cases "arp_match ipaddr nif e")
      case True
      then show ?thesis using False Cons.prems(4) by (auto simp: used_match_def nth_append)
    next
      case no: False
      then show ?thesis using False IH [OF scan_entry_ok [OF Cons.prems(1), of e]] f by (simp add: used_match_def)
    qed
  qed
qed

lemma find_scan_table:
  assumes "length es \<le> ARP_TABLE_SIZE c"
  shows "case find_scan c ipaddr nif 0 es (scan_start c) of
      Inl k \<Rightarrow> k < length es \<and> used_match ipaddr nif (es ! k) \<and> (\<forall>j<k. \<not> used_match ipaddr nif (es ! j))
    | Inr sc \<Rightarrow> (\<forall>e\<in>set es. \<not> used_match ipaddr nif e) \<and> scan_ok c es sc \<and> first_empty c es (sc_empty sc)"
proof -
  have "scan_ok c [] (scan_start c)" "first_empty c [] (sc_empty (scan_start c))"
    by (simp_all add: scan_ok_def scan_start_def candidate_Nil first_empty_def)
  then show ?thesis using find_scan_spec [of c "[]" "scan_start c" es ipaddr nif] assms unfolding append_Nil by simp
qed

section \<open>The search\<close>

text \<open>A recycled entry that was given an address.\<close>

definition reset_entry :: "ip4_addr \<Rightarrow> addr \<Rightarrow> etharp_entry \<Rightarrow> etharp_entry" where
  "reset_entry a nif e = e\<lparr>arp_q := 0, arp_st := ETHARP_STATE_EMPTY, arp_ip := a, ctime := 0, arp_netif := nif\<rparr>"

lemma reset_entry_simps [simp]:
  "arp_q (reset_entry a nif e) = 0" "arp_st (reset_entry a nif e) = ETHARP_STATE_EMPTY" "arp_ip (reset_entry a nif e) = a"
  "ctime (reset_entry a nif e) = 0" "arp_netif (reset_entry a nif e) = nif"
  by (simp_all add: reset_entry_def)

lemma candidate_found: "candidate c P es k age \<Longrightarrow> \<exists>e\<in>set es. P e \<Longrightarrow> is_oldest P es k"
  and candidate_none: "candidate c P es k age \<Longrightarrow> \<not> (\<exists>e\<in>set es. P e) \<Longrightarrow> k = ARP_TABLE_SIZE c"
  by (auto simp: candidate_def)

lemma is_oldestD: "is_oldest P es k \<Longrightarrow> k < length es" "is_oldest P es k \<Longrightarrow> P (es ! k)"
  by (simp_all add: is_oldest_def)

lemma find_entry_match:
  assumes ok: "table_ok c s" and e: "e \<in> set (arp_table s)" "used_match ipaddr nif e"
  shows "\<exists>k<ARP_TABLE_SIZE c. used_match ipaddr nif (arp_table s ! k) \<and> (\<forall>j<k. \<not> used_match ipaddr nif (arp_table s ! j)) \<and>
    etharp_find_entry c ipaddr flags nif s = Some (Inr k, s)"
  using find_scan_table [of "arp_table s" c ipaddr nif] table_okD(2) [OF ok] e
  by (auto simp: etharp_find_entry_def split: sum.splits)

lemma init_entry_spec:
  assumes "i < ARP_TABLE_SIZE c" "arp_entry i s = Some e" "arp_st e = ETHARP_STATE_EMPTY" "arp_q e = 0"
  shows "init_entry c i (Some a) nif s = Some (Inr i, put_entry i (reset_entry a nif e) s)"
  using assms by (cases e) (simp add: init_entry_def reset_entry_def)

lemma free_entry_idle:
  assumes "arp_entry i s = Some e" "arp_q e = 0"
  shows "etharp_free_entry c i s = Some (put_entry i (e\<lparr>arp_st := ETHARP_STATE_EMPTY\<rparr>) s)"
  using assms by (simp add: etharp_free_entry_def)

lemma free_entry_queued:
  assumes "arp_entry i s = Some e" "arp_q e \<noteq> 0"
  shows "etharp_free_entry c i s =
    do { (_, m) \<leftarrow> pbuf_free (pcfg (ncfg c)) (arp_q e) (arp_mem s);
         Some (put_entry i (e\<lparr>arp_q := 0, arp_st := ETHARP_STATE_EMPTY\<rparr>) (put_mem m s)) }"
  using assms by (cases "pbuf_free (pcfg (ncfg c)) (arp_q e) (arp_mem s)") (auto simp: etharp_free_entry_def)

lemma reset_reset:
  "reset_entry a nif (e\<lparr>arp_st := st\<rparr>) = reset_entry a nif e" "reset_entry a nif (e\<lparr>arp_q := q\<rparr>) = reset_entry a nif e"
  by (cases e; simp add: reset_entry_def)+

lemma recycle_idle:
  assumes "i < ARP_TABLE_SIZE c" "length (arp_table s) = ARP_TABLE_SIZE c" "arp_q (arp_table s ! i) = 0"
  shows "do { s \<leftarrow> etharp_free_entry c i s; init_entry c i (Some a) nif s } =
    Some (Inr i, put_entry i (reset_entry a nif (arp_table s ! i)) s)"
proof -
  let ?e = "arp_table s ! i"
  have f: "etharp_free_entry c i s = Some (put_entry i (?e\<lparr>arp_st := ETHARP_STATE_EMPTY\<rparr>) s)"
    using assms by (intro free_entry_idle) simp_all
  have "init_entry c i (Some a) nif (put_entry i (?e\<lparr>arp_st := ETHARP_STATE_EMPTY\<rparr>) s) =
      Some (Inr i, put_entry i (reset_entry a nif (?e\<lparr>arp_st := ETHARP_STATE_EMPTY\<rparr>))
        (put_entry i (?e\<lparr>arp_st := ETHARP_STATE_EMPTY\<rparr>) s))"
    using assms by (intro init_entry_spec) simp_all
  then show ?thesis by (simp add: f reset_reset)
qed

lemma recycle_queued:
  assumes "i < ARP_TABLE_SIZE c" "length (arp_table s) = ARP_TABLE_SIZE c" "arp_q (arp_table s ! i) \<noteq> 0"
  shows "do { s \<leftarrow> etharp_free_entry c i s; init_entry c i (Some a) nif s } =
    do { (_, m) \<leftarrow> pbuf_free (pcfg (ncfg c)) (arp_q (arp_table s ! i)) (arp_mem s);
         Some (Inr i, put_entry i (reset_entry a nif (arp_table s ! i)) (put_mem m s)) }"
proof (cases "pbuf_free (pcfg (ncfg c)) (arp_q (arp_table s ! i)) (arp_mem s)")
  case None
  then show ?thesis using assms by (simp add: free_entry_queued [where e = "arp_table s ! i"])
next
  case (Some r)
  let ?e = "arp_table s ! i"
  let ?e' = "?e\<lparr>arp_q := 0, arp_st := ETHARP_STATE_EMPTY\<rparr>"
  obtain k m where r: "r = (k, m)" by (cases r)
  have f: "etharp_free_entry c i s = Some (put_entry i ?e' (put_mem m s))"
    using assms Some r by (simp add: free_entry_queued [where e = ?e])
  have "init_entry c i (Some a) nif (put_entry i ?e' (put_mem m s)) =
      Some (Inr i, put_entry i (reset_entry a nif ?e') (put_entry i ?e' (put_mem m s)))"
    using assms by (intro init_entry_spec) simp_all
  then show ?thesis using Some r by (simp add: f reset_reset)
qed

lemma no_match_scan:
  assumes ok: "table_ok c s" and nm: "\<forall>e\<in>set (arp_table s). \<not> used_match ipaddr nif e"
  obtains sc where "find_scan c ipaddr nif 0 (arp_table s) (scan_start c) = Inr sc" "scan_ok c (arp_table s) sc"
    "first_empty c (arp_table s) (sc_empty sc)"
  using find_scan_table [of "arp_table s" c ipaddr nif] table_okD(2) [OF ok] nm
  by (auto split: sum.splits)

lemma find_entry_not_found:
  assumes ok: "table_ok c s" and nm: "\<forall>e\<in>set (arp_table s). \<not> used_match ipaddr nif e"
    and fl: "flags AND ETHARP_FLAG_FIND_ONLY \<noteq> 0 \<or>
      flags AND ETHARP_FLAG_TRY_HARD = 0 \<and> (\<forall>e\<in>set (arp_table s). arp_st e \<noteq> ETHARP_STATE_EMPTY)"
  shows "etharp_find_entry c ipaddr flags nif s = Some (Inl ERR_MEM, s)"
proof -
  obtain sc where sc: "find_scan c ipaddr nif 0 (arp_table s) (scan_start c) = Inr sc"
    "first_empty c (arp_table s) (sc_empty sc)" using no_match_scan [OF ok nm] by metis
  then show ?thesis using fl by (auto simp: etharp_find_entry_def first_empty_def)
qed

lemma find_entry_empty:
  assumes ok: "table_ok c s" and nm: "\<forall>e\<in>set (arp_table s). \<not> used_match (Some a) nif e"
    and fl: "flags AND ETHARP_FLAG_FIND_ONLY = 0" and em: "\<exists>e\<in>set (arp_table s). arp_st e = ETHARP_STATE_EMPTY"
  shows "\<exists>k. first_empty c (arp_table s) k \<and> k < ARP_TABLE_SIZE c \<and>
    etharp_find_entry c (Some a) flags nif s = Some (Inr k, put_entry k (reset_entry a nif (arp_table s ! k)) s)"
proof -
  obtain sc where sc: "find_scan c (Some a) nif 0 (arp_table s) (scan_start c) = Inr sc"
    "first_empty c (arp_table s) (sc_empty sc)" using no_match_scan [OF ok nm] by metis
  note t = table_okD(2,4) [OF ok]
  have k: "sc_empty sc < ARP_TABLE_SIZE c" "arp_st (arp_table s ! sc_empty sc) = ETHARP_STATE_EMPTY"
    using sc(2) em t(1) by (auto simp: first_empty_def)
  moreover have "arp_q (arp_table s ! sc_empty sc) = 0" using t(2) [OF k(1)] k(2) by (simp add: entry_ok_def)
  ultimately have "init_entry c (sc_empty sc) (Some a) nif s =
      Some (Inr (sc_empty sc), put_entry (sc_empty sc) (reset_entry a nif (arp_table s ! sc_empty sc)) s)"
    using t(1) by (intro init_entry_spec) simp_all
  then show ?thesis using sc fl k(1) by (auto simp: etharp_find_entry_def)
qed

text \<open>
  Without a match and without an empty entry, an entry is recycled: the oldest stable one that is not
  static, or else the oldest pending one without a queue, or else the oldest one with a queue, which is freed.
\<close>

lemma find_entry_recycle:
  assumes ok: "table_ok c s" and nm: "\<forall>e\<in>set (arp_table s). \<not> used_match (Some a) nif e"
    and fl: "flags AND ETHARP_FLAG_FIND_ONLY = 0" "flags AND ETHARP_FLAG_TRY_HARD \<noteq> 0"
    and em: "\<not> (\<exists>e\<in>set (arp_table s). arp_st e = ETHARP_STATE_EMPTY)"
  defines "recycled k \<equiv> put_entry k (reset_entry a nif (arp_table s ! k)) s"
  shows "if \<exists>e\<in>set (arp_table s). dynamic_stable e
    then \<exists>k. is_oldest dynamic_stable (arp_table s) k \<and> etharp_find_entry c (Some a) flags nif s = Some (Inr k, recycled k)
    else if \<exists>e\<in>set (arp_table s). idle_pending e
    then \<exists>k. is_oldest idle_pending (arp_table s) k \<and> etharp_find_entry c (Some a) flags nif s = Some (Inr k, recycled k)
    else if \<exists>e\<in>set (arp_table s). queued_pending e
    then \<exists>k. is_oldest queued_pending (arp_table s) k \<and> etharp_find_entry c (Some a) flags nif s =
        do { (_, m) \<leftarrow> pbuf_free (pcfg (ncfg c)) (arp_q (arp_table s ! k)) (arp_mem s);
             Some (Inr k, put_entry k (reset_entry a nif (arp_table s ! k)) (put_mem m s)) }
    else etharp_find_entry c (Some a) flags nif s = Some (Inl ERR_MEM, s)"
proof -
  let ?es = "arp_table s"
  obtain sc where sc: "find_scan c (Some a) nif 0 ?es (scan_start c) = Inr sc" "scan_ok c ?es sc"
    "first_empty c ?es (sc_empty sc)" using no_match_scan [OF ok nm] by metis
  note t = table_okD(2,4) [OF ok]
  have find: "etharp_find_entry c (Some a) flags nif s =
      do { r \<leftarrow> recycle_candidate c sc s;
           case r of Inl err \<Rightarrow> Some (Inl err, s)
           | Inr i \<Rightarrow> do { lwip_assert (i < ARP_TABLE_SIZE c); s \<leftarrow> etharp_free_entry c i s; init_entry c i (Some a) nif s } }"
    using sc em fl by (simp add: etharp_find_entry_def first_empty_def)
  have cand: "candidate c dynamic_stable ?es (old_stable sc) (age_stable sc)"
    "candidate c idle_pending ?es (old_pending sc) (age_pending sc)"
    "candidate c queued_pending ?es (old_queue sc) (age_queue sc)" using sc(2) by (simp_all add: scan_ok_def)
  show ?thesis
  proof (cases "\<exists>e\<in>set ?es. dynamic_stable e")
    case True
    let ?k = "old_stable sc"
    have k: "is_oldest dynamic_stable ?es ?k" by (rule candidate_found [OF cand(1) True])
    have "?k < ARP_TABLE_SIZE c" using is_oldestD(1) [OF k] t(1) by simp
    moreover have "arp_q (?es ! ?k) = 0" using t(2) [OF calculation] is_oldestD(2) [OF k]
      by (simp add: entry_ok_def dynamic_stable_def)
    ultimately have "etharp_find_entry c (Some a) flags nif s = Some (Inr ?k, recycled ?k)"
      using recycle_idle [of ?k c s a nif] t(1) unfolding find recycled_def by (simp add: recycle_candidate_def)
    then show ?thesis using k True by auto
  next
    case ns: False
    have s: "old_stable sc = ARP_TABLE_SIZE c" by (rule candidate_none [OF cand(1) ns])
    show ?thesis
    proof (cases "\<exists>e\<in>set ?es. idle_pending e")
      case True
      let ?k = "old_pending sc"
      have k: "is_oldest idle_pending ?es ?k" by (rule candidate_found [OF cand(2) True])
      have "?k < ARP_TABLE_SIZE c" "arp_q (?es ! ?k) = 0"
        using is_oldestD [OF k] t(1) by (simp_all add: idle_pending_def)
      then have "etharp_find_entry c (Some a) flags nif s = Some (Inr ?k, recycled ?k)"
        using recycle_idle [of ?k c s a nif] t(1) s unfolding find recycled_def by (simp add: recycle_candidate_def)
      then show ?thesis using k True ns by auto
    next
      case ni: False
      have p: "old_pending sc = ARP_TABLE_SIZE c" by (rule candidate_none [OF cand(2) ni])
      show ?thesis
      proof (cases "\<exists>e\<in>set ?es. queued_pending e")
        case True
        let ?k = "old_queue sc"
        have k: "is_oldest queued_pending ?es ?k" by (rule candidate_found [OF cand(3) True])
        have "?k < ARP_TABLE_SIZE c" "arp_q (?es ! ?k) \<noteq> 0"
          using is_oldestD [OF k] t(1) by (simp_all add: queued_pending_def)
        then have "etharp_find_entry c (Some a) flags nif s =
            do { (_, m) \<leftarrow> pbuf_free (pcfg (ncfg c)) (arp_q (?es ! ?k)) (arp_mem s);
                 Some (Inr ?k, put_entry ?k (reset_entry a nif (?es ! ?k)) (put_mem m s)) }"
          using recycle_queued [of ?k c s a nif] t(1) s p unfolding find by (simp add: recycle_candidate_def)
        then show ?thesis using k True ns ni by auto
      next
        case False
        then have "old_queue sc = ARP_TABLE_SIZE c" by (rule candidate_none [OF cand(3)])
        then show ?thesis using s p False ns ni unfolding find by (simp add: recycle_candidate_def)
      qed
    qed
  qed
qed

end
