(* ===== verification/Etharp_Steps.thy ===== *)
theory Etharp_Steps
  imports Etharp_Table
begin

text \<open>
  Every operation of the ARP module keeps its table well-formed, so every sequence of operations does; what the
  timer does to the entries; and that received packets do not change static entries.
\<close>

section \<open>Operations keep the table well-formed\<close>

text \<open>The search returns an entry that no other entry shares its key with.\<close>

definition found :: "arp_cfg \<Rightarrow> ip4_addr \<Rightarrow> addr \<Rightarrow> nat \<Rightarrow> arp_state \<Rightarrow> bool" where
  "found c a nif i s \<longleftrightarrow> i < ARP_TABLE_SIZE c \<and> arp_ip (arp_table s ! i) = a \<and> arp_netif (arp_table s ! i) = nif \<and>
     fresh_key i (arp_table s ! i) (arp_table s) \<and>
     (arp_st (arp_table s ! i) = ETHARP_STATE_EMPTY \<longrightarrow> ctime (arp_table s ! i) = 0)"

lemma reset_found:
  assumes ok: "table_ok c s" and nm: "\<forall>e\<in>set (arp_table s). \<not> used_match (Some a) nif e" and i: "i < ARP_TABLE_SIZE c"
    and s': "arp_table s' = (arp_table s)[i := reset_entry a nif (arp_table s ! i)]" "etharp_cached_entry s' = etharp_cached_entry s"
  shows "table_ok c s' \<and> found c a nif i s'"
proof -
  let ?s = "put_entry i (reset_entry a nif (arp_table s ! i)) s"
  have "table_ok c ?s" by (rule table_ok_put [OF ok]) (simp_all add: entry_ok_def)
  then have t: "table_ok c s'" using s' table_ok_cong [of s' ?s c] by simp
  have "fresh_key i (reset_entry a nif (arp_table s ! i)) (arp_table s)"
    using nm nth_mem unfolding fresh_key_def used_match_def arp_match_def by fastforce
  then have "fresh_key i (reset_entry a nif (arp_table s ! i)) (arp_table s')"
    unfolding s'(1) fresh_key_def by simp
  then show ?thesis using t s' i table_okD(2) [OF ok] by (simp add: found_def)
qed

lemma find_entry_found:
  assumes ok: "table_ok c s" and nif: "nif \<noteq> 0"
    and f: "etharp_find_entry c (Some a) flags nif s = Some (r, s')"
  shows "case r of Inl err \<Rightarrow> s' = s | Inr i \<Rightarrow> table_ok c s' \<and> found c a nif i s' \<and> netif_at (net s') = netif_at (net s)"
proof (cases "\<exists>e\<in>set (arp_table s). used_match (Some a) nif e")
  case True
  then obtain k where k: "k < ARP_TABLE_SIZE c" "used_match (Some a) nif (arp_table s ! k)" "r = Inr k" "s' = s"
    using find_entry_match [OF ok] f by (metis option.inject prod.inject)
  have "fresh_key k (arp_table s ! k) (arp_table s)"
    using table_okD(2,5) [OF ok] k by (intro fresh_key_own) (auto simp: used_match_def)
  then show ?thesis using k nif ok by (auto simp: used_match_def arp_match_def found_def)
next
  case False
  then have nm: "\<forall>e\<in>set (arp_table s). \<not> used_match (Some a) nif e" by simp
  have *: ?thesis if "s' = put_entry k (reset_entry a nif (arp_table s ! k)) s0" "r = Inr k" "k < ARP_TABLE_SIZE c"
    "arp_table s0 = arp_table s" "etharp_cached_entry s0 = etharp_cached_entry s" "netif_at (net s0) = netif_at (net s)" for k s0
    using reset_found [OF ok nm that(3), of s'] that by simp
  show ?thesis
  proof (cases "flags AND ETHARP_FLAG_FIND_ONLY \<noteq> 0 \<or>
      flags AND ETHARP_FLAG_TRY_HARD = 0 \<and> (\<forall>e\<in>set (arp_table s). arp_st e \<noteq> ETHARP_STATE_EMPTY)")
    case True
    then show ?thesis using find_entry_not_found [OF ok nm] f by auto
  next
    case fl: False
    show ?thesis
    proof (cases "\<exists>e\<in>set (arp_table s). arp_st e = ETHARP_STATE_EMPTY")
      case True
      then obtain k where "k < ARP_TABLE_SIZE c" "etharp_find_entry c (Some a) flags nif s =
          Some (Inr k, put_entry k (reset_entry a nif (arp_table s ! k)) s)"
        using find_entry_empty [OF ok nm _ True, of flags] fl by auto
      then show ?thesis using f * [of k s] by simp
    next
      case no: False
      then have fl': "flags AND ETHARP_FLAG_FIND_ONLY = 0" "flags AND ETHARP_FLAG_TRY_HARD \<noteq> 0" using fl by auto
      note rec = find_entry_recycle [OF ok nm fl' no]
      have len: "k < ARP_TABLE_SIZE c" if "is_oldest P (arp_table s) k" for P k
        using is_oldestD(1) [OF that] table_okD(2) [OF ok] by simp
      show ?thesis
        using rec f * len by (auto split: if_splits Option.bind_splits prod.splits)
    qed
  qed
qed


lemma find_entry_err: "etharp_find_entry c a flags nif s = Some (Inl err, s') \<Longrightarrow> err = ERR_MEM"
  by (auto simp: etharp_find_entry_def init_entry_def recycle_candidate_def Let_def
      split: sum.splits if_splits Option.bind_splits)

definition same_table :: "arp_state \<Rightarrow> arp_state \<Rightarrow> bool" where
  "same_table s s' \<longleftrightarrow> arp_table s' = arp_table s \<and> etharp_cached_entry s' = etharp_cached_entry s"

lemma same_table_ok: "same_table s s' \<Longrightarrow> table_ok c s \<Longrightarrow> table_ok c s'"
  using table_ok_cong unfolding same_table_def by blast

lemma same_table_simps [simp]: "same_table s s" "same_table s (s\<lparr>net := n\<rparr>)" "same_table s (put_mem m s)"
  by (simp_all add: same_table_def)

text \<open>Sending changes neither the table nor the interfaces.\<close>

lemma link_output_netifs: "link_output c nif p n = Some (r, n') \<Longrightarrow> netifs n' = netifs n"
  by (auto simp: link_output_def split: Option.bind_splits)

lemma ethernet_output_netifs: "ethernet_output c nif p src dst t n = Some (r, n') \<Longrightarrow> netifs n' = netifs n"
  by (auto simp: ethernet_output_def split: Option.bind_splits if_splits prod.splits dest!: link_output_netifs)

lemma etharp_raw_table: "etharp_raw c nif a1 a2 a3 a4 a5 a6 opc s = Some (r, s') \<Longrightarrow> same_table s s'"
  by (auto simp: etharp_raw_def Let_def same_table_def split: Option.bind_splits if_splits prod.splits)

lemma etharp_request_dst_table: "etharp_request_dst c nif a dst s = Some (r, s') \<Longrightarrow> same_table s s'"
  by (auto simp: etharp_request_dst_def split: Option.bind_splits prod.splits dest: etharp_raw_table)

lemma etharp_request_table: "etharp_request c nif a s = Some (r, s') \<Longrightarrow> same_table s s'"
  unfolding etharp_request_def by (rule etharp_request_dst_table)

lemma send_ip_table: "send_ip c nif p dst s = Some (r, s') \<Longrightarrow> same_table s s'"
  by (auto simp: send_ip_def split: Option.bind_splits prod.splits)

lemma free_entry_shape:
  assumes "etharp_free_entry c i s = Some s'"
  shows "\<exists>e m. arp_entry i s = Some e \<and> s' = put_entry i (e\<lparr>arp_q := 0, arp_st := ETHARP_STATE_EMPTY\<rparr>) (put_mem m s)"
proof -
  obtain e where e: "arp_entry i s = Some e" using assms by (auto simp: etharp_free_entry_def split: Option.bind_splits)
  show ?thesis
  proof (cases "arp_q e = 0")
    case True
    then have "e\<lparr>arp_q := 0, arp_st := ETHARP_STATE_EMPTY\<rparr> = e\<lparr>arp_st := ETHARP_STATE_EMPTY\<rparr>" by (cases e) simp
    moreover have "put_mem (arp_mem s) s = s" by (simp add: put_mem_def)
    ultimately show ?thesis using assms e free_entry_idle [OF e True, of c]
      by (intro exI [of _ e] exI [of _ "arp_mem s"]) simp
  next
    case False
    then show ?thesis using assms e by (auto simp: free_entry_queued split: Option.bind_splits prod.splits)
  qed
qed

lemma free_entry_ok:
  assumes ok: "table_ok c s" and f: "etharp_free_entry c i s = Some s'"
  shows "table_ok c s'"
proof -
  obtain e m where "s' = put_entry i (e\<lparr>arp_q := 0, arp_st := ETHARP_STATE_EMPTY\<rparr>) (put_mem m s)"
    using free_entry_shape [OF f] by blast
  then show ?thesis using same_table_ok [OF same_table_simps(3) ok] by (simp add: table_ok_put entry_ok_def)
qed

lemma found_put:
  assumes ok: "table_ok c s" and fd: "found c a nif i s" and e: "arp_ip e = a" "arp_netif e = nif" "entry_ok c e"
  shows "table_ok c (put_entry i e s)"
  using ok fd e by (intro table_ok_put) (auto simp: found_def fresh_key_def)

definition recorded :: "addr \<Rightarrow> eth_addr \<Rightarrow> etharp_state \<Rightarrow> etharp_entry \<Rightarrow> etharp_entry" where
  "recorded nif eth st e = e\<lparr>arp_st := st, arp_netif := nif, arp_eth := eth, ctime := 0, arp_q := 0\<rparr>"

lemma recorded_simps [simp]:
  "arp_st (recorded nif eth st e) = st" "arp_netif (recorded nif eth st e) = nif" "arp_eth (recorded nif eth st e) = eth"
  "ctime (recorded nif eth st e) = 0" "arp_q (recorded nif eth st e) = 0" "arp_ip (recorded nif eth st e) = arp_ip e"
  by (simp_all add: recorded_def)

lemma record_address_shape:
  assumes "record_address c nif i eth st s = Some (r, s')"
  shows "r = ERR_OK \<and> i < length (arp_table s) \<and> same_table (put_entry i (recorded nif eth st (arp_table s ! i)) s) s'"
proof -
  obtain e where e: "arp_entry i s = Some e" using assms by (auto simp: record_address_def split: Option.bind_splits)
  let ?s = "put_entry i (recorded nif eth st e) s"
  have "same_table ?s s' \<and> r = ERR_OK"
  proof (cases "arp_q e = 0")
    case True
    then show ?thesis using assms e by (simp add: record_address_def recorded_def)
  next
    case False
    then obtain rr s1 k m where "send_ip c nif (arp_q e) eth ?s = Some (rr, s1)" "s' = put_mem m s1" "r = ERR_OK"
      using assms e by (auto simp: record_address_def Let_def recorded_def split: Option.bind_splits prod.splits)
    then show ?thesis using send_ip_table by (auto simp: same_table_def)
  qed
  then show ?thesis using arp_entry_SomeD [OF e] by simp
qed

lemma record_address_ok:
  assumes ok: "table_ok c s" and fd: "found c a nif i s" and nif: "nif \<noteq> 0" and a: "\<not> ip4_addr_isany_val a" "\<not> ip4_addr_ismulticast a"
    and st: "st = ETHARP_STATE_STABLE \<or> st = ETHARP_STATE_STATIC" and r: "record_address c nif i eth st s = Some (r, s')"
  shows "table_ok c s'"
proof -
  have "0 < ARP_MAXAGE c" using table_okD(1) [OF ok] by (simp add: arp_cfg_ok_def)
  then have "table_ok c (put_entry i (recorded nif eth st (arp_table s ! i)) s)"
    using fd nif a st by (intro found_put [OF ok fd]) (auto simp: entry_ok_def found_def)
  then show ?thesis using record_address_shape [OF r] same_table_ok by blast
qed

text \<open>An update that returns found no entry, or met a static one, or recorded the address.\<close>

lemma update_arp_entry_shape:
  assumes ok: "table_ok c s" and u: "etharp_update_arp_entry c nif a eth flags s = Some (r, s')"
  shows "s' = s \<and> r \<noteq> ERR_OK \<or>
    (\<exists>i s1 st. nif \<noteq> 0 \<and> \<not> ip4_addr_isany_val a \<and> \<not> ip4_addr_ismulticast a \<and>
      etharp_find_entry c (Some a) flags nif s = Some (Inr i, s1) \<and> table_ok c s1 \<and> found c a nif i s1 \<and>
      (r = ERR_VAL \<and> s' = s1 \<and> arp_st (arp_table s1 ! i) = ETHARP_STATE_STATIC \<and> flags AND ETHARP_FLAG_STATIC_ENTRY = 0 \<or>
       st = (if flags AND ETHARP_FLAG_STATIC_ENTRY \<noteq> 0 then ETHARP_STATE_STATIC else ETHARP_STATE_STABLE) \<and>
       (flags AND ETHARP_FLAG_STATIC_ENTRY = 0 \<longrightarrow> arp_st (arp_table s1 ! i) \<noteq> ETHARP_STATE_STATIC) \<and>
       record_address c nif i eth st s1 = Some (r, s')))"
proof -
  obtain n where n: "netif_at (net s) nif = Some n" "hwaddr_len n = ETH_HWADDR_LEN"
    using u by (auto simp: etharp_update_arp_entry_def lwip_assert_def split: Option.bind_splits if_splits)
  then have nif: "nif \<noteq> 0" by (auto simp: netif_at_def split: if_splits)
  show ?thesis
  proof (cases "ip4_addr_isany_val a \<or> ip4_addr_isbroadcast_u32 a n \<or> ip4_addr_ismulticast a")
    case True
    then show ?thesis using u n by (auto simp: etharp_update_arp_entry_def)
  next
    case False
    with u n obtain fr s1 where f: "etharp_find_entry c (Some a) flags nif s = Some (fr, s1)"
      by (auto simp: etharp_update_arp_entry_def split: Option.bind_splits)
    note fd = find_entry_found [OF ok nif f]
    show ?thesis
    proof (cases fr)
      case (Inl err)
      then show ?thesis using u n False f fd find_entry_err [OF f [unfolded Inl]] by (auto simp: etharp_update_arp_entry_def)
    next
      case (Inr i)
      then have s1: "table_ok c s1" "found c a nif i s1" using fd by auto
      then have "arp_entry i s1 = Some (arp_table s1 ! i)" using table_okD(2) by (simp add: found_def)
      then show ?thesis using u n False f Inr s1 nif
        by (auto simp: etharp_update_arp_entry_def split: if_splits)
    qed
  qed
qed

lemma update_arp_entry_ok:
  assumes ok: "table_ok c s" and u: "etharp_update_arp_entry c nif a eth flags s = Some (r, s')"
  shows "table_ok c s'"
  using update_arp_entry_shape [OF assms] ok record_address_ok by (metis (full_types))

lemma add_static_ok:
  assumes "table_ok c s" "etharp_add_static_entry c a eth s = Some (r, s')"
  shows "table_ok c s'"
  using assms by (auto simp: etharp_add_static_entry_def split: Option.bind_splits if_splits dest: update_arp_entry_ok)

lemma find_only_same:
  assumes ok: "table_ok c s" and f: "etharp_find_entry c (Some a) ETHARP_FLAG_FIND_ONLY nif s = Some (r, s')"
  shows "s' = s"
proof (cases "\<exists>e\<in>set (arp_table s). used_match (Some a) nif e")
  case True
  then show ?thesis using find_entry_match [OF ok] f by (metis option.inject prod.inject)
next
  case False
  then show ?thesis using find_entry_not_found [OF ok, of "Some a" nif ETHARP_FLAG_FIND_ONLY] f
    by (auto simp: ETHARP_FLAG_FIND_ONLY_def)
qed

lemma remove_static_ok:
  assumes ok: "table_ok c s" and r: "etharp_remove_static_entry c a s = Some (r, s')"
  shows "table_ok c s'"
  using r ok by (auto simp: etharp_remove_static_entry_def split: Option.bind_splits sum.splits if_splits
      dest!: find_only_same [OF ok] dest: free_entry_ok)

lemma cleanup_loop_ok: "table_ok c s \<Longrightarrow> cleanup_loop c nif is s = Some s' \<Longrightarrow> table_ok c s'"
  by (induction "is" arbitrary: s) (auto split: Option.bind_splits if_splits dest: free_entry_ok)

lemma cleanup_netif_ok: "table_ok c s \<Longrightarrow> etharp_cleanup_netif c nif s = Some s' \<Longrightarrow> table_ok c s'"
  unfolding etharp_cleanup_netif_def by (rule cleanup_loop_ok)

lemma table_ok_put_own:
  assumes ok: "table_ok c s" and i: "i < ARP_TABLE_SIZE c" and st: "arp_st (arp_table s ! i) \<noteq> ETHARP_STATE_EMPTY"
    and e: "arp_ip e = arp_ip (arp_table s ! i)" "arp_netif e = arp_netif (arp_table s ! i)" "entry_ok c e"
  shows "table_ok c (put_entry i e s)"
  using table_okD(2,5) [OF ok] assms by (intro table_ok_put) (auto intro: fresh_key_own)

text \<open>What a timer tick does to an entry.\<close>

definition tick :: "arp_cfg \<Rightarrow> etharp_entry \<Rightarrow> etharp_entry" where
  "tick c e =
     (if arp_st e = ETHARP_STATE_EMPTY \<or> arp_st e = ETHARP_STATE_STATIC then e
      else
        let e = e\<lparr>ctime := u16_of (ctime e + 1)\<rparr> in
        if ctime e \<ge> ARP_MAXAGE c \<or> arp_st e = ETHARP_STATE_PENDING \<and> ctime e \<ge> ARP_MAXPENDING
        then e\<lparr>arp_q := 0, arp_st := ETHARP_STATE_EMPTY\<rparr>
        else if arp_st e = ETHARP_STATE_STABLE_REREQUESTING_1 then e\<lparr>arp_st := ETHARP_STATE_STABLE_REREQUESTING_2\<rparr>
        else if arp_st e = ETHARP_STATE_STABLE_REREQUESTING_2 then e\<lparr>arp_st := ETHARP_STATE_STABLE\<rparr>
        else e)"

lemma tick_keeps:
  "arp_ip (tick c e) = arp_ip e" "arp_netif (tick c e) = arp_netif e" "arp_eth (tick c e) = arp_eth e"
  "arp_st e = ETHARP_STATE_EMPTY \<Longrightarrow> tick c e = e" "arp_st e = ETHARP_STATE_STATIC \<Longrightarrow> tick c e = e"
  by (simp_all add: tick_def Let_def)

lemma entry_ok_tick: "entry_ok c e \<Longrightarrow> entry_ok c (tick c e)"
  by (auto simp: entry_ok_def tick_def Let_def)

lemma tmr_entry_tick:
  assumes i: "i < length (arp_table s)" and t: "tmr_entry c i s = Some s'"
  shows "same_table (put_entry i (tick c (arp_table s ! i)) s) s'"
proof -
  let ?e = "arp_table s ! i"
  let ?e' = "?e\<lparr>ctime := u16_of (ctime ?e + 1)\<rparr>"
  have e: "arp_entry i s = Some ?e" using i by simp
  consider (idle) "arp_st ?e = ETHARP_STATE_EMPTY \<or> arp_st ?e = ETHARP_STATE_STATIC"
    | (old) "arp_st ?e \<noteq> ETHARP_STATE_EMPTY" "arp_st ?e \<noteq> ETHARP_STATE_STATIC"
        "ctime ?e' \<ge> ARP_MAXAGE c \<or> arp_st ?e = ETHARP_STATE_PENDING \<and> ctime ?e' \<ge> ARP_MAXPENDING"
    | (young) "arp_st ?e \<noteq> ETHARP_STATE_EMPTY" "arp_st ?e \<noteq> ETHARP_STATE_STATIC"
        "\<not> (ctime ?e' \<ge> ARP_MAXAGE c \<or> arp_st ?e = ETHARP_STATE_PENDING \<and> ctime ?e' \<ge> ARP_MAXPENDING)" by blast
  then show ?thesis
  proof cases
    case idle
    then show ?thesis using t e by (auto simp: tmr_entry_def tick_def same_table_def)
  next
    case old
    then have "etharp_free_entry c i (put_entry i ?e' s) = Some s'" using t e by (auto simp: tmr_entry_def Let_def)
    from free_entry_shape [OF this] show ?thesis using old i
      by (auto simp: same_table_def tick_def Let_def dest!: arp_entry_SomeD)
  next
    case young
    show ?thesis
    proof (cases "arp_st ?e = ETHARP_STATE_PENDING")
      case True
      then obtain r where "etharp_request c (arp_netif ?e) (arp_ip ?e) (put_entry i ?e' s) = Some (r, s')"
        using t e young by (auto simp: tmr_entry_def Let_def split: Option.bind_splits)
      then have "same_table (put_entry i ?e' s) s'" by (rule etharp_request_table)
      moreover have "tick c ?e = ?e'" using young True by (simp add: tick_def Let_def)
      ultimately show ?thesis by simp
    next
      case False
      then show ?thesis using t e young by (auto simp: tmr_entry_def tick_def Let_def same_table_def)
    qed
  qed
qed

lemma tmr_loop_tick:
  assumes "tmr_loop c [k..<n] s = Some s'" "n = length (arp_table s)" "k \<le> n"
  shows "arp_table s' = take k (arp_table s) @ map (tick c) (drop k (arp_table s)) \<and>
    etharp_cached_entry s' = etharp_cached_entry s"
  using assms
proof (induction "n - k" arbitrary: k s)
  case 0
  then show ?case by simp
next
  case (Suc d)
  then have k: "k < length (arp_table s)" "[k..<n] = k # [Suc k..<n]" by (simp_all add: upt_conv_Cons)
  then obtain s1 where s1: "tmr_entry c k s = Some s1" "tmr_loop c [Suc k..<n] s1 = Some s'"
    using Suc.prems(1) by (auto split: Option.bind_splits)
  have t: "arp_table s1 = (arp_table s)[k := tick c (arp_table s ! k)]" "etharp_cached_entry s1 = etharp_cached_entry s"
    using tmr_entry_tick [OF k(1) s1(1)] by (simp_all add: same_table_def)
  have "arp_table s' = take (Suc k) (arp_table s1) @ map (tick c) (drop (Suc k) (arp_table s1)) \<and>
      etharp_cached_entry s' = etharp_cached_entry s1"
    using Suc.hyps Suc.prems s1(2) t(1) k(1) by (intro Suc.hyps(1)) simp_all
  moreover have "drop k (arp_table s) = arp_table s ! k # drop (Suc k) (arp_table s)" using k(1) by (simp add: Cons_nth_drop_Suc)
  ultimately show ?case using k(1) by (simp add: t take_Suc_conv_app_nth)
qed

lemma tmr_tick:
  assumes "table_ok c s" "etharp_tmr c s = Some s'"
  shows "arp_table s' = map (tick c) (arp_table s) \<and> etharp_cached_entry s' = etharp_cached_entry s"
  using tmr_loop_tick [OF assms(2) [unfolded etharp_tmr_def] table_okD(2) [OF assms(1), symmetric]] by simp

lemma distinct_keys_tick:
  assumes "distinct_keys es"
  shows "distinct_keys (map (tick c) es)"
proof (rule distinct_keysI)
  have st: "arp_st e \<noteq> ETHARP_STATE_EMPTY" if "arp_st (tick c e) \<noteq> ETHARP_STATE_EMPTY" for e
    using that tick_keeps(4) [of e c] by auto
  fix i j
  assume ij: "i < length (map (tick c) es)" "j < length (map (tick c) es)" "arp_st (map (tick c) es ! i) \<noteq> ETHARP_STATE_EMPTY"
    "arp_st (map (tick c) es ! j) \<noteq> ETHARP_STATE_EMPTY" "arp_ip (map (tick c) es ! i) = arp_ip (map (tick c) es ! j)"
    "arp_netif (map (tick c) es ! i) = arp_netif (map (tick c) es ! j)"
  then show "i = j" using distinct_keysD [OF assms, of i j] st [of "es ! i"] st [of "es ! j"] unfolding length_map
    by (simp add: tick_keeps)
qed

lemma tmr_ok: "table_ok c s \<Longrightarrow> etharp_tmr c s = Some s' \<Longrightarrow> table_ok c s'"
  using tmr_tick [of c s s'] distinct_keys_tick [of "arp_table s" c] by (simp add: table_ok_def entry_ok_tick)

lemma queue_packet_ok:
  assumes ok: "table_ok c s" and st: "i < ARP_TABLE_SIZE c" "arp_st (arp_table s ! i) = ETHARP_STATE_PENDING"
    and q: "queue_packet c i q s = Some (r, s')"
  shows "table_ok c s'"
proof -
  have "\<exists>p m. s' = put_mem m s \<or> s' = put_entry i ((arp_table s ! i)\<lparr>arp_q := p\<rparr>) (put_mem m s)"
    using q st(1) table_okD(2) [OF ok] by (auto simp: queue_packet_def split: Option.bind_splits if_splits prod.splits)
  moreover have "table_ok c (put_entry i ((arp_table s ! i)\<lparr>arp_q := p\<rparr>) (put_mem m s))" for p m
    using table_okD(4) [OF ok st(1)] st same_table_ok [OF same_table_simps(3) ok]
    by (intro table_ok_put_own) (auto simp: entry_ok_def)
  ultimately show ?thesis using same_table_ok [OF same_table_simps(3) ok] by blast
qed

lemma deliver_packet_ok:
  assumes ok: "table_ok c s" and i: "i < ARP_TABLE_SIZE c" and d: "deliver_packet c nif i q res s = Some (r, s')"
  shows "table_ok c s'"
proof -
  have e: "arp_entry i s = Some (arp_table s ! i)" using i table_okD(2) [OF ok] by simp
  have "table_ok c (s\<lparr>etharp_cached_entry := i\<rparr>)" using ok i by (rule table_ok_cached)
  then have "table_ok c s'" if "send_ip c nif q dst (s\<lparr>etharp_cached_entry := i\<rparr>) = Some (r, s')" for dst
    using same_table_ok [OF send_ip_table [OF that]] by blast
  then show ?thesis using d e ok queue_packet_ok [OF ok i] by (auto simp: deliver_packet_def split: if_splits)
qed

lemma query_ok:
  assumes ok: "table_ok c s" and qy: "etharp_query c nif a q s = Some (r, s')"
  shows "table_ok c s'"
proof -
  obtain n where n: "netif_at (net s) nif = Some n" using qy by (auto simp: etharp_query_def split: Option.bind_splits)
  then have nif: "nif \<noteq> 0" by (auto simp: netif_at_def split: if_splits)
  show ?thesis
  proof (cases "ip4_addr_isbroadcast_u32 a n \<or> ip4_addr_ismulticast a \<or> ip4_addr_isany_val a")
    case True
    then show ?thesis using qy n ok by (auto simp: etharp_query_def)
  next
    case a: False
    with qy n obtain fr s1 where f: "etharp_find_entry c (Some a) ETHARP_FLAG_TRY_HARD nif s = Some (fr, s1)"
      by (auto simp: etharp_query_def split: Option.bind_splits)
    note fd = find_entry_found [OF ok nif f]
    show ?thesis
    proof (cases fr)
      case (Inl err)
      then show ?thesis using qy n a f fd ok by (auto simp: etharp_query_def)
    next
      case (Inr i)
      then have s1: "table_ok c s1" "found c a nif i s1" using fd by auto
      let ?e = "arp_table s1 ! i"
      let ?new = "arp_st ?e = ETHARP_STATE_EMPTY"
      define s2 where "s2 = (if ?new then put_entry i (?e\<lparr>arp_st := ETHARP_STATE_PENDING, arp_netif := nif\<rparr>) s1 else s1)"
      have i: "i < ARP_TABLE_SIZE c" "arp_entry i s1 = Some ?e" using s1 table_okD(2) [OF s1(1)] by (simp_all add: found_def)
      have "0 < ARP_MAXAGE c" "0 < ARP_MAXPENDING" using table_okD(1) [OF ok] by (simp_all add: arp_cfg_ok_def ARP_MAXPENDING_def)
      then have s2: "table_ok c s2" using s1 a nif table_okD(4) [OF s1(1) i(1)] unfolding s2_def
        by (auto intro!: found_put simp: entry_ok_def found_def)
      obtain res s3 where s3: "(if ?new \<or> q = 0 then etharp_request c nif a s2 else Some (ERR_MEM, s2)) = Some (res, s3)"
        using qy n a f Inr i(2) unfolding s2_def by (auto simp: etharp_query_def Let_def split: Option.bind_splits)
      then have s3t: "same_table s2 s3" using etharp_request_table by (auto split: if_splits)
      then have s3ok: "table_ok c s3" using s2 same_table_ok by blast
      have "(if q = 0 then Some (res, s3) else deliver_packet c nif i q res s3) = Some (r, s')"
        using qy n a f Inr i(2) s3 unfolding s2_def by (simp add: etharp_query_def Let_def)
      then show ?thesis using s3ok deliver_packet_ok [OF s3ok i(1)] by (auto split: if_splits)
    qed
  qed
qed

lemma output_to_index_ok:
  assumes ok: "table_ok c s" and i: "i < ARP_TABLE_SIZE c" and o: "etharp_output_to_arp_index c nif q i s = Some (r, s')"
  shows "table_ok c s'"
proof -
  let ?e = "arp_table s ! i"
  have e: "arp_entry i s = Some ?e" using i table_okD(2) [OF ok] by simp
  have re: "table_ok c (put_entry i ((arp_table s1 ! i)\<lparr>arp_st := ETHARP_STATE_STABLE_REREQUESTING_1\<rparr>) s1)"
    if "same_table s s1" "arp_st ?e = ETHARP_STATE_STABLE" for s1
    using same_table_ok [OF that(1) ok] that i table_okD(4) [OF ok i]
    by (intro table_ok_put_own) (auto simp: same_table_def entry_ok_def)
  obtain s2 where s2: "table_ok c s2" "send_ip c nif q (arp_eth (arp_table s2 ! i)) s2 = Some (r, s')"
  proof (cases "arp_st ?e = ETHARP_STATE_STABLE \<and> ctime ?e \<ge> ARP_AGE_REREQUEST_USED_UNICAST c")
    case False
    then show ?thesis using o e ok that [of s]
      by (auto simp: etharp_output_to_arp_index_def split: Option.bind_splits)
  next
    case True
    then obtain err s1 where s1: "(if ctime ?e \<ge> ARP_AGE_REREQUEST_USED_BROADCAST c then etharp_request c nif (arp_ip ?e) s
        else etharp_request_dst c nif (arp_ip ?e) (arp_eth ?e) s) = Some (err, s1)"
      using o e by (auto simp: etharp_output_to_arp_index_def split: Option.bind_splits)
    then have t: "same_table s s1" using etharp_request_table etharp_request_dst_table by (auto split: if_splits)
    then have s1ok: "table_ok c s1" using ok same_table_ok by blast
    then have e1: "arp_entry i s1 = Some (arp_table s1 ! i)" using i table_okD(2) by simp
    define s2 where "s2 = (if err = ERR_OK then put_entry i ((arp_table s1 ! i)\<lparr>arp_st := ETHARP_STATE_STABLE_REREQUESTING_1\<rparr>) s1 else s1)"
    have "table_ok c s2" using s1ok re [OF t] True unfolding s2_def by auto
    moreover from this have "arp_entry i s2 = Some (arp_table s2 ! i)" using i table_okD(2) by simp
    then have "send_ip c nif q (arp_eth (arp_table s2 ! i)) s2 = Some (r, s')"
      using o e True s1 e1 unfolding s2_def by (auto simp: etharp_output_to_arp_index_def split: if_splits Option.bind_splits)
    ultimately show ?thesis by (rule that)
  qed
  then show ?thesis using same_table_ok [OF send_ip_table] by blast
qed

lemma find_stable_range:
  assumes "find_stable a nif k es = Some i"
  shows "k \<le> i \<and> i < k + length es \<and> stable_match a nif (es ! (i - k))"
  using assms
proof (induction es arbitrary: k)
  case (Cons e es)
  show ?case
  proof (cases "stable_match a nif e")
    case False
    then have "Suc k \<le> i \<and> i < Suc k + length es \<and> stable_match a nif (es ! (i - Suc k))"
      using Cons.IH [of "Suc k"] Cons.prems by simp
    then show ?thesis by (auto simp: nth_Cons' Suc_diff_Suc)
  qed (use Cons.prems in auto)
qed simp

lemma output_ok:
  assumes ok: "table_ok c s" and o: "etharp_output c nif q a s = Some (r, s')"
  shows "table_ok c s'"
proof -
  have send: "table_ok c s'" if "send_ip c nif q dst s = Some (r, s')" for dst
    using same_table_ok [OF send_ip_table [OF that] ok] .
  have idx: "table_ok c s'" if "etharp_output_to_arp_index c nif q (etharp_cached_entry s) s = Some (r, s')"
    using output_to_index_ok [OF ok table_okD(3) [OF ok] that] .
  have stb: "table_ok c s'" if "find_stable d nif 0 (arp_table s) = Some i"
    "etharp_output_to_arp_index c nif q i (s\<lparr>etharp_cached_entry := i\<rparr>) = Some (r, s')" for d i
  proof -
    have "i < ARP_TABLE_SIZE c" using find_stable_range [OF that(1)] table_okD(2) [OF ok] by simp
    then show ?thesis using output_to_index_ok [OF table_ok_cached [OF ok] _ that(2)] by blast
  qed
  show ?thesis using o send idx stb query_ok [OF ok] ok
    by (auto simp: etharp_output_def Let_def split: Option.bind_splits if_splits option.splits)
qed

lemma arp_reply_table: "arp_reply c p nif a for_us s = Some s' \<Longrightarrow> same_table s s'"
  by (auto simp: arp_reply_def split: Option.bind_splits if_splits prod.splits dest: etharp_raw_table)

lemma arp_message_shape:
  assumes "arp_message c p nif s = Some s'"
  shows "\<exists>a eth flags r s1. etharp_update_arp_entry c nif a eth flags s = Some (r, s1) \<and>
    flags AND ETHARP_FLAG_STATIC_ENTRY = 0 \<and> same_table s1 s'"
proof -
  define fl where "fl for_us = (if for_us then ETHARP_FLAG_TRY_HARD else ETHARP_FLAG_FIND_ONLY)" for for_us
  obtain a eth for_us r s1 where u: "etharp_update_arp_entry c nif a eth (fl for_us) s = Some (r, s1)"
    "arp_reply c p nif a for_us s1 = Some s'"
    using assms unfolding arp_message_def Let_def fl_def [symmetric] by (auto simp: bind_eq_Some_conv)
  moreover have "fl for_us AND ETHARP_FLAG_STATIC_ENTRY = 0"
    by (simp add: fl_def ETHARP_FLAG_TRY_HARD_def ETHARP_FLAG_FIND_ONLY_def ETHARP_FLAG_STATIC_ENTRY_def)
  ultimately show ?thesis using arp_reply_table by blast
qed

lemma input_shape:
  assumes "etharp_input c p nif s = Some s'"
  shows "same_table s s' \<or> (\<exists>a eth flags r s1. etharp_update_arp_entry c nif a eth flags s = Some (r, s1) \<and>
    flags AND ETHARP_FLAG_STATIC_ENTRY = 0 \<and> same_table s1 s')"
proof (cases "nif = 0")
  case False
  then obtain ok s1 m where "(if ok then arp_message c p nif s else Some s) = Some s1" "s' = put_mem m s1"
    using assms by (auto simp: etharp_input_def split: Option.bind_splits prod.splits)
  then show ?thesis using arp_message_shape [of c p nif s s1] by (cases ok) (auto simp: same_table_def)
qed (use assms in \<open>simp add: etharp_input_def\<close>)

lemma input_ok:
  assumes ok: "table_ok c s" and o: "etharp_input c p nif s = Some s'"
  shows "table_ok c s'"
  using input_shape [OF o] update_arp_entry_ok [OF ok] same_table_ok ok by blast

section \<open>All sequences of operations\<close>

definition empty_entry :: etharp_entry where
  "empty_entry = \<lparr>arp_q = 0, arp_ip = 0, arp_netif = 0, arp_eth = ethzero, ctime = 0, arp_st = ETHARP_STATE_EMPTY\<rparr>"

definition arp_start :: "arp_cfg \<Rightarrow> net_state \<Rightarrow> arp_state" where
  "arp_start c n = \<lparr>net = n, arp_table = replicate (ARP_TABLE_SIZE c) empty_entry, etharp_cached_entry = 0\<rparr>"

text \<open>The steps of the module; between them the rest of the stack may change memory and interfaces.\<close>

inductive arp_step :: "arp_cfg \<Rightarrow> arp_state \<Rightarrow> arp_state \<Rightarrow> bool" for c where
  rest: "arp_step c s (s\<lparr>net := n\<rparr>)"
| tmr: "etharp_tmr c s = Some s' \<Longrightarrow> arp_step c s s'"
| inp: "etharp_input c p nif s = Some s' \<Longrightarrow> arp_step c s s'"
| out: "etharp_output c nif q a s = Some (r, s') \<Longrightarrow> arp_step c s s'"
| query: "etharp_query c nif a q s = Some (r, s') \<Longrightarrow> arp_step c s s'"
| request: "etharp_request c nif a s = Some (r, s') \<Longrightarrow> arp_step c s s'"
| add_static: "etharp_add_static_entry c a eth s = Some (r, s') \<Longrightarrow> arp_step c s s'"
| remove_static: "etharp_remove_static_entry c a s = Some (r, s') \<Longrightarrow> arp_step c s s'"
| cleanup: "etharp_cleanup_netif c nif s = Some s' \<Longrightarrow> arp_step c s s'"

inductive arp_reachable :: "arp_cfg \<Rightarrow> arp_state \<Rightarrow> bool" for c where
  start: "arp_reachable c (arp_start c n)"
| step: "arp_reachable c s \<Longrightarrow> arp_step c s s' \<Longrightarrow> arp_reachable c s'"

lemma arp_start_ok: "arp_cfg_ok c \<Longrightarrow> table_ok c (arp_start c n)"
  by (auto simp: table_ok_def arp_start_def empty_entry_def entry_ok_def arp_cfg_ok_def intro!: distinct_keysI)

lemma arp_step_ok: "arp_step c s s' \<Longrightarrow> table_ok c s \<Longrightarrow> table_ok c s'"
proof (induction rule: arp_step.induct)
  case (rest s n)
  then show ?case using same_table_ok [OF same_table_simps(2)] by blast
next
  case (request nif a s r s')
  then show ?case using same_table_ok [OF etharp_request_table] by blast
qed (blast intro: tmr_ok input_ok output_ok query_ok add_static_ok remove_static_ok cleanup_netif_ok)+

lemma arp_reachable_ok: "arp_reachable c s \<Longrightarrow> arp_cfg_ok c \<Longrightarrow> table_ok c s"
  by (induction rule: arp_reachable.induct) (auto intro: arp_start_ok arp_step_ok)

section \<open>Updates and static entries\<close>

lemma find_addr_recorded:
  assumes ok: "table_ok c s" and fd: "found c a nif i s1" "table_ok c s1" and nif: "nif \<noteq> 0"
    and st: "st = ETHARP_STATE_STABLE \<or> st = ETHARP_STATE_STATIC" and a: "\<not> ip4_addr_isany_val a" "\<not> ip4_addr_ismulticast a"
    and r: "record_address c nif i eth st s1 = Some (r, s')"
  shows "etharp_find_addr c nif a s' = Some (Some (i, eth, a), s')"
proof -
  let ?e = "recorded nif eth st (arp_table s1 ! i)"
  have i: "i < ARP_TABLE_SIZE c" using fd(1) by (simp add: found_def)
  have t: "arp_table s' = (arp_table s1)[i := ?e]" using record_address_shape [OF r] by (simp add: same_table_def)
  have e: "arp_table s' ! i = ?e" "arp_ip ?e = a" using t i table_okD(2) [OF fd(2)] fd(1) by (simp_all add: found_def)
  have ok': "table_ok c s'" by (rule record_address_ok [OF fd(2,1) nif a st r])
  have m: "used_match (Some a) nif ?e" using e(2) st by (auto simp: used_match_def arp_match_def)
  then have "\<exists>e\<in>set (arp_table s'). used_match (Some a) nif e" using e(1) i table_okD(2) [OF ok'] nth_mem by metis
  then obtain k where k: "k < ARP_TABLE_SIZE c" "used_match (Some a) nif (arp_table s' ! k)"
    "etharp_find_entry c (Some a) ETHARP_FLAG_FIND_ONLY nif s' = Some (Inr k, s')"
    using find_entry_match [OF ok'] by blast
  have "k = i"
    by (rule distinct_keysD [OF table_okD(5) [OF ok']])
      (use k i e m nif table_okD(2) [OF ok'] in \<open>simp_all add: used_match_def arp_match_def\<close>)
  then show ?thesis using k(3) e st i table_okD(2) [OF ok'] by (auto simp: etharp_find_addr_def)
qed

definition static_kept :: "arp_state \<Rightarrow> arp_state \<Rightarrow> bool" where
  "static_kept s s' \<longleftrightarrow> (\<forall>i<length (arp_table s). arp_st (arp_table s ! i) = ETHARP_STATE_STATIC \<longrightarrow> arp_table s' ! i = arp_table s ! i)"

lemma static_kept_same: "same_table s s' \<Longrightarrow> static_kept s s'" "same_table s1 s2 \<Longrightarrow> static_kept s s1 \<Longrightarrow> static_kept s s2"
  by (simp_all add: static_kept_def same_table_def)

lemma static_kept_put:
  assumes "i < length (arp_table s)" "arp_st (arp_table s ! i) \<noteq> ETHARP_STATE_STATIC" "arp_table s' = (arp_table s)[i := e]"
  shows "static_kept s s'"
  using assms unfolding static_kept_def by (metis nth_list_update_neq)

lemma find_entry_static:
  assumes ok: "table_ok c s" and nif: "nif \<noteq> 0" and f: "etharp_find_entry c (Some a) flags nif s = Some (Inr i, s')"
  shows "s' = s \<or> arp_st (arp_table s ! i) \<noteq> ETHARP_STATE_STATIC \<and> i < ARP_TABLE_SIZE c \<and>
    arp_table s' = (arp_table s)[i := reset_entry a nif (arp_table s ! i)]"
proof (cases "\<exists>e\<in>set (arp_table s). used_match (Some a) nif e")
  case True
  then show ?thesis using find_entry_match [OF ok] f by (metis option.inject prod.inject)
next
  case False
  then have nm: "\<forall>e\<in>set (arp_table s). \<not> used_match (Some a) nif e" by simp
  have fl: "flags AND ETHARP_FLAG_FIND_ONLY = 0"
    "flags AND ETHARP_FLAG_TRY_HARD = 0 \<Longrightarrow> \<exists>e\<in>set (arp_table s). arp_st e = ETHARP_STATE_EMPTY"
    using find_entry_not_found [OF ok nm, of flags] f by auto
  show ?thesis
  proof (cases "\<exists>e\<in>set (arp_table s). arp_st e = ETHARP_STATE_EMPTY")
    case True
    then show ?thesis using find_entry_empty [OF ok nm fl(1) True] f by (auto simp: first_empty_def)
  next
    case no: False
    then have th: "flags AND ETHARP_FLAG_TRY_HARD \<noteq> 0" using fl(2) by blast
    have "\<exists>P. (P = dynamic_stable \<or> P = idle_pending \<or> P = queued_pending) \<and> is_oldest P (arp_table s) i \<and>
        arp_table s' = (arp_table s)[i := reset_entry a nif (arp_table s ! i)]"
      using find_entry_recycle [OF ok nm fl(1) th no] f by (auto split: if_splits Option.bind_splits prod.splits)
    then obtain P where P: "P = dynamic_stable \<or> P = idle_pending \<or> P = queued_pending" "is_oldest P (arp_table s) i"
        "arp_table s' = (arp_table s)[i := reset_entry a nif (arp_table s ! i)]" by blast
    then have "P (arp_table s ! i)" "i < ARP_TABLE_SIZE c" using is_oldestD [OF P(2)] table_okD(2) [OF ok] by simp_all
    then show ?thesis using P(1,3) by (auto simp: kind_defs)
  qed
qed

lemma update_static_kept:
  assumes ok: "table_ok c s" and u: "etharp_update_arp_entry c nif a eth flags s = Some (r, s')"
    and fl: "flags AND ETHARP_FLAG_STATIC_ENTRY = 0"
  shows "static_kept s s'"
proof (cases "s' = s")
  case False
  with update_arp_entry_shape [OF ok u] fl obtain i s1 where
    f: "nif \<noteq> 0" "etharp_find_entry c (Some a) flags nif s = Some (Inr i, s1)" "table_ok c s1" "found c a nif i s1" and
    s': "s' = s1 \<or> arp_st (arp_table s1 ! i) \<noteq> ETHARP_STATE_STATIC \<and> record_address c nif i eth ETHARP_STATE_STABLE s1 = Some (r, s')"
    by auto
  have i: "i < ARP_TABLE_SIZE c" "length (arp_table s1) = length (arp_table s)" "length (arp_table s) = ARP_TABLE_SIZE c"
    using f(4) table_okD(2) [OF f(3)] table_okD(2) [OF ok] by (simp_all add: found_def)
  have find: "s1 = s \<or> arp_st (arp_table s ! i) \<noteq> ETHARP_STATE_STATIC \<and>
      arp_table s1 = (arp_table s)[i := reset_entry a nif (arp_table s ! i)]"
    using find_entry_static [OF ok f(1,2)] by blast
  from s' show ?thesis
  proof
    assume "s' = s1"
    then show ?thesis using find i False by (auto intro: static_kept_put)
  next
    assume r: "arp_st (arp_table s1 ! i) \<noteq> ETHARP_STATE_STATIC \<and> record_address c nif i eth ETHARP_STATE_STABLE s1 = Some (r, s')"
    then have "arp_table s' = (arp_table s1)[i := recorded nif eth ETHARP_STATE_STABLE (arp_table s1 ! i)]"
      using record_address_shape by (auto simp: same_table_def)
    then show ?thesis using find r i by (auto intro: static_kept_put)
  qed
qed (simp add: static_kept_def)

lemma input_static_kept:
  assumes ok: "table_ok c s" and o: "etharp_input c p nif s = Some s'"
  shows "static_kept s s'"
  using input_shape [OF o] update_static_kept [OF ok] static_kept_same by blast

end
