(* ===== verification/Etharp_Frames.thy ===== *)
theory Etharp_Frames
  imports Etharp_Steps
begin

text \<open>
  ARP packets on the wire: the frame that \<^verbatim>\<open>etharp_raw\<close> sends, that it gives back the memory it takes, and what a
  receiver learns from such a packet.
\<close>

section \<open>The frame of an ARP packet\<close>

definition arp_packet :: "u16 \<Rightarrow> eth_addr \<Rightarrow> ip4_addr \<Rightarrow> eth_addr \<Rightarrow> ip4_addr \<Rightarrow> u8 list" where
  "arp_packet opcode hwsrc ipsrc hwdst ipdst =
     u16_bytes (lwip_htons LWIP_IANA_HWTYPE_ETHERNET) @ u16_bytes (lwip_htons ETHTYPE_IP) @ [of_nat ETH_HWADDR_LEN] @ [4] @
     u16_bytes (lwip_htons opcode) @ eth_bytes hwsrc @ ip4_bytes ipsrc @ eth_bytes hwdst @ ip4_bytes ipdst"

lemma length_ip4_bytes [simp]: "length (ip4_bytes a) = 4"
  by (simp add: ip4_bytes_def)

lemma length_arp_packet [simp]: "length (arp_packet opcode hs si dh di) = 28"
  by (simp add: arp_packet_def)

text \<open>The header is written field by field, not in the order of the fields.\<close>

lemma fields_stored:
  assumes r: "range_mapped m a 28" and l: "length x0 = 2" "length x2 = 2" "length x4 = 1" "length x5 = 1" "length x6 = 2"
    "length x8 = 6" "length x14 = 4" "length x18 = 6" "length x24 = 4"
  shows "do {
      m \<leftarrow> store_bytes m (a + 6) x6; m \<leftarrow> store_bytes m (a + 8) x8; m \<leftarrow> store_bytes m (a + 18) x18;
      m \<leftarrow> store_bytes m (a + 14) x14; m \<leftarrow> store_bytes m (a + 24) x24; m \<leftarrow> store_bytes m a x0;
      m \<leftarrow> store_bytes m (a + 2) x2; m \<leftarrow> store_bytes m (a + 4) x4; m \<leftarrow> store_bytes m (a + 5) x5;
      f m } = f (mem_upd m a (x0 @ x2 @ x4 @ x5 @ x6 @ x8 @ x14 @ x18 @ x24))"
proof -
  have r': "range_mapped m (a + k) j" if "k + j \<le> 28" for k j using range_mapped_mono [OF r that] .
  have c56: "mem_upd (mem_upd m' (a + 6) x6) (a + 5) x5 = mem_upd (mem_upd m' (a + 5) x5) (a + 6) x6" for m'
    by (rule mem_upd_swap) (simp add: l)
  have "mem_upd (mem_upd (mem_upd (mem_upd (mem_upd (mem_upd (mem_upd (mem_upd (mem_upd m
      (a + 6) x6) (a + 8) x8) (a + 18) x18) (a + 14) x14) (a + 24) x24) a x0) (a + 2) x2) (a + 4) x4) (a + 5) x5 =
    mem_upd m a (x0 @ x2 @ x4 @ x5 @ x6 @ x8 @ x14 @ x18 @ x24)"
    unfolding mem_upd_append l by (simp add: mem_upd_swap c56 add.assoc l del: add_2_eq_Suc add_2_eq_Suc' One_nat_def)
  then show ?thesis using r' r' [of 0] l by (simp add: mem_simps del: add_2_eq_Suc add_2_eq_Suc')
qed

lemma arp_packet_stored:
  assumes r: "range_mapped bm a 28"
  shows "do {
      bm \<leftarrow> store_bytes bm (a + 6) (u16_bytes (lwip_htons opcode));
      bm \<leftarrow> store_bytes bm (a + 8) (eth_bytes hs);
      bm \<leftarrow> store_bytes bm (a + 18) (eth_bytes dh);
      bm \<leftarrow> store_bytes bm (a + 14) (ip4_bytes si);
      bm \<leftarrow> store_bytes bm (a + 24) (ip4_bytes di);
      bm \<leftarrow> store_bytes bm a (u16_bytes (lwip_htons LWIP_IANA_HWTYPE_ETHERNET));
      bm \<leftarrow> store_bytes bm (a + 2) (u16_bytes (lwip_htons ETHTYPE_IP));
      bm \<leftarrow> store_bytes bm (a + 4) [of_nat ETH_HWADDR_LEN];
      bm \<leftarrow> store_bytes bm (a + 5) [4];
      f bm } = f (mem_upd bm a (arp_packet opcode hs si dh di))"
  unfolding arp_packet_def by (rule fields_stored [OF r]) simp_all

text \<open>The memory an ARP packet needs: a link layer that leaves room for the Ethernet header, and a heap of bytes that exist.\<close>

definition arp_mem_ok :: "arp_cfg \<Rightarrow> (memp_t \<Rightarrow> memp_desc) \<Rightarrow> areas \<Rightarrow> lwip_mem \<Rightarrow> bool" where
  "arp_mem_ok c descs out m \<longleftrightarrow>
     (let pc = pcfg (ncfg c); mc = memcfg pc in
      pbuf_cfg_ok pc descs \<and> mem_ok pc descs m out \<and> 14 \<le> PBUF_LINK pc \<and> PBUF_LINK pc < 65536 \<and>
      SIZEOF_STRUCT_PBUF pc + align_size pc (PBUF_LINK pc) < 65536 \<and>
      range_mapped (bytes m) (ram mc) (MEM_SIZE_ALIGNED mc))"

lemma arp_mem_okD:
  assumes "arp_mem_ok c descs out m"
  shows "pbuf_cfg_ok (pcfg (ncfg c)) descs" "mem_ok (pcfg (ncfg c)) descs m out" "14 \<le> PBUF_LINK (pcfg (ncfg c))"
    "PBUF_LINK (pcfg (ncfg c)) < 65536"
    "SIZEOF_STRUCT_PBUF (pcfg (ncfg c)) + align_size (pcfg (ncfg c)) (PBUF_LINK (pcfg (ncfg c))) < 65536"
    "range_mapped (bytes m) (ram (memcfg (pcfg (ncfg c)))) (MEM_SIZE_ALIGNED (memcfg (pcfg (ncfg c))))"
  using assms by (simp_all add: arp_mem_ok_def Let_def)

lemma heap_area_bounds:
  assumes "mem_ok c descs s out" "(0, p, n) \<in> out"
  shows "ram (memcfg c) \<le> p \<and> p + n \<le> ram (memcfg c) + MEM_SIZE_ALIGNED (memcfg c)"
proof -
  obtain bs xs ys where r: "mem_rep (memcfg c) descs s bs xs ys" "out = outstanding (memcfg c) descs bs xs ys"
    using assms(1) by (auto simp: mem_ok_def)
  then have "(p, n) \<in> allocs (memcfg c) (MEM_SIZE_ALIGNED (memcfg c)) bs" "gaps_ok (memcfg c) (MEM_SIZE_ALIGNED (memcfg c)) bs"
    using assms(2) by (auto simp: outstanding_def alloc_srcs mem_rep_def heap_ok_def heap_rep_def)
  then show ?thesis using allocs_bounds by fastforce
qed

lemma alloc_link_ram:
  assumes "len < 65536" "layer < 65536"
  shows "pbuf_alloc c layer len PBUF_RAM s = pbuf_alloc_ram c layer len PBUF_RAM s"
  using assms by (simp add: pbuf_alloc_def u16_of_id PBUF_RAM_def PBUF_REF_def PBUF_ROM_def PBUF_POOL_def)

lemma align_size_le:
  assumes "pbuf_cfg_ok c descs" "n < 65536"
  shows "n \<le> align_size c n"
proof -
  have "n + MEM_ALIGNMENT (memcfg c) < 2 ^ 32" using pool_cfg_facts(1) [OF assms(1)] assms(2) by simp
  then show ?thesis using ALIGN_SIZE_bounds(2) assms(1) by (simp add: pbuf_cfg_ok_def)
qed

lemma heap_range_mapped:
  assumes "range_mapped bm (ram (memcfg c)) (MEM_SIZE_ALIGNED (memcfg c))" "mem_ok c descs s (insert (0, p, n) out)"
    "p \<le> a" "a + j \<le> p + n"
  shows "range_mapped bm a j"
proof -
  have b: "ram (memcfg c) \<le> p" "p + n \<le> ram (memcfg c) + MEM_SIZE_ALIGNED (memcfg c)"
    using heap_area_bounds [OF assms(2), of p n] by simp_all
  then show ?thesis using range_mapped_mono [OF assms(1), of "a - ram (memcfg c)" j] assms(3,4) by simp
qed

lemma free_heap_pbuf:
  assumes pb: "pbufs s p = Some pb" "p \<noteq> 0" "pb_next pb = 0" "pb_ref pb = 1" "std_pbuf pb" "pbuf_get_allocsrc pb = 0"
    and ok: "mem_ok c descs s (insert (0, p, k) out)" "(0, p, k) \<notin> out"
  shows "\<exists>s'. pbuf_free c p s = Some (u8_of 1, s') \<and> mem_ok c descs s' out \<and> bytes s' = bytes s \<and>
    (\<forall>x. x \<noteq> p \<longrightarrow> pbufs s' x = pbufs s x)"
proof -
  have ar: "area (pbufs s) (\<lambda>_. k) ` set [p] = {(0, p, k)}" using pb by (simp add: area_def)
  have "mem_ok c descs s (out \<union> area (pbufs s) (\<lambda>_. k) ` set [p])" using ok(1) unfolding ar by simp
  moreover have "chain (pbufs s) p [p]" using pb by simp
  ultimately show ?thesis using free_unshared [of s p "[p]" c descs out "\<lambda>_. k"] ar ok(2) pb by auto
qed

text \<open>Addresses the heap never hands out, such as those of the packet pool.\<close>

definition off_heap :: "arp_cfg \<Rightarrow> addr \<Rightarrow> bool" where
  "off_heap c x \<longleftrightarrow> (let mc = memcfg (pcfg (ncfg c)) in x < ram mc \<or> ram mc + MEM_SIZE_ALIGNED mc \<le> x)"

lemma put_mem_again: "(net (put_mem m s))\<lparr>stack_mem := m'\<rparr> = (net s)\<lparr>stack_mem := m'\<rparr>"
  by (simp add: put_mem_def)

text \<open>The heap has no room for an ARP packet.\<close>

text \<open>Addresses that a new block of the heap can not have: outside of the heap, or the start of a block in use.\<close>

definition kept :: "arp_cfg \<Rightarrow> areas \<Rightarrow> addr \<Rightarrow> bool" where
  "kept c out x \<longleftrightarrow> off_heap c x \<or> (\<exists>n. (0, x, n) \<in> out)"

definition no_arp_buffer :: "arp_cfg \<Rightarrow> arp_state \<Rightarrow> bool" where
  "no_arp_buffer c s \<longleftrightarrow>
     (\<exists>m. pbuf_alloc (pcfg (ncfg c)) (PBUF_LINK (pcfg (ncfg c))) SIZEOF_ETHARP_HDR PBUF_RAM (arp_mem s) = Some (0, m))"

lemma heap_area_unique:
  assumes ok: "mem_ok c descs s out" and p: "(0, p, n) \<in> out" "(0, p, n') \<in> out"
  shows "n = n'"
proof -
  let ?mc = "memcfg c"
  obtain bs xs ys where r: "mem_rep ?mc descs s bs xs ys" "out = outstanding ?mc descs bs xs ys" using ok by (auto simp: mem_ok_def)
  then have a: "(p, n) \<in> allocs ?mc (MEM_SIZE_ALIGNED ?mc) bs" "(p, n') \<in> allocs ?mc (MEM_SIZE_ALIGNED ?mc) bs"
    and g: "mem_cfg_ok ?mc" "gaps_ok ?mc (MEM_SIZE_ALIGNED ?mc) bs"
    using p by (auto simp: outstanding_def alloc_srcs mem_rep_def heap_ok_def heap_rep_def)
  obtain us o1 vs where b: "bs = us @ (o1, True) # vs" "p = ram ?mc + o1 + SIZEOF_STRUCT_MEM ?mc"
    "n = start (MEM_SIZE_ALIGNED ?mc) vs - (o1 + SIZEOF_STRUCT_MEM ?mc)" using a(1) by (rule allocs_member)
  then show ?thesis using allocs_apart(2) [OF g(1) g(2) [unfolded b(1)], of p n' 0] a(2) by auto
qed

lemma etharp_raw_spec:
  assumes mok: "arp_mem_ok c descs out (arp_mem s)" and n: "netif_at (net s) nif = Some n" "hwaddr_len n = 6"
  shows "\<exists>r s'. etharp_raw c nif es ed hs si dh di opcode s = Some (r, s') \<and> same_table s s' \<and>
    netifs (net s') = netifs (net s) \<and> arp_mem_ok c descs out (arp_mem s') \<and>
    (\<forall>x. kept c out x \<longrightarrow> pbufs (arp_mem s') x = pbufs (arp_mem s) x) \<and>
    (if no_arp_buffer c s then r = ERR_MEM \<and> s' = s else r = ERR_OK \<and>
       sent (net s') = sent (net s) @ [(nif, eth_header ed es ETHTYPE_ARP @ arp_packet opcode hs si dh di)])"
proof -
  let ?pc = "pcfg (ncfg c)"
  let ?L = "PBUF_LINK ?pc"
  note m = arp_mem_okD [OF mok]
  have nif: "nif \<noteq> 0" using n(1) by (auto simp: netif_at_def split: if_splits)
  have al: "pbuf_alloc ?pc ?L 28 PBUF_RAM (arp_mem s) = pbuf_alloc_ram ?pc ?L 28 PBUF_RAM (arp_mem s)"
    using m(4) by (simp add: alloc_link_ram)
  have "(28::nat) < 65536" by simp
  from m(1,2) this m(4,5) show ?thesis
  proof (cases rule: alloc_ram_result)
    case (null s0)
    have "put_mem (arp_mem s) s = s" by (simp add: put_mem_def)
    then have "etharp_raw c nif es ed hs si dh di opcode s = Some (ERR_MEM, s)"
      using null nif by (simp add: etharp_raw_def SIZEOF_ETHARP_HDR_def al)
    moreover have "no_arp_buffer c s" using null(1) al by (simp add: no_arp_buffer_def SIZEOF_ETHARP_HDR_def)
    ultimately show ?thesis using mok by auto
  next
    case (ram p h' k)
    let ?pb = "ram_pbuf ?pc p ?L 28"
    let ?m = "put_pbuf p ?pb ((arp_mem s)\<lparr>heap := h'\<rparr>)"
    let ?bm = "mem_upd (bytes (arp_mem s)) (payload ?pb) (arp_packet opcode hs si dh di)"
    let ?fr = "eth_header ed es ETHTYPE_ARP @ arp_packet opcode hs si dh di"
    let ?ns = "(net s)\<lparr>stack_mem := ?m\<lparr>bytes := ?bm\<rparr>\<rparr>"
    have pay: "p + SIZEOF_STRUCT_PBUF ?pc + 14 \<le> payload ?pb" "payload ?pb + 28 \<le> p + k"
      using align_size_le [OF m(1,4)] m(3) ram(4,5) by (simp_all add: ram_pbuf_def)
    have "range_mapped (bytes (arp_mem s)) (payload ?pb - 14) (14 + 28)"
      using heap_range_mapped [OF m(6) ram(8), of "payload ?pb - 14" 42] pay by simp
    then have rm: "range_mapped (bytes (arp_mem s)) (payload ?pb - 14) 14" "range_mapped (bytes (arp_mem s)) (payload ?pb) 28"
      using pay(1) unfolding range_mapped_add by simp_all
    have out: "ethernet_output (ncfg c) nif p es ed ETHTYPE_ARP ?ns = Some (linkoutput (ncfg c) nif ?fr,
        ?ns\<lparr>stack_mem := (put_pbuf p (grow 14 ?pb) (stack_mem ?ns))
           \<lparr>bytes := mem_upd (bytes (stack_mem ?ns)) (payload ?pb - 14) (eth_header ed es ETHTYPE_ARP)\<rparr>, sent := sent ?ns @ [(nif, ?fr)]\<rparr>)"
    proof (rule ethernet_output_spec [where xs = "[]" and n = n])
      show "packet (pbufs (stack_mem ?ns)) p [p]" using ram(1) by (simp add: packet_def ram_pbuf_def)
      show "header_fits (pcfg (ncfg c)) p ?pb 14 False" using pay(1)
        by (simp add: header_fits_def ram_pbuf_def PBUF_TYPE_FLAG_STRUCT_DATA_CONTIGUOUS_def)
      show "?fr = eth_header ed es ETHTYPE_ARP @ pdata (pbufs (stack_mem ?ns)) (bytes (stack_mem ?ns)) [p]"
        using bytes_at_mem_upd_same [of "bytes (arp_mem s)" "payload ?pb" "arp_packet opcode hs si dh di"]
        by (simp add: ram_pbuf_def)
    qed (use ram pay rm n nif in \<open>simp_all add: netif_at_def ram_pbuf_def\<close>)
    define m2 where "m2 = (put_pbuf p (grow 14 ?pb) (stack_mem ?ns))
       \<lparr>bytes := mem_upd (bytes (stack_mem ?ns)) (payload ?pb - 14) (eth_header ed es ETHTYPE_ARP)\<rparr>"
    have "mem_ok ?pc descs m2 (insert (0, p, k) out)" using ram(8) by (simp add: m2_def mem_ok_def mem_rep_def)
    then have "\<exists>m3. pbuf_free ?pc p m2 = Some (u8_of 1, m3) \<and> mem_ok ?pc descs m3 out \<and> bytes m3 = bytes m2 \<and>
        (\<forall>x. x \<noteq> p \<longrightarrow> pbufs m3 x = pbufs m2 x)"
      using ram(1,7) by (intro free_heap_pbuf [where pb = "grow 14 ?pb"])
        (simp_all add: m2_def grow_def ram_pbuf_def std_pbuf_def pbuf_get_allocsrc_def PBUF_TYPE_ALLOC_SRC_MASK_def)
    then obtain m3 where m3: "pbuf_free ?pc p m2 = Some (u8_of 1, m3)" "mem_ok ?pc descs m3 out" "bytes m3 = bytes m2"
      "\<And>x. x \<noteq> p \<Longrightarrow> pbufs m3 x = pbufs m2 x" by blast
    have "\<not> off_heap c p" using heap_area_bounds [OF ram(8), of p k] pay by (auto simp: off_heap_def Let_def)
    moreover have "(0, p, j) \<notin> out" for j using heap_area_unique [OF ram(8), of p k j] ram(7) by auto
    ultimately have "\<not> kept c out p" by (simp add: kept_def)
    then have fr: "pbufs m3 x = pbufs (arp_mem s) x" if "kept c out x" for x using that m3(4) [of x] by (auto simp: m2_def)
    have len: "pb_len ?pb = 28" "hwaddr_len n = ETH_HWADDR_LEN" using n(2) by (simp_all add: ram_pbuf_def ETH_HWADDR_LEN_def)
    let ?ns' = "?ns\<lparr>stack_mem := m2, sent := sent ?ns @ [(nif, ?fr)]\<rparr>"
    let ?s' = "(put_mem ?m s)\<lparr>net := ?ns'\<lparr>stack_mem := m3\<rparr>\<rparr>"
    have "etharp_raw c nif es ed hs si dh di opcode s = Some (ERR_OK, ?s')"
      using ram(1,2) nif n(1) out m3(1) unfolding m2_def [symmetric]
      by (simp add: etharp_raw_def Let_def al arp_packet_stored [OF rm(2)] put_mem_again len SIZEOF_ETHARP_HDR_def
          del: store_bytes.simps add_2_eq_Suc add_2_eq_Suc')
    moreover have "arp_mem_ok c descs out (arp_mem ?s')"
      using mok m3(2,3) rm by (simp add: arp_mem_ok_def Let_def m2_def)
    moreover have "\<not> no_arp_buffer c s" using ram(1,2) al by (simp add: no_arp_buffer_def SIZEOF_ETHARP_HDR_def)
    ultimately show ?thesis by (intro exI [of _ ERR_OK] exI [of _ ?s']) (simp add: same_table_def put_mem_def fr)
  qed
qed


section \<open>Reading an ARP packet\<close>

lemma ip4_of_bytes [simp]: "ip4_of (ip4_bytes a) = Some a"
proof -
  have "load_u32 (ip4_addr_get_byte_val a 0) (ip4_addr_get_byte_val a 1) (ip4_addr_get_byte_val a 2) (ip4_addr_get_byte_val a 3) = a"
    (is "?l = a")
  proof (rule bit_word_eqI)
    fix n assume n: "n < LENGTH(32)"
    consider "n < 8" | "8 \<le> n" "n < 16" | "16 \<le> n" "n < 24" | "24 \<le> n" by linarith
    then show "bit ?l n = bit a n" using n
      unfolding load_u32_def ip4_addr_get_byte_val_def u32_low_masks by cases (simp_all only: bit_ops, auto)
  qed
  then show ?thesis by (simp add: ip4_bytes_def upt_rec numeral_eq_Suc)
qed

lemma load_packet_field:
  assumes pb: "pbufs (arp_mem s) p = Some pb" and r: "range_mapped (bytes (arp_mem s)) (payload pb) 28"
    and b: "bytes_at (bytes (arp_mem s)) (payload pb) 28 = bs" and k: "k + n \<le> 28"
  shows "load_field k n p s = Some (take n (drop k bs))"
proof -
  have "range_mapped (bytes (arp_mem s)) (payload pb + k) n" by (rule range_mapped_mono [OF r k])
  then have "load_field k n p s = Some (bytes_at (bytes (arp_mem s)) (payload pb + k) n)"
    using pb by (simp add: load_field_def mem_simps)
  moreover have "bytes_at (bytes (arp_mem s)) (payload pb + k) n = take n (drop k bs)"
  proof -
    have "min n (28 - k) = n" using k by arith
    then show ?thesis unfolding b [symmetric] by simp
  qed
  ultimately show ?thesis by simp
qed

lemma arp_packet_fields:
  fixes opcode hs si dh di
  defines "bs \<equiv> arp_packet opcode hs si dh di"
  shows "take 2 bs = u16_bytes (lwip_htons LWIP_IANA_HWTYPE_ETHERNET)" "take 2 (drop 2 bs) = u16_bytes (lwip_htons ETHTYPE_IP)"
    "take (Suc 0) (drop 4 bs) = [of_nat ETH_HWADDR_LEN]" "take (Suc 0) (drop 5 bs) = [4]" "take 6 (drop 8 bs) = eth_bytes hs"
    "take 4 (drop 14 bs) = ip4_bytes si" "take 4 (drop 24 bs) = ip4_bytes di"
  unfolding bs_def arp_packet_def by (simp_all add: take_Cons' drop_Cons')

text \<open>
  The addresses that ARP learns: those of a single host, for which there is no static entry.  With an entry that
  is not static there is always a place.
\<close>

definition unicast :: "netif \<Rightarrow> ip4_addr \<Rightarrow> bool" where
  "unicast n a \<longleftrightarrow> \<not> ip4_addr_isany_val a \<and> \<not> ip4_addr_isbroadcast_u32 a n \<and> \<not> ip4_addr_ismulticast a"

definition can_learn :: "addr \<Rightarrow> ip4_addr \<Rightarrow> arp_state \<Rightarrow> bool" where
  "can_learn nif a s \<longleftrightarrow> (\<exists>e\<in>set (arp_table s). arp_st e \<noteq> ETHARP_STATE_STATIC) \<and>
     (\<forall>e\<in>set (arp_table s). arp_st e = ETHARP_STATE_STATIC \<longrightarrow> \<not> used_match (Some a) nif e)"

lemma find_try_hard:
  assumes ok: "table_ok c s" and st: "can_learn nif a s"
    and f: "etharp_find_entry c (Some a) ETHARP_FLAG_TRY_HARD nif s = Some (r, s')"
  shows "\<exists>i. r = Inr i"
proof (cases "\<exists>e\<in>set (arp_table s). used_match (Some a) nif e")
  case True
  then show ?thesis using find_entry_match [OF ok] f by (metis option.inject prod.inject)
next
  case False
  then have nm: "\<forall>e\<in>set (arp_table s). \<not> used_match (Some a) nif e" by simp
  have fl: "ETHARP_FLAG_TRY_HARD AND ETHARP_FLAG_FIND_ONLY = 0" "ETHARP_FLAG_TRY_HARD AND ETHARP_FLAG_TRY_HARD \<noteq> 0"
    by (simp_all add: ETHARP_FLAG_TRY_HARD_def ETHARP_FLAG_FIND_ONLY_def)
  show ?thesis
  proof (cases "\<exists>e\<in>set (arp_table s). arp_st e = ETHARP_STATE_EMPTY")
    case True
    then show ?thesis using find_entry_empty [OF ok nm fl(1) True] f by auto
  next
    case no: False
    obtain e where e: "e \<in> set (arp_table s)" "arp_st e \<noteq> ETHARP_STATE_STATIC" using st by (auto simp: can_learn_def)
    then have "dynamic_stable e \<or> idle_pending e \<or> queued_pending e" using no
      by (cases "arp_st e") (auto simp: kind_defs)
    then have "(\<exists>e\<in>set (arp_table s). dynamic_stable e) \<or> (\<exists>e\<in>set (arp_table s). idle_pending e) \<or> (\<exists>e\<in>set (arp_table s). queued_pending e)"
      using e by blast
    then show ?thesis using find_entry_recycle [OF ok nm fl no] f
      by (auto split: if_splits Option.bind_splits prod.splits)
  qed
qed

lemma found_dynamic:
  assumes ok: "table_ok c s" and nif: "nif \<noteq> 0" and st: "can_learn nif a s"
    and f: "etharp_find_entry c (Some a) flags nif s = Some (Inr i, s1)"
  shows "arp_st (arp_table s1 ! i) \<noteq> ETHARP_STATE_STATIC"
proof
  assume S: "arp_st (arp_table s1 ! i) = ETHARP_STATE_STATIC"
  have fd: "found c a nif i s1" using find_entry_found [OF ok nif f] by simp
  have i: "i < length (arp_table s)" using fd table_okD(2) [OF ok] by (simp add: found_def)
  then have "s1 = s" using find_entry_static [OF ok nif f] S by auto
  then have "used_match (Some a) nif (arp_table s ! i)" using S fd by (simp add: found_def used_match_def arp_match_def)
  then show False using st S i \<open>s1 = s\<close> by (auto simp: can_learn_def)
qed

lemma update_learns:
  assumes ok: "table_ok c s" and n: "netif_at (net s) nif = Some n"
    and a: "unicast n a" and st: "can_learn nif a s"
    and u: "etharp_update_arp_entry c nif a eth ETHARP_FLAG_TRY_HARD s = Some (r, s')"
  shows "\<exists>i. etharp_find_addr c nif a s' = Some (Some (i, eth, a), s')"
proof -
  have nif: "nif \<noteq> 0" using n by (auto simp: netif_at_def split: if_splits)
  have fl: "ETHARP_FLAG_TRY_HARD AND ETHARP_FLAG_STATIC_ENTRY = 0"
    by (simp add: ETHARP_FLAG_TRY_HARD_def ETHARP_FLAG_STATIC_ENTRY_def)
  have a: "\<not> ip4_addr_isany_val a" "\<not> ip4_addr_isbroadcast_u32 a n" "\<not> ip4_addr_ismulticast a" using a by (auto simp: unicast_def)
  obtain fr s1 where f: "etharp_find_entry c (Some a) ETHARP_FLAG_TRY_HARD nif s = Some (fr, s1)"
    using u n a by (auto simp: etharp_update_arp_entry_def lwip_assert_def split: Option.bind_splits if_splits)
  obtain i where i: "fr = Inr i" using find_try_hard [OF ok st f] by blast
  have s1: "table_ok c s1" "found c a nif i s1" using find_entry_found [OF ok nif f] i by auto
  then have e: "arp_entry i s1 = Some (arp_table s1 ! i)" using table_okD(2) by (simp add: found_def)
  have "arp_st (arp_table s1 ! i) \<noteq> ETHARP_STATE_STATIC" by (rule found_dynamic [OF ok nif st f [unfolded i]])
  then have "record_address c nif i eth ETHARP_STATE_STABLE s1 = Some (r, s')"
    using u n a f i e fl by (auto simp: etharp_update_arp_entry_def lwip_assert_def split: if_splits)
  then show ?thesis using find_addr_recorded [OF ok s1(2,1) nif _ a(1,3)] by blast
qed

lemma find_addr_same:
  assumes "same_table s s'" "etharp_find_addr c nif a s = Some (Some r, s)" "table_ok c s"
  shows "etharp_find_addr c nif a s' = Some (Some r, s')"
proof -
  have "etharp_find_entry c (Some a) ETHARP_FLAG_FIND_ONLY nif s' =
      map_option (\<lambda>(r, _). (r, s')) (etharp_find_entry c (Some a) ETHARP_FLAG_FIND_ONLY nif s)"
    using assms(1) by (simp add: etharp_find_entry_def same_table_def ETHARP_FLAG_FIND_ONLY_def split: sum.splits)
  then show ?thesis using assms(1,2)
    by (auto simp: etharp_find_addr_def same_table_def arp_entry_def split: Option.bind_splits sum.splits if_splits)
qed

lemma input_learns_spec:
  assumes ok: "table_ok c s" and n: "netif_at (net s) nif = Some n" "ip_addr n = di" "\<not> ip4_addr_isany_val di"
    and si: "unicast n si" and st: "can_learn nif si s"
    and pb: "pbufs (arp_mem s) p = Some pb" "range_mapped (bytes (arp_mem s)) (payload pb) 28"
      "bytes_at (bytes (arp_mem s)) (payload pb) 28 = arp_packet opcode hs si dh di"
    and inp: "etharp_input c p nif s = Some s'"
  shows "\<exists>i. etharp_find_addr c nif si s' = Some (Some (i, hs, si), s')"
proof -
  note f = load_packet_field [OF pb]
  have nif: "nif \<noteq> 0" using n by (auto simp: netif_at_def split: if_splits)
  have "arp_hdr_ok p s = Some True"
    using f [of 0 2] f [of 2 2] f [of 4 1] f [of 5 1] by (simp add: arp_hdr_ok_def arp_packet_fields)
  then obtain s1 m where s1: "arp_message c p nif s = Some s1" "s' = put_mem m s1"
    using inp nif by (auto simp: etharp_input_def split: Option.bind_splits prod.splits)
  obtain r s0 where u: "etharp_update_arp_entry c nif si hs ETHARP_FLAG_TRY_HARD s = Some (r, s0)" "arp_reply c p nif si True s0 = Some s1"
    using s1(1) n f [of 14 4] f [of 24 4] f [of 8 6]
    by (auto simp: arp_message_def arp_packet_fields Let_def split: Option.bind_splits prod.splits)
  obtain i where "etharp_find_addr c nif si s0 = Some (Some (i, hs, si), s0)"
    using update_learns [OF ok n(1) si st u(1)] by blast
  moreover have "same_table s0 s'" using arp_reply_table [OF u(2)] s1(2) by (simp add: same_table_def)
  ultimately show ?thesis using find_addr_same update_arp_entry_ok [OF ok u(1)] by blast
qed

text \<open>A message from an address that is not that of a single host leaves the table alone.\<close>

lemma input_ignores_spec:
  assumes n: "netif_at (net s) nif = Some n" "hwaddr_len n = 6" "ip_addr n = di" "\<not> ip4_addr_isany_val di"
    and si: "\<not> unicast n si"
    and pb: "pbufs (arp_mem s) p = Some pb" "range_mapped (bytes (arp_mem s)) (payload pb) 28"
      "bytes_at (bytes (arp_mem s)) (payload pb) 28 = arp_packet opcode hs si dh di"
    and inp: "etharp_input c p nif s = Some s'"
  shows "same_table s s'"
proof -
  note f = load_packet_field [OF pb]
  have nif: "nif \<noteq> 0" using n by (auto simp: netif_at_def split: if_splits)
  have "arp_hdr_ok p s = Some True"
    using f [of 0 2] f [of 2 2] f [of 4 1] f [of 5 1] by (simp add: arp_hdr_ok_def arp_packet_fields)
  then obtain s1 m where s1: "arp_message c p nif s = Some s1" "s' = put_mem m s1"
    using inp nif by (auto simp: etharp_input_def split: Option.bind_splits prod.splits)
  have "etharp_update_arp_entry c nif si hs ETHARP_FLAG_TRY_HARD s = Some (ERR_ARG, s)"
    using n(1,2) si by (auto simp: etharp_update_arp_entry_def unicast_def ETH_HWADDR_LEN_def)
  then have "arp_reply c p nif si True s = Some s1"
    using s1(1) n f [of 14 4] f [of 24 4] f [of 8 6] by (auto simp: arp_message_def arp_packet_fields Let_def)
  then show ?thesis using arp_reply_table s1(2) by (fastforce simp: same_table_def)
qed

section \<open>Ageing\<close>

text \<open>\<open>n\<close> ticks of the timer in a row.\<close>

primrec ticks :: "arp_cfg \<Rightarrow> nat \<Rightarrow> arp_state \<Rightarrow> arp_state option" where
  "ticks c 0 s = Some s"
| "ticks c (Suc n) s = do { s \<leftarrow> etharp_tmr c s; ticks c n s }"

lemma ticks_tick:
  assumes "table_ok c s" "ticks c n s = Some s'"
  shows "arp_table s' = map ((tick c) ^^ n) (arp_table s)"
  using assms
proof (induction n arbitrary: s)
  case (Suc n)
  then obtain s1 where s1: "etharp_tmr c s = Some s1" "ticks c n s1 = Some s'" by (auto split: Option.bind_splits)
  have "arp_table s' = map ((tick c) ^^ n) (arp_table s1)" using Suc.IH tmr_ok [OF Suc.prems(1) s1(1)] s1(2) by blast
  then show ?case using tmr_tick [OF Suc.prems(1) s1(1)] by (simp add: funpow_swap1)
qed simp

lemma tick_iter:
  assumes "entry_ok c e" "ARP_MAXAGE c < 65536" "arp_st e \<noteq> ETHARP_STATE_STATIC"
  shows "arp_st (((tick c) ^^ n) e) = ETHARP_STATE_EMPTY \<or>
    entry_ok c (((tick c) ^^ n) e) \<and> arp_st (((tick c) ^^ n) e) \<noteq> ETHARP_STATE_STATIC \<and> n \<le> ctime (((tick c) ^^ n) e)"
proof (induction n)
  case 0
  then show ?case using assms by simp
next
  case (Suc n)
  let ?e = "((tick c) ^^ n) e"
  show ?case
  proof (cases "arp_st ?e = ETHARP_STATE_EMPTY")
    case True
    then show ?thesis by (simp add: tick_keeps(4))
  next
    case False
    then have e: "entry_ok c ?e" "arp_st ?e \<noteq> ETHARP_STATE_STATIC" "n \<le> ctime ?e" using Suc by auto
    then have "u16_of (Suc (ctime ?e)) = Suc (ctime ?e)" using False assms(2) by (intro u16_of_id) (auto simp: entry_ok_def)
    then have "arp_st (tick c ?e) = ETHARP_STATE_EMPTY \<or> arp_st (tick c ?e) \<noteq> ETHARP_STATE_STATIC \<and> Suc n \<le> ctime (tick c ?e)"
      using e False by (auto simp: tick_def Let_def)
    then show ?thesis using entry_ok_tick [OF e(1)] by auto
  qed
qed

lemma tick_expired:
  assumes "entry_ok c e" "ARP_MAXAGE c < 65536" "arp_st e \<noteq> ETHARP_STATE_STATIC"
  shows "arp_st (((tick c) ^^ ARP_MAXAGE c) e) = ETHARP_STATE_EMPTY"
  using tick_iter [OF assms, of "ARP_MAXAGE c"] by (auto simp: entry_ok_def)

lemma tick_static: "arp_st e = ETHARP_STATE_STATIC \<Longrightarrow> ((tick c) ^^ n) e = e"
  by (induction n) (simp_all add: tick_keeps(5))

lemma chain_same:
  assumes "chain m p xs" "\<forall>x\<in>set xs. m' x = m x"
  shows "chain m' p xs"
  using assms by (induction xs arbitrary: p) auto

text \<open>
  The packet \<open>xs\<close> that waits behind \<open>q\<close>, 0 for none: a chain that the stack owns.  \<open>Q\<close> gives the pbufs of all waiting
  packets; no pbuf is in two of them.
\<close>

definition queued :: "arp_cfg \<Rightarrow> areas \<Rightarrow> (addr \<Rightarrow> nat) \<Rightarrow> (addr \<rightharpoonup> pbuf) \<Rightarrow> addr \<Rightarrow> addr list \<Rightarrow> bool" where
  "queued c out sz m q xs \<longleftrightarrow>
     (if q = 0 then xs = [] else xs \<noteq> [] \<and> chain m q xs \<and> owned m sz out xs \<and> (\<forall>x\<in>set xs. kept c out x))"

definition queues_ok :: "arp_cfg \<Rightarrow> areas \<Rightarrow> (addr \<Rightarrow> nat) \<Rightarrow> (nat \<Rightarrow> addr list) \<Rightarrow> arp_state \<Rightarrow> bool" where
  "queues_ok c out sz Q s \<longleftrightarrow>
     (\<forall>i<length (arp_table s). queued c out sz (pbufs (arp_mem s)) (arp_q (arp_table s ! i)) (Q i)) \<and>
     (\<forall>i<length (arp_table s). \<forall>j<length (arp_table s). i \<noteq> j \<longrightarrow> set (Q i) \<inter> set (Q j) = {})"

text \<open>The interfaces of pending entries are there, so that requests can be sent on them.\<close>

definition netif_ready :: "net_state \<Rightarrow> addr \<Rightarrow> bool" where
  "netif_ready ns nif \<longleftrightarrow>
     (case netif_at ns nif of None \<Rightarrow> False | Some n \<Rightarrow> hwaddr_len n = 6 \<and> eth_of (hwaddr n) \<noteq> None)"

definition pending_ready :: "arp_state \<Rightarrow> bool" where
  "pending_ready s \<longleftrightarrow> (\<forall>e\<in>set (arp_table s). arp_st e = ETHARP_STATE_PENDING \<longrightarrow> netif_ready (net s) (arp_netif e))"

text \<open>The memory of the packets of some entries.\<close>

definition queue_areas :: "(addr \<rightharpoonup> pbuf) \<Rightarrow> (addr \<Rightarrow> nat) \<Rightarrow> (nat \<Rightarrow> addr list) \<Rightarrow> nat set \<Rightarrow> areas" where
  "queue_areas m sz Q I = (\<Union>i\<in>I. area m sz ` set (unshared m (Q i)))"

lemma queue_areas_insert: "queue_areas m sz Q (insert i I) = area m sz ` set (unshared m (Q i)) \<union> queue_areas m sz Q I"
  by (simp add: queue_areas_def)

lemma queue_areas_other:
  assumes "\<And>i. i \<in> I \<Longrightarrow> x \<notin> set (Q i)"
  shows "(k, x, n) \<notin> queue_areas m sz Q I"
  using assms set_unshared [of m] by (fastforce simp: queue_areas_def area_def)

lemma free_entry_queue:
  assumes mok: "arp_mem_ok c descs out (arp_mem s)" and i: "i < length (arp_table s)"
    and q: "queued c out sz (pbufs (arp_mem s)) (arp_q (arp_table s ! i)) xs"
  shows "\<exists>s'. etharp_free_entry c i s = Some s' \<and> netifs (net s') = netifs (net s) \<and> sent (net s') = sent (net s) \<and>
    bytes (arp_mem s') = bytes (arp_mem s) \<and>
    arp_mem_ok c descs (out - area (pbufs (arp_mem s)) sz ` set (unshared (pbufs (arp_mem s)) xs)) (arp_mem s') \<and>
    (\<forall>x. x \<notin> set xs \<longrightarrow> pbufs (arp_mem s') x = pbufs (arp_mem s) x)"
proof (cases "arp_q (arp_table s ! i) = 0")
  case True
  then show ?thesis using q i mok by (auto simp: etharp_free_entry_def queued_def)
next
  case False
  let ?pc = "pcfg (ncfg c)"
  have xs: "xs \<noteq> []" "chain (pbufs (arp_mem s)) (arp_q (arp_table s ! i)) xs" "owned (pbufs (arp_mem s)) sz out xs"
    using q False by (auto simp: queued_def)
  obtain k m where f: "pbuf_free ?pc (arp_q (arp_table s ! i)) (arp_mem s) = Some (k, m)" "pbufs m = after_free (pbufs (arp_mem s)) xs"
    "bytes m = bytes (arp_mem s)" "mem_ok ?pc descs m (out - area (pbufs (arp_mem s)) sz ` set (unshared (pbufs (arp_mem s)) xs))"
    using pbuf_free_spec [OF arp_mem_okD(2) [OF mok] xs(2,1,3)] by blast
  have "arp_mem_ok c descs (out - area (pbufs (arp_mem s)) sz ` set (unshared (pbufs (arp_mem s)) xs)) m"
    using mok f(3,4) by (simp add: arp_mem_ok_def Let_def)
  moreover have "pbufs m x = pbufs (arp_mem s) x" if "x \<notin> set xs" for x using that by (simp add: f(2) after_free_other)
  ultimately show ?thesis using f(1,3) False i by (simp add: etharp_free_entry_def)
qed

lemma request_returns:
  assumes mok: "arp_mem_ok c descs out (arp_mem s)" and n: "netif_ready (net s) nif"
  shows "\<exists>r s'. etharp_request c nif a s = Some (r, s') \<and> netifs (net s') = netifs (net s) \<and> arp_mem_ok c descs out (arp_mem s') \<and>
    (\<forall>x. kept c out x \<longrightarrow> pbufs (arp_mem s') x = pbufs (arp_mem s) x)"
proof -
  obtain n hw where n: "netif_at (net s) nif = Some n" "hwaddr_len n = 6" "eth_of (hwaddr n) = Some hw"
    using n by (auto simp: netif_ready_def split: option.splits)
  then show ?thesis using etharp_raw_spec [OF mok n(1,2), of hw ethbroadcast hw "ip_addr n" ethzero a ARP_REQUEST]
    by (auto simp: etharp_request_def etharp_request_dst_def netif_eth_def)
qed

text \<open>One tick of one entry: the packet of an entry that expires is freed, and nothing else is.\<close>

lemma tmr_entry_returns:
  assumes mok: "arp_mem_ok c descs out (arp_mem s)" and i: "i < length (arp_table s)" and e: "entry_ok c (arp_table s ! i)"
    and q: "queued c out sz (pbufs (arp_mem s)) (arp_q (arp_table s ! i)) xs"
    and n: "arp_st (arp_table s ! i) = ETHARP_STATE_PENDING \<longrightarrow> netif_ready (net s) (arp_netif (arp_table s ! i))"
  shows "\<exists>s' o'. tmr_entry c i s = Some s' \<and> netifs (net s') = netifs (net s) \<and> arp_mem_ok c descs o' (arp_mem s') \<and>
    o' = (if arp_q (tick c (arp_table s ! i)) = 0
          then out - area (pbufs (arp_mem s)) sz ` set (unshared (pbufs (arp_mem s)) xs) else out) \<and>
    (\<forall>x. kept c out x \<and> x \<notin> set xs \<longrightarrow> pbufs (arp_mem s') x = pbufs (arp_mem s) x) \<and>
    (arp_q (tick c (arp_table s ! i)) \<noteq> 0 \<longrightarrow> (\<forall>x\<in>set xs. pbufs (arp_mem s') x = pbufs (arp_mem s) x))"
proof -
  let ?e = "arp_table s ! i"
  let ?e' = "?e\<lparr>ctime := u16_of (ctime ?e + 1)\<rparr>"
  let ?s = "put_entry i ?e' s"
  have ei: "arp_entry i s = Some ?e" using i by simp
  have keep: "\<forall>x\<in>set xs. kept c out x" using q by (auto simp: queued_def split: if_splits)
  consider (idle) "arp_st ?e = ETHARP_STATE_EMPTY \<or> arp_st ?e = ETHARP_STATE_STATIC"
    | (old) "arp_st ?e \<noteq> ETHARP_STATE_EMPTY" "arp_st ?e \<noteq> ETHARP_STATE_STATIC"
        "ctime ?e' \<ge> ARP_MAXAGE c \<or> arp_st ?e = ETHARP_STATE_PENDING \<and> ctime ?e' \<ge> ARP_MAXPENDING"
    | (pending) "arp_st ?e = ETHARP_STATE_PENDING" "\<not> (ctime ?e' \<ge> ARP_MAXAGE c \<or> ctime ?e' \<ge> ARP_MAXPENDING)"
    | (stable) "arp_st ?e \<noteq> ETHARP_STATE_EMPTY" "arp_st ?e \<noteq> ETHARP_STATE_STATIC" "arp_st ?e \<noteq> ETHARP_STATE_PENDING"
        "\<not> ctime ?e' \<ge> ARP_MAXAGE c" by blast
  then show ?thesis
  proof cases
    case old
    then have t: "tmr_entry c i s = etharp_free_entry c i ?s" "arp_q (tick c ?e) = 0"
      using ei by (auto simp: tmr_entry_def tick_def Let_def)
    have "queued c out sz (pbufs (arp_mem ?s)) (arp_q (arp_table ?s ! i)) xs" using q i by simp
    then show ?thesis using free_entry_queue [of c descs out ?s i sz xs] mok i t by (auto simp: put_entry_def)
  next
    case pending
    then have t: "tmr_entry c i s = do { (_, s) \<leftarrow> etharp_request c (arp_netif ?e) (arp_ip ?e) ?s; Some s }" "tick c ?e = ?e'"
      using ei by (auto simp: tmr_entry_def tick_def Let_def)
    obtain r s' where s': "etharp_request c (arp_netif ?e) (arp_ip ?e) ?s = Some (r, s')" "netifs (net s') = netifs (net s)"
      "arp_mem_ok c descs out (arp_mem s')" "\<And>x. kept c out x \<Longrightarrow> pbufs (arp_mem s') x = pbufs (arp_mem s) x"
      using request_returns [of c descs out ?s "arp_netif ?e" "arp_ip ?e"] mok n pending(1) by auto
    moreover have "xs = []" if "arp_q ?e = 0" using q that by (simp add: queued_def)
    ultimately show ?thesis using t keep by auto
  next
    case idle
    then show ?thesis using ei mok q e by (auto simp: tmr_entry_def tick_def entry_ok_def queued_def)
  next
    case stable
    then have "arp_q ?e = 0" "xs = []" using e q by (auto simp: entry_ok_def queued_def)
    moreover have "\<exists>e''. tmr_entry c i s = Some (put_entry i e'' s)" "arp_q (tick c ?e) = 0"
      using stable ei \<open>arp_q ?e = 0\<close> by (auto simp: tmr_entry_def tick_def Let_def)
    ultimately show ?thesis using mok by auto
  qed
qed

text \<open>What holds of the waiting packets between two ticks, relative to the state \<open>s0\<close> at the start.\<close>

definition gone :: "arp_state \<Rightarrow> nat set" where
  "gone s = {i. i < length (arp_table s) \<and> arp_q (arp_table s ! i) = 0}"

definition queue_inv ::
  "arp_cfg \<Rightarrow> (memp_t \<Rightarrow> memp_desc) \<Rightarrow> areas \<Rightarrow> (addr \<Rightarrow> nat) \<Rightarrow> (nat \<Rightarrow> addr list) \<Rightarrow> arp_state \<Rightarrow> arp_state \<Rightarrow> bool" where
  "queue_inv c descs out sz Q s0 s \<longleftrightarrow>
     length (arp_table s) = length (arp_table s0) \<and> netifs (net s) = netifs (net s0) \<and>
     arp_mem_ok c descs (out - queue_areas (pbufs (arp_mem s0)) sz Q (gone s)) (arp_mem s) \<and>
     (\<forall>i<length (arp_table s). arp_q (arp_table s ! i) \<noteq> 0 \<longrightarrow> arp_q (arp_table s ! i) = arp_q (arp_table s0 ! i) \<and>
        (\<forall>x\<in>set (Q i). pbufs (arp_mem s) x = pbufs (arp_mem s0) x))"

lemma queue_inv_start:
  assumes "queues_ok c out sz Q s" "arp_mem_ok c descs out (arp_mem s)"
  shows "queue_inv c descs out sz Q s s"
proof -
  have "Q i = []" if "i \<in> gone s" for i using assms(1) that by (auto simp: queues_ok_def queued_def gone_def)
  then have "queue_areas (pbufs (arp_mem s)) sz Q (gone s) = {}" by (auto simp: queue_areas_def)
  then show ?thesis using assms(2) by (simp add: queue_inv_def)
qed

lemma queued_rest:
  assumes q: "queues_ok c out sz Q s0" and v: "queue_inv c descs out sz Q s0 s" and i: "i < length (arp_table s)" "i \<notin> gone s"
  shows "queued c (out - queue_areas (pbufs (arp_mem s0)) sz Q (gone s)) sz (pbufs (arp_mem s)) (arp_q (arp_table s ! i)) (Q i)"
proof -
  let ?mb = "pbufs (arp_mem s0)"
  have l: "length (arp_table s) = length (arp_table s0)" and nz: "arp_q (arp_table s ! i) \<noteq> 0"
    and eq: "arp_q (arp_table s ! i) = arp_q (arp_table s0 ! i)" "\<forall>x\<in>set (Q i). pbufs (arp_mem s) x = ?mb x"
    using v i by (auto simp: queue_inv_def gone_def)
  have q0: "Q i \<noteq> []" "chain ?mb (arp_q (arp_table s ! i)) (Q i)" "owned ?mb sz out (Q i)" "\<forall>x\<in>set (Q i). kept c out x"
    using q i(1) l nz eq(1) by (auto simp: queues_ok_def queued_def)
  have "(k, x, n) \<notin> queue_areas ?mb sz Q (gone s)" if x: "x \<in> set (Q i)" for k x n
  proof (rule queue_areas_other)
    fix j assume "j \<in> gone s"
    then have "j < length (arp_table s0)" "j \<noteq> i" using i(2) l by (auto simp: gone_def)
    then show "x \<notin> set (Q j)" using q x i(1) l unfolding queues_ok_def by auto
  qed
  then have "owned (pbufs (arp_mem s)) sz (out - queue_areas ?mb sz Q (gone s)) (Q i)"
    "\<forall>x\<in>set (Q i). kept c (out - queue_areas ?mb sz Q (gone s)) x"
    using q0(3,4) eq(2) by (auto simp: owned_def kept_def)
  moreover have "chain (pbufs (arp_mem s)) (arp_q (arp_table s ! i)) (Q i)" using chain_same [OF q0(2) eq(2)] .
  ultimately show ?thesis using q0(1) nz by (simp add: queued_def)
qed

lemma tick_queue: "arp_q (tick c e) = 0 \<or> arp_q (tick c e) = arp_q e"
  by (simp add: tick_def Let_def)

lemma tmr_entry_inv:
  assumes q: "queues_ok c out sz Q s0" and v: "queue_inv c descs out sz Q s0 s" and i: "i < length (arp_table s)"
    and e: "entry_ok c (arp_table s ! i)"
    and n: "arp_st (arp_table s ! i) = ETHARP_STATE_PENDING \<longrightarrow> netif_ready (net s) (arp_netif (arp_table s ! i))"
  shows "\<exists>s'. tmr_entry c i s = Some s' \<and> queue_inv c descs out sz Q s0 s'"
proof -
  let ?mb = "pbufs (arp_mem s0)" and ?m = "pbufs (arp_mem s)" and ?e = "arp_table s ! i"
  let ?o = "out - queue_areas ?mb sz Q (gone s)"
  define xs where "xs = (if i \<in> gone s then [] else Q i)"
  have v': "length (arp_table s) = length (arp_table s0)" "netifs (net s) = netifs (net s0)" "arp_mem_ok c descs ?o (arp_mem s)"
    "\<And>j x. j < length (arp_table s) \<Longrightarrow> j \<notin> gone s \<Longrightarrow> x \<in> set (Q j) \<Longrightarrow> ?m x = ?mb x"
    "\<And>j. j < length (arp_table s) \<Longrightarrow> j \<notin> gone s \<Longrightarrow> arp_q (arp_table s ! j) = arp_q (arp_table s0 ! j)"
    using v by (auto simp: queue_inv_def gone_def)
  have qi: "queued c ?o sz ?m (arp_q ?e) xs"
  proof (cases "i \<in> gone s")
    case True
    then show ?thesis by (simp add: xs_def queued_def gone_def)
  next
    case False
    then show ?thesis using queued_rest [OF q v i] by (simp add: xs_def)
  qed
  obtain s' o' where s': "tmr_entry c i s = Some s'" "netifs (net s') = netifs (net s)" "arp_mem_ok c descs o' (arp_mem s')"
    "o' = (if arp_q (tick c ?e) = 0 then ?o - area ?m sz ` set (unshared ?m xs) else ?o)"
    "\<And>x. kept c ?o x \<Longrightarrow> x \<notin> set xs \<Longrightarrow> pbufs (arp_mem s') x = ?m x"
    "\<And>x. arp_q (tick c ?e) \<noteq> 0 \<Longrightarrow> x \<in> set xs \<Longrightarrow> pbufs (arp_mem s') x = ?m x"
    using tmr_entry_returns [OF v'(3) i e qi n] by auto
  have t: "arp_table s' = (arp_table s)[i := tick c ?e]" using tmr_entry_tick [OF i s'(1)] by (simp add: same_table_def)
  have g: "gone s' = (if arp_q (tick c ?e) = 0 then insert i (gone s) else gone s)"
    using i tick_queue [of c ?e] unfolding gone_def t by (auto simp: nth_list_update)
  have "area ?m sz ` set (unshared ?m xs) = area ?mb sz ` set (unshared ?mb xs)"
  proof -
    have eq: "\<And>x. x \<in> set xs \<Longrightarrow> ?m x = ?mb x" using v'(4) [OF i] by (auto simp: xs_def split: if_splits)
    have "unshared ?m xs = unshared ?mb xs" by (rule unshared_cong [OF eq])
    then show ?thesis using eq set_unshared [of ?mb xs] by (intro image_cong) (auto simp: area_def)
  qed
  then have "o' = out - queue_areas ?mb sz Q (gone s')"
    unfolding s'(4) g by (cases "i \<in> gone s") (auto simp: queue_areas_insert xs_def insert_absorb)
  moreover have "pbufs (arp_mem s') x = ?mb x" if j: "j < length (arp_table s)" "j \<notin> gone s'" "x \<in> set (Q j)" for j x
  proof -
    have jg: "j \<notin> gone s" using j(2) g by (auto split: if_splits)
    show ?thesis
    proof (cases "j = i")
      case True
      then show ?thesis using s'(6) [of x] jg j g v'(4) [OF j(1) jg j(3)] by (auto simp: xs_def split: if_splits)
    next
      case False
      have "x \<notin> set xs" using q False j(1,3) i v'(1) unfolding queues_ok_def xs_def by auto
      moreover have "kept c ?o x" using queued_rest [OF q v j(1) jg] j(3) by (auto simp: queued_def split: if_splits)
      ultimately show ?thesis using s'(5) v'(4) [OF j(1) jg j(3)] by simp
    qed
  qed
  moreover have "arp_q (arp_table s' ! j) = arp_q (arp_table s0 ! j)" if j: "j < length (arp_table s)" "j \<notin> gone s'" for j
  proof -
    have jg: "j \<notin> gone s" using j(2) g by (auto split: if_splits)
    have "arp_q (arp_table s' ! j) \<noteq> 0" using j t by (simp add: gone_def)
    then show ?thesis using v'(5) [OF j(1) jg] tick_queue [of c ?e] j(1) i unfolding t by (auto simp: nth_list_update)
  qed
  ultimately have "queue_inv c descs out sz Q s0 s'" using v'(1,2) s'(2,3) t by (auto simp: queue_inv_def gone_def)
  then show ?thesis using s'(1) by blast
qed

lemma tmr_loop_inv:
  assumes q: "queues_ok c out sz Q s0"
  shows "queue_inv c descs out sz Q s0 s \<Longrightarrow> \<forall>i\<in>set is. i < length (arp_table s) \<Longrightarrow> distinct is \<Longrightarrow>
    \<forall>i\<in>set is. entry_ok c (arp_table s ! i) \<Longrightarrow>
    \<forall>i\<in>set is. arp_st (arp_table s ! i) = ETHARP_STATE_PENDING \<longrightarrow> netif_ready (net s) (arp_netif (arp_table s ! i)) \<Longrightarrow>
    \<exists>s'. tmr_loop c is s = Some s' \<and> queue_inv c descs out sz Q s0 s'"
proof (induction "is" arbitrary: s)
  case (Cons i "is")
  obtain s1 where s1: "tmr_entry c i s = Some s1" "queue_inv c descs out sz Q s0 s1"
    using tmr_entry_inv [OF q Cons.prems(1), of i] Cons.prems(2,4,5) by auto
  have t: "arp_table s1 = (arp_table s)[i := tick c (arp_table s ! i)]"
    using tmr_entry_tick [OF _ s1(1)] Cons.prems(2) by (simp add: same_table_def)
  then have "arp_table s1 ! j = arp_table s ! j" if "j \<in> set is" for j
    using that Cons.prems(3) by (metis distinct.simps(2) nth_list_update_neq)
  moreover have "netif_ready (net s1) = netif_ready (net s)"
    using s1(2) Cons.prems(1) by (simp add: queue_inv_def netif_ready_def netif_at_def fun_eq_iff)
  ultimately have "\<exists>s'. tmr_loop c is s1 = Some s' \<and> queue_inv c descs out sz Q s0 s'"
    using Cons.prems t by (intro Cons.IH [OF s1(2)]) auto
  then show ?case using s1(1) by simp
qed simp

lemma ticks_inv:
  assumes q: "queues_ok c out sz Q s0"
  shows "table_ok c s \<Longrightarrow> queue_inv c descs out sz Q s0 s \<Longrightarrow> pending_ready s \<Longrightarrow>
    \<exists>s'. ticks c n s = Some s' \<and> queue_inv c descs out sz Q s0 s' \<and> table_ok c s'"
proof (induction n arbitrary: s)
  case (Suc n)
  have e: "\<forall>i<length (arp_table s). entry_ok c (arp_table s ! i)" using table_okD(2,4) [OF Suc.prems(1)] by simp
  then obtain s1 where s1: "etharp_tmr c s = Some s1" "queue_inv c descs out sz Q s0 s1"
    using tmr_loop_inv [OF q Suc.prems(2), of "[0..<ARP_TABLE_SIZE c]"] table_okD(2) [OF Suc.prems(1)] Suc.prems(3)
    unfolding etharp_tmr_def pending_ready_def by auto
  have t: "arp_table s1 = map (tick c) (arp_table s)" using tmr_tick [OF Suc.prems(1) s1(1)] by simp
  have "netif_ready (net s1) = netif_ready (net s)"
    using s1(2) Suc.prems(2) by (simp add: queue_inv_def netif_ready_def netif_at_def fun_eq_iff)
  moreover have "arp_st e = ETHARP_STATE_PENDING \<and> arp_netif (tick c e) = arp_netif e" if "arp_st (tick c e) = ETHARP_STATE_PENDING" for e
    using that by (auto simp: tick_def Let_def split: if_splits)
  ultimately have "pending_ready s1" using Suc.prems(3) unfolding pending_ready_def t by auto
  then show ?case using Suc.IH [OF tmr_ok [OF Suc.prems(1) s1(1)] s1(2)] s1(1) by auto
qed simp

lemma expires_spec:
  assumes ok: "table_ok c s" and mok: "arp_mem_ok c descs out (arp_mem s)" and q: "queues_ok c out sz Q s" and n: "pending_ready s"
  shows "\<exists>s'. ticks c (ARP_MAXAGE c) s = Some s' \<and> length (arp_table s') = length (arp_table s) \<and>
    (\<forall>i<length (arp_table s). if arp_st (arp_table s ! i) = ETHARP_STATE_STATIC then arp_table s' ! i = arp_table s ! i
       else arp_st (arp_table s' ! i) = ETHARP_STATE_EMPTY) \<and>
    mem_ok (pcfg (ncfg c)) descs (arp_mem s') (out - queue_areas (pbufs (arp_mem s)) sz Q {..<length (arp_table s)})"
proof -
  obtain s' where s': "ticks c (ARP_MAXAGE c) s = Some s'" "queue_inv c descs out sz Q s s'" "table_ok c s'"
    using ticks_inv [OF q ok queue_inv_start [OF q mok] n] by blast
  have a: "ARP_MAXAGE c < 65536" using table_okD(1) [OF ok] by (simp add: arp_cfg_ok_def)
  have eo: "entry_ok c (arp_table s ! i)" if "i < length (arp_table s)" for i using table_okD(2,4) [OF ok] that by simp
  have t: "\<forall>i<length (arp_table s). if arp_st (arp_table s ! i) = ETHARP_STATE_STATIC then arp_table s' ! i = arp_table s ! i
       else arp_st (arp_table s' ! i) = ETHARP_STATE_EMPTY" and l: "length (arp_table s') = length (arp_table s)"
    using ticks_tick [OF ok s'(1)] tick_static tick_expired [OF eo a] by simp_all
  have "arp_q (arp_table s' ! i) = 0" if "i < length (arp_table s)" for i
  proof -
    have "arp_st (arp_table s' ! i) \<noteq> ETHARP_STATE_PENDING" using t that by (cases "arp_st (arp_table s ! i) = ETHARP_STATE_STATIC") auto
    then show ?thesis using table_okD(2,4) [OF s'(3)] l that by (simp add: entry_ok_def)
  qed
  then have "gone s' = {..<length (arp_table s)}" using l by (auto simp: gone_def)
  then show ?thesis using s'(1,2) t l arp_mem_okD(2) unfolding queue_inv_def by auto
qed


section \<open>An ARP message is processed to the end\<close>

definition no_queue :: "arp_state \<Rightarrow> bool" where
  "no_queue s \<longleftrightarrow> (\<forall>e\<in>set (arp_table s). arp_q e = 0)"

lemma find_no_queue:
  assumes ok: "table_ok c s" and nq: "no_queue s"
  shows "\<exists>r s'. etharp_find_entry c (Some a) ETHARP_FLAG_TRY_HARD nif s = Some (r, s') \<and> net s' = net s \<and> no_queue s'"
proof (cases "\<exists>e\<in>set (arp_table s). used_match (Some a) nif e")
  case True
  then show ?thesis using find_entry_match [OF ok] nq by blast
next
  case False
  then have nm: "\<forall>e\<in>set (arp_table s). \<not> used_match (Some a) nif e" by simp
  have fl: "ETHARP_FLAG_TRY_HARD AND ETHARP_FLAG_FIND_ONLY = 0" "ETHARP_FLAG_TRY_HARD AND ETHARP_FLAG_TRY_HARD \<noteq> 0"
    by (simp_all add: ETHARP_FLAG_TRY_HARD_def ETHARP_FLAG_FIND_ONLY_def)
  let ?put = "\<lambda>k. put_entry k (reset_entry a nif (arp_table s ! k)) s"
  have nq': "no_queue (?put k)" if "k < length (arp_table s)" for k
    using nq by (auto simp: no_queue_def dest!: set_update_subset_insert [THEN subsetD])
  show ?thesis
  proof (cases "\<exists>e\<in>set (arp_table s). arp_st e = ETHARP_STATE_EMPTY")
    case True
    then show ?thesis using find_entry_empty [OF ok nm fl(1) True] nq' table_okD(2) [OF ok] by fastforce
  next
    case no: False
    have "\<not> (\<exists>e\<in>set (arp_table s). queued_pending e)" using nq by (auto simp: no_queue_def kind_defs)
    then consider k where "k < length (arp_table s)" "etharp_find_entry c (Some a) ETHARP_FLAG_TRY_HARD nif s = Some (Inr k, ?put k)"
      | "etharp_find_entry c (Some a) ETHARP_FLAG_TRY_HARD nif s = Some (Inl ERR_MEM, s)"
      using find_entry_recycle [OF ok nm fl no] is_oldestD(1) by (auto split: if_splits)
    then show ?thesis using nq nq' by cases auto
  qed
qed


lemma update_no_queue:
  assumes ok: "table_ok c s" and nq: "no_queue s" and n: "netif_at (net s) nif = Some n" "hwaddr_len n = 6"
  shows "\<exists>r s'. etharp_update_arp_entry c nif a eth ETHARP_FLAG_TRY_HARD s = Some (r, s') \<and> net s' = net s"
proof -
  have nif: "nif \<noteq> 0" using n by (auto simp: netif_at_def split: if_splits)
  obtain r s1 where f: "etharp_find_entry c (Some a) ETHARP_FLAG_TRY_HARD nif s = Some (r, s1)" "net s1 = net s" "no_queue s1"
    using find_no_queue [OF ok nq] by blast
  have e: "arp_entry i s1 = Some (arp_table s1 ! i) \<and> arp_q (arp_table s1 ! i) = 0" if "r = Inr i" for i
  proof -
    have "i < length (arp_table s1)" using find_entry_found [OF ok nif f(1)] that table_okD(2) by (auto simp: found_def)
    then show ?thesis using f(3) by (simp add: no_queue_def)
  qed
  then show ?thesis using f n
    by (cases r) (auto simp: etharp_update_arp_entry_def lwip_assert_def ETH_HWADDR_LEN_def record_address_def Let_def)
qed

text \<open>What the reply to a request is made of.\<close>

definition arp_answer :: "eth_addr \<Rightarrow> ip4_addr \<Rightarrow> eth_addr \<Rightarrow> ip4_addr \<Rightarrow> u8 list" where
  "arp_answer hw own hs si = eth_header hs hw ETHTYPE_ARP @ arp_packet ARP_REPLY hw own hs si"

lemma u16_bytes_inject: "u16_bytes v = u16_bytes w \<longleftrightarrow> v = w"
  using lesum_u16_bytes by (metis unsigned_word_eqI)

lemma reply_spec:
  assumes mok: "arp_mem_ok c descs out (arp_mem s)" and n: "netif_at (net s) nif = Some n" "hwaddr_len n = 6" "eth_of (hwaddr n) = Some hw"
    and pb: "pbufs (arp_mem s) p = Some pb" "range_mapped (bytes (arp_mem s)) (payload pb) 28"
      "bytes_at (bytes (arp_mem s)) (payload pb) 28 = arp_packet opcode hs si dh di"
  shows "\<exists>s'. arp_reply c p nif si True s = Some s' \<and> same_table s s' \<and> arp_mem_ok c descs out (arp_mem s') \<and>
    (\<forall>x. kept c out x \<longrightarrow> pbufs (arp_mem s') x = pbufs (arp_mem s) x) \<and>
    sent (net s') = sent (net s) @
      (if opcode = ARP_REQUEST \<and> \<not> no_arp_buffer c s then [(nif, arp_answer hw (ip_addr n) hs si)] else [])"
proof -
  note f = load_packet_field [OF pb]
  have op: "load_field 6 2 p s = Some (u16_bytes (lwip_htons opcode))"
    using f [of 6 2] by (simp add: arp_packet_def take_Cons' drop_Cons')
  have hs: "load_field 8 6 p s = Some (eth_bytes hs)" using f [of 8 6] by (simp add: arp_packet_fields)
  show ?thesis
  proof (cases "opcode = ARP_REQUEST")
    case True
    then show ?thesis using op hs n etharp_raw_spec [OF mok n(1,2), of hw hs hw "ip_addr n" hs si ARP_REPLY]
      by (auto simp: arp_reply_def netif_eth_def arp_answer_def split: if_splits)
  next
    case False
    then have "u16_bytes (lwip_htons opcode) \<noteq> u16_bytes (lwip_htons ARP_REQUEST)"
      by (metis u16_bytes_inject htons_involutive)
    then show ?thesis using op mok by (auto simp: arp_reply_def)
  qed
qed

text \<open>A received ARP packet: its header lies in the first pbuf of a chain that the stack owns.\<close>

definition arp_received :: "arp_cfg \<Rightarrow> areas \<Rightarrow> lwip_mem \<Rightarrow> addr \<Rightarrow> addr list \<Rightarrow> (addr \<Rightarrow> nat) \<Rightarrow> u8 list \<Rightarrow> bool" where
  "arp_received c out m p xs sz bs \<longleftrightarrow>
     chain (pbufs m) p xs \<and> xs \<noteq> [] \<and> owned (pbufs m) sz out xs \<and> (\<forall>x\<in>set xs. kept c out x) \<and>
     (\<exists>pb. pbufs m p = Some pb \<and> range_mapped (bytes m) (payload pb) 28 \<and> bytes_at (bytes m) (payload pb) 28 = bs)"

lemma input_returns_spec:
  assumes ok: "table_ok c s" and nq: "no_queue s"
    and mok: "arp_mem_ok c descs out (arp_mem s)"
    and n: "netif_at (net s) nif = Some n" "hwaddr_len n = 6" "eth_of (hwaddr n) = Some hw" "\<not> ip4_addr_isany_val (ip_addr n)"
    and rcv: "arp_received c out (arp_mem s) p xs sz (arp_packet opcode hs si dh (ip_addr n))"
  shows "\<exists>s'. etharp_input c p nif s = Some s' \<and>
    sent (net s') = sent (net s) @
      (if opcode = ARP_REQUEST \<and> \<not> no_arp_buffer c s then [(nif, arp_answer hw (ip_addr n) hs si)] else []) \<and>
    mem_ok (pcfg (ncfg c)) descs (arp_mem s') (out - area (pbufs (arp_mem s)) sz ` set (unshared (pbufs (arp_mem s)) xs))"
proof -
  let ?pc = "pcfg (ncfg c)"
  obtain pb where pb: "pbufs (arp_mem s) p = Some pb" "range_mapped (bytes (arp_mem s)) (payload pb) 28"
      "bytes_at (bytes (arp_mem s)) (payload pb) 28 = arp_packet opcode hs si dh (ip_addr n)"
    and ch: "chain (pbufs (arp_mem s)) p xs" "xs \<noteq> []" "owned (pbufs (arp_mem s)) sz out xs" "\<forall>x\<in>set xs. kept c out x"
    using rcv unfolding arp_received_def by blast
  note f = load_packet_field [OF pb]
  have nif: "nif \<noteq> 0" using n by (auto simp: netif_at_def split: if_splits)
  have hdr: "arp_hdr_ok p s = Some True"
    using f [of 0 2] f [of 2 2] f [of 4 1] f [of 5 1] by (simp add: arp_hdr_ok_def arp_packet_fields)
  obtain r s0 where u: "etharp_update_arp_entry c nif si hs ETHARP_FLAG_TRY_HARD s = Some (r, s0)" "net s0 = net s"
    using update_no_queue [OF ok nq n(1,2)] by blast
  have m0: "arp_mem s0 = arp_mem s" using u(2) by simp
  obtain s1 where s1: "arp_reply c p nif si True s0 = Some s1" "arp_mem_ok c descs out (arp_mem s1)"
    "\<And>x. kept c out x \<Longrightarrow> pbufs (arp_mem s1) x = pbufs (arp_mem s) x"
    "sent (net s1) = sent (net s) @
      (if opcode = ARP_REQUEST \<and> \<not> no_arp_buffer c s0 then [(nif, arp_answer hw (ip_addr n) hs si)] else [])"
    using reply_spec [of c descs out s0 nif n hw p pb opcode hs si dh "ip_addr n"] mok n pb u(2) m0 by auto
  have msg: "arp_message c p nif s = Some s1"
    using n f [of 14 4] f [of 24 4] f [of 8 6] u(1) s1(1) by (simp add: arp_message_def arp_packet_fields)
  have eq: "\<forall>x\<in>set xs. pbufs (arp_mem s1) x = pbufs (arp_mem s) x" using ch(4) s1(3) by blast
  have own: "owned (pbufs (arp_mem s1)) sz out xs" using ch(3) eq by (simp add: owned_def)
  obtain k m where fr: "pbuf_free ?pc p (arp_mem s1) = Some (k, m)"
    "mem_ok ?pc descs m (out - area (pbufs (arp_mem s1)) sz ` set (unshared (pbufs (arp_mem s1)) xs))"
    using pbuf_free_spec [OF arp_mem_okD(2) [OF s1(2)] chain_same [OF ch(1) eq] ch(2) own] by blast
  have un: "unshared (pbufs (arp_mem s1)) xs = unshared (pbufs (arp_mem s)) xs"
    unfolding unshared_def using eq by (intro takeWhile_cong) simp_all
  have "area (pbufs (arp_mem s1)) sz ` set (unshared (pbufs (arp_mem s)) xs) = area (pbufs (arp_mem s)) sz ` set (unshared (pbufs (arp_mem s)) xs)"
    using eq by (intro image_cong refl) (auto simp: area_def unshared_def dest!: set_takeWhileD)
  then have mo: "mem_ok ?pc descs m (out - area (pbufs (arp_mem s)) sz ` set (unshared (pbufs (arp_mem s)) xs))"
    using fr(2) un by simp
  have inp: "etharp_input c p nif s = Some (put_mem m s1)" using nif hdr msg fr(1) by (simp add: etharp_input_def)
  moreover have "no_arp_buffer c s0 = no_arp_buffer c s" by (simp add: no_arp_buffer_def m0)
  ultimately show ?thesis using s1(4) mo by (auto simp: put_mem_def)
qed

lemma input_answers_spec:
  assumes ok: "table_ok c s" "no_queue s" and mok: "arp_mem_ok c descs out (arp_mem s)"
    and n: "netif_at (net s) nif = Some n" "hwaddr_len n = 6" "eth_of (hwaddr n) = Some hw" "\<not> ip4_addr_isany_val (ip_addr n)"
    and rcv: "arp_received c out (arp_mem s) p xs sz (arp_packet opcode hs si dh (ip_addr n))"
  shows "\<exists>s'. etharp_input c p nif s = Some s' \<and>
    sent (net s') = sent (net s) @
      (if opcode = ARP_REQUEST \<and> \<not> no_arp_buffer c s then [(nif, arp_answer hw (ip_addr n) hs si)] else []) \<and>
    mem_ok (pcfg (ncfg c)) descs (arp_mem s') (out - area (pbufs (arp_mem s)) sz ` set (unshared (pbufs (arp_mem s)) xs)) \<and>
    (unicast n si \<and> can_learn nif si s \<longrightarrow> (\<exists>i. etharp_find_addr c nif si s' = Some (Some (i, hs, si), s'))) \<and>
    (\<not> unicast n si \<longrightarrow> same_table s s')"
proof -
  obtain pb where pb: "pbufs (arp_mem s) p = Some pb" "range_mapped (bytes (arp_mem s)) (payload pb) 28"
      "bytes_at (bytes (arp_mem s)) (payload pb) 28 = arp_packet opcode hs si dh (ip_addr n)"
    using rcv unfolding arp_received_def by blast
  show ?thesis using input_returns_spec [OF ok mok n rcv] input_learns_spec [OF ok(1) n(1) refl n(4) _ _ pb]
    input_ignores_spec [OF n(1,2) refl n(4) _ pb] by blast
qed

lemma update_learns_ok:
  assumes ok: "table_ok c s" and nq: "no_queue s" and st: "can_learn nif a s"
    and n: "netif_at (net s) nif = Some n" "hwaddr_len n = 6" and a: "unicast n a"
  shows "\<exists>s'. etharp_update_arp_entry c nif a eth ETHARP_FLAG_TRY_HARD s = Some (ERR_OK, s')"
proof -
  have nif: "nif \<noteq> 0" using n by (auto simp: netif_at_def split: if_splits)
  obtain r s' where u: "etharp_update_arp_entry c nif a eth ETHARP_FLAG_TRY_HARD s = Some (r, s')"
    using update_no_queue [OF ok nq n] by blast
  obtain fr s1 where f: "etharp_find_entry c (Some a) ETHARP_FLAG_TRY_HARD nif s = Some (fr, s1)"
    using find_no_queue [OF ok nq] by blast
  obtain k where k: "fr = Inr k" using find_try_hard [OF ok st f] by blast
  have "arp_st (arp_table s1 ! k) \<noteq> ETHARP_STATE_STATIC" by (rule found_dynamic [OF ok nif st f [unfolded k]])
  then have "r = ERR_OK" using u n a f k
    by (auto simp: unicast_def etharp_update_arp_entry_def lwip_assert_def record_address_def Let_def ETHARP_FLAG_TRY_HARD_def
        ETHARP_FLAG_STATIC_ENTRY_def dest!: arp_entry_SomeD split: Option.bind_splits if_splits)
  then show ?thesis using u by blast
qed

lemma update_lookup_spec:
  assumes ok: "table_ok c s" and u: "etharp_update_arp_entry c nif a eth flags s = Some (ERR_OK, s')"
  shows "\<exists>i. etharp_find_addr c nif a s' = Some (Some (i, eth, a), s')"
proof -
  have nif: "nif \<noteq> 0" and a: "\<not> ip4_addr_isany_val a" "\<not> ip4_addr_ismulticast a"
    using u by (auto simp: etharp_update_arp_entry_def netif_at_def lwip_assert_def split: Option.bind_splits if_splits)
  obtain r s1 where f: "etharp_find_entry c (Some a) flags nif s = Some (r, s1)"
    using u by (auto simp: etharp_update_arp_entry_def lwip_assert_def split: Option.bind_splits if_splits)
  obtain i where i: "r = Inr i"
    using u f find_entry_err [of c "Some a" flags nif s] 
    by (cases r) (auto simp: etharp_update_arp_entry_def lwip_assert_def split: Option.bind_splits if_splits)
  have s1: "table_ok c s1" "found c a nif i s1" using find_entry_found [OF ok nif f] i by auto
  obtain st where "record_address c nif i eth st s1 = Some (ERR_OK, s')" "st = ETHARP_STATE_STABLE \<or> st = ETHARP_STATE_STATIC"
    using u f i by (auto simp: etharp_update_arp_entry_def lwip_assert_def split: Option.bind_splits if_splits)
  then show ?thesis using find_addr_recorded [OF ok s1(2,1) nif _ a] by blast
qed

end
