(* ===== verification/Etharp_Props.thy ===== *)
theory Etharp_Props
  imports Etharp_Frames
begin

text \<open>
  The properties of the ARP component and a small network, an interface with one peer, on which they are applied.
\<close>

section \<open>A small network\<close>

definition demo_nif :: netif where
  "demo_nif = \<lparr>ip_addr = IP4_ADDR 192 168 0 1, netmask = IP4_ADDR 255 255 255 0, gw = IP4_ADDR 192 168 0 254, mtu = 1500,
     hwaddr = [2, 0, 0, 0, 0, 1], hwaddr_len = 6, netif_flags = 0x0F, netif_name = [0x65, 0x6e], netif_num = 0\<rparr>"

definition demo_acfg :: arp_cfg where
  "demo_acfg = \<lparr>ncfg = \<lparr>pcfg = demo_pcfg, linkoutput = (\<lambda>_ _. ERR_OK)\<rparr>, ARP_TABLE_SIZE = 2, ARP_MAXAGE = 300\<rparr>"

definition demo_peer :: ip4_addr where
  "demo_peer = IP4_ADDR 192 168 0 7"

definition demo_peer_eth :: eth_addr where
  "demo_peer_eth = Eth_Addr 2 0 0 0 0 7"

text \<open>The pool of \<open>demo_mem\<close> holds a request of the peer for the address of the interface.\<close>

definition demo_request_mem :: lwip_mem where
  "demo_request_mem = demo_mem\<lparr>bytes := mem_upd (bytes demo_mem) 8232
     (arp_packet ARP_REQUEST demo_peer_eth demo_peer ethzero (IP4_ADDR 192 168 0 1))\<rparr>"

definition demo_net :: net_state where
  "demo_net = \<lparr>stack_mem = demo_request_mem, netifs = [100 \<mapsto> demo_nif], netif_list = [100], netif_default = 100, sent = []\<rparr>"

definition demo_entry :: "ip4_addr \<Rightarrow> nat \<Rightarrow> etharp_state \<Rightarrow> etharp_entry" where
  "demo_entry a age st = \<lparr>arp_q = 0, arp_ip = a, arp_netif = 100, arp_eth = ethzero, ctime = age, arp_st = st\<rparr>"

text \<open>Two entries in use, of different age.\<close>

definition demo_full :: arp_state where
  "demo_full = \<lparr>net = demo_net, arp_table = [demo_entry (IP4_ADDR 192 168 0 2) 5 ETHARP_STATE_STABLE,
     demo_entry (IP4_ADDR 192 168 0 3) 9 ETHARP_STATE_STABLE_REREQUESTING_1], etharp_cached_entry = 0\<rparr>"

lemma demo_addrs:
  "IP4_ADDR 192 168 0 1 = 0x0100a8c0" "IP4_ADDR 192 168 0 2 = 0x0200a8c0" "IP4_ADDR 192 168 0 3 = 0x0300a8c0"
  "demo_peer = 0x0700a8c0" "IP4_ADDR 255 255 255 0 = 0x00ffffff"
  unfolding demo_peer_def by code_simp+

lemma demo_acfg_ok: "arp_cfg_ok demo_acfg"
  by (simp add: arp_cfg_ok_def demo_acfg_def)

lemma demo_peer_unicast:
  "\<not> ip4_addr_isany_val demo_peer" "\<not> ip4_addr_isbroadcast_u32 demo_peer demo_nif" "\<not> ip4_addr_ismulticast demo_peer"
  "\<not> ip4_addr_isany_val (IP4_ADDR 192 168 0 1)"
  by code_simp+

lemma demo_unicast: "unicast demo_nif demo_peer"
  using demo_peer_unicast by (simp add: unicast_def)

lemma demo_netif [simp]: "netif_at demo_net 100 = Some demo_nif"
  by (simp add: netif_at_def demo_net_def)

lemma demo_entry_ok:
  "st \<noteq> ETHARP_STATE_PENDING \<Longrightarrow> age < 300 \<Longrightarrow> a \<in> {IP4_ADDR 192 168 0 2, IP4_ADDR 192 168 0 3, demo_peer} \<Longrightarrow> entry_ok demo_acfg (demo_entry a age st)"
proof -
  have "\<not> ip4_addr_ismulticast a \<and> \<not> ip4_addr_isany_val a" if "a \<in> {IP4_ADDR 192 168 0 2, IP4_ADDR 192 168 0 3, demo_peer}"
    using that by (elim insertE emptyE; hypsubst; code_simp)
  then show "st \<noteq> ETHARP_STATE_PENDING \<Longrightarrow> age < 300 \<Longrightarrow> a \<in> {IP4_ADDR 192 168 0 2, IP4_ADDR 192 168 0 3, demo_peer} \<Longrightarrow> entry_ok demo_acfg (demo_entry a age st)"
    by (auto simp: entry_ok_def demo_entry_def demo_acfg_def)
qed

lemma distinct_keys_two:
  "arp_ip e \<noteq> arp_ip f \<or> arp_st f = ETHARP_STATE_EMPTY \<Longrightarrow> distinct_keys [e, f]"
  by (rule distinct_keysI) (auto simp: less_Suc_eq nth_Cons split: nat.splits)

lemma demo_full_ok: "table_ok demo_acfg demo_full"
proof -
  have "distinct_keys (arp_table demo_full)" unfolding demo_full_def
    by (simp, rule distinct_keys_two) (simp add: demo_entry_def demo_addrs)
  moreover have "\<forall>i<2. entry_ok demo_acfg (arp_table demo_full ! i)"
    by (auto simp: less_2_cases_iff demo_full_def intro!: demo_entry_ok)
  ultimately show ?thesis using demo_acfg_ok by (simp add: table_ok_def demo_full_def demo_acfg_def)
qed

text \<open>The peer under a fixed address that is not its own.\<close>

definition demo_static :: arp_state where
  "demo_static = demo_full\<lparr>arp_table := [demo_entry demo_peer 0 ETHARP_STATE_STATIC, empty_entry]\<rparr>"

lemma demo_static_ok: "table_ok demo_acfg demo_static"
proof -
  have "distinct_keys (arp_table demo_static)" unfolding demo_static_def
    by (simp, rule distinct_keys_two) (simp add: empty_entry_def)
  moreover have "entry_ok demo_acfg empty_entry" by (simp add: entry_ok_def empty_entry_def)
  then have "\<forall>i<2. entry_ok demo_acfg (arp_table demo_static ! i)"
    by (auto simp: less_2_cases_iff demo_static_def intro!: demo_entry_ok)
  ultimately show ?thesis using demo_acfg_ok by (simp add: table_ok_def demo_static_def demo_full_def demo_acfg_def)
qed

lemma demo_nets [simp]: "net demo_full = demo_net" "net demo_static = demo_net" "net (arp_start c demo_net) = demo_net"
  "stack_mem demo_net = demo_request_mem" "pbufs demo_request_mem = pbufs demo_mem"
  by (simp_all add: demo_full_def demo_static_def arp_start_def demo_net_def demo_request_mem_def)

lemma demo_hw: "hwaddr_len demo_nif = 6" "eth_of (hwaddr demo_nif) = Some (Eth_Addr 2 0 0 0 0 1)" "ip_addr demo_nif = IP4_ADDR 192 168 0 1"
  by (simp_all add: demo_nif_def)

lemma demo_arp_mem: "arp_mem_ok demo_acfg demo_descs demo_out demo_request_mem"
proof -
  have "mem_ok demo_pcfg demo_descs demo_request_mem demo_out"
    using demo_mem_ok by (simp add: demo_request_mem_def mem_ok_def mem_rep_def)
  moreover have "PBUF_LINK demo_pcfg = 14" by (simp add: PBUF_LINK_def demo_pcfg_def)
  moreover have "range_mapped (bytes demo_request_mem) (ram demo_cfg) (MEM_SIZE_ALIGNED demo_cfg)"
    by (auto simp: range_mapped_def demo_request_mem_def mem_upd_def demo_mem_def demo_cfg_values)
  ultimately show ?thesis using demo_pcfg_ok
    by (simp add: arp_mem_ok_def demo_acfg_def Let_def demo_sizes demo_cfg_values LWIP_MEM_ALIGN_SIZE_def)
qed

lemma demo_received:
  "arp_received demo_acfg demo_out demo_request_mem 8192 [8192, 8280] (\<lambda>_. 88)
     (arp_packet ARP_REQUEST demo_peer_eth demo_peer ethzero (ip_addr demo_nif))"
proof -
  let ?bs = "arp_packet ARP_REQUEST demo_peer_eth demo_peer ethzero (IP4_ADDR 192 168 0 1)"
  have "length ?bs = 28" by simp
  then have "bytes_at (bytes demo_request_mem) 8232 28 = ?bs"
    using bytes_at_mem_upd_same [of "bytes demo_mem" 8232 ?bs] by (simp add: demo_request_mem_def)
  moreover have "range_mapped (bytes demo_request_mem) 8232 28"
    by (auto simp: range_mapped_def demo_request_mem_def mem_upd_def demo_mem_def)
  moreover have "pbufs demo_mem 8192 = Some demo_pbuf1" "payload demo_pbuf1 = 8232" by (simp_all add: demo_mem_def demo_pbuf1_def)
  ultimately show ?thesis using packet_chain [OF demo_chain] demo_owned
    by (simp add: arp_received_def demo_hw kept_def off_heap_def demo_acfg_def demo_sizes demo_cfg_values)
qed

lemma demo_start: "no_queue (arp_start c n)" "can_learn nif a (arp_start demo_acfg n)"
  by (simp_all add: arp_start_def no_queue_def can_learn_def empty_entry_def demo_acfg_def)

lemma demo_full_facts: "no_queue demo_full" "can_learn nif a demo_full"
  by (simp_all add: demo_full_def no_queue_def can_learn_def demo_entry_def)

lemma demo_static_queue: "no_queue demo_static"
  by (simp add: demo_static_def no_queue_def demo_entry_def empty_entry_def)


lemma demo_answers:
  assumes "table_ok demo_acfg s" "no_queue s" "can_learn 100 demo_peer s" "net s = demo_net"
  shows "\<exists>s'. etharp_input demo_acfg 8192 100 s = Some s' \<and>
    (\<exists>i. etharp_find_addr demo_acfg 100 demo_peer s' = Some (Some (i, demo_peer_eth, demo_peer), s'))"
  using input_answers_spec [OF assms(1,2), of demo_descs demo_out 100 demo_nif] demo_arp_mem demo_hw demo_unicast demo_peer_unicast(4)
    demo_received assms(3,4) by (metis demo_netif demo_nets(4))

text \<open>A packet waits for the address of the peer, which was asked for a tick ago.\<close>

definition demo_waiting :: arp_state where
  "demo_waiting = demo_full\<lparr>arp_table := [(demo_entry demo_peer 1 ETHARP_STATE_PENDING)\<lparr>arp_q := 8192\<rparr>,
     demo_entry (IP4_ADDR 192 168 0 2) 5 ETHARP_STATE_STABLE]\<rparr>"

lemma demo_waiting_ok:
  "table_ok demo_acfg demo_waiting" "net demo_waiting = demo_net"
  "queues_ok demo_acfg demo_out (\<lambda>_. 88) (\<lambda>i. if i = 0 then [8192, 8280] else []) demo_waiting" "pending_ready demo_waiting"
proof -
  let ?e = "(demo_entry demo_peer 1 ETHARP_STATE_PENDING)\<lparr>arp_q := 8192\<rparr>"
  show net: "net demo_waiting = demo_net" by (simp add: demo_waiting_def)
  have "distinct_keys (arp_table demo_waiting)" unfolding demo_waiting_def
    by (simp, rule distinct_keys_two) (simp add: demo_entry_def demo_addrs)
  moreover have "entry_ok demo_acfg ?e"
    using demo_peer_unicast by (simp add: entry_ok_def demo_entry_def demo_acfg_def ARP_MAXPENDING_def)
  then have "\<forall>i<2. entry_ok demo_acfg (arp_table demo_waiting ! i)"
    by (auto simp: less_2_cases_iff demo_waiting_def intro!: demo_entry_ok)
  ultimately show "table_ok demo_acfg demo_waiting" using demo_acfg_ok
    by (simp add: table_ok_def demo_waiting_def demo_full_def demo_acfg_def)
  have "queued demo_acfg demo_out (\<lambda>_. 88) (pbufs demo_mem) 8192 [8192, 8280]"
    using packet_chain [OF demo_chain] demo_owned
    by (simp add: queued_def kept_def off_heap_def demo_acfg_def demo_sizes demo_cfg_values)
  then show "queues_ok demo_acfg demo_out (\<lambda>_. 88) (\<lambda>i. if i = 0 then [8192, 8280] else []) demo_waiting"
    using net by (auto simp: queues_ok_def demo_waiting_def demo_entry_def queued_def less_Suc_eq)
  show "pending_ready demo_waiting"
    using net demo_hw by (simp add: pending_ready_def netif_ready_def demo_waiting_def demo_entry_def)
qed

section \<open>Properties\<close>

text \<open>
  C13: in every state that the operations of ARP can reach from the empty table, the table is well-formed: it has
  \<^verbatim>\<open>ARP_TABLE_SIZE\<close> entries and the cached index is one of them, only pending entries hold a packet, every used entry
  is younger than its limit and stands for a unicast address on an interface, and no two used entries stand for the
  same address on the same interface.
\<close>

theorem etharp_table_invariant:
  assumes "arp_cfg_ok c" "arp_reachable c s"
  shows "table_ok c s"
  using arp_reachable_ok [OF assms(2,1)] .

theorem etharp_table_invariant_witness:
  "\<exists>s i. arp_reachable demo_acfg s \<and> etharp_find_addr demo_acfg 100 demo_peer s = Some (Some (i, demo_peer_eth, demo_peer), s) \<and>
     table_ok demo_acfg s"
proof -
  obtain s' i where s': "etharp_input demo_acfg 8192 100 (arp_start demo_acfg demo_net) = Some s'"
    "etharp_find_addr demo_acfg 100 demo_peer s' = Some (Some (i, demo_peer_eth, demo_peer), s')"
    using demo_answers [OF arp_start_ok [OF demo_acfg_ok] demo_start demo_nets(3)] by blast
  have r: "arp_reachable demo_acfg s'" using arp_reachable.start arp_reachable.step arp_step.inp [OF s'(1)] by blast
  then show ?thesis using s'(2) etharp_table_invariant [OF demo_acfg_ok r] by blast
qed

text \<open>
  C17: when no entry is in use for the address and none is empty, \<^verbatim>\<open>etharp_find_entry\<close> with the flag
  \<^verbatim>\<open>ETHARP_FLAG_TRY_HARD\<close> takes the oldest stable dynamic entry, failing that the oldest pending entry without a
  packet, failing that the oldest pending entry, whose packet it frees; with static entries only it
  returns \<^verbatim>\<open>ERR_MEM\<close> and changes nothing.
\<close>

theorem etharp_recycles_oldest:
  assumes "table_ok c s" "\<forall>e\<in>set (arp_table s). \<not> used_match (Some a) nif e"
    "flags AND ETHARP_FLAG_FIND_ONLY = 0" "flags AND ETHARP_FLAG_TRY_HARD \<noteq> 0"
    "\<not> (\<exists>e\<in>set (arp_table s). arp_st e = ETHARP_STATE_EMPTY)"
  shows "if \<exists>e\<in>set (arp_table s). dynamic_stable e
    then \<exists>k. is_oldest dynamic_stable (arp_table s) k \<and>
      etharp_find_entry c (Some a) flags nif s = Some (Inr k, put_entry k (reset_entry a nif (arp_table s ! k)) s)
    else if \<exists>e\<in>set (arp_table s). idle_pending e
    then \<exists>k. is_oldest idle_pending (arp_table s) k \<and>
      etharp_find_entry c (Some a) flags nif s = Some (Inr k, put_entry k (reset_entry a nif (arp_table s ! k)) s)
    else if \<exists>e\<in>set (arp_table s). queued_pending e
    then \<exists>k. is_oldest queued_pending (arp_table s) k \<and> etharp_find_entry c (Some a) flags nif s =
        do { (_, m) \<leftarrow> pbuf_free (pcfg (ncfg c)) (arp_q (arp_table s ! k)) (arp_mem s);
             Some (Inr k, put_entry k (reset_entry a nif (arp_table s ! k)) (put_mem m s)) }
    else etharp_find_entry c (Some a) flags nif s = Some (Inl ERR_MEM, s)"
  using find_entry_recycle [OF assms] .

theorem etharp_recycles_oldest_witness:
  "etharp_find_entry demo_acfg (Some demo_peer) ETHARP_FLAG_TRY_HARD 100 demo_full =
     Some (Inr 1, put_entry 1 (reset_entry demo_peer 100 (arp_table demo_full ! 1)) demo_full)"
proof -
  have "\<not> used_match (Some demo_peer) 100 e \<and> dynamic_stable e" if "e \<in> set (arp_table demo_full)" for e
    using that by (auto simp: demo_full_def used_match_def arp_match_def demo_entry_def demo_addrs kind_defs)
  moreover have "\<not> (\<exists>e\<in>set (arp_table demo_full). arp_st e = ETHARP_STATE_EMPTY)" by (simp add: demo_full_def demo_entry_def)
  moreover have "arp_table demo_full ! 0 \<in> set (arp_table demo_full)" by (simp add: demo_full_def)
  ultimately obtain k where k: "is_oldest dynamic_stable (arp_table demo_full) k"
    "etharp_find_entry demo_acfg (Some demo_peer) ETHARP_FLAG_TRY_HARD 100 demo_full =
       Some (Inr k, put_entry k (reset_entry demo_peer 100 (arp_table demo_full ! k)) demo_full)"
    using etharp_recycles_oldest [OF demo_full_ok, of demo_peer 100 ETHARP_FLAG_TRY_HARD]
    by (auto simp: ETHARP_FLAG_TRY_HARD_def ETHARP_FLAG_FIND_ONLY_def split: if_splits)
  have "k = 1" using k(1) by (auto simp: is_oldest_def demo_full_def demo_entry_def kind_defs less_Suc_eq)
  then show ?thesis using k(2) by simp
qed

text \<open>
  C11: an ARP message for the address of the interface, in a packet that the stack owns, is processed to the end
  while no packet is queued in the table: \<^verbatim>\<open>etharp_input\<close> returns, a request is answered by exactly one frame,
  addressed to the sender, that carries the addresses of the interface, unless the heap has no room for it, and the
  packet is freed, whoever the sender is and whatever entries the table holds.  When the sender has a unicast address without
  static entry and not all entries of the table are static, the table afterwards resolves the address of the
  sender to its hardware address; a message from an address that is not unicast leaves the table alone.
\<close>

theorem etharp_input_answers:
  assumes "table_ok c s" "no_queue s" "arp_mem_ok c descs out (arp_mem s)"
    "netif_at (net s) nif = Some n" "hwaddr_len n = 6" "eth_of (hwaddr n) = Some hw" "\<not> ip4_addr_isany_val (ip_addr n)"
    "arp_received c out (arp_mem s) p xs sz (arp_packet opcode hs si dh (ip_addr n))"
  shows "\<exists>s'. etharp_input c p nif s = Some s' \<and>
    sent (net s') = sent (net s) @
      (if opcode = ARP_REQUEST \<and> \<not> no_arp_buffer c s then [(nif, arp_answer hw (ip_addr n) hs si)] else []) \<and>
    mem_ok (pcfg (ncfg c)) descs (arp_mem s') (out - area (pbufs (arp_mem s)) sz ` set (unshared (pbufs (arp_mem s)) xs)) \<and>
    (unicast n si \<and> can_learn nif si s \<longrightarrow> (\<exists>i. etharp_find_addr c nif si s' = Some (Some (i, hs, si), s'))) \<and>
    (\<not> unicast n si \<longrightarrow> same_table s s')"
  using input_answers_spec [OF assms] .

theorem etharp_input_answers_witness:
  "\<exists>s'. etharp_input demo_acfg 8192 100 demo_full = Some s' \<and>
     (\<exists>i. etharp_find_addr demo_acfg 100 demo_peer s' = Some (Some (i, demo_peer_eth, demo_peer), s')) \<and>
     sent (net s') = (if no_arp_buffer demo_acfg demo_full then []
       else [(100, arp_answer (Eth_Addr 2 0 0 0 0 1) (ip_addr demo_nif) demo_peer_eth demo_peer)])"
proof -
  have "sent demo_net = []" by (simp add: demo_net_def)
  then show ?thesis
    using etharp_input_answers [OF demo_full_ok demo_full_facts(1), of demo_descs demo_out 100 demo_nif "Eth_Addr 2 0 0 0 0 1"
        8192 "[8192, 8280]" "\<lambda>_. 88" ARP_REQUEST demo_peer_eth demo_peer ethzero]
      demo_arp_mem demo_hw demo_unicast demo_peer_unicast(4) demo_received demo_full_facts(2) by auto
qed

text \<open>
  C23: no received ARP message changes a static entry, whatever it says and however full the table is.
\<close>

theorem etharp_static_protected:
  assumes "table_ok c s" "etharp_input c p nif s = Some s'" "i < length (arp_table s)"
    "arp_st (arp_table s ! i) = ETHARP_STATE_STATIC"
  shows "arp_table s' ! i = arp_table s ! i"
  using input_static_kept [OF assms(1,2)] assms(3,4) by (simp add: static_kept_def)

theorem etharp_static_protected_witness:
  "\<exists>s'. etharp_input demo_acfg 8192 100 demo_static = Some s' \<and> arp_table s' ! 0 = demo_entry demo_peer 0 ETHARP_STATE_STATIC"
proof -
  obtain s' where s': "etharp_input demo_acfg 8192 100 demo_static = Some s'"
    using input_returns_spec [OF demo_static_ok demo_static_queue, of demo_descs demo_out 100 demo_nif]
      demo_arp_mem demo_hw demo_peer_unicast(4) demo_received by (metis demo_netif demo_nets(2,4))
  moreover have "0 < length (arp_table demo_static)" "arp_table demo_static ! 0 = demo_entry demo_peer 0 ETHARP_STATE_STATIC"
    "arp_st (demo_entry demo_peer 0 ETHARP_STATE_STATIC) = ETHARP_STATE_STATIC"
    by (simp_all add: demo_static_def demo_entry_def)
  ultimately show ?thesis using etharp_static_protected [OF demo_static_ok s', of 0] by simp
qed

text \<open>
  C25: an update of the table that reports success is found again: \<^verbatim>\<open>etharp_find_addr\<close> on the same interface returns
  the hardware address that \<^verbatim>\<open>etharp_update_arp_entry\<close> was given, for dynamic and for static entries.
\<close>

theorem etharp_update_lookup:
  assumes "table_ok c s" "etharp_update_arp_entry c nif a eth flags s = Some (ERR_OK, s')"
  shows "\<exists>i. etharp_find_addr c nif a s' = Some (Some (i, eth, a), s')"
  using update_lookup_spec [OF assms] .

theorem etharp_update_lookup_witness:
  "\<exists>s' i. etharp_update_arp_entry demo_acfg 100 demo_peer demo_peer_eth ETHARP_FLAG_TRY_HARD demo_full = Some (ERR_OK, s') \<and>
     etharp_find_addr demo_acfg 100 demo_peer s' = Some (Some (i, demo_peer_eth, demo_peer), s')"
proof -
  obtain s' where "etharp_update_arp_entry demo_acfg 100 demo_peer demo_peer_eth ETHARP_FLAG_TRY_HARD demo_full = Some (ERR_OK, s')"
    using update_learns_ok [OF demo_full_ok demo_full_facts(1,2), of 100 demo_nif] demo_hw demo_unicast by auto
  then show ?thesis using etharp_update_lookup [OF demo_full_ok] by blast
qed

text \<open>
  C28: \<^verbatim>\<open>ARP_MAXAGE\<close> ticks of \<^verbatim>\<open>etharp_tmr\<close> in a row come to an end for every well-formed table, with pending entries
  that are asked for again at each tick and with packets that wait behind them, as long as these packets are chains
  that the stack owns and the interfaces of the pending entries exist.  Then every entry that is not static is empty, every
  static entry is as it was, and the memory of all waiting packets is given back.
\<close>

theorem etharp_expires:
  assumes "table_ok c s" "arp_mem_ok c descs out (arp_mem s)" "queues_ok c out sz Q s" "pending_ready s"
  shows "\<exists>s'. ticks c (ARP_MAXAGE c) s = Some s' \<and> length (arp_table s') = length (arp_table s) \<and>
    (\<forall>i<length (arp_table s). if arp_st (arp_table s ! i) = ETHARP_STATE_STATIC then arp_table s' ! i = arp_table s ! i
       else arp_st (arp_table s' ! i) = ETHARP_STATE_EMPTY) \<and>
    mem_ok (pcfg (ncfg c)) descs (arp_mem s') (out - queue_areas (pbufs (arp_mem s)) sz Q {..<length (arp_table s)})"
  using expires_spec [OF assms] .

theorem etharp_expires_witness:
  "\<exists>s'. ticks demo_acfg 300 demo_waiting = Some s' \<and> arp_st (arp_table s' ! 0) = ETHARP_STATE_EMPTY \<and>
     arp_st (arp_table s' ! 1) = ETHARP_STATE_EMPTY"
proof -
  have f: "ARP_MAXAGE demo_acfg = 300" "length (arp_table demo_waiting) = 2"
    "arp_st (arp_table demo_waiting ! 0) \<noteq> ETHARP_STATE_STATIC" "arp_st (arp_table demo_waiting ! 1) \<noteq> ETHARP_STATE_STATIC"
    by (simp_all add: demo_acfg_def demo_waiting_def demo_entry_def)
  obtain s' where "ticks demo_acfg 300 demo_waiting = Some s'"
    "\<And>i. i < 2 \<Longrightarrow> if arp_st (arp_table demo_waiting ! i) = ETHARP_STATE_STATIC then arp_table s' ! i = arp_table demo_waiting ! i
       else arp_st (arp_table s' ! i) = ETHARP_STATE_EMPTY"
    using etharp_expires [OF demo_waiting_ok(1) _ demo_waiting_ok(3,4), of demo_descs] demo_arp_mem f(1,2) demo_waiting_ok(2) by auto
  then show ?thesis using f(3,4) by (metis one_less_numeral_iff semiring_norm(76) zero_less_numeral)
qed

text \<open>
  C30: \<^verbatim>\<open>etharp_request\<close> returns.  It broadcasts exactly one frame, the Ethernet header followed by the ARP request for the
  address with the addresses of the interface as sender, and returns \<^verbatim>\<open>ERR_OK\<close>; or the heap has no room for the
  packet, and then it returns \<^verbatim>\<open>ERR_MEM\<close> and nothing is changed.  The table is untouched and all memory is given back.
\<close>

theorem etharp_request_frame:
  assumes "arp_mem_ok c descs out (arp_mem s)" "netif_at (net s) nif = Some n" "hwaddr_len n = 6" "eth_of (hwaddr n) = Some hw"
  shows "\<exists>r s'. etharp_request c nif a s = Some (r, s') \<and> arp_table s' = arp_table s \<and>
    mem_ok (pcfg (ncfg c)) descs (arp_mem s') out \<and>
    (if no_arp_buffer c s then r = ERR_MEM \<and> s' = s else r = ERR_OK \<and>
       sent (net s') = sent (net s) @ [(nif, eth_header ethbroadcast hw ETHTYPE_ARP @ arp_packet ARP_REQUEST hw (ip_addr n) ethzero a)])"
  using etharp_raw_spec [OF assms(1-3), of hw ethbroadcast hw "ip_addr n" ethzero a ARP_REQUEST] assms(2,4) arp_mem_okD(2)
  by (auto simp: etharp_request_def etharp_request_dst_def netif_eth_def same_table_def split: if_splits)

theorem etharp_request_frame_witness:
  "\<exists>r s'. etharp_request demo_acfg 100 demo_peer demo_full = Some (r, s') \<and> mem_ok demo_pcfg demo_descs (arp_mem s') demo_out"
proof -
  have "pcfg (ncfg demo_acfg) = demo_pcfg" by (simp add: demo_acfg_def)
  then show ?thesis
    using etharp_request_frame [of demo_acfg demo_descs demo_out demo_full 100 demo_nif] demo_arp_mem demo_hw by fastforce
qed

end
