(* ===== verification/Udp_Pcb.thy ===== *)
theory Udp_Pcb
  imports Ethernet
begin

text \<open>
  The protocol control blocks of UDP, \<^verbatim>\<open>lwip/src/core/udp.c\<close>: creating, binding, connecting and removing them.  The
  active ones form a list through their \<^verbatim>\<open>next\<close> fields, from \<^verbatim>\<open>udp_pcbs\<close>.  The build is the default one: IPv4 only, no
  reuse of addresses, no UDP-Lite and no options for outgoing multicasts.
\<close>

section \<open>State and operations\<close>

record udp_pcb =
  local_ip :: ip4_addr
  remote_ip :: ip4_addr
  netif_idx :: nat
  so_options :: u8
  udp_tos :: u8
  udp_ttl :: u8
  udp_next :: addr
  udp_flags :: u8
  local_port :: u16
  remote_port :: u16
  recv :: addr
  recv_arg :: addr

type_synonym pcb_map = "addr \<rightharpoonup> udp_pcb"

record udp_state =
  udp_pcb_at :: pcb_map
  udp_pcbs :: addr
  udp_port :: u16

definition UDP_FLAGS_NOCHKSUM :: u8 where "UDP_FLAGS_NOCHKSUM = 0x01"
definition UDP_FLAGS_CONNECTED :: u8 where "UDP_FLAGS_CONNECTED = 0x04"
definition UDP_TTL :: u8 where "UDP_TTL = 255"
definition NETIF_NO_INDEX :: nat where "NETIF_NO_INDEX = 0"

definition UDP_LOCAL_PORT_RANGE_START :: u16 where "UDP_LOCAL_PORT_RANGE_START = 0xc000"
definition UDP_LOCAL_PORT_RANGE_END :: u16 where "UDP_LOCAL_PORT_RANGE_END = 0xffff"

definition UDP_ENSURE_LOCAL_PORT_RANGE :: "u32 \<Rightarrow> u16" where
  "UDP_ENSURE_LOCAL_PORT_RANGE port = ucast ((port AND ucast (NOT UDP_LOCAL_PORT_RANGE_START)) + ucast UDP_LOCAL_PORT_RANGE_START)"

text \<open>\<^verbatim>\<open>udp_init\<close>, with the result of \<^verbatim>\<open>LWIP_RAND\<close> as an argument.\<close>

definition udp_init :: "u32 \<Rightarrow> udp_state \<Rightarrow> udp_state" where
  "udp_init rand s = s\<lparr>udp_port := UDP_ENSURE_LOCAL_PORT_RANGE rand\<rparr>"

definition put_pcb :: "addr \<Rightarrow> udp_pcb \<Rightarrow> udp_state \<Rightarrow> udp_state" where
  "put_pcb p pcb s = s\<lparr>udp_pcb_at := (udp_pcb_at s)(p \<mapsto> pcb)\<rparr>"

partial_function (option) port_in_use :: "pcb_map \<Rightarrow> u16 \<Rightarrow> addr \<Rightarrow> bool option" where
  "port_in_use m port p =
     (if p \<noteq> 0 then
        do { pcb \<leftarrow> m p; if local_port pcb = port then Some True else port_in_use m port (udp_next pcb) }
      else Some False)"

text \<open>The loop at the label \<^verbatim>\<open>again\<close>: the port to return and the last port tried.\<close>

partial_function (option) new_port_loop :: "pcb_map \<Rightarrow> addr \<Rightarrow> u16 \<Rightarrow> u16 \<Rightarrow> (u16 \<times> u16) option" where
  "new_port_loop m p n port =
     (let port = (if port = UDP_LOCAL_PORT_RANGE_END then UDP_LOCAL_PORT_RANGE_START else port + 1) in
      do {
        used \<leftarrow> port_in_use m port p;
        if used then
          if n + 1 > UDP_LOCAL_PORT_RANGE_END - UDP_LOCAL_PORT_RANGE_START then Some (0, port)
          else new_port_loop m p (n + 1) port
        else Some (port, port)
      })"

definition udp_new_port :: "udp_state \<Rightarrow> (u16 \<times> udp_state) option" where
  "udp_new_port s =
     do {
       (r, port) \<leftarrow> new_port_loop (udp_pcb_at s) (udp_pcbs s) 0 (udp_port s);
       Some (r, s\<lparr>udp_port := port\<rparr>)
     }"

partial_function (option) on_list :: "pcb_map \<Rightarrow> addr \<Rightarrow> addr \<Rightarrow> bool option" where
  "on_list m pcb p =
     (if p \<noteq> 0 then
        if pcb = p then Some True else do { b \<leftarrow> m p; on_list m pcb (udp_next b) }
      else Some False)"

partial_function (option) bind_conflict :: "pcb_map \<Rightarrow> addr \<Rightarrow> ip4_addr \<Rightarrow> u16 \<Rightarrow> addr \<Rightarrow> bool option" where
  "bind_conflict m pcb ipaddr port p =
     (if p \<noteq> 0 then
        do {
          b \<leftarrow> m p;
          if pcb \<noteq> p \<and> local_port b = port \<and> (local_ip b = ipaddr \<or> ip4_addr_isany_val ipaddr \<or> ip4_addr_isany_val (local_ip b))
          then Some True
          else bind_conflict m pcb ipaddr port (udp_next b)
        }
      else Some False)"

text \<open>Putting a pcb on the list of active pcbs.\<close>

definition push_pcb :: "addr \<Rightarrow> udp_state \<Rightarrow> udp_state option" where
  "push_pcb p s =
     do {
       pcb \<leftarrow> udp_pcb_at s p;
       Some ((put_pcb p (pcb\<lparr>udp_next := udp_pcbs s\<rparr>) s)\<lparr>udp_pcbs := p\<rparr>)
     }"

text \<open>The port to bind to: a new one for port 0, or the given one if no other pcb is in the way.\<close>

definition choose_port :: "addr \<Rightarrow> ip4_addr \<Rightarrow> u16 \<Rightarrow> udp_state \<Rightarrow> ((err_t + u16) \<times> udp_state) option" where
  "choose_port p ipaddr port s =
     (if port = 0 then
        do { (port, s) \<leftarrow> udp_new_port s; Some (if port = 0 then Inl ERR_USE else Inr port, s) }
      else
        do {
          conflict \<leftarrow> bind_conflict (udp_pcb_at s) p ipaddr port (udp_pcbs s);
          Some (if conflict then Inl ERR_USE else Inr port, s)
        })"

definition udp_bind :: "addr \<Rightarrow> ip4_addr option \<Rightarrow> u16 \<Rightarrow> udp_state \<Rightarrow> (err_t \<times> udp_state) option" where
  "udp_bind p ipaddr port s =
     (let ipaddr = (case ipaddr of None \<Rightarrow> IPADDR_ANY | Some a \<Rightarrow> a) in
      if p = 0 then Some (ERR_ARG, s)
      else
        do {
          rebind \<leftarrow> on_list (udp_pcb_at s) p (udp_pcbs s);
          (r, s) \<leftarrow> choose_port p ipaddr port s;
          case r of
            Inl err \<Rightarrow> Some (err, s)
          | Inr port \<Rightarrow>
              do {
                pcb \<leftarrow> udp_pcb_at s p;
                let s = put_pcb p (pcb\<lparr>local_ip := ipaddr, local_port := port\<rparr>) s;
                s \<leftarrow> (if rebind then Some s else push_pcb p s);
                Some (ERR_OK, s)
              }
        })"

definition netif_get_index :: "netif \<Rightarrow> nat" where
  "netif_get_index n = u8_of (netif_num n + 1)"

definition udp_bind_netif :: "addr \<Rightarrow> netif option \<Rightarrow> udp_state \<Rightarrow> udp_state option" where
  "udp_bind_netif p nif s =
     do {
       pcb \<leftarrow> udp_pcb_at s p;
       Some (put_pcb p (pcb\<lparr>netif_idx := (case nif of Some n \<Rightarrow> netif_get_index n | None \<Rightarrow> NETIF_NO_INDEX)\<rparr>) s)
     }"

definition udp_connect :: "addr \<Rightarrow> ip4_addr option \<Rightarrow> u16 \<Rightarrow> udp_state \<Rightarrow> (err_t \<times> udp_state) option" where
  "udp_connect p ipaddr port s =
     (case ipaddr of
        None \<Rightarrow> Some (ERR_ARG, s)
      | Some a \<Rightarrow>
          if p = 0 then Some (ERR_ARG, s)
          else
            do {
              pcb \<leftarrow> udp_pcb_at s p;
              (err, s) \<leftarrow> (if local_port pcb = 0 then udp_bind p (Some (local_ip pcb)) (local_port pcb) s else Some (ERR_OK, s));
              if err \<noteq> ERR_OK then Some (err, s)
              else
                do {
                  pcb \<leftarrow> udp_pcb_at s p;
                  let s = put_pcb p (pcb\<lparr>remote_ip := a, remote_port := port, udp_flags := udp_flags pcb OR UDP_FLAGS_CONNECTED\<rparr>) s;
                  listed \<leftarrow> on_list (udp_pcb_at s) p (udp_pcbs s);
                  s \<leftarrow> (if listed then Some s else push_pcb p s);
                  Some (ERR_OK, s)
                }
            })"

definition udp_disconnect :: "addr \<Rightarrow> udp_state \<Rightarrow> udp_state option" where
  "udp_disconnect p s =
     (if p = 0 then Some s
      else
        do {
          pcb \<leftarrow> udp_pcb_at s p;
          Some (put_pcb p (pcb\<lparr>remote_ip := IPADDR_ANY, remote_port := 0, netif_idx := NETIF_NO_INDEX,
            udp_flags := udp_flags pcb AND NOT UDP_FLAGS_CONNECTED\<rparr>) s)
        })"

definition udp_recv :: "addr \<Rightarrow> addr \<Rightarrow> addr \<Rightarrow> udp_state \<Rightarrow> udp_state option" where
  "udp_recv p rcv arg s =
     (if p = 0 then Some s
      else do { pcb \<leftarrow> udp_pcb_at s p; Some (put_pcb p (pcb\<lparr>recv := rcv, recv_arg := arg\<rparr>) s) })"

text \<open>The element in front of a pcb, 0 if there is none.\<close>

partial_function (option) find_pred :: "pcb_map \<Rightarrow> addr \<Rightarrow> addr \<Rightarrow> addr option" where
  "find_pred m pcb p =
     (if p \<noteq> 0 then
        do { b \<leftarrow> m p; if udp_next b \<noteq> 0 \<and> udp_next b = pcb then Some p else find_pred m pcb (udp_next b) }
      else Some 0)"

definition unlink_pcb :: "addr \<Rightarrow> udp_state \<Rightarrow> udp_state option" where
  "unlink_pcb p s =
     (if udp_pcbs s = p then do { pcb \<leftarrow> udp_pcb_at s p; Some (s\<lparr>udp_pcbs := udp_next pcb\<rparr>) }
      else
        do {
          q \<leftarrow> find_pred (udp_pcb_at s) p (udp_pcbs s);
          if q = 0 then Some s
          else do { b \<leftarrow> udp_pcb_at s q; pcb \<leftarrow> udp_pcb_at s p; Some (put_pcb q (b\<lparr>udp_next := udp_next pcb\<rparr>) s) }
        })"

definition udp_remove :: "mem_cfg \<Rightarrow> addr \<Rightarrow> memp_pools \<Rightarrow> udp_state \<Rightarrow> (memp_pools \<times> udp_state) option" where
  "udp_remove c p ps s =
     (if p = 0 then Some (ps, s)
      else
        do {
          s \<leftarrow> unlink_pcb p s;
          ps \<leftarrow> memp_free c MEMP_UDP_PCB p ps;
          Some (ps, s\<lparr>udp_pcb_at := (udp_pcb_at s)(p := None)\<rparr>)
        })"

definition zero_pcb :: udp_pcb where
  "zero_pcb = \<lparr>local_ip = 0, remote_ip = 0, netif_idx = 0, so_options = 0, udp_tos = 0, udp_ttl = 0, udp_next = 0, udp_flags = 0,
     local_port = 0, remote_port = 0, recv = 0, recv_arg = 0\<rparr>"

definition udp_new :: "mem_cfg \<Rightarrow> memp_pools \<Rightarrow> udp_state \<Rightarrow> (addr \<times> memp_pools \<times> udp_state) option" where
  "udp_new c ps s =
     do {
       (p, ps) \<leftarrow> memp_malloc c MEMP_UDP_PCB ps;
       Some (p, ps, if p \<noteq> 0 then put_pcb p (zero_pcb\<lparr>udp_ttl := UDP_TTL\<rparr>) s else s)
     }"

definition udp_new_ip_type :: "mem_cfg \<Rightarrow> u8 \<Rightarrow> memp_pools \<Rightarrow> udp_state \<Rightarrow> (addr \<times> memp_pools \<times> udp_state) option" where
  "udp_new_ip_type c type ps s = udp_new c ps s"

partial_function (option) addr_changed_loop :: "ip4_addr \<Rightarrow> ip4_addr \<Rightarrow> addr \<Rightarrow> pcb_map \<Rightarrow> pcb_map option" where
  "addr_changed_loop old_addr new_addr p m =
     (if p \<noteq> 0 then
        do {
          pcb \<leftarrow> m p;
          let m = (if local_ip pcb = old_addr then m(p \<mapsto> pcb\<lparr>local_ip := new_addr\<rparr>) else m);
          addr_changed_loop old_addr new_addr (udp_next pcb) m
        }
      else Some m)"

definition udp_netif_ip_addr_changed :: "ip4_addr option \<Rightarrow> ip4_addr option \<Rightarrow> udp_state \<Rightarrow> udp_state option" where
  "udp_netif_ip_addr_changed old_addr new_addr s =
     (case (old_addr, new_addr) of
        (Some old, Some new) \<Rightarrow>
          if \<not> ip4_addr_isany_val old \<and> \<not> ip4_addr_isany_val new then
            do { m \<leftarrow> addr_changed_loop old new (udp_pcbs s) (udp_pcb_at s); Some (s\<lparr>udp_pcb_at := m\<rparr>) }
          else Some s
      | _ \<Rightarrow> Some s)"

declare port_in_use.simps [code] new_port_loop.simps [code] on_list.simps [code] bind_conflict.simps [code] find_pred.simps [code]
  addr_changed_loop.simps [code]

section \<open>The list of active pcbs\<close>

fun plist :: "pcb_map \<Rightarrow> addr \<Rightarrow> addr list \<Rightarrow> bool" where
  "plist m p [] \<longleftrightarrow> p = 0"
| "plist m p (x # xs) \<longleftrightarrow> p = x \<and> x \<noteq> 0 \<and> (\<exists>pcb. m x = Some pcb \<and> plist m (udp_next pcb) xs)"

abbreviation pcb_of :: "pcb_map \<Rightarrow> addr \<Rightarrow> udp_pcb" where
  "pcb_of m x \<equiv> the (m x)"

lemma plist_facts: "plist m p xs \<Longrightarrow> x \<in> set xs \<Longrightarrow> x \<noteq> 0 \<and> x \<in> dom m"
  by (induction xs arbitrary: p) auto

lemma plist_unique: "plist m p xs \<Longrightarrow> plist m p ys \<Longrightarrow> xs = ys"
  by (induction xs arbitrary: p ys) (case_tac ys; auto)+

lemma plist_suffix: "plist m p (xs @ y # ys) \<Longrightarrow> plist m y (y # ys)"
  by (induction xs arbitrary: p) auto

lemma plist_distinct: "plist m p xs \<Longrightarrow> distinct xs"
proof (induction xs arbitrary: p)
  case (Cons x xs)
  have "x \<notin> set xs"
  proof
    assume "x \<in> set xs"
    then obtain as bs where xs: "xs = as @ x # bs" by (meson split_list)
    then have "plist m x (x # bs)" using Cons.prems plist_suffix [of m p "x # as" x bs] by simp
    then have "bs = xs" using Cons.prems plist_unique [of m x "x # bs" "x # xs"] by simp
    then show False using arg_cong [OF xs, of length] by simp
  qed
  then show ?case using Cons by auto
qed simp

lemma plist_cong: "plist m p xs \<Longrightarrow> (\<And>x. x \<in> set xs \<Longrightarrow> map_option udp_next (m' x) = map_option udp_next (m x)) \<Longrightarrow> plist m' p xs"
  by (induction xs arbitrary: p) fastforce+

lemma port_in_use_spec: "plist m p xs \<Longrightarrow> port_in_use m port p = Some (\<exists>x\<in>set xs. local_port (pcb_of m x) = port)"
  by (induction xs arbitrary: p) (subst port_in_use.simps, auto)+

lemma on_list_spec: "plist m p xs \<Longrightarrow> on_list m pcb p = Some (pcb \<in> set xs)"
  by (induction xs arbitrary: p) (subst on_list.simps, auto)+

text \<open>Two bindings that exclude each other.\<close>

definition clash :: "ip4_addr \<Rightarrow> u16 \<Rightarrow> ip4_addr \<Rightarrow> u16 \<Rightarrow> bool" where
  "clash a port a' port' \<longleftrightarrow> port = port' \<and> (a = a' \<or> ip4_addr_isany_val a \<or> ip4_addr_isany_val a')"

lemma clash_sym: "clash a p a' p' = clash a' p' a p"
  by (auto simp: clash_def)

lemma bind_conflict_spec:
  "plist m p xs \<Longrightarrow> bind_conflict m pcb a port p =
     Some (\<exists>x\<in>set xs. x \<noteq> pcb \<and> clash a port (local_ip (pcb_of m x)) (local_port (pcb_of m x)))"
  by (induction xs arbitrary: p) (subst bind_conflict.simps, auto simp: clash_def)+

section \<open>A new local port\<close>

text \<open>The ports of the dynamic range, in the cyclic order of the search.\<close>

definition nth_port :: "nat \<Rightarrow> u16" where
  "nth_port i = UDP_LOCAL_PORT_RANGE_START + of_nat (i mod 16384)"

lemma unat_nth_port: "unat (nth_port i) = 49152 + i mod 16384"
proof -
  have i: "i mod 16384 < 16384" by simp
  have "unat (of_nat (i mod 16384) :: u16) = i mod 16384" using i by (simp add: unat_of_nat)
  then have "unat (UDP_LOCAL_PORT_RANGE_START + of_nat (i mod 16384)) = 49152 + i mod 16384"
    by (subst unat_add_lem [THEN iffD1]) (simp_all add: UDP_LOCAL_PORT_RANGE_START_def)
  then show ?thesis by (simp add: nth_port_def)
qed

lemma next_port:
  "(if nth_port i = UDP_LOCAL_PORT_RANGE_END then UDP_LOCAL_PORT_RANGE_START else nth_port i + 1) = nth_port (Suc i)"
proof (cases "i mod 16384 = 16383")
  case True
  then have "nth_port i = UDP_LOCAL_PORT_RANGE_END" "nth_port (Suc i) = UDP_LOCAL_PORT_RANGE_START"
    by (simp_all add: nth_port_def UDP_LOCAL_PORT_RANGE_START_def UDP_LOCAL_PORT_RANGE_END_def mod_Suc)
  then show ?thesis by simp
next
  case False
  then have "nth_port i \<noteq> UDP_LOCAL_PORT_RANGE_END" using unat_nth_port [of i] by (auto simp: UDP_LOCAL_PORT_RANGE_END_def)
  moreover have "Suc i mod 16384 = Suc (i mod 16384)" using False by (simp add: mod_Suc)
  ultimately show ?thesis by (simp add: nth_port_def)
qed

lemma nth_port_range: "UDP_LOCAL_PORT_RANGE_START \<le> nth_port i"
  using unat_nth_port [of i] by (simp add: word_le_nat_alt UDP_LOCAL_PORT_RANGE_START_def)

lemma nth_port_onto: "UDP_LOCAL_PORT_RANGE_START \<le> p \<Longrightarrow> nth_port (unat p - 49152) = p"
proof -
  assume p: "UDP_LOCAL_PORT_RANGE_START \<le> p"
  have "unat p < 65536" using unsigned_less [of p] by simp
  moreover have "49152 \<le> unat p" using p by (simp add: word_le_nat_alt UDP_LOCAL_PORT_RANGE_START_def)
  ultimately have "unat (nth_port (unat p - 49152)) = unat p" by (simp add: unat_nth_port)
  then show ?thesis by (simp add: unsigned_word_eqI)
qed

text \<open>After \<open>n\<close> collisions the last \<open>n\<close> ports are known to be in use.\<close>

lemma new_port_loop_spec:
  fixes m xs
  defines "used \<equiv> (\<lambda>x. local_port (pcb_of m x)) ` set xs"
  assumes ps: "plist m p xs" and n: "n < 16384" "\<forall>k<n. nth_port (i - k) \<in> used" "n \<le> i"
  shows "\<exists>r j. new_port_loop m p (of_nat n) (nth_port i) = Some (r, nth_port j) \<and>
    (r = nth_port j \<and> r \<notin> used \<or> r = 0 \<and> (\<forall>k. nth_port k \<in> used))"
  using n
proof (induction "16384 - n" arbitrary: n i rule: less_induct)
  case less
  have iu: "port_in_use m (nth_port (Suc i)) p = Some (nth_port (Suc i) \<in> used)"
    using port_in_use_spec [OF ps] by (simp add: used_def image_iff eq_commute)
  have n: "unat (of_nat n + 1 :: u16) = Suc n"
  proof -
    have "(of_nat n + 1 :: u16) = of_nat (Suc n)" by simp
    then show ?thesis using less.prems(1) by (simp only: unat_of_nat) simp
  qed
  then have gt: "of_nat n + 1 > UDP_LOCAL_PORT_RANGE_END - UDP_LOCAL_PORT_RANGE_START \<longleftrightarrow> 16383 < Suc n"
    by (simp add: word_less_nat_alt UDP_LOCAL_PORT_RANGE_START_def UDP_LOCAL_PORT_RANGE_END_def)
  note step = new_port_loop.simps [of m p "of_nat n" "nth_port i", unfolded next_port Let_def]
  consider "nth_port (Suc i) \<notin> used" | "nth_port (Suc i) \<in> used" "n = 16383" | "nth_port (Suc i) \<in> used" "n < 16383"
    using less.prems(1) by linarith
  then show ?case
  proof cases
    case 1
    then show ?thesis using step iu by auto
  next
    case 2
    have "nth_port k \<in> used" for k
    proof -
      define b d where "b = k mod 16384" "d = (Suc i - b) mod 16384"
      have b: "b < 16384" "d < 16384" by (simp_all add: b_d_def)
      have "Suc i - b = (Suc i - b) div 16384 * 16384 + d" by (simp add: b_d_def)
      then have "Suc i - d = (Suc i - b) div 16384 * 16384 + b" using b 2(2) less.prems(3) by linarith
      then have "(Suc i - d) mod 16384 = k mod 16384" using b by (simp add: b_d_def)
      then have "nth_port (Suc i - d) = nth_port k" by (simp add: nth_port_def)
      moreover have "nth_port (Suc i - d) \<in> used" using 2 b less.prems(2) by (cases d) auto
      ultimately show ?thesis by simp
    qed
    then show ?thesis using step iu gt 2 by auto
  next
    case 3
    have "nth_port (Suc i - k) \<in> used" if "k < Suc n" for k
      using that 3 less.prems(2) by (cases k) auto
    then show ?thesis using less.hyps [of "Suc n" "Suc i"] step iu gt 3 less.prems(3) by (auto simp: add.commute)
  qed
qed

definition port_free :: "pcb_map \<Rightarrow> addr list \<Rightarrow> u16 \<Rightarrow> bool" where
  "port_free m xs port \<longleftrightarrow> UDP_LOCAL_PORT_RANGE_START \<le> port \<and> (\<forall>x\<in>set xs. local_port (pcb_of m x) \<noteq> port)"

lemma udp_new_port_spec:
  assumes ps: "plist (udp_pcb_at s) (udp_pcbs s) xs" and r: "UDP_LOCAL_PORT_RANGE_START \<le> udp_port s"
  shows "\<exists>r port. udp_new_port s = Some (r, s\<lparr>udp_port := port\<rparr>) \<and> UDP_LOCAL_PORT_RANGE_START \<le> port \<and>
    (if \<exists>q. port_free (udp_pcb_at s) xs q then port_free (udp_pcb_at s) xs r else r = 0)"
proof -
  let ?used = "(\<lambda>x. local_port (pcb_of (udp_pcb_at s) x)) ` set xs"
  obtain r j where l: "new_port_loop (udp_pcb_at s) (udp_pcbs s) 0 (udp_port s) = Some (r, nth_port j)"
    "r = nth_port j \<and> r \<notin> ?used \<or> r = 0 \<and> (\<forall>k. nth_port k \<in> ?used)"
    using new_port_loop_spec [OF ps, of 0 "unat (udp_port s) - 49152"] nth_port_onto [OF r] by auto
  have free: "port_free (udp_pcb_at s) xs q \<longleftrightarrow> UDP_LOCAL_PORT_RANGE_START \<le> q \<and> q \<notin> ?used" for q
    by (auto simp: port_free_def)
  have "if \<exists>q. port_free (udp_pcb_at s) xs q then port_free (udp_pcb_at s) xs r else r = 0"
    using l(2)
  proof
    assume "r = nth_port j \<and> r \<notin> ?used"
    then have "port_free (udp_pcb_at s) xs r" using nth_port_range free by metis
    then show ?thesis by auto
  next
    assume r: "r = 0 \<and> (\<forall>k. nth_port k \<in> ?used)"
    then have "\<not> port_free (udp_pcb_at s) xs q" for q using nth_port_onto [of q] free by metis
    then show ?thesis using r by simp
  qed
  then show ?thesis using l(1) nth_port_range by (auto simp: udp_new_port_def)
qed

section \<open>Well-formed control blocks\<close>

text \<open>
  The active pcbs are exactly those with a local port, and no two of them have bindings that exclude each other.
\<close>

definition udp_wf :: "udp_state \<Rightarrow> addr list \<Rightarrow> bool" where
  "udp_wf s xs \<longleftrightarrow>
     plist (udp_pcb_at s) (udp_pcbs s) xs \<and> UDP_LOCAL_PORT_RANGE_START \<le> udp_port s \<and>
     (\<forall>x\<in>dom (udp_pcb_at s). x \<noteq> 0 \<and> (x \<in> set xs \<longleftrightarrow> local_port (pcb_of (udp_pcb_at s) x) \<noteq> 0)) \<and>
     (\<forall>x\<in>set xs. \<forall>y\<in>set xs. x \<noteq> y \<longrightarrow>
        \<not> clash (local_ip (pcb_of (udp_pcb_at s) x)) (local_port (pcb_of (udp_pcb_at s) x))
          (local_ip (pcb_of (udp_pcb_at s) y)) (local_port (pcb_of (udp_pcb_at s) y)))"

lemma udp_wfD:
  assumes "udp_wf s xs"
  shows "plist (udp_pcb_at s) (udp_pcbs s) xs" "UDP_LOCAL_PORT_RANGE_START \<le> udp_port s"
    "\<And>x. udp_pcb_at s x \<noteq> None \<Longrightarrow> x \<noteq> 0 \<and> (x \<in> set xs \<longleftrightarrow> local_port (pcb_of (udp_pcb_at s) x) \<noteq> 0)"
    "\<And>x y. x \<in> set xs \<Longrightarrow> y \<in> set xs \<Longrightarrow> x \<noteq> y \<Longrightarrow>
       \<not> clash (local_ip (pcb_of (udp_pcb_at s) x)) (local_port (pcb_of (udp_pcb_at s) x))
          (local_ip (pcb_of (udp_pcb_at s) y)) (local_port (pcb_of (udp_pcb_at s) y))"
  using assms by (auto simp: udp_wf_def)

lemma put_pcb_simps [simp]:
  "udp_pcb_at (put_pcb p b s) = (udp_pcb_at s)(p \<mapsto> b)" "udp_pcbs (put_pcb p b s) = udp_pcbs s" "udp_port (put_pcb p b s) = udp_port s"
  by (simp_all add: put_pcb_def)

text \<open>Changing fields of a pcb that do not concern its binding.\<close>

lemma udp_wf_put:
  assumes wf: "udp_wf s xs" and p: "udp_pcb_at s p = Some pcb"
    and b: "local_ip b = local_ip pcb" "local_port b = local_port pcb" "udp_next b = udp_next pcb"
  shows "udp_wf (put_pcb p b s) xs"
proof -
  have "plist (udp_pcb_at (put_pcb p b s)) (udp_pcbs s) xs"
    by (rule plist_cong [OF udp_wfD(1) [OF wf]]) (simp add: p b)
  moreover have "local_ip (pcb_of (udp_pcb_at (put_pcb p b s)) x) = local_ip (pcb_of (udp_pcb_at s) x)"
    "local_port (pcb_of (udp_pcb_at (put_pcb p b s)) x) = local_port (pcb_of (udp_pcb_at s) x)" for x
    using p b by simp_all
  moreover have "dom (udp_pcb_at (put_pcb p b s)) = dom (udp_pcb_at s)" using p by auto
  ultimately show ?thesis using wf unfolding udp_wf_def by simp
qed

text \<open>Binding a pcb that is on the list, or putting it there.\<close>

definition relist :: "addr \<Rightarrow> addr list \<Rightarrow> addr list" where
  "relist p xs = (if p \<in> set xs then xs else p # xs)"

definition bound :: "addr \<Rightarrow> ip4_addr \<Rightarrow> u16 \<Rightarrow> addr list \<Rightarrow> udp_state \<Rightarrow> udp_state" where
  "bound p a port xs s =
     (let pcb = (pcb_of (udp_pcb_at s) p)\<lparr>local_ip := a, local_port := port\<rparr> in
      if p \<in> set xs then put_pcb p pcb s
      else (put_pcb p (pcb\<lparr>udp_next := udp_pcbs s\<rparr>) s)\<lparr>udp_pcbs := p\<rparr>)"

lemma bound_fields:
  "udp_port (bound p a port xs s) = udp_port s" "udp_pcbs (bound p a port xs s) = (if p \<in> set xs then udp_pcbs s else p)"
  "udp_pcb_at (bound p a port xs s) = (udp_pcb_at s)(p \<mapsto> (pcb_of (udp_pcb_at s) p)\<lparr>local_ip := a, local_port := port,
     udp_next := (if p \<in> set xs then udp_next (pcb_of (udp_pcb_at s) p) else udp_pcbs s)\<rparr>)"
  by (simp_all add: bound_def Let_def)

lemma plist_put:
  assumes "plist m q xs" "p \<in> set xs \<Longrightarrow> udp_next b = udp_next (pcb_of m p)"
  shows "plist (m(p \<mapsto> b)) q xs"
  using plist_facts [OF assms(1), of p] assms(2) by (intro plist_cong [OF assms(1)]) auto

lemma bound_wf:
  assumes wf: "udp_wf s xs" and p: "udp_pcb_at s p \<noteq> None" and port: "port \<noteq> 0"
    and ok: "\<And>x. x \<in> set xs \<Longrightarrow> x \<noteq> p \<Longrightarrow> \<not> clash a port (local_ip (pcb_of (udp_pcb_at s) x)) (local_port (pcb_of (udp_pcb_at s) x))"
  shows "udp_wf (bound p a port xs s) (relist p xs)"
proof -
  note w = udp_wfD [OF wf]
  have "plist (udp_pcb_at (bound p a port xs s)) (udp_pcbs (bound p a port xs s)) (relist p xs)"
    using w(1) w(3) [OF p] unfolding bound_fields relist_def by (auto intro!: plist_put)
  moreover have "x \<noteq> 0 \<and> (x \<in> set (relist p xs) \<longleftrightarrow> local_port (pcb_of (udp_pcb_at (bound p a port xs s)) x) \<noteq> 0)"
    if "x \<in> dom (udp_pcb_at (bound p a port xs s))" for x
    using that w(3) [of x] w(3) [OF p] port by (auto simp: bound_fields relist_def dom_def split: if_splits)
  moreover have "\<not> clash (local_ip (pcb_of (udp_pcb_at (bound p a port xs s)) x)) (local_port (pcb_of (udp_pcb_at (bound p a port xs s)) x))
      (local_ip (pcb_of (udp_pcb_at (bound p a port xs s)) y)) (local_port (pcb_of (udp_pcb_at (bound p a port xs s)) y))"
    if "x \<in> set (relist p xs)" "y \<in> set (relist p xs)" "x \<noteq> y" for x y
    using that ok w(4) clash_sym by (auto simp: bound_fields relist_def split: if_splits)
  ultimately show ?thesis using w(2) by (auto simp: udp_wf_def bound_fields)
qed

section \<open>Binding\<close>

definition bind_addr :: "ip4_addr option \<Rightarrow> ip4_addr" where
  "bind_addr ipaddr = (case ipaddr of None \<Rightarrow> IPADDR_ANY | Some a \<Rightarrow> a)"

lemma port_free_ok: "port_free m xs port \<Longrightarrow> port \<noteq> 0 \<and> (\<forall>x\<in>set xs. \<not> clash a port (local_ip (pcb_of m x)) (local_port (pcb_of m x)))"
  by (auto simp: port_free_def clash_def UDP_LOCAL_PORT_RANGE_START_def)

lemma udp_bind_push:
  assumes wf: "udp_wf s xs" and p: "udp_pcb_at s p \<noteq> None" and ch: "choose_port p (bind_addr ipaddr) port s = Some (Inr q, s\<lparr>udp_port := u\<rparr>)"
  shows "udp_bind p ipaddr port s = Some (ERR_OK, bound p (bind_addr ipaddr) q xs (s\<lparr>udp_port := u\<rparr>))"
proof -
  have "on_list (udp_pcb_at s) p (udp_pcbs s) = Some (p \<in> set xs)" by (rule on_list_spec [OF udp_wfD(1) [OF wf]])
  then show ?thesis using ch p udp_wfD(3) [OF wf p]
    by (auto simp: udp_bind_def bind_addr_def [symmetric] Let_def bound_def push_pcb_def put_pcb_def)
qed

lemma udp_wf_port: "udp_wf s xs \<Longrightarrow> UDP_LOCAL_PORT_RANGE_START \<le> u \<Longrightarrow> udp_wf (s\<lparr>udp_port := u\<rparr>) xs"
  by (simp add: udp_wf_def)

lemma udp_bind_zero:
  assumes wf: "udp_wf s xs" and p: "udp_pcb_at s p \<noteq> None"
  shows "\<exists>u. UDP_LOCAL_PORT_RANGE_START \<le> u \<and> (if \<exists>q. port_free (udp_pcb_at s) xs q
    then \<exists>q. port_free (udp_pcb_at s) xs q \<and> udp_bind p ipaddr 0 s = Some (ERR_OK, bound p (bind_addr ipaddr) q xs (s\<lparr>udp_port := u\<rparr>))
    else udp_bind p ipaddr 0 s = Some (ERR_USE, s\<lparr>udp_port := u\<rparr>))"
proof -
  obtain q u where n: "udp_new_port s = Some (q, s\<lparr>udp_port := u\<rparr>)" "UDP_LOCAL_PORT_RANGE_START \<le> u"
    "if \<exists>q. port_free (udp_pcb_at s) xs q then port_free (udp_pcb_at s) xs q else q = 0"
    using udp_new_port_spec [OF udp_wfD(1,2) [OF wf]] by blast
  show ?thesis
  proof (cases "\<exists>q. port_free (udp_pcb_at s) xs q")
    case True
    then have f: "port_free (udp_pcb_at s) xs q" using n(3) by simp
    then have "choose_port p (bind_addr ipaddr) 0 s = Some (Inr q, s\<lparr>udp_port := u\<rparr>)"
      using n(1) port_free_ok [OF f] by (simp add: choose_port_def)
    then show ?thesis using udp_bind_push [OF wf p] True f n(2) by auto
  next
    case False
    then have "choose_port p (bind_addr ipaddr) 0 s = Some (Inl ERR_USE, s\<lparr>udp_port := u\<rparr>)"
      using n by (simp add: choose_port_def)
    then have "udp_bind p ipaddr 0 s = Some (ERR_USE, s\<lparr>udp_port := u\<rparr>)"
      using on_list_spec [OF udp_wfD(1) [OF wf]] udp_wfD(3) [OF wf p] by (simp add: udp_bind_def bind_addr_def [symmetric] Let_def)
    then show ?thesis using False n(2) by auto
  qed
qed

lemma udp_bind_port:
  assumes wf: "udp_wf s xs" and p: "udp_pcb_at s p \<noteq> None" and port: "port \<noteq> 0"
  shows "udp_bind p ipaddr port s =
    (if \<exists>x\<in>set xs. x \<noteq> p \<and> clash (bind_addr ipaddr) port (local_ip (pcb_of (udp_pcb_at s) x)) (local_port (pcb_of (udp_pcb_at s) x))
     then Some (ERR_USE, s) else Some (ERR_OK, bound p (bind_addr ipaddr) port xs s))" (is "_ = (if ?c then _ else _)")
proof -
  have bc: "bind_conflict (udp_pcb_at s) p (bind_addr ipaddr) port (udp_pcbs s) = Some ?c"
    by (rule bind_conflict_spec [OF udp_wfD(1) [OF wf]])
  show ?thesis
  proof (cases ?c)
    case True
    then have "choose_port p (bind_addr ipaddr) port s = Some (Inl ERR_USE, s)" unfolding choose_port_def bc using port by simp
    then show ?thesis using True on_list_spec [OF udp_wfD(1) [OF wf]] udp_wfD(3) [OF wf p]
      by (simp add: udp_bind_def bind_addr_def [symmetric] Let_def)
  next
    case False
    then have "choose_port p (bind_addr ipaddr) port s = Some (Inr port, s\<lparr>udp_port := udp_port s\<rparr>)"
      unfolding choose_port_def bc using port by simp
    then have "udp_bind p ipaddr port s = Some (ERR_OK, bound p (bind_addr ipaddr) port xs (s\<lparr>udp_port := udp_port s\<rparr>))"
      by (rule udp_bind_push [OF wf p])
    then show ?thesis unfolding if_not_P [OF False] by simp
  qed
qed

text \<open>In all cases the result is well-formed again.\<close>

lemma udp_bind_wf:
  assumes wf: "udp_wf s xs" and p: "udp_pcb_at s p \<noteq> None"
  shows "\<exists>r s'. udp_bind p ipaddr port s = Some (r, s') \<and> dom (udp_pcb_at s') = dom (udp_pcb_at s) \<and>
    udp_wf s' (if r = ERR_OK then relist p xs else xs)"
proof (cases "port = 0")
  case True
  obtain u where u: "UDP_LOCAL_PORT_RANGE_START \<le> u" "if \<exists>q. port_free (udp_pcb_at s) xs q
    then \<exists>q. port_free (udp_pcb_at s) xs q \<and> udp_bind p ipaddr 0 s = Some (ERR_OK, bound p (bind_addr ipaddr) q xs (s\<lparr>udp_port := u\<rparr>))
    else udp_bind p ipaddr 0 s = Some (ERR_USE, s\<lparr>udp_port := u\<rparr>)"
    using udp_bind_zero [OF wf p] by blast
  have wu: "udp_wf (s\<lparr>udp_port := u\<rparr>) xs" by (rule udp_wf_port [OF wf u(1)])
  show ?thesis
  proof (cases "\<exists>q. port_free (udp_pcb_at s) xs q")
    case t: True
    then obtain q where q: "port_free (udp_pcb_at s) xs q" "udp_bind p ipaddr 0 s = Some (ERR_OK, bound p (bind_addr ipaddr) q xs (s\<lparr>udp_port := u\<rparr>))"
      using u(2) by auto
    then have "udp_wf (bound p (bind_addr ipaddr) q xs (s\<lparr>udp_port := u\<rparr>)) (relist p xs)"
      using port_free_ok [OF q(1)] p by (intro bound_wf [OF wu]) auto
    then show ?thesis using q(2) True p by (auto simp: bound_fields)
  next
    case False
    then show ?thesis using u(2) True wu by auto
  qed
next
  case False
  show ?thesis using udp_bind_port [OF wf p False, of ipaddr] wf bound_wf [OF wf p False, of "bind_addr ipaddr"] p
    by (auto simp: bound_fields)
qed

section \<open>The other operations\<close>

lemma udp_bind_keeps:
  "udp_bind p ipaddr port s = Some (r, s') \<Longrightarrow> x \<noteq> p \<Longrightarrow> udp_pcb_at s' x = udp_pcb_at s x"
  by (auto simp: udp_bind_def Let_def choose_port_def udp_new_port_def push_pcb_def split: Option.bind_splits if_splits sum.splits prod.splits)

lemma udp_connect_wf:
  assumes wf: "udp_wf s xs" and p: "udp_pcb_at s p \<noteq> None"
  shows "\<exists>r s'. udp_connect p (Some a) port s = Some (r, s') \<and> dom (udp_pcb_at s') = dom (udp_pcb_at s) \<and>
    udp_wf s' (if r = ERR_OK then relist p xs else xs) \<and>
    (r = ERR_OK \<longrightarrow> (\<exists>pcb. udp_pcb_at s' p = Some pcb \<and> remote_ip pcb = a \<and> remote_port pcb = port \<and>
       udp_flags pcb AND UDP_FLAGS_CONNECTED \<noteq> 0 \<and> local_port pcb \<noteq> 0))"
proof -
  obtain pcb where pcb: "udp_pcb_at s p = Some pcb" using p by auto
  let ?con = "\<lambda>pcb. pcb\<lparr>remote_ip := a, remote_port := port, udp_flags := udp_flags pcb OR UDP_FLAGS_CONNECTED\<rparr>"
  have fl: "(w OR UDP_FLAGS_CONNECTED) AND UDP_FLAGS_CONNECTED \<noteq> 0" for w
  proof -
    have "(w OR UDP_FLAGS_CONNECTED) AND UDP_FLAGS_CONNECTED = UDP_FLAGS_CONNECTED"
      by (rule bit_word_eqI) (auto simp: bit_or_iff bit_and_iff)
    then show ?thesis by (simp add: UDP_FLAGS_CONNECTED_def)
  qed
  have p0: "p \<noteq> 0" using udp_wfD(3) [OF wf p] by simp
  obtain r s1 where b: "(if local_port pcb = 0 then udp_bind p (Some (local_ip pcb)) (local_port pcb) s else Some (ERR_OK, s)) = Some (r, s1)"
    "dom (udp_pcb_at s1) = dom (udp_pcb_at s)" "udp_wf s1 (if r = ERR_OK then relist p xs else xs)"
    using udp_bind_wf [OF wf p, of "Some (local_ip pcb)" 0] udp_wfD(3) [OF wf p] pcb wf
    by (cases "local_port pcb = 0") (auto simp: relist_def)
  show ?thesis
  proof (cases "r = ERR_OK")
    case False
    then show ?thesis using b pcb p0 by (auto simp: udp_connect_def)
  next
    case True
    obtain pcb1 where p1: "udp_pcb_at s1 p = Some pcb1" using b(2) p by auto
    have wf1: "udp_wf s1 (relist p xs)" using b(3) True by simp
    have wf2: "udp_wf (put_pcb p (?con pcb1) s1) (relist p xs)" by (rule udp_wf_put [OF wf1 p1]) simp_all
    have "p \<in> set (relist p xs)" by (simp add: relist_def)
    then have "on_list (udp_pcb_at (put_pcb p (?con pcb1) s1)) p (udp_pcbs s1) = Some True" "local_port pcb1 \<noteq> 0"
      using on_list_spec [OF udp_wfD(1) [OF wf2], of p] udp_wfD(3) [OF wf1, of p] p1 by simp_all
    then have "udp_connect p (Some a) port s = Some (ERR_OK, put_pcb p (?con pcb1) s1)" "local_port pcb1 \<noteq> 0"
      using b(1) pcb p0 True p1 by (simp_all add: udp_connect_def)
    then show ?thesis using wf2 b(2) p fl by auto
  qed
qed

lemma find_pred_spec:
  assumes "plist m q xs" "p \<noteq> q"
  shows "if p \<in> set xs then \<exists>ys x zs. xs = ys @ x # p # zs \<and> find_pred m p q = Some x else find_pred m p q = Some 0 \<or> p = 0"
  using assms
proof (induction xs arbitrary: q)
  case Nil
  then show ?case by (simp add: find_pred.simps)
next
  case (Cons x xs)
  then obtain pcb where x: "m x = Some pcb" "plist m (udp_next pcb) xs" "q = x" "x \<noteq> 0" by auto
  show ?case
  proof (cases "udp_next pcb = p \<and> p \<noteq> 0")
    case True
    then obtain zs where zs: "xs = p # zs" using x(2) by (cases xs) auto
    have "find_pred m p q = Some x" using x True by (simp add: find_pred.simps)
    then show ?thesis using zs by (metis append_Nil list.set_intros)
  next
    case False
    then have st: "find_pred m p q = find_pred m p (udp_next pcb)" using x by (subst find_pred.simps) auto
    have "p \<noteq> x" using Cons.prems(2) x(3) by simp
    show ?thesis
    proof (cases "p = 0")
      case True
      then show ?thesis using plist_facts [OF Cons.prems(1), of 0] by auto
    next
      case p: False
      then have "p \<noteq> udp_next pcb" using False by auto
      then show ?thesis using Cons.IH [OF x(2)] st \<open>p \<noteq> x\<close> p by (auto split: if_splits) (metis append_Cons)
    qed
  qed
qed

lemma plist_upd: "x \<notin> set xs \<Longrightarrow> plist (m(x := v)) q xs = plist m q xs"
  by (induction xs arbitrary: q) auto

lemma plist_unlink:
  assumes "plist m q (ys @ x # p # zs)" "distinct (ys @ x # p # zs)" "m x = Some b" "m p = Some pcb"
  shows "plist (m(x \<mapsto> b\<lparr>udp_next := udp_next pcb\<rparr>)) q (ys @ x # zs)"
  using assms by (induction ys arbitrary: q) (auto simp: plist_upd)

text \<open>What is left when \<open>p\<close> is gone.\<close>

lemma unlink_pcb_spec:
  assumes ps: "plist (udp_pcb_at s) (udp_pcbs s) xs" and p: "udp_pcb_at s p \<noteq> None" "p \<noteq> 0"
  shows "\<exists>s'. unlink_pcb p s = Some s' \<and> plist (udp_pcb_at s') (udp_pcbs s') (remove1 p xs) \<and> udp_port s' = udp_port s \<and>
    (\<forall>x. map_option (udp_next_update (\<lambda>_. 0)) (udp_pcb_at s' x) = map_option (udp_next_update (\<lambda>_. 0)) (udp_pcb_at s x))"
proof (cases "udp_pcbs s = p")
  case True
  then obtain zs where "xs = p # zs" using ps p(2) by (cases xs) auto
  then show ?thesis using True ps by (auto simp: unlink_pcb_def)
next
  case False
  note d = plist_distinct [OF ps]
  show ?thesis
  proof (cases "p \<in> set xs")
    case listed: True
    then obtain ys x zs where xs: "xs = ys @ x # p # zs" and f: "find_pred (udp_pcb_at s) p (udp_pcbs s) = Some x"
      using find_pred_spec [OF ps, of p] False by auto
    then obtain b pcb where m: "udp_pcb_at s x = Some b" "udp_pcb_at s p = Some pcb" "x \<noteq> 0"
      using plist_facts [OF ps, of x] p by auto
    have r: "remove1 p xs = ys @ x # zs" using d xs by (auto simp: remove1_append)
    have "unlink_pcb p s = Some (put_pcb x (b\<lparr>udp_next := udp_next pcb\<rparr>) s)" using False f m by (simp add: unlink_pcb_def)
    then show ?thesis using plist_unlink [OF ps [unfolded xs] d [unfolded xs] m(1,2)] m by (simp add: r)
  next
    case out: False
    then have "unlink_pcb p s = Some s" using find_pred_spec [OF ps, of p] False p(2) by (auto simp: unlink_pcb_def)
    then show ?thesis using ps out by (simp add: remove1_idem)
  qed
qed

lemma same_but_next:
  assumes "map_option (udp_next_update (\<lambda>_. 0)) (m' x) = map_option (udp_next_update (\<lambda>_. 0)) (m x)" "m x = Some b"
  shows "\<exists>b'. m' x = Some b' \<and> local_ip b' = local_ip b \<and> local_port b' = local_port b"
proof -
  obtain b' where b': "m' x = Some b'" "b'\<lparr>udp_next := 0\<rparr> = b\<lparr>udp_next := 0\<rparr>" using assms by (cases "m' x") auto
  then show ?thesis by (metis udp_pcb.select_convs(1,9) udp_pcb.surjective udp_pcb.update_convs(7))
qed

lemma udp_wf_removed:
  assumes wf: "udp_wf s xs" and pl: "plist (udp_pcb_at s') (udp_pcbs s') (remove1 p xs)" "udp_port s' = udp_port s"
    and eq: "\<And>x. map_option (udp_next_update (\<lambda>_. 0)) (udp_pcb_at s' x) = map_option (udp_next_update (\<lambda>_. 0)) (udp_pcb_at s x)"
  shows "udp_wf (s'\<lparr>udp_pcb_at := (udp_pcb_at s')(p := None)\<rparr>) (remove1 p xs)"
proof -
  note w = udp_wfD [OF wf]
  have d: "distinct xs" by (rule plist_distinct [OF w(1)])
  then have np: "p \<notin> set (remove1 p xs)" by simp
  have same: "local_ip (pcb_of (udp_pcb_at s') x) = local_ip (pcb_of (udp_pcb_at s) x)"
    "local_port (pcb_of (udp_pcb_at s') x) = local_port (pcb_of (udp_pcb_at s) x)" if "udp_pcb_at s x \<noteq> None" for x
    using same_but_next [of "udp_pcb_at s'" x "udp_pcb_at s", OF eq] that by auto
  have dom: "udp_pcb_at s' x \<noteq> None \<longleftrightarrow> udp_pcb_at s x \<noteq> None" for x using eq [of x] by (cases "udp_pcb_at s x"; cases "udp_pcb_at s' x") auto
  have "x \<noteq> 0 \<and> (x \<in> set (remove1 p xs) \<longleftrightarrow> local_port (pcb_of ((udp_pcb_at s')(p := None)) x) \<noteq> 0)"
    if "x \<in> dom ((udp_pcb_at s')(p := None))" for x
  proof -
    have "x \<noteq> p" "udp_pcb_at s x \<noteq> None" using that dom [of x] by (auto split: if_splits)
    then show ?thesis using w(3) [of x] same [of x] d by simp
  qed
  moreover have "\<not> clash (local_ip (pcb_of ((udp_pcb_at s')(p := None)) x)) (local_port (pcb_of ((udp_pcb_at s')(p := None)) x))
      (local_ip (pcb_of ((udp_pcb_at s')(p := None)) y)) (local_port (pcb_of ((udp_pcb_at s')(p := None)) y))"
    if "x \<in> set (remove1 p xs)" "y \<in> set (remove1 p xs)" "x \<noteq> y" for x y
  proof -
    have "x \<in> set xs" "y \<in> set xs" "x \<noteq> p" "y \<noteq> p" using that d by auto
    moreover from this have "udp_pcb_at s x \<noteq> None" "udp_pcb_at s y \<noteq> None" using plist_facts [OF w(1)] by auto
    ultimately show ?thesis using w(4) [of x y] that(3) by (simp add: same)
  qed
  ultimately show ?thesis using pl w(2) np by (simp add: udp_wf_def plist_upd)
qed

section \<open>Sequences of calls\<close>

text \<open>The calls of an application on the control blocks.\<close>

datatype udp_call =
    New
  | Bind addr "ip4_addr option" u16
  | Bind_Netif addr "netif option"
  | Connect addr ip4_addr u16
  | Disconnect addr
  | Recv addr addr addr
  | Remove addr

fun pcb_arg :: "udp_call \<Rightarrow> addr option" where
  "pcb_arg New = None"
| "pcb_arg (Bind p a port) = Some p"
| "pcb_arg (Bind_Netif p n) = Some p"
| "pcb_arg (Connect p a port) = Some p"
| "pcb_arg (Disconnect p) = Some p"
| "pcb_arg (Recv p f a) = Some p"
| "pcb_arg (Remove p) = Some p"

fun do_call :: "mem_cfg \<Rightarrow> udp_call \<Rightarrow> memp_pools \<times> udp_state \<Rightarrow> (memp_pools \<times> udp_state) option" where
  "do_call c New (ps, s) = do { (_, ps, s) \<leftarrow> udp_new c ps s; Some (ps, s) }"
| "do_call c (Bind p a port) (ps, s) = do { (_, s) \<leftarrow> udp_bind p a port s; Some (ps, s) }"
| "do_call c (Bind_Netif p n) (ps, s) = do { s \<leftarrow> udp_bind_netif p n s; Some (ps, s) }"
| "do_call c (Connect p a port) (ps, s) = do { (_, s) \<leftarrow> udp_connect p (Some a) port s; Some (ps, s) }"
| "do_call c (Disconnect p) (ps, s) = do { s \<leftarrow> udp_disconnect p s; Some (ps, s) }"
| "do_call c (Recv p f a) (ps, s) = do { s \<leftarrow> udp_recv p f a s; Some (ps, s) }"
| "do_call c (Remove p) (ps, s) = udp_remove c p ps s"

text \<open>A call is made on a pcb that exists.\<close>

definition legal :: "udp_call \<Rightarrow> udp_state \<Rightarrow> bool" where
  "legal call s \<longleftrightarrow> (case pcb_arg call of None \<Rightarrow> True | Some p \<Rightarrow> udp_pcb_at s p \<noteq> None)"

definition udp_inv :: "mem_cfg \<Rightarrow> memp_desc \<Rightarrow> memp_pools \<times> udp_state \<Rightarrow> bool" where
  "udp_inv c desc = (\<lambda>(ps, s). desc_ok c desc \<and> (\<exists>xs free. udp_wf s xs \<and> pool_rep c desc (ps MEMP_UDP_PCB) free \<and>
     dom (udp_pcb_at s) = elems c desc - set free))"

lemma udp_new_inv:
  assumes "udp_inv c desc (ps, s)"
  shows "\<exists>p ps' s'. udp_new c ps s = Some (p, ps', s') \<and> udp_inv c desc (ps', s') \<and>
    (p \<noteq> 0 \<longrightarrow> udp_pcb_at s p = None \<and> udp_pcb_at s' p = Some (zero_pcb\<lparr>udp_ttl := UDP_TTL\<rparr>))"
proof -
  obtain xs free where d: "desc_ok c desc" and i: "udp_wf s xs" "pool_rep c desc (ps MEMP_UDP_PCB) free" "dom (udp_pcb_at s) = elems c desc - set free"
    using assms by (auto simp: udp_inv_def)
  show ?thesis
  proof (cases free)
    case Nil
    then have "udp_new c ps s = Some (0, ps, s)"
      using memp_malloc_Nil [of c desc "ps MEMP_UDP_PCB"] i(2) by (simp add: udp_new_def memp_malloc_def)
    then show ?thesis using assms by auto
  next
    case (Cons p ys)
    then obtain pool' where m: "do_memp_malloc_pool c (ps MEMP_UDP_PCB) = Some (p, pool')" "pool_rep c desc pool' ys"
      using memp_malloc_Cons [OF d] i(2) by blast
    have p: "p \<in> elems c desc" "p \<notin> set ys" "p \<noteq> 0" "udp_pcb_at s p = None"
      using i(2,3) Cons elem_facts(1) [OF d, of p] by (auto simp: pool_rep_def)
    let ?b = "zero_pcb\<lparr>udp_ttl := UDP_TTL\<rparr>"
    have n: "udp_new c ps s = Some (p, ps(MEMP_UDP_PCB := pool'), put_pcb p ?b s)"
      using m(1) p(3) by (simp add: udp_new_def memp_malloc_def)
    have px: "p \<notin> set xs" using plist_facts [OF udp_wfD(1) [OF i(1)], of p] p(4) by auto
    have "udp_wf (put_pcb p ?b s) xs"
      using i(1) p px unfolding udp_wf_def by (auto simp: plist_upd zero_pcb_def)
    moreover have "dom (udp_pcb_at (put_pcb p ?b s)) = elems c desc - set ys" using i(3) Cons p by auto
    ultimately have "udp_inv c desc (ps(MEMP_UDP_PCB := pool'), put_pcb p ?b s)" using d m(2) by (auto simp: udp_inv_def)
    then show ?thesis using n p by auto
  qed
qed

lemma udp_remove_inv:
  assumes inv: "udp_inv c desc (ps, s)" and p: "udp_pcb_at s p \<noteq> None"
  shows "\<exists>ps' s'. udp_remove c p ps s = Some (ps', s') \<and> udp_inv c desc (ps', s') \<and> udp_pcb_at s' p = None"
proof -
  obtain xs free where d: "desc_ok c desc" and i: "udp_wf s xs" "pool_rep c desc (ps MEMP_UDP_PCB) free" "dom (udp_pcb_at s) = elems c desc - set free"
    using inv by (auto simp: udp_inv_def)
  have p0: "p \<noteq> 0" "p \<in> elems c desc" "p \<notin> set free" using udp_wfD(3) [OF i(1) p] p i(3) by auto
  obtain s1 where u: "unlink_pcb p s = Some s1" "plist (udp_pcb_at s1) (udp_pcbs s1) (remove1 p xs)" "udp_port s1 = udp_port s"
    "\<And>x. map_option (udp_next_update (\<lambda>_. 0)) (udp_pcb_at s1 x) = map_option (udp_next_update (\<lambda>_. 0)) (udp_pcb_at s x)"
    using unlink_pcb_spec [OF udp_wfD(1) [OF i(1)] p p0(1)] by blast
  obtain pool' where f: "do_memp_free_pool c p (ps MEMP_UDP_PCB) = Some pool'" "pool_rep c desc pool' (p # free)"
    using memp_free_rep [OF d i(2) p0(2,3)] by blast
  let ?s' = "s1\<lparr>udp_pcb_at := (udp_pcb_at s1)(p := None)\<rparr>"
  have "udp_remove c p ps s = Some (ps(MEMP_UDP_PCB := pool'), ?s')" using p0(1) u(1) f(1) by (simp add: udp_remove_def memp_free_def)
  moreover have "dom (udp_pcb_at s1) = dom (udp_pcb_at s)"
  proof -
    have "udp_pcb_at s1 x = None \<longleftrightarrow> udp_pcb_at s x = None" for x using u(4) [of x] by (metis option.map_disc_iff)
    then show ?thesis by (auto simp: dom_def)
  qed
  then have "dom (udp_pcb_at ?s') = elems c desc - set (p # free)" using i(3) by auto
  moreover have "udp_wf ?s' (remove1 p xs)" by (rule udp_wf_removed [OF i(1) u(2-4)])
  ultimately show ?thesis using d f(2) by (auto simp: udp_inv_def)
qed

lemma udp_inv_same_pool:
  assumes "udp_inv c desc (ps, s)" "udp_wf s' ys" "dom (udp_pcb_at s') = dom (udp_pcb_at s)"
  shows "udp_inv c desc (ps, s')"
  using assms by (auto simp: udp_inv_def)

lemma do_call_inv:
  assumes inv: "udp_inv c desc (ps, s)" and legal: "legal call s"
  shows "\<exists>st'. do_call c call (ps, s) = Some st' \<and> udp_inv c desc st'"
proof -
  obtain xs where wf: "udp_wf s xs" using inv by (auto simp: udp_inv_def)
  have put: "\<exists>st'. Some (ps, put_pcb p b s) = Some st' \<and> udp_inv c desc st'"
    if "udp_pcb_at s p = Some pcb" "local_ip b = local_ip pcb" "local_port b = local_port pcb" "udp_next b = udp_next pcb" for p b pcb
  proof -
    have "udp_inv c desc (ps, put_pcb p b s)"
      by (rule udp_inv_same_pool [OF inv]) (use udp_wf_put [OF wf that] that(1) in auto)
    then show ?thesis by simp
  qed
  show ?thesis
  proof (cases call)
    case New
    then show ?thesis using udp_new_inv [OF inv] by auto
  next
    case (Bind p a port)
    then obtain r s' where "udp_bind p a port s = Some (r, s')" "dom (udp_pcb_at s') = dom (udp_pcb_at s)"
      "udp_wf s' (if r = ERR_OK then relist p xs else xs)"
      using legal udp_bind_wf [OF wf, of p a port] by (auto simp: legal_def)
    then show ?thesis using Bind udp_inv_same_pool [OF inv] by auto
  next
    case (Connect p a port)
    then obtain r s' where "udp_connect p (Some a) port s = Some (r, s')" "dom (udp_pcb_at s') = dom (udp_pcb_at s)"
      "udp_wf s' (if r = ERR_OK then relist p xs else xs)"
      using legal udp_connect_wf [OF wf, of p a port] by (auto simp: legal_def)
    then show ?thesis using Connect udp_inv_same_pool [OF inv] by auto
  next
    case (Bind_Netif p n)
    then obtain pcb where "udp_pcb_at s p = Some pcb" using legal by (auto simp: legal_def)
    then show ?thesis using Bind_Netif put [of p pcb] by (simp add: udp_bind_netif_def)
  next
    case (Disconnect p)
    then obtain pcb where "udp_pcb_at s p = Some pcb" using legal by (auto simp: legal_def)
    then show ?thesis using Disconnect put [of p pcb] udp_wfD(3) [OF wf, of p] by (simp add: udp_disconnect_def)
  next
    case (Recv p f a)
    then obtain pcb where "udp_pcb_at s p = Some pcb" using legal by (auto simp: legal_def)
    then show ?thesis using Recv put [of p pcb] udp_wfD(3) [OF wf, of p] by (simp add: udp_recv_def)
  next
    case (Remove p)
    then show ?thesis using legal udp_remove_inv [OF inv, of p] by (auto simp: legal_def)
  qed
qed

fun do_calls :: "mem_cfg \<Rightarrow> udp_call list \<Rightarrow> memp_pools \<times> udp_state \<Rightarrow> (memp_pools \<times> udp_state) option" where
  "do_calls c [] st = Some st"
| "do_calls c (call # calls) st = do { st \<leftarrow> do_call c call st; do_calls c calls st }"

text \<open>Every call is legal when it is made.\<close>

fun all_legal :: "mem_cfg \<Rightarrow> udp_call list \<Rightarrow> memp_pools \<times> udp_state \<Rightarrow> bool" where
  "all_legal c [] st \<longleftrightarrow> True"
| "all_legal c (call # calls) st \<longleftrightarrow>
     legal call (snd st) \<and> (case do_call c call st of Some st' \<Rightarrow> all_legal c calls st' | None \<Rightarrow> True)"

lemma do_calls_inv:
  "udp_inv c desc st \<Longrightarrow> all_legal c calls st \<Longrightarrow> \<exists>st'. do_calls c calls st = Some st' \<and> udp_inv c desc st'"
proof (induction calls arbitrary: st)
  case (Cons call calls)
  obtain ps s where st: "st = (ps, s)" by (cases st)
  then obtain st1 where "do_call c call st = Some st1" "udp_inv c desc st1" using do_call_inv [of c desc ps s call] Cons.prems by auto
  then show ?case using Cons.IH Cons.prems(2) by auto
qed simp

text \<open>The state at the start: no pcbs, all elements of the pool free.\<close>

definition udp_start :: "u32 \<Rightarrow> udp_state" where
  "udp_start rand = udp_init rand \<lparr>udp_pcb_at = Map.empty, udp_pcbs = 0, udp_port = 0\<rparr>"

lemma ensure_range: "UDP_LOCAL_PORT_RANGE_START \<le> UDP_ENSURE_LOCAL_PORT_RANGE r"
proof -
  have m: "ucast (NOT UDP_LOCAL_PORT_RANGE_START) = (0x3fff :: u32)" "(ucast UDP_LOCAL_PORT_RANGE_START :: u32) = 0xc000"
    by (simp_all add: UDP_LOCAL_PORT_RANGE_START_def)
  define x where "x = r AND 0x3fff"
  have "x = take_bit 14 r" by (simp add: x_def take_bit_eq_mask mask_eq_exp_minus_1)
  then have x: "unat x < 16384" using take_bit_nat_less_exp [of 14 "unat r"] by (simp add: unsigned_take_bit_eq)
  then have "unat (x + 0xc000) = unat x + 49152"
    by (subst unat_add_lem [THEN iffD1]) simp_all
  then have "unat (ucast (x + 0xc000) :: u16) = unat x + 49152" using x by (simp add: unsigned_ucast_eq take_bit_eq_mod)
  then show ?thesis unfolding UDP_ENSURE_LOCAL_PORT_RANGE_def m x_def [symmetric]
    by (simp add: word_le_nat_alt UDP_LOCAL_PORT_RANGE_START_def)
qed

lemma udp_start_inv:
  assumes "desc_ok c desc" "pool_rep c desc (ps MEMP_UDP_PCB) free" "set free = elems c desc"
  shows "udp_inv c desc (ps, udp_start rand)"
proof -
  have "udp_wf (udp_start rand) []" using ensure_range by (simp add: udp_wf_def udp_start_def udp_init_def)
  then show ?thesis using assms by (auto simp: udp_inv_def udp_start_def udp_init_def)
qed


section \<open>Properties\<close>

definition demo_udp_desc :: memp_desc where
  "demo_udp_desc = \<lparr>desc_size = 8, desc_num = 2, desc_base = 8\<rparr>"

definition demo_udp_pools :: memp_pools where
  "demo_udp_pools = (\<lambda>_. \<lparr>tab = 8, nexts = [8 \<mapsto> 16, 16 \<mapsto> 0]\<rparr>)"

definition demo_calls :: "udp_call list" where
  "demo_calls = [New, Bind 8 None 7400, New, Connect 16 (IP4_ADDR 192 168 0 7) 7410, Recv 8 1 0, Disconnect 16, Remove 8]"

lemma demo_udp_pool:
  "desc_ok demo_cfg demo_udp_desc" "elems demo_cfg demo_udp_desc = {8, 16}" "pool_rep demo_cfg demo_udp_desc (demo_udp_pools t) [8, 16]"
proof -
  have s: "pool_start demo_cfg demo_udp_desc = 8" by (simp add: pool_start_def LWIP_MEM_ALIGN_def demo_cfg_values demo_udp_desc_def)
  show "desc_ok demo_cfg demo_udp_desc" by (simp add: desc_ok_def demo_cfg_ok demo_cfg_values demo_udp_desc_def)
  have "desc_num demo_udp_desc = 2" "desc_size demo_udp_desc = 8" by (simp_all add: demo_udp_desc_def)
  then show e: "elems demo_cfg demo_udp_desc = {8, 16}" by (auto simp: elems_def s lessThan_nat_numeral)
  show "pool_rep demo_cfg demo_udp_desc (demo_udp_pools t) [8, 16]" by (simp add: pool_rep_def e demo_udp_pools_def)
qed

text \<open>
  C15: every sequence of calls of the UDP interface, each on a pcb that exists when it is made, returns.  Afterwards the list
  \<^verbatim>\<open>udp_pcbs\<close> is well-formed and consists of exactly the existing pcbs that have a local port, no two pcbs are
  bound to the same port with the same address or with the wildcard address, and the existing pcbs are exactly
  the elements that the pool has handed out.
\<close>

theorem udp_calls_safe:
  assumes "desc_ok c desc" "pool_rep c desc (ps MEMP_UDP_PCB) free" "set free = elems c desc" "all_legal c calls (ps, udp_start rand)"
  shows "\<exists>ps' s' xs free'. do_calls c calls (ps, udp_start rand) = Some (ps', s') \<and>
    plist (udp_pcb_at s') (udp_pcbs s') xs \<and> distinct xs \<and>
    (\<forall>x\<in>dom (udp_pcb_at s'). x \<in> set xs \<longleftrightarrow> local_port (pcb_of (udp_pcb_at s') x) \<noteq> 0) \<and>
    (\<forall>x\<in>set xs. \<forall>y\<in>set xs. x \<noteq> y \<longrightarrow>
       \<not> clash (local_ip (pcb_of (udp_pcb_at s') x)) (local_port (pcb_of (udp_pcb_at s') x))
          (local_ip (pcb_of (udp_pcb_at s') y)) (local_port (pcb_of (udp_pcb_at s') y))) \<and>
    pool_rep c desc (ps' MEMP_UDP_PCB) free' \<and> dom (udp_pcb_at s') = elems c desc - set free'"
proof -
  obtain ps' s' where r: "do_calls c calls (ps, udp_start rand) = Some (ps', s')" "udp_inv c desc (ps', s')"
    using do_calls_inv [OF udp_start_inv [of c desc ps free, OF assms(1-3)] assms(4)] by auto
  then obtain xs free' where w: "udp_wf s' xs" and p: "pool_rep c desc (ps' MEMP_UDP_PCB) free'" "dom (udp_pcb_at s') = elems c desc - set free'"
    by (auto simp: udp_inv_def)
  have "distinct xs" by (rule plist_distinct [OF udp_wfD(1) [OF w]])
  then show ?thesis using r(1) w p
    by (intro exI [of _ ps'] exI [of _ s'] exI [of _ xs] exI [of _ free']) (simp add: udp_wf_def)
qed

theorem udp_calls_safe_witness:
  "\<exists>ps' s'. do_calls demo_cfg demo_calls (demo_udp_pools, udp_start 7) = Some (ps', s')"
proof -
  have "all_legal demo_cfg demo_calls (demo_udp_pools, udp_start 7)" by code_simp
  then show ?thesis
    using udp_calls_safe [of demo_cfg demo_udp_desc demo_udp_pools "[8, 16]" demo_calls 7] demo_udp_pool by auto
qed

text \<open>
  C27: \<^verbatim>\<open>udp_new_port\<close> ends and returns a port of the dynamic range that no active pcb has, if there is one, and 0 otherwise.
\<close>

theorem udp_new_port_correct:
  assumes "plist (udp_pcb_at s) (udp_pcbs s) xs" "UDP_LOCAL_PORT_RANGE_START \<le> udp_port s"
  shows "\<exists>r s'. udp_new_port s = Some (r, s') \<and> udp_pcb_at s' = udp_pcb_at s \<and> udp_pcbs s' = udp_pcbs s \<and>
    UDP_LOCAL_PORT_RANGE_START \<le> udp_port s' \<and>
    (if \<exists>q. port_free (udp_pcb_at s) xs q then port_free (udp_pcb_at s) xs r else r = 0)"
  using udp_new_port_spec [OF assms] by fastforce

theorem udp_new_port_correct_witness:
  "\<exists>r s'. udp_new_port (udp_start 7) = Some (r, s') \<and> port_free Map.empty [] r"
proof -
  have "port_free Map.empty [] UDP_LOCAL_PORT_RANGE_END"
    by (simp add: port_free_def UDP_LOCAL_PORT_RANGE_START_def UDP_LOCAL_PORT_RANGE_END_def)
  then show ?thesis using udp_new_port_correct [of "udp_start 7" "[]"] ensure_range [of 7]
    by (auto simp: udp_start_def udp_init_def split: if_splits)
qed

text \<open>
  C32: \<^verbatim>\<open>udp_bind\<close> to a given port returns \<^verbatim>\<open>ERR_USE\<close> and changes nothing exactly when another active pcb is bound to this port
  with the same address or one of both addresses is the wildcard; otherwise it binds the pcb and puts it in front of
  the list unless it is on the list already.
\<close>

theorem udp_bind_correct:
  assumes "udp_wf s xs" "udp_pcb_at s p = Some pcb" "port \<noteq> 0"
  shows "if \<exists>x\<in>set xs. x \<noteq> p \<and> clash a port (local_ip (pcb_of (udp_pcb_at s) x)) (local_port (pcb_of (udp_pcb_at s) x))
    then udp_bind p (Some a) port s = Some (ERR_USE, s)
    else \<exists>s'. udp_bind p (Some a) port s = Some (ERR_OK, s') \<and>
      plist (udp_pcb_at s') (udp_pcbs s') (if p \<in> set xs then xs else p # xs) \<and>
      local_ip (pcb_of (udp_pcb_at s') p) = a \<and> local_port (pcb_of (udp_pcb_at s') p) = port \<and>
      (\<forall>x. x \<noteq> p \<longrightarrow> udp_pcb_at s' x = udp_pcb_at s x)" (is "if ?c then _ else _")
proof (cases ?c)
  case True
  then show ?thesis using udp_bind_port [OF assms(1) _ assms(3), of p "Some a"] assms(2) by (simp add: bind_addr_def)
next
  case False
  then have b: "udp_bind p (Some a) port s = Some (ERR_OK, bound p a port xs s)"
    using udp_bind_port [OF assms(1) _ assms(3), of p "Some a"] assms(2) by (simp add: bind_addr_def)
  have "udp_wf (bound p a port xs s) (relist p xs)" using False assms by (intro bound_wf) auto
  then show ?thesis unfolding if_not_P [OF False] using b udp_wfD(1) by (fastforce simp: relist_def bound_fields)
qed

definition demo_two_pcbs :: udp_state where
  "demo_two_pcbs = \<lparr>udp_pcb_at = [8 \<mapsto> zero_pcb\<lparr>local_port := 7400\<rparr>, 16 \<mapsto> zero_pcb], udp_pcbs = 8, udp_port = UDP_LOCAL_PORT_RANGE_START\<rparr>"

theorem udp_bind_correct_witness:
  "udp_bind 16 (Some 1) 7400 demo_two_pcbs = Some (ERR_USE, demo_two_pcbs) \<and>
   (\<exists>s'. udp_bind 16 (Some 1) 7410 demo_two_pcbs = Some (ERR_OK, s') \<and> plist (udp_pcb_at s') (udp_pcbs s') [16, 8])"
proof -
  have wf: "udp_wf demo_two_pcbs [8]" by (simp add: udp_wf_def demo_two_pcbs_def zero_pcb_def)
  have p: "udp_pcb_at demo_two_pcbs 16 = Some zero_pcb" "pcb_of (udp_pcb_at demo_two_pcbs) 8 = zero_pcb\<lparr>local_port := 7400\<rparr>"
    by (simp_all add: demo_two_pcbs_def)
  have c: "clash 1 7400 0 7400" "\<not> clash 1 7410 0 7400" by (simp_all add: clash_def ip4_addr_isany_val_def IPADDR_ANY_def)
  show ?thesis using udp_bind_correct [OF wf p(1), of 7400 1] udp_bind_correct [OF wf p(1), of 7410 1] p(2) c
    by (auto simp: zero_pcb_def)
qed

end
