(* ===== verification/Ip4.thy ===== *)
theory Ip4
  imports Etharp Udp_Pcb Pbuf_Data Inet_Chksum_Pbuf
begin

text \<open>
  IPv4 output, \<^verbatim>\<open>lwip/src/core/ipv4/ip4.c\<close> and \<^verbatim>\<open>ip4_frag.c\<close>: the header with its checksum, fragmentation, and the way to the
  interface.  The interfaces are Ethernet interfaces, whose \<^verbatim>\<open>output\<close> function is \<^verbatim>\<open>etharp_output\<close>.  The build has no IP
  options to send and no loopback; \<^verbatim>\<open>LWIP_NETIF_TX_SINGLE_PBUF\<close> is set, so that a fragment is copied to a buffer of its own.
\<close>

section \<open>The state of the stack\<close>

text \<open>\<^verbatim>\<open>struct ip_globals\<close> describes the packet that is being received.\<close>

record ip_globals =
  current_netif :: addr
  current_input_netif :: addr
  current_ip4_header :: addr
  current_ip_header_tot_len :: nat
  current_iphdr_src :: ip4_addr
  current_iphdr_dest :: ip4_addr

record stack =
  arp :: arp_state
  ip_id :: u16
  udp :: udp_state
  ip_data :: ip_globals

record stack_cfg =
  acfg :: arp_cfg
  LWIP_CHKSUM :: "addr \<Rightarrow> u8 list \<Rightarrow> u16"
  recv_fn :: "addr \<Rightarrow> addr \<Rightarrow> addr \<Rightarrow> addr \<Rightarrow> ip4_addr \<Rightarrow> u16 \<Rightarrow> stack \<Rightarrow> stack option"

abbreviation smem :: "stack \<Rightarrow> lwip_mem" where
  "smem s \<equiv> arp_mem (arp s)"

abbreviation snet :: "stack \<Rightarrow> net_state" where
  "snet s \<equiv> net (arp s)"

abbreviation spcfg :: "stack_cfg \<Rightarrow> pbuf_cfg" where
  "spcfg c \<equiv> pcfg (ncfg (acfg c))"

definition put_smem :: "lwip_mem \<Rightarrow> stack \<Rightarrow> stack" where
  "put_smem m s = s\<lparr>arp := put_mem m (arp s)\<rparr>"

text \<open>Calls of \<^verbatim>\<open>pbuf.c\<close> on the memory of the stack.\<close>

definition s_free :: "stack_cfg \<Rightarrow> addr \<Rightarrow> stack \<Rightarrow> stack option" where
  "s_free c p s = do { (_, m) \<leftarrow> pbuf_free (spcfg c) p (smem s); Some (put_smem m s) }"

definition load_at :: "nat \<Rightarrow> nat \<Rightarrow> addr \<Rightarrow> stack \<Rightarrow> u8 list option" where
  "load_at k n p s =
     do {
       pb \<leftarrow> pbufs (smem s) p;
       load_bytes (bytes (smem s)) (payload pb + k) n
     }"

definition netif_output :: "stack_cfg \<Rightarrow> addr \<Rightarrow> addr \<Rightarrow> ip4_addr \<Rightarrow> stack \<Rightarrow> (err_t \<times> stack) option" where
  "netif_output c nif p dest s =
     do {
       (err, a) \<leftarrow> etharp_output (acfg c) nif p dest (arp s);
       Some (err, s\<lparr>arp := a\<rparr>)
     }"

section \<open>The header\<close>

definition IP_HLEN :: nat where "IP_HLEN = 20"
definition IP_MF :: u16 where "IP_MF = 0x2000"
definition IP_OFFMASK :: u16 where "IP_OFFMASK = 0x1fff"
definition IP_PROTO_ICMP :: u8 where "IP_PROTO_ICMP = 1"
definition IP_PROTO_UDP :: u8 where "IP_PROTO_UDP = 17"

definition IPH_V :: "u8 \<Rightarrow> u8" where
  "IPH_V v_hl = drop_bit 4 v_hl"

definition IPH_HL_BYTES :: "u8 \<Rightarrow> nat" where
  "IPH_HL_BYTES v_hl = u8_of (unat (v_hl AND 0x0f) * 4)"

definition IPH_VHL :: "u8 \<Rightarrow> u8 \<Rightarrow> u8" where
  "IPH_VHL v hl = push_bit 4 v OR hl"

text \<open>The header checksum that \<^verbatim>\<open>ip4_output_if_src\<close> computes on the way; \<^verbatim>\<open>len\<close> and \<^verbatim>\<open>id\<close> are in network order.\<close>

definition ip4_inline_chksum :: "u8 \<Rightarrow> u8 \<Rightarrow> u8 \<Rightarrow> u8 \<Rightarrow> u16 \<Rightarrow> u16 \<Rightarrow> ip4_addr \<Rightarrow> ip4_addr \<Rightarrow> u16" where
  "ip4_inline_chksum ttl proto v_hl tos len ident src dest =
     (let chk_sum = 0 + ucast (lwip_htons (ucast proto OR push_bit 8 (ucast ttl)));
          chk_sum = chk_sum + (dest AND 0xFFFF);
          chk_sum = chk_sum + drop_bit 16 dest;
          chk_sum = chk_sum + ucast (lwip_htons (ucast tos OR push_bit 8 (ucast v_hl)));
          chk_sum = chk_sum + ucast len;
          chk_sum = chk_sum + ucast ident;
          chk_sum = chk_sum + (src AND 0xFFFF);
          chk_sum = chk_sum + drop_bit 16 src;
          chk_sum = drop_bit 16 chk_sum + (chk_sum AND 0xFFFF);
          chk_sum = drop_bit 16 chk_sum + chk_sum;
          chk_sum = NOT (chk_sum :: u32)
      in ucast chk_sum)"

text \<open>The stores to the fields of the header at \<^verbatim>\<open>iphdr\<close>, in the order of the code.\<close>

definition write_ip_hdr ::
  "addr \<Rightarrow> u8 \<Rightarrow> u8 \<Rightarrow> u8 \<Rightarrow> u16 \<Rightarrow> u16 \<Rightarrow> ip4_addr \<Rightarrow> ip4_addr \<Rightarrow> byte_mem \<Rightarrow> byte_mem option" where
  "write_ip_hdr iphdr ttl proto tos len ident src dest bm =
     do {
       let v_hl = IPH_VHL 4 (of_nat (IP_HLEN div 4));
       bm \<leftarrow> store_bytes bm (iphdr + 8) [ttl];
       bm \<leftarrow> store_bytes bm (iphdr + 9) [proto];
       bm \<leftarrow> store_bytes bm (iphdr + 16) (ip4_bytes dest);
       bm \<leftarrow> store_bytes bm iphdr [v_hl];
       bm \<leftarrow> store_bytes bm (iphdr + 1) [tos];
       bm \<leftarrow> store_bytes bm (iphdr + 2) (u16_bytes len);
       bm \<leftarrow> store_bytes bm (iphdr + 6) (u16_bytes 0);
       bm \<leftarrow> store_bytes bm (iphdr + 4) (u16_bytes ident);
       bm \<leftarrow> store_bytes bm (iphdr + 12) (ip4_bytes src);
       store_bytes bm (iphdr + 10) (u16_bytes (ip4_inline_chksum ttl proto v_hl tos len ident src dest))
     }"

section \<open>Fragmentation\<close>

text \<open>\<^verbatim>\<open>(u16_t)((netif->mtu - IP_HLEN) / 8)\<close>; the subtraction is one of \<^verbatim>\<open>int\<close>.\<close>

definition frag_blocks :: "nat \<Rightarrow> nat" where
  "frag_blocks m = (if IP_HLEN \<le> m then u16_of ((m - IP_HLEN) div 8) else u16_sub 0 ((IP_HLEN - m) div 8))"

text \<open>Filling in the header of a fragment, a copy of the original header.\<close>

definition frag_header :: "stack_cfg \<Rightarrow> addr \<Rightarrow> addr \<Rightarrow> u16 \<Rightarrow> nat \<Rightarrow> byte_mem \<Rightarrow> byte_mem option" where
  "frag_header c original_iphdr iphdr off fragsize bm =
     do {
       bs \<leftarrow> load_bytes bm original_iphdr IP_HLEN;
       bm \<leftarrow> store_bytes bm iphdr bs;
       bm \<leftarrow> store_bytes bm (iphdr + 6) (u16_bytes (lwip_htons off));
       bm \<leftarrow> store_bytes bm (iphdr + 2) (u16_bytes (lwip_htons (of_nat (u16_of (fragsize + IP_HLEN)))));
       bm \<leftarrow> store_bytes bm (iphdr + 10) (u16_bytes 0);
       bs \<leftarrow> load_bytes bm iphdr IP_HLEN;
       store_bytes bm (iphdr + 10) (u16_bytes (inet_chksum (LWIP_CHKSUM c) iphdr bs))
     }"

partial_function (option) frag_loop ::
  "stack_cfg \<Rightarrow> addr \<Rightarrow> addr \<Rightarrow> addr \<Rightarrow> ip4_addr \<Rightarrow> nat \<Rightarrow> nat \<Rightarrow> bool \<Rightarrow> nat \<Rightarrow> u16 \<Rightarrow> nat \<Rightarrow> stack \<Rightarrow> (err_t \<times> stack) option" where
  "frag_loop c p original_iphdr nif dest max_len nfb mf_set left ofo poff s =
     (if left = 0 then Some (ERR_OK, s)
      else
        let fragsize = min left (u16_of (nfb * 8)) in
        do {
          (rambuf, m) \<leftarrow> pbuf_alloc (spcfg c) (PBUF_IP (spcfg c)) fragsize PBUF_RAM (smem s);
          if rambuf = 0 then Some (ERR_MEM, put_smem m s)
          else
            do {
              rb \<leftarrow> pbufs m rambuf;
              lwip_assert (pb_len rb = tot_len rb \<and> pb_next rb = 0);
              (copied, bm) \<leftarrow> pbuf_copy_partial (pbufs m) p (payload rb) fragsize poff (bytes m);
              let poff = u16_of (poff + copied);
              (r, m) \<leftarrow> pbuf_add_header (spcfg c) rambuf IP_HLEN (m\<lparr>bytes := bm\<rparr>);
              if r \<noteq> 0 then
                do { (_, m) \<leftarrow> pbuf_free (spcfg c) rambuf m; Some (ERR_MEM, put_smem m s) }
              else
                do {
                  rb \<leftarrow> pbufs m rambuf;
                  let is_last = (int left \<le> int max_len - int IP_HLEN);
                  let tmp = IP_OFFMASK AND ofo;
                  let tmp = (if \<not> is_last \<or> mf_set then tmp OR IP_MF else tmp);
                  bm \<leftarrow> frag_header c original_iphdr (payload rb) tmp fragsize (bytes m);
                  (_, s) \<leftarrow> netif_output c nif rambuf dest (put_smem (m\<lparr>bytes := bm\<rparr>) s);
                  s \<leftarrow> s_free c rambuf s;
                  frag_loop c p original_iphdr nif dest max_len nfb mf_set (u16_sub left fragsize) (ofo + of_nat nfb) poff s
                }
            }
        })"

definition ip4_frag :: "stack_cfg \<Rightarrow> addr \<Rightarrow> addr \<Rightarrow> ip4_addr \<Rightarrow> stack \<Rightarrow> (err_t \<times> stack) option" where
  "ip4_frag c p nif dest s =
     do {
       n \<leftarrow> netif_at (snet s) nif;
       let nfb = frag_blocks (mtu n);
       pb \<leftarrow> pbufs (smem s) p;
       bs \<leftarrow> load_at 0 1 p s;
       if IPH_HL_BYTES (hd bs) \<noteq> IP_HLEN then Some (ERR_VAL, s)
       else if \<not> pb_len pb \<ge> IP_HLEN then Some (ERR_VAL, s)
       else
         do {
           off \<leftarrow> load_at 6 2 p s;
           let tmp = lwip_htons (load_u16 (off ! 0) (off ! 1));
           frag_loop c p (payload pb) nif dest (mtu n) nfb (tmp AND IP_MF \<noteq> 0) (u16_sub (tot_len pb) IP_HLEN)
             (tmp AND IP_OFFMASK) IP_HLEN s
         }
     }"

section \<open>Output\<close>

text \<open>
  Generating the header, or finding the destination in a header that is already there (\<^verbatim>\<open>dest\<close> is \<^verbatim>\<open>LWIP_IP_HDRINCL\<close>, which is
  \<^verbatim>\<open>NULL\<close>).
\<close>

definition ip4_put_hdr ::
  "stack_cfg \<Rightarrow> addr \<Rightarrow> ip4_addr option \<Rightarrow> ip4_addr option \<Rightarrow> u8 \<Rightarrow> u8 \<Rightarrow> u8 \<Rightarrow> stack \<Rightarrow> ((err_t + ip4_addr) \<times> stack) option" where
  "ip4_put_hdr c p src dest ttl tos proto s =
     (case dest of
        Some d \<Rightarrow>
          do {
            (r, m) \<leftarrow> pbuf_add_header (spcfg c) p IP_HLEN (smem s);
            if r \<noteq> 0 then Some (Inl ERR_BUF, put_smem m s)
            else
              do {
                pb \<leftarrow> pbufs m p;
                lwip_assert (pb_len pb \<ge> IP_HLEN);
                bm \<leftarrow> write_ip_hdr (payload pb) ttl proto tos (lwip_htons (of_nat (tot_len pb))) (lwip_htons (ip_id s))
                  (case src of None \<Rightarrow> IPADDR_ANY | Some a \<Rightarrow> a) d (bytes m);
                Some (Inr d, (put_smem (m\<lparr>bytes := bm\<rparr>) s)\<lparr>ip_id := ip_id s + 1\<rparr>)
              }
          }
      | None \<Rightarrow>
          do {
            pb \<leftarrow> pbufs (smem s) p;
            if pb_len pb < IP_HLEN then Some (Inl ERR_BUF, s)
            else do { bs \<leftarrow> load_at 16 4 p s; d \<leftarrow> ip4_of bs; Some (Inr d, s) }
          })"

definition ip4_output_if_src ::
  "stack_cfg \<Rightarrow> addr \<Rightarrow> ip4_addr option \<Rightarrow> ip4_addr option \<Rightarrow> u8 \<Rightarrow> u8 \<Rightarrow> u8 \<Rightarrow> addr \<Rightarrow> stack \<Rightarrow> (err_t \<times> stack) option" where
  "ip4_output_if_src c p src dest ttl tos proto nif s =
     do {
       pb \<leftarrow> pbufs (smem s) p;
       lwip_assert (pb_ref pb = 1);
       (r, s) \<leftarrow> ip4_put_hdr c p src dest ttl tos proto s;
       case r of
         Inl err \<Rightarrow> Some (err, s)
       | Inr d \<Rightarrow>
           do {
             n \<leftarrow> netif_at (snet s) nif;
             pb \<leftarrow> pbufs (smem s) p;
             if mtu n \<noteq> 0 \<and> tot_len pb > mtu n then ip4_frag c p nif d s
             else netif_output c nif p d s
           }
     }"

definition ip4_output_if ::
  "stack_cfg \<Rightarrow> addr \<Rightarrow> ip4_addr option \<Rightarrow> ip4_addr option \<Rightarrow> u8 \<Rightarrow> u8 \<Rightarrow> u8 \<Rightarrow> addr \<Rightarrow> stack \<Rightarrow> (err_t \<times> stack) option" where
  "ip4_output_if c p src dest ttl tos proto nif s =
     do {
       src_used \<leftarrow> (if dest \<noteq> None \<and> (case src of None \<Rightarrow> True | Some a \<Rightarrow> ip4_addr_isany_val a)
         then do { n \<leftarrow> netif_at (snet s) nif; Some (Some (ip_addr n)) }
         else Some src);
       ip4_output_if_src c p src_used dest ttl tos proto nif s
     }"

definition ip4_output ::
  "stack_cfg \<Rightarrow> addr \<Rightarrow> ip4_addr option \<Rightarrow> ip4_addr \<Rightarrow> u8 \<Rightarrow> u8 \<Rightarrow> u8 \<Rightarrow> stack \<Rightarrow> (err_t \<times> stack) option" where
  "ip4_output c p src dest ttl tos proto s =
     do {
       pb \<leftarrow> pbufs (smem s) p;
       lwip_assert (pb_ref pb = 1);
       nif \<leftarrow> ip4_route dest (snet s);
       if nif = 0 then Some (ERR_RTE, s)
       else ip4_output_if c p src (Some dest) ttl tos proto nif s
     }"

end
