(* ===== verification/Ip4_Output.thy ===== *)
theory Ip4_Output
  imports Ip4 Etharp_Frames
begin

text \<open>
  What \<^verbatim>\<open>ip4_output_if_src\<close> sends: the bytes of the header and its checksum, headers that are put in front of a packet, and the frame
  that leaves when the hardware address of the next hop is known.
\<close>

section \<open>The bytes of the header\<close>

definition ip4_hdr :: "u8 \<Rightarrow> u16 \<Rightarrow> u16 \<Rightarrow> u16 \<Rightarrow> u8 \<Rightarrow> u8 \<Rightarrow> u16 \<Rightarrow> ip4_addr \<Rightarrow> ip4_addr \<Rightarrow> u8 list" where
  "ip4_hdr tos len ident off ttl proto chk src dest =
     [0x45, tos] @ u16_bytes (lwip_htons len) @ u16_bytes (lwip_htons ident) @ u16_bytes (lwip_htons off) @ [ttl, proto] @
     u16_bytes chk @ ip4_bytes src @ ip4_bytes dest"

lemma length_ip4_hdr [simp]: "length (ip4_hdr tos len ident off ttl proto chk src dest) = 20"
  by (simp add: ip4_hdr_def)

lemma ip4_bytes_u32: "ip4_bytes a = u32_bytes a"
proof -
  have "ip4_addr_get_byte_val a 0 = ucast (ucast a :: u16)" "ip4_addr_get_byte_val a 1 = ucast (drop_bit 8 (ucast a :: u16))"
    "ip4_addr_get_byte_val a 2 = ucast (ucast (drop_bit 16 a) :: u16)"
    "ip4_addr_get_byte_val a 3 = ucast (drop_bit 8 (ucast (drop_bit 16 a) :: u16))"
    unfolding ip4_addr_get_byte_val_def u32_low_masks
    by ((rule bit_word_eqI, auto simp: bit_simps dest: bit_imp_le_length)[])+
  then show ?thesis by (simp add: ip4_bytes_def u32_bytes_def u16_bytes_def upt_rec numeral_eq_Suc)
qed

text \<open>Two bytes as one field in network order.\<close>

lemma two_bytes: "u16_bytes (lwip_htons (ucast lo OR push_bit 8 (ucast hi))) = [hi, lo]" for lo hi :: u8
proof -
  have "ucast (drop_bit 8 (ucast lo OR push_bit 8 (ucast hi) :: u16)) = hi"
    by (rule bit_word_eqI) (auto simp: bit_simps dest: bit_imp_le_length)
  moreover have "ucast (ucast lo OR push_bit 8 (ucast hi) :: u16) = lo"
    by (rule bit_word_eqI) (auto simp: bit_simps dest: bit_imp_le_length)
  ultimately show ?thesis by (simp add: u16_bytes_htons)
qed

lemma vhl: "IPH_VHL 4 (of_nat (IP_HLEN div 4)) = 0x45"
  by (simp add: IPH_VHL_def IP_HLEN_def)

lemma unat_sum8:
  fixes a b c d e f g h :: u32
  assumes "unat a + unat b + unat c + unat d + unat e + unat f + unat g + unat h < 2 ^ 32"
  shows "unat (a + b + c + d + e + f + g + h) = unat a + unat b + unat c + unat d + unat e + unat f + unat g + unat h"
proof -
  have "a + b + c + d + e + f + g + h = of_nat (unat a + unat b + unat c + unat d + unat e + unat f + unat g + unat h)" by simp
  then show ?thesis using assms by (simp only: unat_of_nat) (simp add: take_bit_eq_mod)
qed

lemma fold_small: "n < 131071 \<Longrightarrow> (n div 65536 + n) mod 65536 = n div 65536 + n mod 65536" for n :: nat
proof (cases "n < 65536")
  case False
  assume "n < 131071"
  then obtain k where n: "n = 65536 + k" "k < 65535" using False le_Suc_ex [of 65536 n] by auto
  have d: "n div 65536 = 1" "n mod 65536 = k" using n by (simp_all add: div_add_self1)
  then have "(n div 65536 + n) mod 65536 = (Suc k + 65536) mod 65536" using n by simp
  also have "\<dots> = Suc k mod 65536" by (rule mod_add_self2)
  finally show ?thesis using n(2) d by simp
qed simp

lemma fold_twice: "unat (ucast (NOT (drop_bit 16 (FOLD_U32T u) + FOLD_U32T u)) :: u16) = 65535 - oc (unat u)"
proof -
  let ?t = "FOLD_U32T u"
  have b: "unat ?t < 131071" by (rule FOLD_bound)
  have n: "ucast (NOT w) = (NOT (ucast w) :: u16)" for w :: u32
    by (rule bit_word_eqI) (auto simp: bit_simps)
  have d: "unat ?t div 65536 \<le> 1" using b by linarith
  have "unat (drop_bit 16 ?t) + unat ?t < 2 ^ LENGTH(32)" using b d unfolding unat_high_half by simp
  then have "unat (drop_bit 16 ?t + ?t) = unat ?t div 65536 + unat ?t" unfolding unat_high_half [symmetric] by (rule unat_add_lem [THEN iffD1])
  then have "unat (ucast (drop_bit 16 ?t + ?t) :: u16) = (unat ?t div 65536 + unat ?t) mod 65536" by (simp only: unat_ucast_u32_u16)
  also have "\<dots> = unat ?t div 65536 + unat ?t mod 65536" by (rule fold_small [OF b])
  also have "\<dots> = unat (FOLD_U32T ?t)" by (rule unat_FOLD_U32T [symmetric])
  finally show ?thesis unfolding n unat_NOT_u16 unat_FOLD_FOLD by (rule arg_cong)
qed

context chksum_routine
begin

lemma inline_chksum:
  "ip4_inline_chksum ttl proto 0x45 tos (lwip_htons len) (lwip_htons ident) src dest =
   inet_chksum LWIP_CHKSUM a (ip4_hdr tos len ident 0 ttl proto 0 src dest)"
proof -
  let ?h = "ip4_hdr tos len ident 0 ttl proto 0 src dest"
  define v where "v = (0x45 :: u8)"
  define u where "u = (ucast (lwip_htons (ucast proto OR push_bit 8 (ucast ttl))) :: u32) + (dest AND 0xFFFF) + drop_bit 16 dest +
    ucast (lwip_htons (ucast tos OR push_bit 8 (ucast v))) + ucast (lwip_htons len) + ucast (lwip_htons ident) +
    (src AND 0xFFFF) + drop_bit 16 src"
  have pair: "unat (lwip_htons (ucast lo OR push_bit 8 (ucast hi) :: u16)) = unat hi + 256 * unat lo" for lo hi :: u8
    using lesum_u16_bytes [of "lwip_htons (ucast lo OR push_bit 8 (ucast hi))"] by (simp add: two_bytes)
  have e: "even (length (u16_bytes x))" "even (length (u32_bytes y))" for x y by (simp_all add: u16_bytes_def)
  have z: "lwip_htons 0 = 0" by (simp add: lwip_htons_def)
  have l: "lesum ?h = unat v + 256 * unat tos + unat (lwip_htons len) + unat (lwip_htons ident) + (unat ttl + 256 * unat proto) +
      (unat src mod 65536 + unat src div 65536) + (unat dest mod 65536 + unat dest div 65536)"
    by (simp add: ip4_hdr_def v_def [symmetric] ip4_bytes_u32 lesum_append e lesum_u16_bytes lesum_u32_bytes z)
  have "unat u = lesum ?h"
  proof -
    have b: "unat (lwip_htons len) < 65536" "unat (lwip_htons ident) < 65536" "unat src mod 65536 < 65536" "unat dest mod 65536 < 65536"
      "unat v < 256" "unat tos < 256" "unat ttl < 256" "unat proto < 256"
      using unsigned_less [of "lwip_htons len"] unsigned_less [of "lwip_htons ident"] unat_u8_less by simp_all
    have p: "(2 :: nat) ^ 32 = 4294967296" by simp
    show ?thesis unfolding u_def l
      by (subst unat_sum8; simp only: unat_ucast_u16 pair unat_low_half unat_high_half p)
        (use b high_half_less [of src] high_half_less [of dest] in linarith)
  qed
  moreover have "unat (ip4_inline_chksum ttl proto 0x45 tos (lwip_htons len) (lwip_htons ident) src dest) = 65535 - oc (unat u)"
    unfolding fold_twice [symmetric] by (simp add: ip4_inline_chksum_def Let_def u_def v_def FOLD_U32T_def)
  ultimately show ?thesis by (simp add: word_unat_eq_iff unat_inet_chksum)
qed

end

lemma ip_fields_stored:
  assumes r: "range_mapped m a 20" and l: "length x0 = 1" "length x1 = 1" "length x2 = 2" "length x4 = 2" "length x6 = 2"
    "length x8 = 1" "length x9 = 1" "length x10 = 2" "length x12 = 4" "length x16 = 4"
  shows "do {
      m \<leftarrow> store_bytes m (a + 8) x8; m \<leftarrow> store_bytes m (a + 9) x9; m \<leftarrow> store_bytes m (a + 16) x16;
      m \<leftarrow> store_bytes m a x0; m \<leftarrow> store_bytes m (a + 1) x1; m \<leftarrow> store_bytes m (a + 2) x2; m \<leftarrow> store_bytes m (a + 6) x6;
      m \<leftarrow> store_bytes m (a + 4) x4; m \<leftarrow> store_bytes m (a + 12) x12; store_bytes m (a + 10) x10 } =
    Some (mem_upd m a (x0 @ x1 @ x2 @ x4 @ x6 @ x8 @ x9 @ x10 @ x12 @ x16))"
proof -
  have r': "range_mapped m (a + k) j" if "k + j \<le> 20" for k j using range_mapped_mono [OF r that] .
  have "mem_upd (mem_upd (mem_upd (mem_upd (mem_upd (mem_upd (mem_upd (mem_upd (mem_upd (mem_upd m
      (a + 8) x8) (a + 9) x9) (a + 16) x16) a x0) (a + 1) x1) (a + 2) x2) (a + 6) x6) (a + 4) x4) (a + 12) x12) (a + 10) x10 =
    mem_upd m a (x0 @ x1 @ x2 @ x4 @ x6 @ x8 @ x9 @ x10 @ x12 @ x16)"
  proof (rule ext)
    fix y
    consider "y < a" | "a + 20 \<le> y" | d where "d < 20" "y = a + d" using le_Suc_ex [of a y] by force
    then show "mem_upd (mem_upd (mem_upd (mem_upd (mem_upd (mem_upd (mem_upd (mem_upd (mem_upd (mem_upd m
      (a + 8) x8) (a + 9) x9) (a + 16) x16) a x0) (a + 1) x1) (a + 2) x2) (a + 6) x6) (a + 4) x4) (a + 12) x12) (a + 10) x10 y =
      mem_upd m a (x0 @ x1 @ x2 @ x4 @ x6 @ x8 @ x9 @ x10 @ x12 @ x16) y"
    proof cases
      case 3
      then have "d = 0 \<or> d = 1 \<or> d = 2 \<or> d = 3 \<or> d = 4 \<or> d = 5 \<or> d = 6 \<or> d = 7 \<or> d = 8 \<or> d = 9 \<or> d = 10 \<or> d = 11 \<or> d = 12 \<or>
          d = 13 \<or> d = 14 \<or> d = 15 \<or> d = 16 \<or> d = 17 \<or> d = 18 \<or> d = 19" by arith
      then show ?thesis by (elim disjE) (simp_all add: 3(2) mem_upd_def l nth_append)
    qed (simp_all add: mem_upd_def l)
  qed
  then show ?thesis using r' r' [of 0] r' [of 1 1] l by (simp add: mem_simps del: add_2_eq_Suc add_2_eq_Suc')
qed

text \<open>The header that is generated, and that it verifies.\<close>

definition ip4_out_hdr :: "u8 \<Rightarrow> u16 \<Rightarrow> u16 \<Rightarrow> u8 \<Rightarrow> u8 \<Rightarrow> ip4_addr \<Rightarrow> ip4_addr \<Rightarrow> u8 list" where
  "ip4_out_hdr tos len ident ttl proto src dest =
     ip4_hdr tos len ident 0 ttl proto (ip4_inline_chksum ttl proto 0x45 tos (lwip_htons len) (lwip_htons ident) src dest) src dest"

lemma length_ip4_out_hdr [simp]: "length (ip4_out_hdr tos len ident ttl proto src dest) = 20"
  by (simp add: ip4_out_hdr_def)

lemma write_ip_hdr_spec:
  assumes "range_mapped bm a 20"
  shows "write_ip_hdr a ttl proto tos (lwip_htons len) (lwip_htons ident) src dest bm =
    Some (mem_upd bm a (ip4_out_hdr tos len ident ttl proto src dest))"
  unfolding write_ip_hdr_def Let_def vhl
  by (subst ip_fields_stored [OF assms]) (simp_all add: ip4_out_hdr_def ip4_hdr_def lwip_htons_def)

context chksum_routine
begin

lemma ip4_out_hdr_verifies: "inet_chksum LWIP_CHKSUM a (ip4_out_hdr tos len ident ttl proto src dest) = 0"
proof -
  let ?xs = "[0x45, tos] @ u16_bytes (lwip_htons len) @ u16_bytes (lwip_htons ident) @ u16_bytes (lwip_htons 0) @ [ttl, proto]"
  have h: "ip4_hdr tos len ident 0 ttl proto chk src dest = ?xs @ u16_bytes chk @ (ip4_bytes src @ ip4_bytes dest)" for chk
    by (simp add: ip4_hdr_def)
  have "u16_bytes 0 = [0, 0]" by (simp add: u16_bytes_def)
  then show ?thesis using chksum_inserted [of ?xs "ip4_bytes src @ ip4_bytes dest" a a]
    unfolding ip4_out_hdr_def inline_chksum [where a = a] h by (simp add: u16_bytes_def)
qed

end

section \<open>Headers in front of a packet\<close>

text \<open>A packet with \<open>k\<close> bytes of room in front of its data, in its first pbuf.\<close>

definition room :: "pbuf_cfg \<Rightarrow> lwip_mem \<Rightarrow> addr \<Rightarrow> addr list \<Rightarrow> nat \<Rightarrow> bool" where
  "room c m p xs k \<longleftrightarrow>
     (\<exists>pb. pbufs m p = Some pb \<and> packet (pbufs m) p (p # xs) \<and>
       type_internal pb AND PBUF_TYPE_FLAG_STRUCT_DATA_CONTIGUOUS \<noteq> 0 \<and> p + SIZEOF_STRUCT_PBUF c + k \<le> payload pb \<and>
       tot_len pb + k < 65536 \<and> payload pb < 2 ^ 64 \<and> range_mapped (bytes m) (payload pb - k) k \<and>
       mapped (pbufs m) (bytes m) (p # xs) \<and> clear_of (pbufs m) xs (payload pb - k) k)"

text \<open>The header \<open>h\<close> is put in front.\<close>

definition prepend :: "u8 list \<Rightarrow> addr \<Rightarrow> lwip_mem \<Rightarrow> lwip_mem" where
  "prepend h p m =
     (let pb = the (pbufs m p) in
      (put_pbuf p (grow (length h) pb) m)\<lparr>bytes := mem_upd (bytes m) (payload pb - length h) h\<rparr>)"

lemma prepend_simps [simp]:
  "heap (prepend h p m) = heap m" "pools (prepend h p m) = pools m" "custom_fns (prepend h p m) = custom_fns m"
  "pbufs (prepend h p m) = (pbufs m)(p \<mapsto> grow (length h) (the (pbufs m p)))"
  "bytes (prepend h p m) = mem_upd (bytes m) (payload (the (pbufs m p)) - length h) h"
  by (simp_all add: prepend_def Let_def)

lemma roomD:
  assumes "room c m p xs k"
  shows "p \<noteq> 0" "p \<notin> set xs" "pb_len (the (pbufs m p)) \<le> tot_len (the (pbufs m p))" "pbufs m p = Some (the (pbufs m p))"
    "tot_len (the (pbufs m p)) = length (pdata (pbufs m) (bytes m) (p # xs))" "k \<le> payload (the (pbufs m p))"
    "range_mapped (bytes m) (payload (the (pbufs m p)) - k) k" "tot_len (the (pbufs m p)) + k < 65536"
    "packet (pbufs m) p (p # xs)" "mapped (pbufs m) (bytes m) (p # xs)" "clear_of (pbufs m) xs (payload (the (pbufs m p)) - k) k"
  using assms chain_notin [of "pbufs m" p p xs] unfolding room_def
  by (auto simp: packet_def)

lemma room_fits:
  assumes "room c m p xs k" "n \<le> k"
  shows "header_fits c p (the (pbufs m p)) n False" "n \<le> payload (the (pbufs m p))" "payload (the (pbufs m p)) < 2 ^ 64"
    "tot_len (the (pbufs m p)) < 65536"
  using assms by (auto simp: room_def header_fits_def)

lemma room_less:
  assumes "room c m p xs k" "n \<le> k"
  shows "range_mapped (bytes m) (payload (the (pbufs m p)) - n) n" "clear_of (pbufs m) xs (payload (the (pbufs m p)) - n) n"
proof -
  let ?a = "payload (the (pbufs m p))"
  note d = roomD [OF assms(1)]
  have a: "?a - n = ?a - k + (k - n)" using assms(2) d(6) by simp
  show "range_mapped (bytes m) (?a - n) n" unfolding a using range_mapped_mono [OF d(7), of "k - n" n] assms(2) by simp
  show "clear_of (pbufs m) xs (?a - n) n" using d(11) assms(2) d(6) unfolding clear_of_def by fastforce
qed

lemma room_add_header:
  assumes "room c m p xs k" "0 < n" "n \<le> k"
  shows "pbuf_add_header c p n m = Some (0, put_pbuf p (grow n (the (pbufs m p))) m)"
  using pbuf_add_header_spec [OF roomD(4) [OF assms(1)] roomD(1,3) [OF assms(1)] room_fits(4,3) [OF assms(1,3)], of n c False]
    room_fits [OF assms(1,3)] assms(2) roomD(8) [OF assms(1)] assms(3)
  by (simp add: pbuf_add_header_def)

lemma prepend_data:
  assumes r: "room c m p xs k" and h: "length h \<le> k"
  shows "pdata (pbufs (prepend h p m)) (bytes (prepend h p m)) (p # xs) = h @ pdata (pbufs m) (bytes m) (p # xs)"
proof -
  let ?pb = "the (pbufs m p)" and ?n = "length h"
  let ?a = "payload ?pb - ?n" and ?bm' = "mem_upd (bytes m) (payload ?pb - length h) h"
  note d = roomD [OF r] and l = room_less [OF r h] and f = room_fits [OF r h]
  have "pdata ((pbufs m)(p \<mapsto> grow ?n ?pb)) ?bm' xs = pdata (pbufs m) ?bm' xs" using d(2) by (intro pdata_cong) auto
  then have "pdata ((pbufs m)(p \<mapsto> grow ?n ?pb)) ?bm' xs = pdata (pbufs m) (bytes m) xs" using pdata_clear [OF l(2)] by simp
  moreover have "bytes_at ?bm' ?a (pb_len ?pb + ?n) = h @ bytes_at (bytes m) (payload ?pb) (pb_len ?pb)"
    using bytes_at_add [of ?bm' ?a ?n "pb_len ?pb"] bytes_at_mem_upd_same [of "bytes m" ?a h]
      bytes_at_mem_upd_other [of "payload ?pb" "pb_len ?pb" ?a h "bytes m"] f(2)
    by (simp add: add.commute)
  ultimately show ?thesis by (simp add: grow_def)
qed

lemma room_prepend:
  assumes r: "room c m p xs k" and h: "length h \<le> k"
  shows "room c (prepend h p m) p xs (k - length h)"
proof -
  let ?pb = "the (pbufs m p)" and ?n = "length h"
  note d = roomD [OF r] and l = room_less [OF r h] and f = room_fits [OF r h]
  have "packet ((pbufs m)(p \<mapsto> grow ?n ?pb)) p (p # xs)"
    using packet_grow [OF d(9,4), of ?n] d(8) h by simp
  moreover have "mapped ((pbufs m)(p \<mapsto> grow ?n ?pb)) (mem_upd (bytes m) (payload ?pb - ?n) h) (p # xs)"
  proof -
    have "range_mapped (bytes m) (payload ?pb - ?n) (?n + pb_len ?pb)" using d(10) l(1) f(2) by (simp add: range_mapped_add)
    moreover have "mapped ((pbufs m)(p \<mapsto> grow ?n ?pb)) (bytes m) xs" using d(10,2) unfolding mapped_def by auto
    ultimately show ?thesis using l(1) by (simp add: mapped_def grow_def add.commute)
  qed
  moreover have "clear_of ((pbufs m)(p \<mapsto> grow ?n ?pb)) xs (payload ?pb - ?n - (k - ?n)) (k - ?n)"
    using d(11,2,6) h unfolding clear_of_def by fastforce
  moreover have "range_mapped (mem_upd (bytes m) (payload ?pb - ?n) h) (payload ?pb - ?n - (k - ?n)) (k - ?n)"
    using range_mapped_mono [OF d(7), of 0 "k - ?n"] l(1) h by simp
  ultimately show ?thesis using r h unfolding room_def by (auto simp: grow_def)
qed

lemma prepend_append:
  assumes "room c m p xs k" "length g + length h \<le> k"
  shows "prepend g p (prepend h p m) = prepend (g @ h) p m"
proof -
  let ?pb = "the (pbufs m p)"
  have a: "length g + length h \<le> payload ?pb" using roomD(6) [OF assms(1)] assms(2) by simp
  then have "mem_upd (mem_upd (bytes m) (payload ?pb - length h) h) (payload ?pb - length h - length g) g =
      mem_upd (bytes m) (payload ?pb - (length g + length h)) (g @ h)"
    unfolding mem_upd_append by (subst mem_upd_swap) (simp_all add: add.commute)
  then show ?thesis by (simp add: prepend_def Let_def grow_def put_pbuf_def add.commute add.left_commute)
qed

text \<open>Sending a frame.\<close>

lemma ethernet_output_room:
  assumes r: "room (pcfg c) (stack_mem s) p xs 14" and nif: "netif_at s nif = Some n" "hwaddr_len n = 6"
    and fr: "fr = eth_header dst src t @ pdata (pbufs (stack_mem s)) (bytes (stack_mem s)) (p # xs)"
  shows "ethernet_output c nif p src dst t s = Some (linkoutput c nif fr,
     s\<lparr>stack_mem := prepend (eth_header dst src t) p (stack_mem s), sent := sent s @ [(nif, fr)]\<rparr>)"
  using ethernet_output_spec [OF roomD(9,4) [OF r] room_fits(1-3) [OF r order_refl] roomD(7,10,11) [OF r] nif fr]
  by (simp add: prepend_def Let_def)

section \<open>Resolved destinations\<close>

text \<open>The next hop, when there is one.\<close>

definition outside_net :: "netif \<Rightarrow> ip4_addr \<Rightarrow> bool" where
  "outside_net n dest \<longleftrightarrow> \<not> ip4_addr_netcmp dest (ip_addr n) (netmask n) \<and> \<not> ip4_addr_islinklocal dest"

definition next_hop :: "netif \<Rightarrow> ip4_addr \<Rightarrow> ip4_addr" where
  "next_hop n dest = (if outside_net n dest then gw n else dest)"

text \<open>
  The hardware address \<open>hw\<close> for the destination is known, and the entry is not so old that it has to be asked for again.
\<close>

definition fresh_entry :: "arp_cfg \<Rightarrow> etharp_entry \<Rightarrow> bool" where
  "fresh_entry c e \<longleftrightarrow> arp_st e \<noteq> ETHARP_STATE_STABLE \<or> ctime e < ARP_AGE_REREQUEST_USED_UNICAST c"

definition link_dest :: "arp_cfg \<Rightarrow> addr \<Rightarrow> ip4_addr \<Rightarrow> arp_state \<Rightarrow> eth_addr \<Rightarrow> bool" where
  "link_dest c nif dest s hw \<longleftrightarrow>
     (case netif_at (net s) nif of
        None \<Rightarrow> False
      | Some n \<Rightarrow>
          if ip4_addr_isbroadcast_u32 dest n then hw = ethbroadcast
          else if ip4_addr_ismulticast dest then hw = ip4_multicast_eth dest
          else \<not> (outside_net n dest \<and> ip4_addr_isany_val (gw n)) \<and>
            list_ex (\<lambda>e. stable_match (next_hop n dest) nif e \<and> fresh_entry c e \<and> arp_eth e = hw) (arp_table s))"

lemma link_dest_cong:
  "arp_table s = arp_table s' \<Longrightarrow> netif_at (net s) nif = netif_at (net s') nif \<Longrightarrow> link_dest c nif dest s hw = link_dest c nif dest s' hw"
  by (simp add: link_dest_def split: option.split)

lemma stable_unique:
  assumes ok: "table_ok c s" and i: "i < length (arp_table s)" "stable_match a nif (arp_table s ! i)"
    and e: "e \<in> set (arp_table s)" "stable_match a nif e"
  shows "arp_table s ! i = e"
proof -
  obtain j where "j < length (arp_table s)" "arp_table s ! j = e" using e(1) by (auto simp: in_set_conv_nth)
  moreover from this have "i = j" using distinct_keysD [of "arp_table s" i j] ok i e(2) by (auto simp: table_ok_def stable_match_def)
  ultimately show ?thesis by simp
qed

lemma find_stable_found: "e \<in> set es \<Longrightarrow> stable_match a nif e \<Longrightarrow> \<exists>i. find_stable a nif k es = Some i"
  by (induction es arbitrary: k) auto

lemma output_fresh:
  assumes "i < length (arp_table s)" "stable_match a nif (arp_table s ! i)" "fresh_entry c (arp_table s ! i)"
  shows "etharp_output_to_arp_index c nif q i s = send_ip c nif q (arp_eth (arp_table s ! i)) s"
  using assms by (auto simp: etharp_output_to_arp_index_def stable_match_def fresh_entry_def lwip_assert_def)

lemma output_resolved:
  assumes ok: "table_ok c s" and q: "q \<noteq> 0" and d: "link_dest c nif dest s hw"
  shows "\<exists>i<ARP_TABLE_SIZE c. etharp_output c nif q dest s = send_ip c nif q hw (s\<lparr>etharp_cached_entry := i\<rparr>)"
proof -
  obtain n where n: "netif_at (net s) nif = Some n" using d by (auto simp: link_dest_def split: option.splits)
  then have nif: "nif \<noteq> 0" by (auto simp: netif_at_def split: if_splits)
  have keep: "s\<lparr>etharp_cached_entry := etharp_cached_entry s\<rparr> = s" by simp
  have len: "length (arp_table s) = ARP_TABLE_SIZE c" and ce: "etharp_cached_entry s < ARP_TABLE_SIZE c"
    using ok by (auto simp: table_ok_def)
  show ?thesis
  proof (cases "ip4_addr_isbroadcast_u32 dest n \<or> ip4_addr_ismulticast dest")
    case True
    then show ?thesis using d n nif q ce keep
      by (intro exI [of _ "etharp_cached_entry s"]) (auto simp: etharp_output_def link_dest_def lwip_assert_def)
  next
    case False
    let ?h = "next_hop n dest"
    from False d n obtain e where e: "e \<in> set (arp_table s)" "stable_match ?h nif e" "fresh_entry c e" "arp_eth e = hw"
      and gw: "\<not> (outside_net n dest \<and> ip4_addr_isany_val (gw n))"
      by (auto simp: link_dest_def list_ex_iff)
    have out: "etharp_output c nif q dest s =
        (if stable_match ?h nif (arp_table s ! etharp_cached_entry s)
         then etharp_output_to_arp_index c nif q (etharp_cached_entry s) s
         else case find_stable ?h nif 0 (arp_table s) of
             Some i \<Rightarrow> etharp_output_to_arp_index c nif q i (s\<lparr>etharp_cached_entry := i\<rparr>)
           | None \<Rightarrow> etharp_query c nif ?h q s)"
      using False n nif q gw len ce
      by (cases "outside_net n dest")
        (simp_all add: etharp_output_def lwip_assert_def next_hop_def outside_net_def [symmetric] Let_def split: option.split)
    show ?thesis
    proof (cases "stable_match ?h nif (arp_table s ! etharp_cached_entry s)")
      case True
      then show ?thesis using out stable_unique [OF ok _ True e(1,2)] output_fresh [OF _ True] e(3,4) len ce keep
        by (intro exI [of _ "etharp_cached_entry s"]) simp
    next
      case False
      obtain i where i: "find_stable ?h nif 0 (arp_table s) = Some i" using find_stable_found [OF e(1,2)] by blast
      then have r: "i < length (arp_table s)" "stable_match ?h nif (arp_table s ! i)" using find_stable_range by force+
      then show ?thesis using out False i stable_unique [OF ok r e(1,2)]
          output_fresh [of i "s\<lparr>etharp_cached_entry := i\<rparr>" ?h nif c q] e(3,4) len
        by (intro exI [of _ i]) simp
    qed
  qed
qed

text \<open>The state after one frame.\<close>

definition frame_out :: "addr \<Rightarrow> addr \<Rightarrow> u8 list \<Rightarrow> u8 list \<Rightarrow> nat \<Rightarrow> stack \<Rightarrow> stack" where
  "frame_out nif p h fr i s =
     s\<lparr>arp := (arp s)\<lparr>net := (snet s)\<lparr>stack_mem := prepend h p (smem s), sent := sent (snet s) @ [(nif, fr)]\<rparr>,
       etharp_cached_entry := i\<rparr>\<rparr>"

definition ether_ready :: "stack \<Rightarrow> addr \<Rightarrow> netif \<Rightarrow> eth_addr \<Rightarrow> bool" where
  "ether_ready s nif n hw \<longleftrightarrow> netif_at (snet s) nif = Some n \<and> hwaddr_len n = 6 \<and> eth_of (hwaddr n) = Some hw"

lemma netif_output_spec:
  assumes ok: "table_ok (acfg c) (arp s)" and r: "room (spcfg c) (smem s) p xs 14" and n: "ether_ready s nif n hw"
    and d: "link_dest (acfg c) nif dest (arp s) dst"
    and fr: "fr = eth_header dst hw ETHTYPE_IP @ pdata (pbufs (smem s)) (bytes (smem s)) (p # xs)"
  shows "\<exists>i<ARP_TABLE_SIZE (acfg c). netif_output c nif p dest s =
    Some (linkoutput (ncfg (acfg c)) nif fr, frame_out nif p (eth_header dst hw ETHTYPE_IP) fr i s)"
proof -
  obtain i where i: "i < ARP_TABLE_SIZE (acfg c)"
    "etharp_output (acfg c) nif p dest (arp s) = send_ip (acfg c) nif p dst ((arp s)\<lparr>etharp_cached_entry := i\<rparr>)"
    using output_resolved [OF ok roomD(1) [OF r] d] by blast
  show ?thesis using i n ethernet_output_room [OF r _ _ fr, of nif n]
    by (intro exI [of _ i]) (simp add: netif_output_def ether_ready_def send_ip_def netif_eth_def frame_out_def)
qed

section \<open>The frame of an IP packet\<close>

lemma put_hdr_spec:
  assumes r: "room (spcfg c) (smem s) p xs k" and k: "20 \<le> k"
    and h: "h = ip4_out_hdr tos (of_nat (length (pdata (pbufs (smem s)) (bytes (smem s)) (p # xs)) + 20)) (ip_id s) ttl proto src dest"
  shows "ip4_put_hdr c p (Some src) (Some dest) ttl tos proto s =
    Some (Inr dest, (put_smem (prepend h p (smem s)) s)\<lparr>ip_id := ip_id s + 1\<rparr>)"
proof -
  let ?pb = "the (pbufs (smem s) p)"
  have rm: "range_mapped (bytes (smem s)) (payload ?pb - 20) 20" using room_less(1) [OF r k] .
  have "(of_nat (tot_len ?pb) + 20 :: u16) = of_nat (length (pdata (pbufs (smem s)) (bytes (smem s)) (p # xs)) + 20)"
    using roomD(5) [OF r] by simp
  then show ?thesis using room_add_header [OF r _ k] h
    by (simp add: ip4_put_hdr_def IP_HLEN_def grow_def lwip_assert_def write_ip_hdr_spec [OF rm] prepend_def Let_def put_pbuf_def)
qed

lemma put_smem_simps [simp]:
  "smem (put_smem m s) = m" "netif_at (snet (put_smem m s)) = netif_at (snet s)" "sent (snet (put_smem m s)) = sent (snet s)"
  "ip_id (put_smem m s) = ip_id s" "udp (put_smem m s) = udp s" "ip_data (put_smem m s) = ip_data s" "put_smem m (put_smem m' s) = put_smem m s"
  by (simp_all add: put_smem_def put_mem_def netif_at_def fun_eq_iff)

lemma frame_out_put [simp]:
  assumes "room c m p xs k" "length g + length h \<le> k"
  shows "frame_out nif p g fr i (put_smem (prepend h p m) s) = frame_out nif p (g @ h) fr i (put_smem m s)"
  using prepend_append [OF assms] by (simp add: frame_out_def put_smem_def put_mem_def)

lemma put_smem_same [simp]: "put_smem (smem s) s = s"
  by (simp add: put_smem_def put_mem_def)

text \<open>A packet that fits the interface leaves as one frame.\<close>

lemma ip4_output_if_src_spec:
  fixes s :: stack and p :: addr and xs :: "addr list"
  defines "d \<equiv> pdata (pbufs (smem s)) (bytes (smem s)) (p # xs)"
  assumes ok: "table_ok (acfg c) (arp s)" and r: "room (spcfg c) (smem s) p xs 34" and rf: "pb_ref (the (pbufs (smem s) p)) = 1"
    and n: "ether_ready s nif n hw" and ld: "link_dest (acfg c) nif dest (arp s) dst" and fit: "mtu n = 0 \<or> length d + 20 \<le> mtu n"
    and h: "h = ip4_out_hdr tos (of_nat (length d + 20)) (ip_id s) ttl proto src dest"
    and e: "e = eth_header dst hw ETHTYPE_IP"
  shows "\<exists>i<ARP_TABLE_SIZE (acfg c). ip4_output_if_src c p (Some src) (Some dest) ttl tos proto nif s =
    Some (linkoutput (ncfg (acfg c)) nif (e @ h @ d), (frame_out nif p (e @ h) (e @ h @ d) i s)\<lparr>ip_id := ip_id s + 1\<rparr>)"
proof -
  let ?s = "(put_smem (prepend h p (smem s)) s)\<lparr>ip_id := ip_id s + 1\<rparr>"
  have lh: "length h = 20" using h by simp
  have put: "ip4_put_hdr c p (Some src) (Some dest) ttl tos proto s = Some (Inr dest, ?s)"
    using put_hdr_spec [OF r] h unfolding d_def by simp
  have r': "room (spcfg c) (smem ?s) p xs 14" using room_prepend [OF r, of h] lh by simp
  have d': "pdata (pbufs (smem ?s)) (bytes (smem ?s)) (p # xs) = h @ d" using prepend_data [OF r, of h] lh unfolding d_def by simp
  have t: "tot_len (grow 20 (the (pbufs (smem s) p))) = length d + 20" using roomD(5) [OF r] by (simp add: grow_def d_def)
  have "table_ok (acfg c) (arp ?s)" using ok by (simp add: put_smem_def put_mem_def table_ok_def)
  moreover have "ether_ready ?s nif n hw" using n by (simp add: ether_ready_def)
  moreover have "link_dest (acfg c) nif dest (arp ?s) dst" using ld link_dest_cong [of "arp ?s" "arp s"]
    by (simp add: put_smem_def put_mem_def netif_at_def)
  ultimately obtain i where i: "i < ARP_TABLE_SIZE (acfg c)" "netif_output c nif p dest ?s =
      Some (linkoutput (ncfg (acfg c)) nif (e @ h @ d), frame_out nif p e (e @ h @ d) i ?s)"
    using netif_output_spec [OF _ r'] e d' by (metis (no_types, lifting))
  have fo: "frame_out nif p e (e @ h @ d) i ?s = (frame_out nif p (e @ h) (e @ h @ d) i s)\<lparr>ip_id := ip_id s + 1\<rparr>"
    using prepend_append [OF r, of e h] lh e by (simp add: frame_out_def put_smem_def put_mem_def)
  obtain pb where pb: "pbufs (smem s) p = Some pb" "pb_ref pb = 1" using roomD(4) [OF r] rf by blast
  show ?thesis
  proof (intro exI [of _ i] conjI i(1))
    show "ip4_output_if_src c p (Some src) (Some dest) ttl tos proto nif s =
      Some (linkoutput (ncfg (acfg c)) nif (e @ h @ d), (frame_out nif p (e @ h) (e @ h @ d) i s)\<lparr>ip_id := ip_id s + 1\<rparr>)"
      using put i(2) fo pb n fit t lh
      by (auto simp: ip4_output_if_src_def lwip_assert_def ether_ready_def)
  qed
qed

end
