(* ===== verification/Udp_Output.thy ===== *)
theory Udp_Output
  imports Ip4_Output
begin

text \<open>
  Sending UDP datagrams, \<^verbatim>\<open>lwip/src/core/udp.c\<close>: choosing the interface and the source address, binding an unbound pcb, the header
  with its checksum over the pseudo header, and the hand over to IP.  A \<open>None\<close> for an address is a \<^verbatim>\<open>NULL\<close> pointer.
\<close>

section \<open>Choosing an interface\<close>

fun index_loop :: "(addr \<rightharpoonup> netif) \<Rightarrow> nat \<Rightarrow> addr list \<Rightarrow> addr option" where
  "index_loop m idx [] = Some 0"
| "index_loop m idx (a # as) = do { n \<leftarrow> m a; if idx = netif_get_index n then Some a else index_loop m idx as }"

definition netif_get_by_index :: "nat \<Rightarrow> net_state \<Rightarrow> addr option" where
  "netif_get_by_index idx s = (if idx \<noteq> NETIF_NO_INDEX then index_loop (netifs s) idx (netif_list s) else Some 0)"

section \<open>The datagram\<close>

definition UDP_HLEN :: nat where "UDP_HLEN = 8"

text \<open>Room for the header, in the first pbuf or in a new one in front of it; the result is the packet to send.\<close>

definition udp_add_header :: "stack_cfg \<Rightarrow> addr \<Rightarrow> stack \<Rightarrow> ((err_t + addr) \<times> stack) option" where
  "udp_add_header c p s =
     do {
       (r, m) \<leftarrow> pbuf_add_header (spcfg c) p UDP_HLEN (smem s);
       if r \<noteq> 0 then
         do {
           (q, m) \<leftarrow> pbuf_alloc (spcfg c) (PBUF_IP (spcfg c)) UDP_HLEN PBUF_RAM m;
           if q = 0 then Some (Inl ERR_MEM, put_smem m s)
           else
             do {
               pb \<leftarrow> pbufs m p;
               m \<leftarrow> (if tot_len pb \<noteq> 0 then pbuf_chain q p m else Some m);
               Some (Inr q, put_smem m s)
             }
         }
       else Some (Inr p, put_smem m s)
     }"

definition write_udp_hdr :: "stack_cfg \<Rightarrow> udp_pcb \<Rightarrow> addr \<Rightarrow> ip4_addr \<Rightarrow> ip4_addr \<Rightarrow> u16 \<Rightarrow> lwip_mem \<Rightarrow> lwip_mem option" where
  "write_udp_hdr c pcb q src_ip dst_ip dst_port m =
     do {
       pb \<leftarrow> pbufs m q;
       lwip_assert (pb_len pb \<ge> UDP_HLEN);
       let udphdr = payload pb;
       bm \<leftarrow> store_bytes (bytes m) udphdr (u16_bytes (lwip_htons (local_port pcb)));
       bm \<leftarrow> store_bytes bm (udphdr + 2) (u16_bytes (lwip_htons dst_port));
       bm \<leftarrow> store_bytes bm (udphdr + 6) (u16_bytes 0);
       bm \<leftarrow> store_bytes bm (udphdr + 4) (u16_bytes (lwip_htons (of_nat (tot_len pb))));
       if udp_flags pcb AND UDP_FLAGS_NOCHKSUM = 0 then
         do {
           udpchksum \<leftarrow> inet_chksum_pseudo (LWIP_CHKSUM c) (pbufs m) bm q IP_PROTO_UDP (of_nat (tot_len pb)) src_ip dst_ip;
           let udpchksum = (if udpchksum = 0 then 0xffff else udpchksum);
           bm \<leftarrow> store_bytes bm (udphdr + 6) (u16_bytes udpchksum);
           Some (m\<lparr>bytes := bm\<rparr>)
         }
       else Some (m\<lparr>bytes := bm\<rparr>)
     }"

text \<open>The datagram is built and sent; a header pbuf is freed at the end.\<close>

definition udp_transmit ::
  "stack_cfg \<Rightarrow> udp_pcb \<Rightarrow> addr \<Rightarrow> ip4_addr \<Rightarrow> u16 \<Rightarrow> addr \<Rightarrow> ip4_addr \<Rightarrow> stack \<Rightarrow> (err_t \<times> stack) option" where
  "udp_transmit c pcb p dst_ip dst_port nif src_ip s =
     do {
       pb \<leftarrow> pbufs (smem s) p;
       if u16_of (tot_len pb + UDP_HLEN) < tot_len pb then Some (ERR_MEM, s)
       else
         do {
           (r, s) \<leftarrow> udp_add_header c p s;
           case r of
             Inl err \<Rightarrow> Some (err, s)
           | Inr q \<Rightarrow>
               do {
                 m \<leftarrow> write_udp_hdr c pcb q src_ip dst_ip dst_port (smem s);
                 (err, s) \<leftarrow> ip4_output_if_src c q (Some src_ip) (Some dst_ip) (udp_ttl pcb) (udp_tos pcb) IP_PROTO_UDP nif
                   (put_smem m s);
                 s \<leftarrow> (if q \<noteq> p then s_free c q s else Some s);
                 Some (err, s)
               }
         }
     }"

definition udp_sendto_if_src ::
  "stack_cfg \<Rightarrow> addr \<Rightarrow> addr \<Rightarrow> ip4_addr option \<Rightarrow> u16 \<Rightarrow> addr \<Rightarrow> ip4_addr option \<Rightarrow> stack \<Rightarrow> (err_t \<times> stack) option" where
  "udp_sendto_if_src c pcb p dst_ip dst_port nif src_ip s =
     (case (dst_ip, src_ip) of
        (Some dst, Some src) \<Rightarrow>
          if pcb = 0 \<or> p = 0 \<or> nif = 0 then Some (ERR_ARG, s)
          else
            do {
              b \<leftarrow> udp_pcb_at (udp s) pcb;
              (err, u) \<leftarrow> (if local_port b = 0 then udp_bind pcb (Some (local_ip b)) (local_port b) (udp s)
                 else Some (ERR_OK, udp s));
              let s = s\<lparr>udp := u\<rparr>;
              if err \<noteq> ERR_OK then Some (err, s)
              else do { b \<leftarrow> udp_pcb_at u pcb; udp_transmit c b p dst dst_port nif src s }
            }
      | _ \<Rightarrow> Some (ERR_ARG, s))"

definition udp_sendto_if ::
  "stack_cfg \<Rightarrow> addr \<Rightarrow> addr \<Rightarrow> ip4_addr option \<Rightarrow> u16 \<Rightarrow> addr \<Rightarrow> stack \<Rightarrow> (err_t \<times> stack) option" where
  "udp_sendto_if c pcb p dst_ip dst_port nif s =
     (if pcb = 0 \<or> p = 0 \<or> dst_ip = None \<or> nif = 0 then Some (ERR_ARG, s)
      else
        do {
          b \<leftarrow> udp_pcb_at (udp s) pcb;
          n \<leftarrow> netif_at (snet s) nif;
          if ip4_addr_isany_val (local_ip b) \<or> ip4_addr_ismulticast (local_ip b) then
            udp_sendto_if_src c pcb p dst_ip dst_port nif (Some (ip_addr n)) s
          else if local_ip b \<noteq> ip_addr n then Some (ERR_RTE, s)
          else udp_sendto_if_src c pcb p dst_ip dst_port nif (Some (local_ip b)) s
        })"

definition udp_sendto :: "stack_cfg \<Rightarrow> addr \<Rightarrow> addr \<Rightarrow> ip4_addr option \<Rightarrow> u16 \<Rightarrow> stack \<Rightarrow> (err_t \<times> stack) option" where
  "udp_sendto c pcb p dst_ip dst_port s =
     (case dst_ip of
        None \<Rightarrow> Some (ERR_ARG, s)
      | Some dst \<Rightarrow>
          if pcb = 0 \<or> p = 0 then Some (ERR_ARG, s)
          else
            do {
              b \<leftarrow> udp_pcb_at (udp s) pcb;
              nif \<leftarrow> (if netif_idx b \<noteq> NETIF_NO_INDEX then netif_get_by_index (netif_idx b) (snet s) else ip4_route dst (snet s));
              if nif = 0 then Some (ERR_RTE, s)
              else udp_sendto_if c pcb p dst_ip dst_port nif s
            })"

definition udp_send :: "stack_cfg \<Rightarrow> addr \<Rightarrow> addr \<Rightarrow> stack \<Rightarrow> (err_t \<times> stack) option" where
  "udp_send c pcb p s =
     (if pcb = 0 \<or> p = 0 then Some (ERR_ARG, s)
      else do { b \<leftarrow> udp_pcb_at (udp s) pcb; udp_sendto c pcb p (Some (remote_ip b)) (remote_port b) s })"

section \<open>The bytes of a datagram\<close>

definition udp_hdr :: "u16 \<Rightarrow> u16 \<Rightarrow> u16 \<Rightarrow> u16 \<Rightarrow> u8 list" where
  "udp_hdr sport dport len chk =
     u16_bytes (lwip_htons sport) @ u16_bytes (lwip_htons dport) @ u16_bytes (lwip_htons len) @ u16_bytes chk"

lemma length_udp_hdr [simp]: "length (udp_hdr sport dport len chk) = 8"
  by (simp add: udp_hdr_def)

text \<open>Storing the four fields in the order of the code.\<close>

lemma udp_fields_stored:
  assumes "range_mapped m a 8" "length x0 = 2" "length x2 = 2" "length x4 = 2" "length x6 = 2"
  shows "do { m \<leftarrow> store_bytes m a x0; m \<leftarrow> store_bytes m (a + 2) x2; m \<leftarrow> store_bytes m (a + 6) x6;
      m \<leftarrow> store_bytes m (a + 4) x4; f m } = f (mem_upd m a (x0 @ x2 @ x4 @ x6))"
proof -
  have r: "range_mapped m (a + k) j" if "k + j \<le> 8" for k j using range_mapped_mono [OF assms(1) that] .
  have "mem_upd (mem_upd (mem_upd (mem_upd m a x0) (a + 2) x2) (a + 6) x6) (a + 4) x4 = mem_upd m a (x0 @ x2 @ x4 @ x6)"
    unfolding mem_upd_append using assms(2-5) by (subst mem_upd_swap [of "a + 4" x4 "a + 6"]) (simp_all add: add.assoc del: add_2_eq_Suc add_2_eq_Suc')
  then show ?thesis using r r [of 0 2] assms(2-5) by (simp add: mem_simps del: add_2_eq_Suc add_2_eq_Suc')
qed

lemma udp_chksum_stored:
  assumes "range_mapped m a 8" "length x = 6" "length y = 2" "length z = 2"
  shows "store_bytes (mem_upd m a (x @ y)) (a + 6) z = Some (mem_upd m a (x @ z))"
proof -
  have "range_mapped m (a + 6) 2" using range_mapped_mono [OF assms(1), of 6 2] by simp
  moreover have "mem_upd (mem_upd m a (x @ y)) (a + 6) z = mem_upd m a (x @ z)"
    by (rule ext) (auto simp: mem_upd_def nth_append assms(2-4))
  moreover have "range_mapped m a (length (x @ y))" using assms by simp
  ultimately show ?thesis using assms by (simp add: mem_simps)
qed

text \<open>The checksum that is sent: the sum over the pseudo header and the datagram, with 0 written as 0xffff.\<close>

definition udp_chk :: "(addr \<Rightarrow> u8 list \<Rightarrow> u16) \<Rightarrow> ip4_addr \<Rightarrow> ip4_addr \<Rightarrow> u16 \<Rightarrow> u16 \<Rightarrow> u8 list \<Rightarrow> u16" where
  "udp_chk chksum src dest sport dport d =
     (let len = of_nat (length d + 8);
          chk = inet_chksum chksum 0 (pseudo_header src dest IP_PROTO_UDP len @ udp_hdr sport dport len 0 @ d)
      in if chk = 0 then 0xffff else chk)"

definition udp_out_hdr :: "stack_cfg \<Rightarrow> udp_pcb \<Rightarrow> ip4_addr \<Rightarrow> ip4_addr \<Rightarrow> u16 \<Rightarrow> u8 list \<Rightarrow> u8 list" where
  "udp_out_hdr c pcb src dest dport d =
     udp_hdr (local_port pcb) dport (of_nat (length d + 8))
       (if udp_flags pcb AND UDP_FLAGS_NOCHKSUM = 0 then udp_chk (LWIP_CHKSUM c) src dest (local_port pcb) dport d else 0)"

lemma length_udp_out_hdr [simp]: "length (udp_out_hdr c pcb src dest dport d) = 8"
  by (simp add: udp_out_hdr_def)

lemma udp_chk_nonzero: "udp_chk f src dest sport dport d \<noteq> 0"
  by (simp add: udp_chk_def Let_def)

context chksum_routine
begin

lemma udp_chk_verifies:
  assumes "length d + 20 < 65536"
  shows "inet_chksum LWIP_CHKSUM a (pseudo_header src dest IP_PROTO_UDP (of_nat (length d + 8)) @
    udp_hdr sport dport (of_nat (length d + 8)) (udp_chk LWIP_CHKSUM src dest sport dport d) @ d) = 0"
proof -
  let ?len = "of_nat (length d + 8) :: u16"
  let ?xs = "pseudo_header src dest IP_PROTO_UDP ?len @ u16_bytes (lwip_htons sport) @ u16_bytes (lwip_htons dport) @
    u16_bytes (lwip_htons ?len)"
  have h: "pseudo_header src dest IP_PROTO_UDP ?len @ udp_hdr sport dport ?len chk @ d = ?xs @ u16_bytes chk @ d" for chk
    by (simp add: udp_hdr_def)
  have z: "u16_bytes 0 = [0, 0]" by (simp add: u16_bytes_def)
  let ?S = "lesum (?xs @ [0, 0] @ d)"
  let ?c = "inet_chksum LWIP_CHKSUM 0 (?xs @ [0, 0] @ d)"
  have l: "even (length ?xs)" "length ?xs + 2 + length d < 65536" using assms by simp_all
  have k: "udp_chk LWIP_CHKSUM src dest sport dport d = (if ?c = 0 then 0xffff else ?c)"
    unfolding udp_chk_def Let_def h z ..
  show ?thesis
  proof (cases "?c = 0")
    case True
    then have "unat ?c = 0" by simp
    then have oc: "oc ?S = 65535" using l(2) oc_le [of ?S] by (simp add: unat_inet_chksum)
    then have "oc (?S + 65535) = 65535" using oc_shift [of "?S + 65535" ?S 1] by (metis mult.right_neutral oc_0 zero_neq_numeral)
    moreover have "lesum (?xs @ u16_bytes 0xffff @ d) = ?S + 65535" using lesum_field [OF l(1), of "0xffff" d] by simp
    ultimately have "oc (lesum (?xs @ u16_bytes 0xffff @ d)) = 65535" by (simp only:)
    then have "unat (inet_chksum LWIP_CHKSUM a (?xs @ u16_bytes 0xffff @ d)) = 0"
      using l(2) by (simp add: unat_inet_chksum)
    then show ?thesis unfolding h k using True by (simp only: unsigned_eq_0_iff simp_thms if_True)
  next
    case False
    then show ?thesis unfolding h k using chksum_inserted [OF l, of a 0] by (simp only: if_False)
  qed
qed

end

lemma write_udp_hdr_spec:
  assumes r: "room (spcfg c) m p xs k" and k: "20 \<le> k" and chk: "chksum_routine (LWIP_CHKSUM c)"
    and d: "d = pdata (pbufs m) (bytes m) (p # xs)"
  shows "write_udp_hdr c pcb p src dest dport (put_pbuf p (grow 8 (the (pbufs m p))) m) =
    Some (prepend (udp_out_hdr c pcb src dest dport d) p m)"
proof -
  let ?pb = "the (pbufs m p)" and ?len = "of_nat (length d + 8) :: u16"
  let ?h = "udp_hdr (local_port pcb) dport ?len"
  let ?x = "u16_bytes (lwip_htons (local_port pcb)) @ u16_bytes (lwip_htons dport) @ u16_bytes (lwip_htons ?len)"
  have hx: "?h w = ?x @ u16_bytes w" for w by (simp add: udp_hdr_def)
  have k8: "8 \<le> k" using k by simp
  have rm: "range_mapped (bytes m) (payload ?pb - 8) 8" using room_less(1) [OF r k8] .
  have t: "tot_len (grow 8 ?pb) = length d + 8" using roomD(5) [OF r] d by (simp add: grow_def)
  have r0: "room (spcfg c) (prepend (?h 0) p m) p xs (k - 8)" using room_prepend [OF r, of "?h 0"] k by simp
  have pd: "pdata (pbufs (prepend (?h 0) p m)) (bytes (prepend (?h 0) p m)) (p # xs) = ?h 0 @ d"
    using prepend_data [OF r, of "?h 0"] k d by simp
  have s12: "sum_len (pbufs (prepend (?h 0) p m)) (p # xs) + 12 < 65536"
    using roomD(5,8,9) [OF r0] roomD(8) [OF r] k t by (simp add: packet_def)
  have "inet_chksum_pseudo (LWIP_CHKSUM c) (pbufs (prepend (?h 0) p m)) (bytes (prepend (?h 0) p m)) p IP_PROTO_UDP ?len src dest =
      Some (inet_chksum (LWIP_CHKSUM c) 0 (pseudo_header src dest IP_PROTO_UDP ?len @ ?h 0 @ d))"
    using chksum_routine.inet_chksum_pseudo_sum [OF chk roomD(9,10) [OF r0] s12] unfolding pd by blast
  then have ck: "inet_chksum_pseudo (LWIP_CHKSUM c) ((pbufs m)(p \<mapsto> grow 8 ?pb)) (mem_upd (bytes m) (payload ?pb - 8) (?h 0)) p
      IP_PROTO_UDP ?len src dest = Some (inet_chksum (LWIP_CHKSUM c) 0 (pseudo_header src dest IP_PROTO_UDP ?len @ ?h 0 @ d))"
    by simp
  have st: "store_bytes (mem_upd (bytes m) (payload ?pb - 8) (?h 0)) (payload ?pb - 8 + 6) (u16_bytes w) =
      Some (mem_upd (bytes m) (payload ?pb - 8) (?h w))" for w
    unfolding hx by (rule udp_chksum_stored [OF rm]) simp_all
  have "write_udp_hdr c pcb p src dest dport (put_pbuf p (grow 8 ?pb) m) =
     (if udp_flags pcb AND UDP_FLAGS_NOCHKSUM = 0 then
        do {
          chk \<leftarrow> inet_chksum_pseudo (LWIP_CHKSUM c) ((pbufs m)(p \<mapsto> grow 8 ?pb)) (mem_upd (bytes m) (payload ?pb - 8) (?h 0)) p
             IP_PROTO_UDP ?len src dest;
          bm \<leftarrow> store_bytes (mem_upd (bytes m) (payload ?pb - 8) (?h 0)) (payload ?pb - 8 + 6) (u16_bytes (if chk = 0 then 0xffff else chk));
          Some ((put_pbuf p (grow 8 ?pb) m)\<lparr>bytes := bm\<rparr>)
        }
      else Some ((put_pbuf p (grow 8 ?pb) m)\<lparr>bytes := mem_upd (bytes m) (payload ?pb - 8) (?h 0)\<rparr>))"
    using t unfolding write_udp_hdr_def
    by (simp add: UDP_HLEN_def lwip_assert_def grow_def Let_def udp_fields_stored [OF rm] hx udp_hdr_def
        del: add_2_eq_Suc add_2_eq_Suc')
  then show ?thesis unfolding ck using st
    by (simp add: udp_out_hdr_def udp_chk_def Let_def prepend_def)
qed

section \<open>The frame of a datagram\<close>

text \<open>What is needed for a datagram with the data \<open>d\<close> to leave at once, in one frame.\<close>

definition can_send :: "stack_cfg \<Rightarrow> stack \<Rightarrow> addr \<Rightarrow> addr list \<Rightarrow> addr \<Rightarrow> netif \<Rightarrow> eth_addr \<Rightarrow> ip4_addr \<Rightarrow> eth_addr \<Rightarrow> u8 list \<Rightarrow> bool" where
  "can_send c s p xs nif n hw dest dst d \<longleftrightarrow>
     table_ok (acfg c) (arp s) \<and> room (spcfg c) (smem s) p xs 42 \<and> pb_ref (the (pbufs (smem s) p)) = 1 \<and>
     d = pdata (pbufs (smem s)) (bytes (smem s)) (p # xs) \<and> ether_ready s nif n hw \<and>
     link_dest (acfg c) nif dest (arp s) dst \<and> (mtu n = 0 \<or> length d + 28 \<le> mtu n)"

text \<open>The headers of the frame.\<close>

definition udp_headers ::
  "stack_cfg \<Rightarrow> udp_pcb \<Rightarrow> eth_addr \<Rightarrow> eth_addr \<Rightarrow> u16 \<Rightarrow> ip4_addr \<Rightarrow> ip4_addr \<Rightarrow> u16 \<Rightarrow> u8 list \<Rightarrow> u8 list" where
  "udp_headers c b dst hw ident src dest dport d =
     eth_header dst hw ETHTYPE_IP @
     ip4_out_hdr (udp_tos b) (of_nat (length d + 28)) ident (udp_ttl b) IP_PROTO_UDP src dest @
     udp_out_hdr c b src dest dport d"

text \<open>The state after the datagram has left.\<close>

definition datagram_out :: "addr \<Rightarrow> addr \<Rightarrow> u8 list \<Rightarrow> u8 list \<Rightarrow> nat \<Rightarrow> stack \<Rightarrow> stack" where
  "datagram_out nif p h d i s = (frame_out nif p h (h @ d) i s)\<lparr>ip_id := ip_id s + 1\<rparr>"

lemma udp_transmit_spec:
  assumes cs: "can_send c s p xs nif n hw dest dst d" and chk: "chksum_routine (LWIP_CHKSUM c)"
    and h: "h = udp_headers c b dst hw (ip_id s) src dest dport d"
  shows "\<exists>i<ARP_TABLE_SIZE (acfg c). udp_transmit c b p dest dport nif src s =
    Some (linkoutput (ncfg (acfg c)) nif (h @ d), datagram_out nif p h d i s)"
proof -
  have ok: "table_ok (acfg c) (arp s)" and r: "room (spcfg c) (smem s) p xs 42" and rf: "pb_ref (the (pbufs (smem s) p)) = 1"
    and d: "d = pdata (pbufs (smem s)) (bytes (smem s)) (p # xs)" and n: "ether_ready s nif n hw"
    and ld: "link_dest (acfg c) nif dest (arp s) dst" and fit: "mtu n = 0 \<or> length d + 28 \<le> mtu n"
    using cs unfolding can_send_def by blast+
  let ?u = "udp_out_hdr c b src dest dport d" and ?e = "eth_header dst hw ETHTYPE_IP"
  let ?i = "ip4_out_hdr (udp_tos b) (of_nat (length d + 28)) (ip_id s) (udp_ttl b) IP_PROTO_UDP src dest"
  let ?s = "put_smem (prepend ?u p (smem s)) s"
  obtain pb where pb: "pbufs (smem s) p = Some pb" using roomD(4) [OF r] by blast
  have r': "room (spcfg c) (smem ?s) p xs 34" using room_prepend [OF r, of ?u] by simp
  have d': "pdata (pbufs (smem ?s)) (bytes (smem ?s)) (p # xs) = ?u @ d" using prepend_data [OF r, of ?u] d by simp
  have add: "udp_add_header c p s = Some (Inr p, put_smem (put_pbuf p (grow 8 pb) (smem s)) s)"
    using room_add_header [OF r, of 8] pb by (simp add: udp_add_header_def UDP_HLEN_def)
  have wr: "write_udp_hdr c b p src dest dport (put_pbuf p (grow 8 pb) (smem s)) = Some (prepend ?u p (smem s))"
    using write_udp_hdr_spec [OF r _ chk d] pb by simp
  have nw: "\<not> u16_of (tot_len pb + UDP_HLEN) < tot_len pb" using roomD(8) [OF r] pb by (simp add: UDP_HLEN_def u16_of_def)
  have "table_ok (acfg c) (arp ?s)" using ok by (simp add: put_smem_def put_mem_def table_ok_def)
  moreover have "pb_ref (the (pbufs (smem ?s) p)) = 1" using rf by (simp add: grow_def)
  moreover have "ether_ready ?s nif n hw" using n by (simp add: ether_ready_def)
  moreover have "link_dest (acfg c) nif dest (arp ?s) dst" using ld link_dest_cong [of "arp ?s" "arp s"]
    by (simp add: put_smem_def put_mem_def netif_at_def)
  ultimately obtain i where i: "i < ARP_TABLE_SIZE (acfg c)"
    "ip4_output_if_src c p (Some src) (Some dest) (udp_ttl b) (udp_tos b) IP_PROTO_UDP nif ?s =
      Some (linkoutput (ncfg (acfg c)) nif (?e @ ?i @ ?u @ d), (frame_out nif p (?e @ ?i) (?e @ ?i @ ?u @ d) i ?s)\<lparr>ip_id := ip_id s + 1\<rparr>)"
    using ip4_output_if_src_spec [OF _ r', of nif n hw dest dst ?i "udp_tos b" "udp_ttl b" IP_PROTO_UDP src ?e] fit
    unfolding d' by (auto simp: ac_simps)
  have fo: "(frame_out nif p (?e @ ?i) (?e @ ?i @ ?u @ d) i ?s)\<lparr>ip_id := ip_id s + 1\<rparr> = datagram_out nif p h d i s"
    using prepend_append [OF r, of "?e @ ?i" ?u]
    by (simp add: datagram_out_def frame_out_def put_smem_def put_mem_def h udp_headers_def)
  have "udp_transmit c b p dest dport nif src s = Some (linkoutput (ncfg (acfg c)) nif (h @ d), datagram_out nif p h d i s)"
    using pb nw add wr i(2) fo by (simp add: udp_transmit_def h udp_headers_def)
  then show ?thesis using i(1) by blast
qed

text \<open>The source address that a pcb uses on an interface.\<close>

definition source_addr :: "udp_pcb \<Rightarrow> netif \<Rightarrow> ip4_addr" where
  "source_addr b n = (if ip4_addr_isany_val (local_ip b) \<or> ip4_addr_ismulticast (local_ip b) then ip_addr n else local_ip b)"

lemma udp_sendto_if_spec:
  assumes cs: "can_send c s p xs nif n hw dest dst d" and chk: "chksum_routine (LWIP_CHKSUM c)"
    and b: "udp_pcb_at (udp s) pcb = Some b" "pcb \<noteq> 0" "local_port b \<noteq> 0"
    and src: "ip4_addr_isany_val (local_ip b) \<or> ip4_addr_ismulticast (local_ip b) \<or> local_ip b = ip_addr n"
    and h: "h = udp_headers c b dst hw (ip_id s) (source_addr b n) dest dport d"
  shows "\<exists>i<ARP_TABLE_SIZE (acfg c). udp_sendto_if c pcb p (Some dest) dport nif s =
    Some (linkoutput (ncfg (acfg c)) nif (h @ d), datagram_out nif p h d i s)"
proof -
  have n: "netif_at (snet s) nif = Some n" "nif \<noteq> 0" "p \<noteq> 0"
    using cs roomD(1) [of "spcfg c" "smem s" p xs 42] by (auto simp: can_send_def ether_ready_def netif_at_def split: if_splits)
  have "s\<lparr>udp := udp s\<rparr> = s" by simp
  then have "udp_sendto_if_src c pcb p (Some dest) dport nif (Some a) s = udp_transmit c b p dest dport nif a s" for a
    using b n by (simp add: udp_sendto_if_src_def)
  then have "udp_sendto_if c pcb p (Some dest) dport nif s = udp_transmit c b p dest dport nif (source_addr b n) s"
    using b n src by (auto simp: udp_sendto_if_def source_addr_def)
  then show ?thesis using udp_transmit_spec [OF cs chk h] by simp
qed

text \<open>The interface that a pcb sends over.\<close>

definition send_netif :: "udp_pcb \<Rightarrow> ip4_addr \<Rightarrow> net_state \<Rightarrow> addr option" where
  "send_netif b dest s = (if netif_idx b = NETIF_NO_INDEX then ip4_route dest s else netif_get_by_index (netif_idx b) s)"

lemma udp_sendto_spec:
  assumes cs: "can_send c s p xs nif n hw dest dst d" and chk: "chksum_routine (LWIP_CHKSUM c)"
    and b: "udp_pcb_at (udp s) pcb = Some b" "pcb \<noteq> 0" "local_port b \<noteq> 0"
    and src: "ip4_addr_isany_val (local_ip b) \<or> ip4_addr_ismulticast (local_ip b) \<or> local_ip b = ip_addr n"
    and nif: "send_netif b dest (snet s) = Some nif"
    and h: "h = udp_headers c b dst hw (ip_id s) (source_addr b n) dest dport d"
  shows "\<exists>i<ARP_TABLE_SIZE (acfg c). udp_sendto c pcb p (Some dest) dport s =
    Some (linkoutput (ncfg (acfg c)) nif (h @ d), datagram_out nif p h d i s)"
proof -
  have "nif \<noteq> 0" "p \<noteq> 0"
    using cs roomD(1) [of "spcfg c" "smem s" p xs 42] by (auto simp: can_send_def ether_ready_def netif_at_def split: if_splits)
  then have "udp_sendto c pcb p (Some dest) dport s = udp_sendto_if c pcb p (Some dest) dport nif s"
    using b nif by (auto simp: udp_sendto_def send_netif_def split: if_splits)
  then show ?thesis using udp_sendto_if_spec [OF cs chk b src h] by simp
qed

end
