(* ===== verification/Ip4_Input.thy ===== *)
theory Ip4_Input
  imports Udp_Output
begin

text \<open>
  Receiving: \<^verbatim>\<open>ethernet_input\<close> of \<^verbatim>\<open>lwip/src/netif/ethernet.c\<close>, \<^verbatim>\<open>ip4_input\<close> of \<^verbatim>\<open>ip4.c\<close>, \<^verbatim>\<open>icmp.c\<close> and the demultiplexing of \<^verbatim>\<open>udp.c\<close>.
  The build has UDP and ICMP as its protocols, no reassembly, no forwarding and no group management, and does not answer
  pings to broadcast and multicast addresses.  The receive functions of the application are a parameter, called by \<open>recv_fn\<close>.
\<close>

section \<open>ICMP\<close>

definition ICMP_ER :: u8 where "ICMP_ER = 0"
definition ICMP_DUR :: u8 where "ICMP_DUR = 3"
definition ICMP_ECHO :: u8 where "ICMP_ECHO = 8"
definition ICMP_DUR_PROTO :: u8 where "ICMP_DUR_PROTO = 2"
definition ICMP_DUR_PORT :: u8 where "ICMP_DUR_PORT = 3"
definition ICMP_TTL :: u8 where "ICMP_TTL = 255"
definition SIZEOF_ICMP_ECHO_HDR :: nat where "SIZEOF_ICMP_ECHO_HDR = 8"
definition ICMP_DEST_UNREACH_DATASIZE :: nat where "ICMP_DEST_UNREACH_DATASIZE = 8"

text \<open>A message about the packet \<open>p\<close>, whose payload is its IP header, to the sender of the packet.\<close>

definition icmp_send_response :: "stack_cfg \<Rightarrow> addr \<Rightarrow> u8 \<Rightarrow> u8 \<Rightarrow> stack \<Rightarrow> stack option" where
  "icmp_send_response c p type code s =
     do {
       let n = SIZEOF_ICMP_ECHO_HDR + IP_HLEN + ICMP_DEST_UNREACH_DATASIZE;
       (q, m) \<leftarrow> pbuf_alloc (spcfg c) (PBUF_IP (spcfg c)) n PBUF_RAM (smem s);
       if q = 0 then Some (put_smem m s)
       else
         do {
           qb \<leftarrow> pbufs m q;
           lwip_assert (pb_len qb \<ge> n);
           pb \<leftarrow> pbufs m p;
           let icmphdr = payload qb;
           bm \<leftarrow> store_bytes (bytes m) icmphdr [type];
           bm \<leftarrow> store_bytes bm (icmphdr + 1) [code];
           bm \<leftarrow> store_bytes bm (icmphdr + 4) (u16_bytes 0);
           bm \<leftarrow> store_bytes bm (icmphdr + 6) (u16_bytes 0);
           bs \<leftarrow> load_bytes bm (payload pb) (IP_HLEN + ICMP_DEST_UNREACH_DATASIZE);
           bm \<leftarrow> store_bytes bm (icmphdr + SIZEOF_ICMP_ECHO_HDR) bs;
           sb \<leftarrow> load_bytes bm (payload pb + 12) 4;
           iphdr_src \<leftarrow> ip4_of sb;
           nif \<leftarrow> ip4_route iphdr_src (snet s);
           s \<leftarrow> (if nif \<noteq> 0 then
               do {
                 bm \<leftarrow> store_bytes bm (icmphdr + 2) (u16_bytes 0);
                 bs \<leftarrow> load_bytes bm icmphdr (pb_len qb);
                 bm \<leftarrow> store_bytes bm (icmphdr + 2) (u16_bytes (inet_chksum (LWIP_CHKSUM c) icmphdr bs));
                 (_, s) \<leftarrow> ip4_output_if c q None (Some iphdr_src) ICMP_TTL 0 IP_PROTO_ICMP nif (put_smem (m\<lparr>bytes := bm\<rparr>) s);
                 Some s
               }
             else Some (put_smem (m\<lparr>bytes := bm\<rparr>) s));
           s_free c q s
         }
     }"

definition icmp_dest_unreach :: "stack_cfg \<Rightarrow> addr \<Rightarrow> u8 \<Rightarrow> stack \<Rightarrow> stack option" where
  "icmp_dest_unreach c p t s = icmp_send_response c p ICMP_DUR t s"

text \<open>
  The reply is made in the packet itself when there is room for the headers, and in a copy of it otherwise.  The result is the
  packet to use, or \<open>None\<close> at the label \<^verbatim>\<open>icmperr\<close>.
\<close>

definition icmp_reply_pbuf :: "stack_cfg \<Rightarrow> addr \<Rightarrow> addr \<Rightarrow> nat \<Rightarrow> lwip_mem \<Rightarrow> (addr option \<times> lwip_mem) option" where
  "icmp_reply_pbuf c p iphdr_in hlen m =
     do {
       let n = hlen + PBUF_LINK_HLEN (spcfg c) + PBUF_LINK_ENCAPSULATION_HLEN (spcfg c);
       (e, m) \<leftarrow> pbuf_add_header (spcfg c) p n m;
       if e = 0 then do { (e, m) \<leftarrow> pbuf_remove_header p n m; lwip_assert (e = 0); Some (Some p, m) }
       else
         do {
           pb \<leftarrow> pbufs m p;
           let alloc_len = u16_of (tot_len pb + hlen);
           if alloc_len < tot_len pb then Some (None, m)
           else
             do {
               (r, m) \<leftarrow> pbuf_alloc (spcfg c) (PBUF_LINK (spcfg c)) alloc_len PBUF_RAM m;
               if r = 0 then Some (None, m)
               else
                 do {
                   rb \<leftarrow> pbufs m r;
                   if pb_len rb < hlen + SIZEOF_ICMP_ECHO_HDR then do { (_, m) \<leftarrow> pbuf_free (spcfg c) r m; Some (None, m) }
                   else
                     do {
                       bs \<leftarrow> load_bytes (bytes m) iphdr_in hlen;
                       bm \<leftarrow> store_bytes (bytes m) (payload rb) bs;
                       (e, m) \<leftarrow> pbuf_remove_header r hlen (m\<lparr>bytes := bm\<rparr>);
                       lwip_assert (e = 0);
                       (err, bm) \<leftarrow> pbuf_copy (pbufs m) r p (bytes m);
                       let m = m\<lparr>bytes := bm\<rparr>;
                       if err \<noteq> ERR_OK then do { (_, m) \<leftarrow> pbuf_free (spcfg c) r m; Some (None, m) }
                       else do { (_, m) \<leftarrow> pbuf_free (spcfg c) p m; Some (Some r, m) }
                     }
                 }
             }
         }
     }"

text \<open>The checksum of the reply, which differs from the request in the type only; fields are in network order.\<close>

definition icmp_adjust_chksum :: "u16 \<Rightarrow> u16" where
  "icmp_adjust_chksum chksum =
     (if chksum > lwip_htons (0xffff - push_bit 8 (ucast ICMP_ECHO)) then chksum + lwip_htons (push_bit 8 (ucast ICMP_ECHO)) + 1
      else chksum + lwip_htons (push_bit 8 (ucast ICMP_ECHO)))"

definition icmp_echo_reply :: "stack_cfg \<Rightarrow> addr \<Rightarrow> addr \<Rightarrow> nat \<Rightarrow> ip4_addr \<Rightarrow> stack \<Rightarrow> stack option" where
  "icmp_echo_reply c p inp hlen src s =
     do {
       pb \<leftarrow> pbufs (smem s) p;
       let iecho = payload pb;
       (e, m) \<leftarrow> pbuf_add_header (spcfg c) p hlen (smem s);
       if e \<noteq> 0 then Some (put_smem m s)
       else
         do {
           pb \<leftarrow> pbufs m p;
           let iphdr = payload pb;
           bm \<leftarrow> store_bytes (bytes m) (iphdr + 12) (ip4_bytes src);
           bm \<leftarrow> store_bytes bm (iphdr + 16) (ip4_bytes (current_iphdr_src (ip_data s)));
           bm \<leftarrow> store_bytes bm iecho [ICMP_ER];
           ch \<leftarrow> load_bytes bm (iecho + 2) 2;
           bm \<leftarrow> store_bytes bm (iecho + 2) (u16_bytes (icmp_adjust_chksum (load_u16 (ch ! 0) (ch ! 1))));
           bm \<leftarrow> store_bytes bm (iphdr + 8) [ICMP_TTL];
           bm \<leftarrow> store_bytes bm (iphdr + 10) (u16_bytes 0);
           hb \<leftarrow> load_bytes bm iphdr hlen;
           bm \<leftarrow> store_bytes bm (iphdr + 10) (u16_bytes (inet_chksum (LWIP_CHKSUM c) iphdr hb));
           (_, s) \<leftarrow> ip4_output_if c p (Some src) None ICMP_TTL 0 IP_PROTO_ICMP inp (put_smem (m\<lparr>bytes := bm\<rparr>) s);
           Some s
         }
     }"

definition icmp_echo :: "stack_cfg \<Rightarrow> addr \<Rightarrow> addr \<Rightarrow> addr \<Rightarrow> nat \<Rightarrow> stack \<Rightarrow> stack option" where
  "icmp_echo c p inp iphdr_in hlen s =
     do {
       let dest = current_iphdr_dest (ip_data s);
       n \<leftarrow> netif_at (snet s) (current_netif (ip_data s));
       if ip4_addr_ismulticast dest \<or> ip4_addr_isbroadcast_u32 dest n then s_free c p s
       else
         do {
           pb \<leftarrow> pbufs (smem s) p;
           if tot_len pb < SIZEOF_ICMP_ECHO_HDR then s_free c p s
           else
             do {
               chk \<leftarrow> inet_chksum_pbuf (LWIP_CHKSUM c) (pbufs (smem s)) (bytes (smem s)) p;
               if chk \<noteq> 0 then s_free c p s
               else
                 do {
                   (r, m) \<leftarrow> icmp_reply_pbuf c p iphdr_in hlen (smem s);
                   let s = put_smem m s;
                   case r of
                     None \<Rightarrow> s_free c p s
                   | Some q \<Rightarrow> do { s \<leftarrow> icmp_echo_reply c q inp hlen dest s; s_free c q s }
                 }
             }
         }
     }"

definition icmp_input :: "stack_cfg \<Rightarrow> addr \<Rightarrow> addr \<Rightarrow> stack \<Rightarrow> stack option" where
  "icmp_input c p inp s =
     do {
       let iphdr_in = current_ip4_header (ip_data s);
       v \<leftarrow> load_bytes (bytes (smem s)) iphdr_in 1;
       let hlen = IPH_HL_BYTES (hd v);
       pb \<leftarrow> pbufs (smem s) p;
       if hlen < IP_HLEN then s_free c p s
       else if pb_len pb < 4 then s_free c p s
       else
         do {
           t \<leftarrow> load_at 0 1 p s;
           if hd t = ICMP_ECHO then icmp_echo c p inp iphdr_in hlen s else s_free c p s
         }
     }"

section \<open>UDP input\<close>

definition udp_input_local_match :: "udp_pcb \<Rightarrow> netif \<Rightarrow> netif \<Rightarrow> bool \<Rightarrow> ip4_addr \<Rightarrow> bool" where
  "udp_input_local_match pcb cur inp broadcast dest \<longleftrightarrow>
     (if netif_idx pcb \<noteq> NETIF_NO_INDEX \<and> netif_idx pcb \<noteq> netif_get_index cur then False
      else if broadcast then
        ip4_addr_isany_val (local_ip pcb) \<or> dest = IPADDR_BROADCAST \<or> ip4_addr_netcmp (local_ip pcb) dest (netmask inp)
      else ip4_addr_isany_val (local_ip pcb) \<or> local_ip pcb = dest)"

text \<open>What the search through the pcbs knows of the datagram.\<close>

record udp_key =
  key_cur :: netif
  key_inp :: netif
  key_broadcast :: bool
  key_src_ip :: ip4_addr
  key_dest_ip :: ip4_addr
  key_src :: u16
  key_dest :: u16

definition local_match :: "udp_key \<Rightarrow> udp_pcb \<Rightarrow> bool" where
  "local_match k b \<longleftrightarrow> local_port b = key_dest k \<and> udp_input_local_match b (key_cur k) (key_inp k) (key_broadcast k) (key_dest_ip k)"

definition full_match :: "udp_key \<Rightarrow> udp_pcb \<Rightarrow> bool" where
  "full_match k b \<longleftrightarrow> local_match k b \<and> remote_port b = key_src k \<and>
     (ip4_addr_isany_val (remote_ip b) \<or> remote_ip b = key_src_ip k)"

text \<open>The unconnected pcb to fall back on, after looking at \<open>pcb\<close>.\<close>

definition next_uncon :: "udp_key \<Rightarrow> pcb_map \<Rightarrow> addr \<Rightarrow> udp_pcb \<Rightarrow> addr \<Rightarrow> addr option" where
  "next_uncon k m pcb b uncon_pcb =
     (if local_match k b \<and> udp_flags b AND UDP_FLAGS_CONNECTED = 0 then
        if uncon_pcb = 0 then Some pcb
        else if key_broadcast k \<and> key_dest_ip k = IPADDR_BROADCAST then
          do {
            u \<leftarrow> m uncon_pcb;
            Some (if local_ip u \<noteq> ip_addr (key_inp k) \<and> local_ip b = ip_addr (key_inp k) then pcb else uncon_pcb)
          }
        else Some uncon_pcb
      else Some uncon_pcb)"

text \<open>The loop over the pcbs; the result is the fully matching pcb (or 0), the one in front of it, and the unconnected one.\<close>

partial_function (option) udp_find_loop :: "udp_key \<Rightarrow> pcb_map \<Rightarrow> addr \<Rightarrow> addr \<Rightarrow> addr \<Rightarrow> (addr \<times> addr \<times> addr) option" where
  "udp_find_loop k m pcb prev uncon_pcb =
     (if pcb \<noteq> 0 then
        do {
          b \<leftarrow> m pcb;
          uncon_pcb \<leftarrow> next_uncon k m pcb b uncon_pcb;
          if full_match k b then Some (pcb, prev, uncon_pcb) else udp_find_loop k m (udp_next b) pcb uncon_pcb
        }
      else Some (0, prev, uncon_pcb))"

definition move_to_front :: "addr \<Rightarrow> addr \<Rightarrow> udp_state \<Rightarrow> udp_state option" where
  "move_to_front pcb prev u =
     do {
       b \<leftarrow> udp_pcb_at u pcb;
       pv \<leftarrow> udp_pcb_at u prev;
       let u = put_pcb prev (pv\<lparr>udp_next := udp_next b\<rparr>) u;
       b \<leftarrow> udp_pcb_at u pcb;
       Some ((put_pcb pcb (b\<lparr>udp_next := udp_pcbs u\<rparr>) u)\<lparr>udp_pcbs := pcb\<rparr>)
     }"

definition udp_find :: "udp_key \<Rightarrow> udp_state \<Rightarrow> (addr \<times> udp_state) option" where
  "udp_find k u =
     do {
       (pcb, prev, uncon_pcb) \<leftarrow> udp_find_loop k (udp_pcb_at u) (udp_pcbs u) 0 0;
       if pcb \<noteq> 0 then do { u \<leftarrow> (if prev \<noteq> 0 then move_to_front pcb prev u else Some u); Some (pcb, u) }
       else Some (uncon_pcb, u)
     }"

definition udp_hand_over :: "stack_cfg \<Rightarrow> addr \<Rightarrow> addr \<Rightarrow> bool \<Rightarrow> u16 \<Rightarrow> stack \<Rightarrow> stack option" where
  "udp_hand_over c p pcb broadcast src s =
     (if pcb \<noteq> 0 then
        do {
          b \<leftarrow> udp_pcb_at (udp s) pcb;
          if recv b \<noteq> 0 then recv_fn c (recv b) (recv_arg b) pcb p (current_iphdr_src (ip_data s)) src s
          else s_free c p s
        }
      else
        do {
          s \<leftarrow> (if \<not> broadcast \<and> \<not> ip4_addr_ismulticast (current_iphdr_dest (ip_data s)) then
              do {
                (_, m) \<leftarrow> pbuf_header_force (spcfg c) p (int (current_ip_header_tot_len (ip_data s) + UDP_HLEN)) (smem s);
                icmp_dest_unreach c p ICMP_DUR_PORT (put_smem m s)
              }
            else Some s);
          s_free c p s
        })"

definition udp_input :: "stack_cfg \<Rightarrow> addr \<Rightarrow> addr \<Rightarrow> stack \<Rightarrow> stack option" where
  "udp_input c p inp s =
     do {
       lwip_assert (p \<noteq> 0);
       lwip_assert (inp \<noteq> 0);
       pb \<leftarrow> pbufs (smem s) p;
       if pb_len pb < UDP_HLEN then s_free c p s
       else
         do {
           let dest_ip = current_iphdr_dest (ip_data s);
           let src_ip = current_iphdr_src (ip_data s);
           n \<leftarrow> netif_at (snet s) (current_netif (ip_data s));
           cur \<leftarrow> netif_at (snet s) (current_input_netif (ip_data s));
           i \<leftarrow> netif_at (snet s) inp;
           let broadcast = ip4_addr_isbroadcast_u32 dest_ip n;
           sb \<leftarrow> load_at 0 2 p s;
           db \<leftarrow> load_at 2 2 p s;
           let src = lwip_htons (load_u16 (sb ! 0) (sb ! 1));
           let dest = lwip_htons (load_u16 (db ! 0) (db ! 1));
           (pcb, u) \<leftarrow> udp_find \<lparr>key_cur = cur, key_inp = i, key_broadcast = broadcast, key_src_ip = src_ip, key_dest_ip = dest_ip,
             key_src = src, key_dest = dest\<rparr> (udp s);
           let s = s\<lparr>udp := u\<rparr>;
           if pcb = 0 \<and> ip_addr i \<noteq> dest_ip then s_free c p s
           else
             do {
               cb \<leftarrow> load_at 6 2 p s;
               chk \<leftarrow> (if load_u16 (cb ! 0) (cb ! 1) \<noteq> 0 then
                   inet_chksum_pseudo (LWIP_CHKSUM c) (pbufs (smem s)) (bytes (smem s)) p IP_PROTO_UDP (of_nat (tot_len pb)) src_ip dest_ip
                 else Some 0);
               if chk \<noteq> 0 then s_free c p s
               else
                 do {
                   (e, m) \<leftarrow> pbuf_remove_header p UDP_HLEN (smem s);
                   lwip_assert (e = 0);
                   udp_hand_over c p pcb broadcast src (put_smem m s)
                 }
             }
         }
     }"

section \<open>IP input\<close>

definition ip4_input_accept :: "netif \<Rightarrow> ip4_addr \<Rightarrow> bool" where
  "ip4_input_accept n dest \<longleftrightarrow>
     netif_is_up n \<and> \<not> ip4_addr_isany_val (ip_addr n) \<and> (dest = ip_addr n \<or> ip4_addr_isbroadcast_u32 dest n)"

fun accept_loop :: "(addr \<rightharpoonup> netif) \<Rightarrow> addr \<Rightarrow> ip4_addr \<Rightarrow> addr list \<Rightarrow> addr option" where
  "accept_loop m inp dest [] = Some 0"
| "accept_loop m inp dest (a # as) =
     (if a = inp then accept_loop m inp dest as
      else do { n \<leftarrow> m a; if ip4_input_accept n dest then Some a else accept_loop m inp dest as })"

text \<open>The interface that a packet for \<open>dest\<close> is for, 0 for none.\<close>

definition ip4_input_netif :: "addr \<Rightarrow> ip4_addr \<Rightarrow> net_state \<Rightarrow> addr option" where
  "ip4_input_netif inp dest s =
     do {
       n \<leftarrow> netif_at s inp;
       if ip4_addr_ismulticast dest then
         Some (if netif_is_up n \<and> \<not> ip4_addr_isany_val (ip_addr n) then inp else 0)
       else if ip4_input_accept n dest then Some inp
       else if \<not> ip4_addr_isloopback dest then accept_loop (netifs s) inp dest (netif_list s)
       else Some 0
     }"

text \<open>To the protocol; \<open>ip_data\<close> describes the packet meanwhile.\<close>

definition ip4_deliver :: "stack_cfg \<Rightarrow> addr \<Rightarrow> addr \<Rightarrow> addr \<Rightarrow> addr \<Rightarrow> nat \<Rightarrow> stack \<Rightarrow> stack option" where
  "ip4_deliver c p inp nif iphdr iphdr_hlen s =
     do {
       v \<leftarrow> load_bytes (bytes (smem s)) iphdr 1;
       let s = s\<lparr>ip_data := (ip_data s)\<lparr>current_netif := nif, current_input_netif := inp, current_ip4_header := iphdr,
         current_ip_header_tot_len := IPH_HL_BYTES (hd v)\<rparr>\<rparr>;
       (_, m) \<leftarrow> pbuf_remove_header p iphdr_hlen (smem s);
       let s = put_smem m s;
       pr \<leftarrow> load_bytes (bytes (smem s)) (iphdr + 9) 1;
       s \<leftarrow> (if hd pr = IP_PROTO_UDP then udp_input c p inp s
         else if hd pr = IP_PROTO_ICMP then icmp_input c p inp s
         else
           do {
             n \<leftarrow> netif_at (snet s) nif;
             s \<leftarrow> (if \<not> ip4_addr_isbroadcast_u32 (current_iphdr_dest (ip_data s)) n \<and> \<not> ip4_addr_ismulticast (current_iphdr_dest (ip_data s))
               then
                 do {
                   (_, m) \<leftarrow> pbuf_header_force (spcfg c) p (int iphdr_hlen) (smem s);
                   icmp_dest_unreach c p ICMP_DUR_PROTO (put_smem m s)
                 }
               else Some s);
             s_free c p s
           });
       Some (s\<lparr>ip_data := \<lparr>current_netif = 0, current_input_netif = 0, current_ip4_header = 0, current_ip_header_tot_len = 0,
         current_iphdr_src = IPADDR_ANY, current_iphdr_dest = IPADDR_ANY\<rparr>\<rparr>)
     }"

text \<open>The addresses of a packet whose header is intact; it is for us, or it is dropped.\<close>

definition ip4_addressed :: "stack_cfg \<Rightarrow> addr \<Rightarrow> addr \<Rightarrow> addr \<Rightarrow> nat \<Rightarrow> stack \<Rightarrow> stack option" where
  "ip4_addressed c p inp iphdr iphdr_hlen s =
     do {
       db \<leftarrow> load_bytes (bytes (smem s)) (iphdr + 16) 4;
       dest \<leftarrow> ip4_of db;
       sb \<leftarrow> load_bytes (bytes (smem s)) (iphdr + 12) 4;
       src \<leftarrow> ip4_of sb;
       let s = s\<lparr>ip_data := (ip_data s)\<lparr>current_iphdr_dest := dest, current_iphdr_src := src\<rparr>\<rparr>;
       nif \<leftarrow> ip4_input_netif inp dest (snet s);
       n \<leftarrow> netif_at (snet s) inp;
       if ip4_addr_isbroadcast_u32 src n \<or> ip4_addr_ismulticast src then s_free c p s
       else if nif = 0 then s_free c p s
       else
         do {
           off \<leftarrow> load_bytes (bytes (smem s)) (iphdr + 6) 2;
           if load_u16 (off ! 0) (off ! 1) AND lwip_htons (IP_OFFMASK OR IP_MF) \<noteq> 0 then s_free c p s
           else ip4_deliver c p inp nif iphdr iphdr_hlen s
         }
     }"

definition ip4_input :: "stack_cfg \<Rightarrow> addr \<Rightarrow> addr \<Rightarrow> stack \<Rightarrow> (err_t \<times> stack) option" where
  "ip4_input c p inp s =
     do {
       pb \<leftarrow> pbufs (smem s) p;
       let iphdr = payload pb;
       v \<leftarrow> load_bytes (bytes (smem s)) iphdr 1;
       if IPH_V (hd v) \<noteq> 4 then do { s \<leftarrow> s_free c p s; Some (ERR_OK, s) }
       else
         do {
           let iphdr_hlen = IPH_HL_BYTES (hd v);
           lb \<leftarrow> load_bytes (bytes (smem s)) (iphdr + 2) 2;
           let iphdr_len = unat (lwip_htons (load_u16 (lb ! 0) (lb ! 1)));
           m \<leftarrow> (if iphdr_len < tot_len pb then pbuf_realloc (spcfg c) p iphdr_len (smem s) else Some (smem s));
           let s = put_smem m s;
           pb \<leftarrow> pbufs (smem s) p;
           if iphdr_hlen > pb_len pb \<or> iphdr_len > tot_len pb \<or> iphdr_hlen < IP_HLEN then
             do { s \<leftarrow> s_free c p s; Some (ERR_OK, s) }
           else
             do {
               hb \<leftarrow> load_bytes (bytes (smem s)) iphdr iphdr_hlen;
               if inet_chksum (LWIP_CHKSUM c) iphdr hb \<noteq> 0 then do { s \<leftarrow> s_free c p s; Some (ERR_OK, s) }
               else do { s \<leftarrow> ip4_addressed c p inp iphdr iphdr_hlen s; Some (ERR_OK, s) }
             }
         }
     }"

section \<open>Ethernet input\<close>

text \<open>The flag for a frame to a group or to all.\<close>

definition link_flags :: "eth_addr \<Rightarrow> u8" where
  "link_flags dest =
     (case dest of Eth_Addr a b c d e f \<Rightarrow>
        if a AND 1 = 0 then 0
        else if a = 0x01 then if b = 0x00 \<and> c = 0x5e then PBUF_FLAG_LLMCAST else 0
        else if dest = ethbroadcast then PBUF_FLAG_LLBCAST
        else 0)"

definition ethernet_input :: "stack_cfg \<Rightarrow> addr \<Rightarrow> addr \<Rightarrow> stack \<Rightarrow> (err_t \<times> stack) option" where
  "ethernet_input c p nif s =
     do {
       pb \<leftarrow> pbufs (smem s) p;
       if pb_len pb \<le> SIZEOF_ETH_HDR then do { s \<leftarrow> s_free c p s; Some (ERR_OK, s) }
       else
         do {
           n \<leftarrow> netif_at (snet s) nif;
           let pb = (if if_idx pb = NETIF_NO_INDEX then pb\<lparr>if_idx := netif_get_index n\<rparr> else pb);
           tb \<leftarrow> load_at 12 2 p s;
           db \<leftarrow> load_at 0 6 p s;
           dest \<leftarrow> eth_of db;
           let pb = pb\<lparr>pb_flags := pb_flags pb OR link_flags dest\<rparr>;
           let s = put_smem (put_pbuf p pb (smem s)) s;
           if tb = u16_bytes (lwip_htons ETHTYPE_IP) \<or> tb = u16_bytes (lwip_htons ETHTYPE_ARP) then
             if netif_flags n AND NETIF_FLAG_ETHARP = 0 then do { s \<leftarrow> s_free c p s; Some (ERR_OK, s) }
             else
               do {
                 (e, m) \<leftarrow> pbuf_remove_header p SIZEOF_ETH_HDR (smem s);
                 let s = put_smem m s;
                 if e \<noteq> 0 then do { s \<leftarrow> s_free c p s; Some (ERR_OK, s) }
                 else if tb = u16_bytes (lwip_htons ETHTYPE_IP) then do { (_, s) \<leftarrow> ip4_input c p nif s; Some (ERR_OK, s) }
                 else do { a \<leftarrow> etharp_input (acfg c) p nif (arp s); Some (ERR_OK, s\<lparr>arp := a\<rparr>) }
               }
           else do { s \<leftarrow> s_free c p s; Some (ERR_OK, s) }
         }
     }"

declare udp_find_loop.simps [code] frag_loop.simps [code]

end
