(* ===== verification/Ip4_Receive.thy ===== *)
theory Ip4_Receive
  imports Ip4_Input
begin

text \<open>
  What becomes of a frame with a datagram: its headers are taken off one after the other, its checksums are verified, and the right
  control block gets the data.  At the end the two directions meet: a datagram that one stack sends is delivered by another.
\<close>

section \<open>Received packets\<close>

text \<open>A packet with the bytes \<open>d\<close>, the first \<open>k\<close> of them in its first pbuf.\<close>

definition rx_packet :: "lwip_mem \<Rightarrow> addr \<Rightarrow> addr list \<Rightarrow> u8 list \<Rightarrow> nat \<Rightarrow> bool" where
  "rx_packet m p xs d k \<longleftrightarrow> packet (pbufs m) p (p # xs) \<and> mapped (pbufs m) (bytes m) (p # xs) \<and>
     pdata (pbufs m) (bytes m) (p # xs) = d \<and> k \<le> pb_len (the (pbufs m p))"

definition strip :: "nat \<Rightarrow> addr \<Rightarrow> lwip_mem \<Rightarrow> lwip_mem" where
  "strip n p m = (let pb = the (pbufs m p) in
     put_pbuf p (pb\<lparr>payload := payload pb + n, pb_len := pb_len pb - n, tot_len := tot_len pb - n\<rparr>) m)"

lemma strip_simps [simp]:
  "bytes (strip n p m) = bytes m" "heap (strip n p m) = heap m" "pools (strip n p m) = pools m"
  "pbufs (strip n p m) = (pbufs m)(p \<mapsto> (the (pbufs m p))\<lparr>payload := payload (the (pbufs m p)) + n,
     pb_len := pb_len (the (pbufs m p)) - n, tot_len := tot_len (the (pbufs m p)) - n\<rparr>)"
  by (simp_all add: strip_def Let_def)

lemma rxD:
  assumes "rx_packet m p xs d k"
  shows "p \<noteq> 0" "p \<notin> set xs" "\<exists>pb. pbufs m p = Some pb" "tot_len (the (pbufs m p)) = length d" "length d < 65536"
    "pb_len (the (pbufs m p)) \<le> length d" "k \<le> pb_len (the (pbufs m p))" "k \<le> length d"
proof -
  have pk: "packet (pbufs m) p (p # xs)" using assms by (simp add: rx_packet_def)
  show n: "p \<notin> set xs" "p \<noteq> 0" using pk chain_notin [of "pbufs m" p p xs] by (auto simp: packet_def)
  show "\<exists>pb. pbufs m p = Some pb" using pk by (auto simp: packet_def)
  show l: "tot_len (the (pbufs m p)) = length d" "length d < 65536" "pb_len (the (pbufs m p)) \<le> length d"
    "k \<le> pb_len (the (pbufs m p))" using assms by (auto simp: rx_packet_def packet_def)
  show "k \<le> length d" using l by simp
qed

lemma rx_weaken: "rx_packet m p xs d k \<Longrightarrow> j \<le> k \<Longrightarrow> rx_packet m p xs d j"
  by (simp add: rx_packet_def)

lemma rx_load:
  assumes "rx_packet m p xs d k" "i + j \<le> k"
  shows "load_bytes (bytes m) (payload (the (pbufs m p)) + i) j = Some (take j (drop i d))"
proof -
  let ?pb = "the (pbufs m p)"
  have r: "range_mapped (bytes m) (payload ?pb) (pb_len ?pb)" using assms(1) by (simp add: rx_packet_def)
  have k: "i + j \<le> pb_len ?pb" using assms(2) rxD(7) [OF assms(1)] by simp
  have "range_mapped (bytes m) (payload ?pb + i) j" by (rule range_mapped_mono [OF r k])
  moreover have "bytes_at (bytes m) (payload ?pb + i) j = take j (drop i (bytes_at (bytes m) (payload ?pb) (pb_len ?pb)))"
    using k by (intro nth_equalityI) (simp_all add: bytes_at_def add.assoc)
  moreover have "take j (drop i d) = take j (drop i (bytes_at (bytes m) (payload ?pb) (pb_len ?pb)))"
    using assms(1) k by (auto simp: rx_packet_def)
  ultimately show ?thesis by (simp add: load_bytes_mapped)
qed

lemma rx_strip:
  assumes r: "rx_packet m p xs d k" and n: "n \<le> k"
  shows "rx_packet (strip n p m) p xs (drop n d) (k - n)"
proof -
  let ?pb = "the (pbufs m p)"
  let ?pb' = "?pb\<lparr>payload := payload ?pb + n, pb_len := pb_len ?pb - n, tot_len := tot_len ?pb - n\<rparr>"
  obtain pb where pb: "pbufs m p = Some pb" using rxD(3) [OF r] by blast
  have k: "n \<le> pb_len pb" using rxD(7) [OF r] n pb by simp
  have nx: "p \<notin> set xs" by (rule rxD(2) [OF r])
  have pk: "packet (pbufs m) p (p # xs)" and mp: "mapped (pbufs m) (bytes m) (p # xs)"
    and d: "pdata (pbufs m) (bytes m) (p # xs) = d" using r by (simp_all only: rx_packet_def)
  have sl: "sum_len ((pbufs m)(p \<mapsto> ?pb')) xs = sum_len (pbufs m) xs" using nx by (intro sum_len_cong) auto
  have "packet ((pbufs m)(p \<mapsto> ?pb')) p (p # xs)" using pk pb k nx sl by (auto simp: packet_Cons)
  moreover have "mapped ((pbufs m)(p \<mapsto> ?pb')) (bytes m) (p # xs)"
  proof -
    have "range_mapped (bytes m) (payload pb + n) (pb_len pb - n)"
      using mp pb k range_mapped_mono [of "bytes m" "payload pb" "pb_len pb" n "pb_len pb - n"] by simp
    moreover have "mapped ((pbufs m)(p \<mapsto> ?pb')) (bytes m) xs" using mp nx unfolding mapped_def by auto
    ultimately show ?thesis using pb by (simp add: mapped_def)
  qed
  moreover have "pdata ((pbufs m)(p \<mapsto> ?pb')) (bytes m) xs = pdata (pbufs m) (bytes m) xs" using nx by (intro pdata_cong) auto
  then have "pdata ((pbufs m)(p \<mapsto> ?pb')) (bytes m) (p # xs) = drop n d" using d pb k by auto
  moreover have "k - n \<le> pb_len pb - n" using rxD(7) [OF r] pb by simp
  ultimately show ?thesis using pb unfolding rx_packet_def by simp
qed

lemma rx_remove_header:
  assumes r: "rx_packet m p xs d k" and n: "n \<le> k" "0 < n"
  shows "pbuf_remove_header p n m = Some (0, strip n p m)"
proof -
  obtain pb where pb: "pbufs m p = Some pb" using rxD(3) [OF r] by blast
  then have b: "n \<le> pb_len pb" "pb_len pb \<le> tot_len pb" "tot_len pb < 65536" using rxD(4-7) [OF r] n by auto
  then have "u16_of n = n" "u16_sub (pb_len pb) n = pb_len pb - n" "u16_sub (tot_len pb) n = tot_len pb - n"
    by (simp_all add: u16_of_id u16_sub_id)
  then show ?thesis using pb b rxD(1) [OF r] n by (simp add: pbuf_remove_header_def strip_def Let_def)
qed

lemma strip_payload [simp]: "payload (the (pbufs (strip n p m) p)) = payload (the (pbufs m p)) + n"
  by simp

lemma load_at_rx: "rx_packet (smem s) p xs d k \<Longrightarrow> i + j \<le> k \<Longrightarrow> load_at i j p s = Some (take j (drop i d))"
  using rx_load [of "smem s" p xs d k i j] rxD(3) [of "smem s" p xs d k] by (auto simp: load_at_def)

section \<open>Which control block gets a datagram\<close>

definition uncon_match :: "udp_key \<Rightarrow> udp_pcb \<Rightarrow> bool" where
  "uncon_match k b \<longleftrightarrow> local_match k b \<and> udp_flags b AND UDP_FLAGS_CONNECTED = 0"

definition all_hosts :: "udp_key \<Rightarrow> bool" where
  "all_hosts k \<longleftrightarrow> key_broadcast k \<and> key_dest_ip k = IPADDR_BROADCAST"

definition on_inp :: "udp_key \<Rightarrow> pcb_map \<Rightarrow> addr \<Rightarrow> bool" where
  "on_inp k m x \<longleftrightarrow> local_ip (pcb_of m x) = ip_addr (key_inp k)"

definition first_of :: "addr list \<Rightarrow> addr" where
  "first_of xs = (case xs of [] \<Rightarrow> 0 | x # _ \<Rightarrow> x)"

text \<open>
  A pcb that matches the sender too comes first.  Without one, it is the first unconnected pcb that matches locally; a datagram to
  all hosts goes to one bound to the address of the interface if there is such a pcb.
\<close>

definition best_uncon :: "udp_key \<Rightarrow> pcb_map \<Rightarrow> addr list \<Rightarrow> addr" where
  "best_uncon k m us = (if all_hosts k \<and> filter (on_inp k m) us \<noteq> [] then first_of (filter (on_inp k m) us) else first_of us)"

definition udp_choice :: "udp_key \<Rightarrow> pcb_map \<Rightarrow> addr list \<Rightarrow> addr" where
  "udp_choice k m xs =
     (case filter (\<lambda>x. full_match k (pcb_of m x)) xs of
        x # _ \<Rightarrow> x
      | [] \<Rightarrow> best_uncon k m (filter (\<lambda>x. uncon_match k (pcb_of m x)) xs))"

lemma first_of_simps [simp]: "first_of [] = 0" "first_of (x # xs) = x"
  by (simp_all add: first_of_def)

lemma first_of_append: "first_of (xs @ ys) = (if xs = [] then first_of ys else first_of xs)"
  by (cases xs) simp_all

lemma next_uncon_step:
  assumes "x \<noteq> 0" "\<forall>y\<in>set us. y \<noteq> 0 \<and> m y \<noteq> None" "m x = Some b"
  shows "next_uncon k m x b (best_uncon k m us) =
    Some (best_uncon k m (us @ (if uncon_match k b then [x] else [])))"
proof (cases "uncon_match k b")
  case False
  then show ?thesis by (auto simp: next_uncon_def uncon_match_def)
next
  case True
  show ?thesis
  proof (cases us)
    case Nil
    then show ?thesis using True by (auto simp: next_uncon_def uncon_match_def best_uncon_def)
  next
    case (Cons u us')
    let ?f = "filter (on_inp k m) us"
    have nz: "first_of us \<noteq> 0" using Cons assms(2) by simp
    show ?thesis
    proof (cases "all_hosts k")
      case False
      then show ?thesis using True nz Cons by (auto simp: next_uncon_def uncon_match_def best_uncon_def all_hosts_def)
    next
      case ah: True
      show ?thesis
      proof (cases "?f")
        case Nil
        then have "\<not> on_inp k m u" using Cons by (auto split: if_splits)
        then show ?thesis using True ah Cons Nil assms
          by (auto simp: next_uncon_def uncon_match_def best_uncon_def all_hosts_def on_inp_def first_of_append)
      next
        case (Cons v vs)
        then have "v \<in> set us" "on_inp k m v" by (auto simp: filter_eq_Cons_iff)
        then show ?thesis using True ah Cons assms
          by (auto simp: next_uncon_def uncon_match_def best_uncon_def all_hosts_def on_inp_def first_of_append)
      qed
    qed
  qed
qed

lemma find_loop_none:
  assumes "plist m p xs" "\<forall>x\<in>set xs. \<not> full_match k (pcb_of m x)" "\<forall>y\<in>set us. y \<noteq> 0 \<and> m y \<noteq> None"
  shows "udp_find_loop k m p prev (best_uncon k m us) =
    Some (0, last (prev # xs), best_uncon k m (us @ filter (\<lambda>x. uncon_match k (pcb_of m x)) xs))"
  using assms
proof (induction xs arbitrary: p prev us)
  case Nil
  then show ?case by (subst udp_find_loop.simps) simp
next
  case (Cons x xs)
  then obtain b where b: "p = x" "x \<noteq> 0" "m x = Some b" "plist m (udp_next b) xs" by auto
  let ?us = "us @ (if uncon_match k b then [x] else [])"
  have "\<forall>y\<in>set ?us. y \<noteq> 0 \<and> m y \<noteq> None" using Cons.prems(3) b by auto
  from Cons.IH [OF b(4) _ this, of x] Cons.prems(2) b next_uncon_step [OF b(2) Cons.prems(3) b(3), of k]
  show ?case by (subst udp_find_loop.simps) (auto simp: if_distrib [of set])
qed

lemma find_loop_some:
  assumes "plist m p (ys @ x # zs)" "\<forall>y\<in>set ys. \<not> full_match k (pcb_of m y)" "full_match k (pcb_of m x)"
    "\<forall>y\<in>set us. y \<noteq> 0 \<and> m y \<noteq> None"
  shows "\<exists>u. udp_find_loop k m p prev (best_uncon k m us) = Some (x, last (prev # ys), u)"
  using assms
proof (induction ys arbitrary: p prev us)
  case Nil
  then obtain b where b: "p = x" "x \<noteq> 0" "m x = Some b" by auto
  show ?case using b Nil.prems(3) next_uncon_step [OF b(2) Nil.prems(4) b(3), of k] by (subst udp_find_loop.simps) auto
next
  case (Cons y ys)
  then obtain b where b: "p = y" "y \<noteq> 0" "m y = Some b" "plist m (udp_next b) (ys @ x # zs)" by auto
  let ?us = "us @ (if uncon_match k b then [y] else [])"
  have "\<forall>z\<in>set ?us. z \<noteq> 0 \<and> m z \<noteq> None" using Cons.prems(4) b by auto
  from Cons.IH [OF b(4) _ Cons.prems(3) this, of y] Cons.prems(2) b next_uncon_step [OF b(2) Cons.prems(4) b(3), of k]
  show ?case by (subst udp_find_loop.simps) auto
qed

text \<open>A moved pcb is the first one; nothing else about the pcbs changes.\<close>

definition same_pcbs :: "udp_state \<Rightarrow> udp_state \<Rightarrow> bool" where
  "same_pcbs u u' \<longleftrightarrow> udp_port u' = udp_port u \<and>
     (\<forall>x. map_option (udp_next_update (\<lambda>_. 0)) (udp_pcb_at u' x) = map_option (udp_next_update (\<lambda>_. 0)) (udp_pcb_at u x))"

lemma same_pcbs_refl [simp]: "same_pcbs u u"
  by (simp add: same_pcbs_def)

lemma move_to_front_spec:
  assumes ps: "plist (udp_pcb_at u) (udp_pcbs u) (ys @ w # x # zs)"
  shows "\<exists>u'. move_to_front x w u = Some u' \<and> plist (udp_pcb_at u') (udp_pcbs u') (x # ys @ w # zs) \<and> same_pcbs u u'"
proof -
  have d: "distinct (ys @ w # x # zs)" by (rule plist_distinct [OF ps])
  obtain b pv where b: "udp_pcb_at u x = Some b" "udp_pcb_at u w = Some pv" "x \<noteq> 0"
    using plist_facts [OF ps, of x] plist_facts [OF ps, of w] by auto
  let ?m = "(udp_pcb_at u)(w \<mapsto> pv\<lparr>udp_next := udp_next b\<rparr>)"
  have l: "plist ?m (udp_pcbs u) (ys @ w # zs)" by (rule plist_unlink [OF ps d b(2,1)])
  let ?u = "(put_pcb x (b\<lparr>udp_next := udp_pcbs u\<rparr>) (put_pcb w (pv\<lparr>udp_next := udp_next b\<rparr>) u))\<lparr>udp_pcbs := x\<rparr>"
  have "plist (?m(x \<mapsto> b\<lparr>udp_next := udp_pcbs u\<rparr>)) (udp_pcbs u) (ys @ w # zs)"
    by (rule plist_cong [OF l]) (use d in auto)
  then have "plist (udp_pcb_at ?u) (udp_pcbs ?u) (x # ys @ w # zs)" using b(3) by simp
  moreover have "same_pcbs u ?u" using b d by (auto simp: same_pcbs_def)
  moreover have "move_to_front x w u = Some ?u" using b d by (simp add: move_to_front_def)
  ultimately show ?thesis by blast
qed

lemma udp_find_spec:
  assumes ps: "plist (udp_pcb_at u) (udp_pcbs u) xs"
  shows "\<exists>u' ys. udp_find k u = Some (udp_choice k (udp_pcb_at u) xs, u') \<and> plist (udp_pcb_at u') (udp_pcbs u') ys \<and>
    set ys = set xs \<and> same_pcbs u u'"
proof (cases "filter (\<lambda>x. full_match k (pcb_of (udp_pcb_at u) x)) xs")
  case Nil
  then have n: "\<forall>x\<in>set xs. \<not> full_match k (pcb_of (udp_pcb_at u) x)" by (simp add: filter_empty_conv)
  have z: "best_uncon k (udp_pcb_at u) [] = 0" by (simp add: best_uncon_def)
  have "udp_find k u = Some (udp_choice k (udp_pcb_at u) xs, u)"
    using find_loop_none [OF ps n, of "[]" 0] z Nil by (simp add: udp_find_def udp_choice_def)
  then show ?thesis using ps by (metis same_pcbs_refl)
next
  case (Cons x rest)
  then obtain ys zs where xs: "xs = ys @ x # zs" "\<forall>y\<in>set ys. \<not> full_match k (pcb_of (udp_pcb_at u) y)"
    "full_match k (pcb_of (udp_pcb_at u) x)" by (auto simp: filter_eq_Cons_iff)
  have z: "best_uncon k (udp_pcb_at u) [] = 0" by (simp add: best_uncon_def)
  have ch: "udp_choice k (udp_pcb_at u) xs = x" using Cons by (simp add: udp_choice_def)
  have x: "x \<noteq> 0" using plist_facts [OF ps] xs by auto
  obtain w where l: "udp_find_loop k (udp_pcb_at u) (udp_pcbs u) 0 0 = Some (x, last (0 # ys), w)"
    using find_loop_some [OF ps [unfolded xs(1)] xs(2,3), of "[]" 0] z by auto
  show ?thesis
  proof (cases ys rule: rev_cases)
    case Nil
    then have "udp_find k u = Some (x, u)" using l x by (simp add: udp_find_def)
    then show ?thesis using ps ch by (metis same_pcbs_refl)
  next
    case (snoc vs v)
    have "v \<noteq> 0" using plist_facts [OF ps, of v] xs snoc by auto
    moreover obtain u' where u': "move_to_front x v u = Some u'" "plist (udp_pcb_at u') (udp_pcbs u') (x # vs @ v # zs)" "same_pcbs u u'"
      using move_to_front_spec [of u vs v x zs] ps xs snoc by auto
    ultimately have "udp_find k u = Some (x, u')" using l x snoc by (simp add: udp_find_def)
    moreover have "set (x # vs @ v # zs) = set xs" using xs snoc by auto
    ultimately show ?thesis using u' ch by blast
  qed
qed

section \<open>Datagrams in\<close>

lemma load_u16_bytes: "load_u16 (u16_bytes w ! 0) (u16_bytes w ! 1) = w"
  by (rule bit_word_eqI) (auto simp: load_u16_def u16_bytes_def bit_simps)

lemma htons_load: "lwip_htons (load_u16 (u16_bytes (lwip_htons w) ! 0) (u16_bytes (lwip_htons w) ! 1)) = w"
  unfolding load_u16_bytes by (simp add: htons_involutive)

lemma udp_hdr_fields:
  "take 2 (udp_hdr a b l k @ d) = u16_bytes (lwip_htons a)" "take 2 (drop 2 (udp_hdr a b l k @ d)) = u16_bytes (lwip_htons b)"
  "take 2 (drop 6 (udp_hdr a b l k @ d)) = u16_bytes k"
  by (simp_all add: udp_hdr_def)

text \<open>What \<^verbatim>\<open>udp_input\<close> knows of a datagram.\<close>

definition key_of :: "stack \<Rightarrow> addr \<Rightarrow> u16 \<Rightarrow> u16 \<Rightarrow> udp_key" where
  "key_of s inp sport dport = \<lparr>key_cur = the (netif_at (snet s) (current_input_netif (ip_data s))), key_inp = the (netif_at (snet s) inp),
     key_broadcast = ip4_addr_isbroadcast_u32 (current_iphdr_dest (ip_data s)) (the (netif_at (snet s) (current_netif (ip_data s)))),
     key_src_ip = current_iphdr_src (ip_data s), key_dest_ip = current_iphdr_dest (ip_data s), key_src = sport, key_dest = dport\<rparr>"

text \<open>The checksum of a datagram is absent or verifies.\<close>

definition udp_sum_ok :: "(addr \<Rightarrow> u8 list \<Rightarrow> u16) \<Rightarrow> ip4_addr \<Rightarrow> ip4_addr \<Rightarrow> u16 \<Rightarrow> u8 list \<Rightarrow> bool" where
  "udp_sum_ok f src dest chk dg \<longleftrightarrow>
     chk = 0 \<or> inet_chksum f 0 (pseudo_header src dest IP_PROTO_UDP (of_nat (length dg)) @ dg) = 0"

lemma udp_input_steps:
  assumes r: "rx_packet (smem s) p xs (udp_hdr sport dport len chk @ d) 8" and l: "length d + 20 < 65536"
    and f: "chksum_routine (LWIP_CHKSUM c)"
    and n: "netif_at (snet s) (current_netif (ip_data s)) \<noteq> None" "netif_at (snet s) (current_input_netif (ip_data s)) \<noteq> None"
      "netif_at (snet s) inp = Some i"
    and u: "udp_find (key_of s inp sport dport) (udp s) = Some (pcb, u)"
  shows "udp_input c p inp s =
    (if pcb = 0 \<and> ip_addr i \<noteq> current_iphdr_dest (ip_data s) then s_free c p (s\<lparr>udp := u\<rparr>)
     else if \<not> udp_sum_ok (LWIP_CHKSUM c) (current_iphdr_src (ip_data s)) (current_iphdr_dest (ip_data s)) chk (udp_hdr sport dport len chk @ d)
     then s_free c p (s\<lparr>udp := u\<rparr>)
     else udp_hand_over c p pcb (key_broadcast (key_of s inp sport dport)) sport (put_smem (strip 8 p (smem s)) (s\<lparr>udp := u\<rparr>)))"
proof -
  let ?dg = "udp_hdr sport dport len chk @ d"
  obtain pb where pb: "pbufs (smem s) p = Some pb" using rxD(3) [OF r] by blast
  have b: "p \<noteq> 0" "inp \<noteq> 0" "\<not> pb_len pb < UDP_HLEN" "tot_len pb = 8 + length d"
    using rxD(1,4,7) [OF r] n(3) pb by (auto simp: UDP_HLEN_def netif_at_def split: if_splits)
  have ld: "load_at 0 2 p s = Some (u16_bytes (lwip_htons sport))" "load_at 2 2 p s = Some (u16_bytes (lwip_htons dport))"
    "load_at 6 2 p s = Some (u16_bytes chk)"
    using load_at_rx [OF r, of 0 2] load_at_rx [OF r, of 2 2] load_at_rx [OF r, of 6 2] by (simp_all add: udp_hdr_def)
  have ck: "inet_chksum_pseudo (LWIP_CHKSUM c) (pbufs (smem s)) (bytes (smem s)) p IP_PROTO_UDP w a a' =
      Some (inet_chksum (LWIP_CHKSUM c) 0 (pseudo_header a a' IP_PROTO_UDP w @ ?dg))" for w a a'
    using chksum_routine.inet_chksum_pseudo_sum [OF f, of "pbufs (smem s)" p "p # xs" "bytes (smem s)" IP_PROTO_UDP w a a' 0] r l
      rxD(4) [OF r] by (simp add: rx_packet_def packet_def)
  have rm: "pbuf_remove_header p UDP_HLEN (smem s) = Some (0, strip 8 p (smem s))"
    unfolding UDP_HLEN_def by (rule rx_remove_header [OF r]) simp_all
  have ls: "load_at 6 2 p (s\<lparr>udp := u\<rparr>) = load_at 6 2 p s" by (simp add: load_at_def)

  show ?thesis
    unfolding udp_input_def
    using pb b n u ld ls rm ck htons_load [of sport] htons_load [of dport] load_u16_bytes [of chk]
    by (auto simp: lwip_assert_def key_of_def udp_sum_ok_def Let_def)
qed

section \<open>Packets in\<close>

text \<open>Cutting off the padding of a short frame, in a packet of one pbuf that is not from the heap.\<close>

definition no_heap_pbuf :: "pbuf \<Rightarrow> bool" where
  "no_heap_pbuf b \<longleftrightarrow> \<not> pbuf_match_allocsrc b PBUF_TYPE_ALLOC_SRC_MASK_STD_HEAP \<or> pb_flags b AND PBUF_FLAG_IS_CUSTOM \<noteq> 0"

definition trim_to :: "nat \<Rightarrow> addr \<Rightarrow> lwip_mem \<Rightarrow> lwip_mem" where
  "trim_to n p m = (if n < tot_len (the (pbufs m p)) then put_pbuf p ((the (pbufs m p))\<lparr>pb_len := n, tot_len := n, pb_next := 0\<rparr>) m else m)"

definition may_cut :: "lwip_mem \<Rightarrow> addr \<Rightarrow> addr list \<Rightarrow> u8 list \<Rightarrow> bool" where
  "may_cut m p xs pad \<longleftrightarrow> pad = [] \<or> xs = [] \<and> no_heap_pbuf (the (pbufs m p))"

lemma trim_to_simps [simp]: "bytes (trim_to n p m) = bytes m" "payload (the (pbufs (trim_to n p m) p)) = payload (the (pbufs m p))"
  by (simp_all add: trim_to_def)

lemma rx_cut:
  assumes r: "rx_packet m p xs (d @ pad) k" and mc: "may_cut m p xs pad" and k: "k \<le> length d"
  shows "rx_packet (trim_to (length d) p m) p xs d k"
    and "(if length d < tot_len (the (pbufs m p)) then pbuf_realloc c p (length d) m else Some m) = Some (trim_to (length d) p m)"
proof -
  obtain pb where pb: "pbufs m p = Some pb" using rxD(3) [OF r] by blast
  have l: "tot_len pb = length d + length pad" "pb_len pb \<le> length d + length pad" "length d + length pad < 65536" "p \<noteq> 0"
    using rxD [OF r] pb by auto
  have "rx_packet (trim_to (length d) p m) p xs d k \<and>
    (if length d < tot_len pb then pbuf_realloc c p (length d) m else Some m) = Some (trim_to (length d) p m)"
  proof (cases "pad = []")
    case True
    then show ?thesis using r l pb by (simp add: trim_to_def)
  next
    case False
    then have xs: "xs = []" "no_heap_pbuf pb" using mc pb by (auto simp: may_cut_def)
    have pk: "pb_next pb = 0" "pb_len pb = length d + length pad" and rm: "range_mapped (bytes m) (payload pb) (pb_len pb)"
      and d: "bytes_at (bytes m) (payload pb) (pb_len pb) = d @ pad"
      using r pb xs l by (auto simp: rx_packet_def packet_def)
    have lt: "length d < tot_len pb" using False l by simp
    have d': "bytes_at (bytes m) (payload pb) (length d) = d" using arg_cong [OF d, of "take (length d)"] pk(2) by simp
    have "range_mapped (bytes m) (payload pb) (length d)" using range_mapped_prefix [OF rm] pk(2) by simp
    then have "rx_packet (trim_to (length d) p m) p xs d k"
      using pb xs lt l k d' by (simp add: trim_to_def rx_packet_def packet_def)
    moreover have "\<not> length d > pb_len pb" using pk by simp
    then have "realloc_skip p (length d) (u16_sub (tot_len pb) (length d)) m = Some (p, length d, m)"
      using pb by (subst realloc_skip.simps) simp
    then have "pbuf_realloc c p (length d) m = Some (trim_to (length d) p m)"
      using pb lt l(4) pk(1) xs(2)
      by (auto simp: pbuf_realloc_def lwip_assert_def trim_to_def no_heap_pbuf_def put_pbuf_def)
    ultimately show ?thesis using lt by simp
  qed
  then show "rx_packet (trim_to (length d) p m) p xs d k"
    "(if length d < tot_len (the (pbufs m p)) then pbuf_realloc c p (length d) m else Some m) = Some (trim_to (length d) p m)"
    using pb by auto
qed

lemma ip4_hdr_fields:
  fixes tos ttl proto :: u8 and len ident off chk :: u16 and src dest :: ip4_addr
  defines "h \<equiv> ip4_hdr tos len ident off ttl proto chk src dest"
  shows "take 1 (h @ d) = [0x45]" "take 2 (drop 2 (h @ d)) = u16_bytes (lwip_htons len)"
    "take 2 (drop 6 (h @ d)) = u16_bytes (lwip_htons off)" "take 1 (drop 9 (h @ d)) = [proto]"
    "take 4 (drop 12 (h @ d)) = ip4_bytes src" "take 4 (drop 16 (h @ d)) = ip4_bytes dest" "take 20 (h @ d) = h"
  unfolding h_def by (simp_all add: ip4_hdr_def)

lemma vhl_fields: "IPH_V 0x45 = 4" "IPH_HL_BYTES 0x45 = 20"
  by (simp_all add: IPH_V_def IPH_HL_BYTES_def u8_of_def)

lemma input_netif_put [simp]: "ip4_input_netif inp dest (snet (put_smem m s)) = ip4_input_netif inp dest (snet s)"
  by (simp add: ip4_input_netif_def put_smem_def put_mem_def netif_at_def cong: if_cong)

lemma ip4_input_steps:
  assumes r: "rx_packet (smem s) p xs ((h @ dg) @ pad) 20"
    and h: "h = ip4_hdr tos (of_nat (length dg + 20)) ident 0 ttl proto chk src dest"
    and l: "length dg + 20 < 65536" and sum: "inet_chksum (LWIP_CHKSUM c) (payload (the (pbufs (smem s) p))) h = 0"
    and mc: "may_cut (smem s) p xs pad"
    and n: "netif_at (snet s) inp = Some i" "ip4_input_netif inp dest (snet s) = Some nif" "nif \<noteq> 0"
      "\<not> ip4_addr_isbroadcast_u32 src i" "\<not> ip4_addr_ismulticast src"
  shows "ip4_input c p inp s =
    do {
      s \<leftarrow> ip4_deliver c p inp nif (payload (the (pbufs (smem s) p))) 20
        ((put_smem (trim_to (length dg + 20) p (smem s)) s)\<lparr>ip_data := (ip_data s)\<lparr>current_iphdr_dest := dest, current_iphdr_src := src\<rparr>\<rparr>);
      Some (ERR_OK, s)
    }"
proof -
  let ?a = "payload (the (pbufs (smem s) p))" and ?m = "trim_to (length dg + 20) p (smem s)"
  obtain pb where pb: "pbufs (smem s) p = Some pb" using rxD(3) [OF r] by blast
  have lh: "length (h @ dg) = length dg + 20" "20 \<le> length (h @ dg)" using h by simp_all
  have r': "rx_packet ?m p xs (h @ dg) 20"
    and re: "(if length dg + 20 < tot_len pb then pbuf_realloc (spcfg c) p (length dg + 20) (smem s) else Some (smem s)) = Some ?m"
    using rx_cut(1) [OF r mc lh(2)] rx_cut(2) [OF r mc lh(2), of "spcfg c"] pb unfolding lh(1) by auto
  obtain pb' where pb': "pbufs ?m p = Some pb'" using rxD(3) [OF r'] by blast
  have t: "tot_len pb' = length dg + 20" "20 \<le> pb_len pb'" using rxD(4,7) [OF r'] pb' lh by auto
  have ld: "load_bytes (bytes (smem s)) (?a + i) j = Some (take j (drop i (h @ dg)))" if "i + j \<le> 20" for i j
    using rx_load [OF r' that] by simp
  note f = ip4_hdr_fields [of tos "of_nat (length dg + 20)" ident 0 ttl proto chk src dest dg, folded h]
  have ul: "unat (of_nat (length dg + 20) :: u16) = length dg + 20" using l by (simp only: unat_of_nat) simp
  have ld': "load_bytes (bytes (smem s)) ?a 1 = Some [0x45]" "load_bytes (bytes (smem s)) ?a 20 = Some h"
    "load_bytes (bytes (smem s)) (?a + 2) 2 = Some (u16_bytes (lwip_htons (of_nat (length dg + 20))))"
    "load_bytes (bytes (smem s)) (?a + 6) 2 = Some (u16_bytes (lwip_htons 0))"
    "load_bytes (bytes (smem s)) (?a + 12) 4 = Some (ip4_bytes src)" "load_bytes (bytes (smem s)) (?a + 16) 4 = Some (ip4_bytes dest)"
    using ld [of 0 1] ld [of 0 20] ld [of 2 2] ld [of 6 2] ld [of 12 4] ld [of 16 4]
    by (simp_all only: f add_0_right drop0 add_0 one_le_numeral order_refl numeral_plus_numeral le_numeral_extra simp_thms numeral_le_iff le_num_simps add_num_simps)
  have v: "bytes (smem s) ?a = Some 0x45" using ld'(1) by (auto split: Option.bind_splits)
  have z: "load_u16 (u16_bytes (lwip_htons 0) ! 0) (u16_bytes (lwip_htons 0) ! 1) = 0" unfolding load_u16_bytes by (simp add: lwip_htons_def)
  have acc: "ip4_addressed c p inp ?a 20 (put_smem ?m s) =
      ip4_deliver c p inp nif ?a 20 ((put_smem ?m s)\<lparr>ip_data := (ip_data s)\<lparr>current_iphdr_dest := dest, current_iphdr_src := src\<rparr>\<rparr>)"
    unfolding ip4_addressed_def using ld' z n by (simp add: Let_def)
  show ?thesis
    unfolding ip4_input_def
    using pb re pb' t ld'(2-) v htons_load [of "of_nat (length dg + 20)"] ul sum acc vhl_fields
    by (simp add: IP_HLEN_def Let_def split del: if_split cong: if_cong del: add_2_eq_Suc add_2_eq_Suc')
qed

section \<open>Frames in\<close>

text \<open>The globals while a packet with a plain header is processed, and between packets.\<close>

definition in_progress :: "addr \<Rightarrow> addr \<Rightarrow> addr \<Rightarrow> ip4_addr \<Rightarrow> ip4_addr \<Rightarrow> ip_globals" where
  "in_progress nif inp iphdr src dest = \<lparr>current_netif = nif, current_input_netif = inp, current_ip4_header = iphdr,
     current_ip_header_tot_len = 20, current_iphdr_src = src, current_iphdr_dest = dest\<rparr>"

definition no_packet :: ip_globals where
  "no_packet = \<lparr>current_netif = 0, current_input_netif = 0, current_ip4_header = 0, current_ip_header_tot_len = 0,
     current_iphdr_src = IPADDR_ANY, current_iphdr_dest = IPADDR_ANY\<rparr>"

text \<open>Only the fields of the first pbuf that describe its data have changed.\<close>

definition same_but :: "addr \<Rightarrow> lwip_mem \<Rightarrow> lwip_mem \<Rightarrow> bool" where
  "same_but p m m' \<longleftrightarrow> bytes m' = bytes m \<and> heap m' = heap m \<and> pools m' = pools m \<and> custom_fns m' = custom_fns m \<and>
     (\<forall>x. x \<noteq> p \<longrightarrow> pbufs m' x = pbufs m x) \<and> pb_ref (the (pbufs m' p)) = pb_ref (the (pbufs m p)) \<and>
     type_internal (the (pbufs m' p)) = type_internal (the (pbufs m p)) \<and> std_pbuf (the (pbufs m' p)) = std_pbuf (the (pbufs m p))"

lemma same_but_trans: "same_but p m m' \<Longrightarrow> same_but p m' m'' \<Longrightarrow> same_but p m m''"
  by (simp add: same_but_def)

lemma same_but_steps: "same_but p m (strip n p m)" "same_but p m (trim_to n p m)"
  by (simp_all add: same_but_def strip_def trim_to_def Let_def put_pbuf_def std_pbuf_def)

lemma link_flags_std: "link_flags dst AND PBUF_FLAG_IS_CUSTOM = 0"
  by (cases dst) (simp add: link_flags_def PBUF_FLAG_LLMCAST_def PBUF_FLAG_LLBCAST_def PBUF_FLAG_IS_CUSTOM_def)

text \<open>A received packet in memory that is handed out can be freed, also after its first pbuf has changed.\<close>

definition held :: "stack_cfg \<Rightarrow> (memp_t \<Rightarrow> memp_desc) \<Rightarrow> areas \<Rightarrow> (addr \<Rightarrow> nat) \<Rightarrow> addr list \<Rightarrow> lwip_mem \<Rightarrow> bool" where
  "held c descs out sz xs m \<longleftrightarrow> mem_ok (spcfg c) descs m out \<and> owned (pbufs m) sz out xs"

definition given_back :: "areas \<Rightarrow> (addr \<Rightarrow> nat) \<Rightarrow> addr list \<Rightarrow> lwip_mem \<Rightarrow> areas" where
  "given_back out sz xs m = out - area (pbufs m) sz ` set (unshared (pbufs m) xs)"

lemma held_cong:
  assumes "heap m' = heap m" "pools m' = pools m"
    "\<And>x. x \<in> set xs \<Longrightarrow> pb_ref (the (pbufs m' x)) = pb_ref (the (pbufs m x)) \<and>
       type_internal (the (pbufs m' x)) = type_internal (the (pbufs m x)) \<and> std_pbuf (the (pbufs m' x)) = std_pbuf (the (pbufs m x))"
  shows "held c descs out sz xs m' = held c descs out sz xs m" "given_back out sz xs m' = given_back out sz xs m"
proof -
  have a: "area (pbufs m') sz x = area (pbufs m) sz x" if "x \<in> set xs" for x
    using assms(3) [OF that] by (simp add: area_def pbuf_get_allocsrc_def)
  have u: "unshared (pbufs m') xs = unshared (pbufs m) xs"
    unfolding unshared_def using assms(3) by (intro takeWhile_cong) auto
  have "set (unshared (pbufs m) xs) \<subseteq> set xs" by (auto simp: unshared_def dest: set_takeWhileD)
  then show "given_back out sz xs m' = given_back out sz xs m"
    unfolding given_back_def u using a by (metis (no_types, lifting) image_cong subsetD)
  have "mem_ok (spcfg c) descs m' out = mem_ok (spcfg c) descs m out" using assms(1,2) by (simp add: mem_ok_def mem_rep_def)
  moreover have "owned (pbufs m') sz out xs = owned (pbufs m) sz out xs"
    unfolding owned_def using assms(3) by (intro ball_cong) (auto simp: pbuf_get_allocsrc_def)
  ultimately show "held c descs out sz xs m' = held c descs out sz xs m" by (simp add: held_def)
qed

lemma held_same_but:
  assumes "same_but p m m'"
  shows "held c descs out sz xs m' = held c descs out sz xs m" "given_back out sz xs m' = given_back out sz xs m"
proof -
  have "pb_ref (the (pbufs m' x)) = pb_ref (the (pbufs m x)) \<and> type_internal (the (pbufs m' x)) = type_internal (the (pbufs m x)) \<and>
      std_pbuf (the (pbufs m' x)) = std_pbuf (the (pbufs m x))" for x
    using assms by (cases "x = p") (simp_all add: same_but_def)
  moreover have "heap m' = heap m" "pools m' = pools m" using assms by (simp_all add: same_but_def)
  ultimately show "held c descs out sz xs m' = held c descs out sz xs m" "given_back out sz xs m' = given_back out sz xs m"
    using held_cong by metis+
qed

lemma s_free_held:
  assumes "held c descs out sz (p # xs) (smem s)" "chain (pbufs (smem s)) p (p # xs)"
  shows "\<exists>m. s_free c p s = Some (put_smem m s) \<and> mem_ok (spcfg c) descs m (given_back out sz (p # xs) (smem s)) \<and> bytes m = bytes (smem s)"
  using pbuf_free_spec [of "spcfg c" descs "smem s" out p "p # xs" sz] assms by (auto simp: held_def given_back_def s_free_def)

text \<open>The two protocols.\<close>

definition takes_proto :: "u8 \<Rightarrow> (stack_cfg \<Rightarrow> addr \<Rightarrow> addr \<Rightarrow> stack \<Rightarrow> stack option) \<Rightarrow> bool" where
  "takes_proto proto input \<longleftrightarrow> proto = IP_PROTO_UDP \<and> input = udp_input \<or> proto = IP_PROTO_ICMP \<and> input = icmp_input"

lemma deliver_proto:
  assumes r: "rx_packet (smem s) p xs (h @ dg) 20" and a: "iphdr = payload (the (pbufs (smem s) p))"
    and h: "h = ip4_hdr tos len ident off ttl proto chk src dest" and pr: "takes_proto proto input"
    and ip: "current_iphdr_src (ip_data s) = src" "current_iphdr_dest (ip_data s) = dest"
  shows "ip4_deliver c p inp nif iphdr 20 s =
    do {
      s \<leftarrow> input c p inp ((put_smem (strip 20 p (smem s)) s)\<lparr>ip_data := in_progress nif inp iphdr src dest\<rparr>);
      Some (s\<lparr>ip_data := no_packet\<rparr>)
    }"
proof -
  note f = ip4_hdr_fields [of tos len ident off ttl proto chk src dest dg, folded h]
  have "load_bytes (bytes (smem s)) iphdr 1 = Some [0x45]" "load_bytes (bytes (smem s)) (iphdr + 9) 1 = Some [proto]"
    using rx_load [OF r, of 0 1] rx_load [OF r, of 9 1] unfolding a by (simp_all only: f add_0_right drop0 one_le_numeral order_refl add_0)
  then have b: "bytes (smem s) iphdr = Some 0x45" "bytes (smem s) (iphdr + 9) = Some proto"
    by (auto split: Option.bind_splits)
  let ?g = "(ip_data s)\<lparr>current_netif := nif, current_input_netif := inp, current_ip4_header := iphdr, current_ip_header_tot_len := 20\<rparr>"
  have g: "?g = in_progress nif inp iphdr src dest" using ip by (simp add: in_progress_def)
  have "put_smem m (s\<lparr>ip_data := g'\<rparr>) = (put_smem m s)\<lparr>ip_data := g'\<rparr>" for m g' by (simp add: put_smem_def put_mem_def)
  then show ?thesis using b vhl_fields rx_remove_header [OF r, of 20] g pr
    by (auto simp: takes_proto_def ip4_deliver_def Let_def no_packet_def IP_PROTO_ICMP_def IP_PROTO_UDP_def)
qed

text \<open>A frame with an IP packet.\<close>

lemma ethernet_input_ip:
  assumes r: "rx_packet (smem s) p xs (eth_header dst hw ETHTYPE_IP @ d) k" and k: "14 < k"
    and n: "netif_at (snet s) inp = Some i" "netif_flags i AND NETIF_FLAG_ETHARP \<noteq> 0"
  shows "\<exists>m. ethernet_input c p inp s = do { (_, s) \<leftarrow> ip4_input c p inp (put_smem m s); Some (ERR_OK, s) } \<and>
    rx_packet m p xs d (k - 14) \<and> same_but p (smem s) m \<and> (may_cut (smem s) p xs pad \<longrightarrow> may_cut m p xs pad) \<and>
    payload (the (pbufs m p)) = payload (the (pbufs (smem s) p)) + 14"
proof -
  obtain pb where pb: "pbufs (smem s) p = Some pb" using rxD(3) [OF r] by blast
  let ?pb = "(if if_idx pb = NETIF_NO_INDEX then pb\<lparr>if_idx := netif_get_index i\<rparr> else pb)"
  let ?pb = "?pb\<lparr>pb_flags := pb_flags ?pb OR link_flags dst\<rparr>"
  let ?m = "put_pbuf p ?pb (smem s)"
  have "14 < pb_len pb" using rxD(7) [OF r] k pb by simp
  then have l: "\<not> pb_len pb \<le> SIZEOF_ETH_HDR" by (simp add: SIZEOF_ETH_HDR_def)
  have ld: "load_at 12 2 p s = Some (u16_bytes (lwip_htons ETHTYPE_IP))" "load_at 0 6 p s = Some (eth_bytes dst)"
    using load_at_rx [OF r, of 12 2] load_at_rx [OF r, of 0 6] k by (simp_all add: eth_header_def)
  have f: "payload ?pb = payload pb" "pb_len ?pb = pb_len pb" "tot_len ?pb = tot_len pb" "pb_next ?pb = pb_next pb"
    "pb_ref ?pb = pb_ref pb" "type_internal ?pb = type_internal pb" by simp_all
  have rm: "rx_packet ?m p xs (eth_header dst hw ETHTYPE_IP @ d) k"
  proof -
    have nx: "p \<notin> set xs" by (rule rxD(2) [OF r])
    have "sum_len ((pbufs (smem s))(p \<mapsto> ?pb)) xs = sum_len (pbufs (smem s)) xs" using nx by (intro sum_len_cong) auto
    moreover have "pdata ((pbufs (smem s))(p \<mapsto> ?pb)) (bytes (smem s)) xs = pdata (pbufs (smem s)) (bytes (smem s)) xs"
      using nx by (intro pdata_cong) auto
    ultimately show ?thesis using r pb nx unfolding rx_packet_def packet_Cons mapped_def by auto
  qed
  have s1: "pbuf_remove_header p 14 ?m = Some (0, strip 14 p ?m)" using rx_remove_header [OF rm, of 14] k by simp
  have r1: "rx_packet (strip 14 p ?m) p xs d (k - 14)" using rx_strip [OF rm, of 14] k by simp
  have "std_pbuf ?pb = std_pbuf pb" using link_flags_std [of dst] by (simp add: std_pbuf_def word_ao_dist or_eq_0_iff)
  then have "same_but p (smem s) ?m" using pb f by (simp add: same_but_def)
  then have sb: "same_but p (smem s) (strip 14 p ?m)" using same_but_trans same_but_steps(1) by blast
  have mc: "may_cut (smem s) p xs pad \<longrightarrow> may_cut (strip 14 p ?m) p xs pad"
    using pb by (auto simp: may_cut_def no_heap_pbuf_def pbuf_match_allocsrc_def pbuf_get_allocsrc_def word_ao_dist or_eq_0_iff)
  show ?thesis
    using pb l ld n s1 r1 sb mc by (intro exI [of _ "strip 14 p ?m"]) (simp add: ethernet_input_def Let_def SIZEOF_ETH_HDR_def)
qed

section \<open>From frame to receiver\<close>

lemma accept_loop_at: "accept_loop m inp dest as = Some nif \<Longrightarrow> nif \<noteq> 0 \<Longrightarrow> m nif \<noteq> None"
  by (induction as) (auto split: if_splits Option.bind_splits)

lemma input_netif_at: "ip4_input_netif inp dest s = Some nif \<Longrightarrow> nif \<noteq> 0 \<Longrightarrow> netif_at s nif \<noteq> None"
  using accept_loop_at [of "netifs s" inp dest "netif_list s" nif]
  by (auto simp: ip4_input_netif_def netif_at_def split: if_splits Option.bind_splits)

text \<open>The interface \<open>inp\<close> takes a packet from \<open>src\<close> to \<open>dest\<close>, which is for the interface \<open>nif\<close>.\<close>

definition takes :: "stack \<Rightarrow> addr \<Rightarrow> ip4_addr \<Rightarrow> ip4_addr \<Rightarrow> addr \<Rightarrow> bool" where
  "takes s inp src dest nif \<longleftrightarrow>
     (case netif_at (snet s) inp of
        None \<Rightarrow> False
      | Some i \<Rightarrow> netif_flags i AND NETIF_FLAG_ETHARP \<noteq> 0 \<and> \<not> ip4_addr_isbroadcast_u32 src i \<and> \<not> ip4_addr_ismulticast src \<and>
          ip4_input_netif inp dest (snet s) = Some nif \<and> nif \<noteq> 0)"

definition rx_key :: "stack \<Rightarrow> addr \<Rightarrow> addr \<Rightarrow> ip4_addr \<Rightarrow> ip4_addr \<Rightarrow> u16 \<Rightarrow> u16 \<Rightarrow> udp_key" where
  "rx_key s inp nif src dest sport dport =
     (let i = the (netif_at (snet s) inp) in
      \<lparr>key_cur = i, key_inp = i, key_broadcast = ip4_addr_isbroadcast_u32 dest (the (netif_at (snet s) nif)), key_src_ip = src,
       key_dest_ip = dest, key_src = sport, key_dest = dport\<rparr>)"

text \<open>The datagram of a frame is for the pcb \<open>pcb\<close>, which has a receive function.\<close>

definition listens :: "stack \<Rightarrow> udp_key \<Rightarrow> addr list \<Rightarrow> addr \<Rightarrow> bool" where
  "listens s k ps pcb \<longleftrightarrow> plist (udp_pcb_at (udp s)) (udp_pcbs (udp s)) ps \<and> pcb = udp_choice k (udp_pcb_at (udp s)) ps \<and> pcb \<noteq> 0 \<and>
     (\<exists>b. udp_pcb_at (udp s) pcb = Some b \<and> recv b \<noteq> 0)"

lemma listens_cong: "udp s = udp s' \<Longrightarrow> listens s k ps pcb = listens s' k ps pcb"
  by (simp add: listens_def)

text \<open>The state in which the receive function is called.\<close>

definition called_with :: "lwip_mem \<Rightarrow> udp_state \<Rightarrow> ip_globals \<Rightarrow> stack \<Rightarrow> stack" where
  "called_with m u g s = (put_smem m s)\<lparr>udp := u, ip_data := g\<rparr>"

lemma same_pcbs_recv:
  assumes "same_pcbs u u'" "udp_pcb_at u pcb = Some b"
  shows "\<exists>b'. udp_pcb_at u' pcb = Some b' \<and> recv b' = recv b \<and> recv_arg b' = recv_arg b"
proof -
  have "map_option (udp_next_update (\<lambda>_. 0)) (udp_pcb_at u' pcb) = Some (b\<lparr>udp_next := 0\<rparr>)" using assms by (simp add: same_pcbs_def)
  then obtain b' where b': "udp_pcb_at u' pcb = Some b'" "b'\<lparr>udp_next := 0\<rparr> = b\<lparr>udp_next := 0\<rparr>" by auto
  have "recv b' = recv (b'\<lparr>udp_next := 0\<rparr>)" "recv_arg b' = recv_arg (b'\<lparr>udp_next := 0\<rparr>)" by simp_all
  then show ?thesis using b'(1) unfolding b'(2) by simp
qed

lemma udp_input_delivers:
  assumes f: "chksum_routine (LWIP_CHKSUM c)" and r: "rx_packet (smem s) p xs (udp_hdr sport dport ulen chk @ d) 8"
    and l: "length d + 28 < 65536" and g: "ip_data s = in_progress nif inp iphdr src dest"
    and n: "netif_at (snet s) inp = Some i" "netif_at (snet s) nif \<noteq> None"
    and usum: "udp_sum_ok (LWIP_CHKSUM c) src dest chk (udp_hdr sport dport ulen chk @ d)"
    and ls: "listens s (rx_key s inp nif src dest sport dport) ps pcb"
  shows "\<exists>u. udp_input c p inp s = recv_fn c (recv (pcb_of (udp_pcb_at (udp s)) pcb)) (recv_arg (pcb_of (udp_pcb_at (udp s)) pcb)) pcb p src sport
      (called_with (strip 8 p (smem s)) u (ip_data s) s) \<and> same_pcbs (udp s) u"
proof -
  let ?k = "rx_key s inp nif src dest sport dport"
  have key: "key_of s inp sport dport = ?k" using n g by (simp add: key_of_def rx_key_def in_progress_def Let_def)
  obtain u where u: "udp_find ?k (udp s) = Some (pcb, u)" "same_pcbs (udp s) u"
    using udp_find_spec [of "udp s" ps ?k] ls unfolding listens_def by blast
  obtain b where b: "udp_pcb_at (udp s) pcb = Some b" "recv b \<noteq> 0" "pcb \<noteq> 0" using ls by (auto simp: listens_def)
  obtain b' where b': "udp_pcb_at u pcb = Some b'" "recv b' = recv b" "recv_arg b' = recv_arg b"
    using same_pcbs_recv [OF u(2) b(1)] by blast
  have nn: "netif_at (snet s) (current_netif (ip_data s)) \<noteq> None" "netif_at (snet s) (current_input_netif (ip_data s)) \<noteq> None"
    using n g by (simp_all add: in_progress_def)
  have "udp_input c p inp s = udp_hand_over c p pcb (key_broadcast ?k) sport (put_smem (strip 8 p (smem s)) (s\<lparr>udp := u\<rparr>))"
    using udp_input_steps [OF r _ f nn n(1)] l u(1) usum b(3) g unfolding key by (simp add: in_progress_def)
  also have "put_smem (strip 8 p (smem s)) (s\<lparr>udp := u\<rparr>) = called_with (strip 8 p (smem s)) u (ip_data s) s"
    by (simp add: called_with_def put_smem_def put_mem_def)
  also have "udp_hand_over c p pcb (key_broadcast ?k) sport (called_with (strip 8 p (smem s)) u (ip_data s) s) =
      recv_fn c (recv b) (recv_arg b) pcb p src sport (called_with (strip 8 p (smem s)) u (ip_data s) s)"
    using b b' g by (simp add: udp_hand_over_def called_with_def in_progress_def)
  finally show ?thesis using u(2) b(1) by auto
qed

text \<open>Up to the choice of the protocol: the header of the link is gone, and the one of the network is checked.\<close>

lemma frame_to_deliver:
  assumes f: "chksum_routine (LWIP_CHKSUM c)"
    and r: "rx_packet (smem s) p xs (eth_header dst hw ETHTYPE_IP @ (h @ dg) @ pad) k" and k: "34 \<le> k" "k \<le> length dg + 34"
    and mc: "may_cut (smem s) p xs pad" and l: "length dg + 20 < 65536"
    and h: "h = ip4_hdr tos (of_nat (length dg + 20)) ident 0 ttl proto ick src dest"
    and sum: "inet_chksum (LWIP_CHKSUM c) 0 h = 0" and t: "takes s inp src dest nif"
  shows "\<exists>m. ethernet_input c p inp s =
      do {
        s \<leftarrow> ip4_deliver c p inp nif (payload (the (pbufs m p))) 20
          ((put_smem m s)\<lparr>ip_data := (ip_data s)\<lparr>current_iphdr_dest := dest, current_iphdr_src := src\<rparr>\<rparr>);
        Some (ERR_OK, s)
      } \<and> rx_packet m p xs (h @ dg) (k - 14) \<and> same_but p (smem s) m \<and>
      payload (the (pbufs m p)) = payload (the (pbufs (smem s) p)) + 14"
proof -
  obtain i where i: "netif_at (snet s) inp = Some i" "netif_flags i AND NETIF_FLAG_ETHARP \<noteq> 0" "\<not> ip4_addr_isbroadcast_u32 src i"
    "\<not> ip4_addr_ismulticast src" "ip4_input_netif inp dest (snet s) = Some nif" "nif \<noteq> 0"
    using t by (auto simp: takes_def split: option.splits)
  obtain m1 where m1: "ethernet_input c p inp s = do { (_, s) \<leftarrow> ip4_input c p inp (put_smem m1 s); Some (ERR_OK, s) }"
    "rx_packet m1 p xs ((h @ dg) @ pad) (k - 14)" "same_but p (smem s) m1" "may_cut m1 p xs pad"
    "payload (the (pbufs m1 p)) = payload (the (pbufs (smem s) p)) + 14"
    using ethernet_input_ip [OF r _ i(1,2), of c pad] mc k by auto
  let ?s1 = "put_smem m1 s" and ?a = "payload (the (pbufs m1 p))" and ?m2 = "trim_to (length dg + 20) p m1"
  have lh: "length (h @ dg) = length dg + 20" "k - 14 \<le> length (h @ dg)" "20 \<le> k - 14" using h k by simp_all
  have sum': "inet_chksum (LWIP_CHKSUM c) a h = 0" for a
    using sum chksum_routine.chksum_any_address [OF f, of h a 0] h by (simp add: inet_chksum_def)
  let ?g = "(ip_data s)\<lparr>current_iphdr_dest := dest, current_iphdr_src := src\<rparr>"
  have ip: "ip4_input c p inp ?s1 = do { s \<leftarrow> ip4_deliver c p inp nif ?a 20 ((put_smem ?m2 s)\<lparr>ip_data := ?g\<rparr>); Some (ERR_OK, s) }"
    using ip4_input_steps [of ?s1 p xs h dg pad, OF _ h l _ _ _ _ i(6) i(3,4), of c inp] rx_weaken [OF m1(2) lh(3)] sum' m1(4) i
    by simp
  have "rx_packet ?m2 p xs (h @ dg) (k - 14)" using rx_cut(1) [OF m1(2,4) lh(2)] unfolding lh(1) .
  moreover have "same_but p (smem s) ?m2" using m1(3) same_but_trans same_but_steps(2) by metis
  moreover have "ethernet_input c p inp s = do { s \<leftarrow> ip4_deliver c p inp nif ?a 20 ((put_smem ?m2 s)\<lparr>ip_data := ?g\<rparr>); Some (ERR_OK, s) }"
    unfolding m1(1) ip by (simp add: bind_assoc)
  ultimately show ?thesis using m1(5) by (intro exI [of _ ?m2]) simp
qed

lemma frame_to_udp:
  assumes f: "chksum_routine (LWIP_CHKSUM c)"
    and r: "rx_packet (smem s) p xs (eth_header dst hw ETHTYPE_IP @ (h @ dg) @ pad) k" and k: "34 \<le> k" "k \<le> length dg + 34"
    and mc: "may_cut (smem s) p xs pad" and l: "length dg + 20 < 65536"
    and h: "h = ip4_hdr tos (of_nat (length dg + 20)) ident 0 ttl IP_PROTO_UDP ick src dest"
    and sum: "inet_chksum (LWIP_CHKSUM c) 0 h = 0" and t: "takes s inp src dest nif"
  shows "\<exists>m iphdr. ethernet_input c p inp s =
      do {
        s \<leftarrow> udp_input c p inp ((put_smem m s)\<lparr>ip_data := in_progress nif inp iphdr src dest\<rparr>);
        Some (ERR_OK, s\<lparr>ip_data := no_packet\<rparr>)
      } \<and> rx_packet m p xs dg (k - 34) \<and> same_but p (smem s) m"
proof -
  let ?g = "(ip_data s)\<lparr>current_iphdr_dest := dest, current_iphdr_src := src\<rparr>"
  obtain m where m: "ethernet_input c p inp s = do {
      s \<leftarrow> ip4_deliver c p inp nif (payload (the (pbufs m p))) 20 ((put_smem m s)\<lparr>ip_data := ?g\<rparr>); Some (ERR_OK, s) }"
    "rx_packet m p xs (h @ dg) (k - 14)" "same_but p (smem s) m"
    using frame_to_deliver [OF f r k mc l h sum t] by blast
  let ?s2 = "(put_smem m s)\<lparr>ip_data := ?g\<rparr>" and ?a = "payload (the (pbufs m p))"
  let ?s3 = "(put_smem (strip 20 p m) s)\<lparr>ip_data := in_progress nif inp ?a src dest\<rparr>"
  have k': "20 \<le> k - 14" using k by simp
  have del: "ip4_deliver c p inp nif ?a 20 ?s2 = do { s \<leftarrow> udp_input c p inp ?s3; Some (s\<lparr>ip_data := no_packet\<rparr>) }"
    using deliver_proto [of ?s2 p xs h dg ?a, OF _ _ h, of udp_input c inp nif] rx_weaken [OF m(2) k']
    by (simp add: put_smem_def put_mem_def takes_proto_def)
  have "rx_packet (strip 20 p m) p xs dg (k - 34)" using rx_strip [OF m(2) k'] h k by (simp add: diff_diff_left)
  moreover have "same_but p (smem s) (strip 20 p m)" using m(3) same_but_trans same_but_steps by metis
  moreover have "ethernet_input c p inp s = do { s \<leftarrow> udp_input c p inp ?s3; Some (ERR_OK, s\<lparr>ip_data := no_packet\<rparr>) }"
    unfolding m(1) del by (simp add: bind_assoc)
  ultimately show ?thesis by blast
qed

lemma ethernet_input_udp_spec:
  assumes f: "chksum_routine (LWIP_CHKSUM c)"
    and r: "rx_packet (smem s) p xs (eth_header dst hw ETHTYPE_IP @ (h @ udp_hdr sport dport ulen chk @ d) @ pad) 42"
    and mc: "may_cut (smem s) p xs pad" and l: "length d + 28 < 65536"
    and h: "h = ip4_hdr tos (of_nat (length d + 28)) ident 0 ttl IP_PROTO_UDP ick src dest"
    and sum: "inet_chksum (LWIP_CHKSUM c) 0 h = 0"
    and usum: "udp_sum_ok (LWIP_CHKSUM c) src dest chk (udp_hdr sport dport ulen chk @ d)"
    and t: "takes s inp src dest nif" and ls: "listens s (rx_key s inp nif src dest sport dport) ps pcb"
  shows "\<exists>m u iphdr. ethernet_input c p inp s =
      do {
        s \<leftarrow> recv_fn c (recv (pcb_of (udp_pcb_at (udp s)) pcb)) (recv_arg (pcb_of (udp_pcb_at (udp s)) pcb)) pcb p src sport
          (called_with m u (in_progress nif inp iphdr src dest) s);
        Some (ERR_OK, s\<lparr>ip_data := no_packet\<rparr>)
      } \<and> rx_packet m p xs d 0 \<and> same_but p (smem s) m \<and> same_pcbs (udp s) u"
proof -
  let ?dg = "udp_hdr sport dport ulen chk @ d"
  have lg: "length ?dg + 20 = length d + 28" by simp
  obtain m iphdr where m: "ethernet_input c p inp s = do {
      s \<leftarrow> udp_input c p inp ((put_smem m s)\<lparr>ip_data := in_progress nif inp iphdr src dest\<rparr>);
      Some (ERR_OK, s\<lparr>ip_data := no_packet\<rparr>) }" "rx_packet m p xs ?dg 8" "same_but p (smem s) m"
    using frame_to_udp [OF f r _ _ mc _ h [folded lg] sum t] l by auto
  let ?s = "(put_smem m s)\<lparr>ip_data := in_progress nif inp iphdr src dest\<rparr>"
  obtain i where i: "netif_at (snet s) inp = Some i" using t by (auto simp: takes_def split: option.splits)
  have nn: "netif_at (snet s) nif \<noteq> None" using t input_netif_at by (auto simp: takes_def split: option.splits)
  have "listens ?s (rx_key ?s inp nif src dest sport dport) ps pcb"
  proof -
    have "rx_key ?s inp nif src dest sport dport = rx_key s inp nif src dest sport dport" by (simp add: rx_key_def)
    then show ?thesis using ls listens_cong [of ?s s] by simp
  qed
  then obtain u where u: "udp_input c p inp ?s = recv_fn c (recv (pcb_of (udp_pcb_at (udp s)) pcb)) (recv_arg (pcb_of (udp_pcb_at (udp s)) pcb))
      pcb p src sport (called_with (strip 8 p m) u (ip_data ?s) ?s)" "same_pcbs (udp s) u"
    using udp_input_delivers [OF f, of ?s p xs sport dport ulen chk d nif inp iphdr src dest i ps pcb] m(2) l i nn usum by auto
  have "called_with (strip 8 p m) u (ip_data ?s) ?s = called_with (strip 8 p m) u (in_progress nif inp iphdr src dest) s"
    by (simp add: called_with_def put_smem_def put_mem_def)
  moreover have "rx_packet (strip 8 p m) p xs d 0" using rx_strip [OF m(2), of 8] by simp
  moreover have "same_but p (smem s) (strip 8 p m)" using m(3) same_but_trans same_but_steps(1) by metis
  ultimately show ?thesis using m(1) u by auto
qed

section \<open>From sender to receiver\<close>

lemma chksum_routines_agree:
  assumes "chksum_routine f" "chksum_routine g" "length bs < 65536"
  shows "inet_chksum f a bs = inet_chksum g a' bs"
  using chksum_routine.unat_inet_chksum [OF assms(1,3), of a] chksum_routine.unat_inet_chksum [OF assms(2,3), of a']
  by (simp add: word_unat_eq_iff)

text \<open>The headers that are sent pass the checks of the receiver.\<close>

lemma sent_sums_ok:
  assumes f: "chksum_routine (LWIP_CHKSUM c)" and g: "chksum_routine g" and l: "length d + 20 < 65536"
  shows "inet_chksum g 0 (ip4_out_hdr tos len ident ttl proto src dest) = 0"
    and "\<exists>ulen chk. udp_out_hdr c b src dest dport d = udp_hdr (local_port b) dport ulen chk \<and>
      udp_sum_ok g src dest chk (udp_hdr (local_port b) dport ulen chk @ d)"
proof -
  show "inet_chksum g 0 (ip4_out_hdr tos len ident ttl proto src dest) = 0" by (rule chksum_routine.ip4_out_hdr_verifies [OF g])
  let ?len = "of_nat (length d + 8) :: u16" and ?k = "udp_chk (LWIP_CHKSUM c) src dest (local_port b) dport d"
  let ?dg = "udp_hdr (local_port b) dport ?len ?k @ d"
  have "inet_chksum g 0 (pseudo_header src dest IP_PROTO_UDP ?len @ ?dg) =
      inet_chksum (LWIP_CHKSUM c) 0 (pseudo_header src dest IP_PROTO_UDP ?len @ ?dg)"
    using l by (intro chksum_routines_agree [OF g f]) simp
  then have "udp_sum_ok g src dest ?k ?dg"
    using chksum_routine.udp_chk_verifies [OF f l, of 0 src dest "local_port b" dport] by (simp add: udp_sum_ok_def add.commute)
  then show "\<exists>ulen chk. udp_out_hdr c b src dest dport d = udp_hdr (local_port b) dport ulen chk \<and>
      udp_sum_ok g src dest chk (udp_hdr (local_port b) dport ulen chk @ d)"
    by (auto simp: udp_out_hdr_def udp_sum_ok_def)
qed

lemma frame_received_spec:
  assumes f: "chksum_routine (LWIP_CHKSUM c)" and g: "chksum_routine (LWIP_CHKSUM c')" and l: "length d + 28 < 65536"
    and r: "rx_packet (smem s) q ys ((udp_headers c b dst hw ident src dest dport d @ d) @ pad) 42" and mc: "may_cut (smem s) q ys pad"
    and t: "takes s inp src dest nif" and ls: "listens s (rx_key s inp nif src dest (local_port b) dport) ps pcb"
  shows "\<exists>m u iphdr. ethernet_input c' q inp s =
      do {
        s \<leftarrow> recv_fn c' (recv (pcb_of (udp_pcb_at (udp s)) pcb)) (recv_arg (pcb_of (udp_pcb_at (udp s)) pcb)) pcb q src (local_port b)
          (called_with m u (in_progress nif inp iphdr src dest) s);
        Some (ERR_OK, s\<lparr>ip_data := no_packet\<rparr>)
      } \<and> rx_packet m q ys d 0 \<and> same_but q (smem s) m \<and> same_pcbs (udp s) u"
proof -
  obtain ulen chk where u: "udp_out_hdr c b src dest dport d = udp_hdr (local_port b) dport ulen chk"
    "udp_sum_ok (LWIP_CHKSUM c') src dest chk (udp_hdr (local_port b) dport ulen chk @ d)"
    using sent_sums_ok(2) [OF f g, of d b src dest dport] l by auto
  let ?h = "ip4_out_hdr (udp_tos b) (of_nat (length d + 28)) ident (udp_ttl b) IP_PROTO_UDP src dest"
  have r': "rx_packet (smem s) q ys (eth_header dst hw ETHTYPE_IP @ (?h @ udp_hdr (local_port b) dport ulen chk @ d) @ pad) 42"
    using r u(1) by (simp add: udp_headers_def)
  have "inet_chksum (LWIP_CHKSUM c') 0 ?h = 0" by (rule chksum_routine.ip4_out_hdr_verifies [OF g])
  from ethernet_input_udp_spec [OF g r' mc l ip4_out_hdr_def this u(2) t ls] show ?thesis .
qed

end
