(* ===== verification/Icmp_Echo.thy ===== *)
theory Icmp_Echo
  imports Ip4_Receive
begin

text \<open>
  Answering a ping, \<^verbatim>\<open>icmp_input\<close> of \<^verbatim>\<open>icmp.c\<close>: the reply is made in the buffer of the request, and its two checksums verify.
\<close>

section \<open>The checksum of the reply\<close>

lemma icmp_adjust:
  "unat (icmp_adjust_chksum ck) = unat ck + 8 \<or> unat (icmp_adjust_chksum ck) + 65535 = unat ck + 8 \<and> 0 < unat (icmp_adjust_chksum ck)"
proof -
  have c: "lwip_htons (0xffff - push_bit 8 (ucast ICMP_ECHO)) = 0xfff7" "lwip_htons (push_bit 8 (ucast ICMP_ECHO)) = 8"
    by (simp_all add: lwip_htons_def ICMP_ECHO_def)
  have u: "unat ck < 65536" using unsigned_less [of ck] by simp
  show ?thesis
  proof (cases "ck > 0xfff7")
    case True
    then have g: "65527 < unat ck" by (simp add: word_less_nat_alt)
    have "ck + 8 + 1 = of_nat (unat ck + 9)" by simp
    then have "unat (ck + 8 + 1) = (unat ck + 9) mod 65536" by (simp only: unat_of_nat) (simp add: take_bit_eq_mod)
    also have "\<dots> = unat ck + 9 - 65536" using g u by (subst le_mod_geq) simp_all
    finally show ?thesis using True g c by (simp add: icmp_adjust_chksum_def)
  next
    case False
    then have g: "unat ck \<le> 65527" by (simp add: word_less_nat_alt not_less)
    have "ck + 8 = of_nat (unat ck + 8)" by simp
    then have "unat (ck + 8) = (unat ck + 8) mod 65536" by (simp only: unat_of_nat) (simp add: take_bit_eq_mod)
    also have "\<dots> = unat ck + 8" using g by simp
    finally show ?thesis using False c by (simp add: icmp_adjust_chksum_def)
  qed
qed

definition echo_msg :: "u8 \<Rightarrow> u8 \<Rightarrow> u16 \<Rightarrow> u8 list \<Rightarrow> u8 list" where
  "echo_msg type code ck d = [type, code] @ u16_bytes ck @ d"

lemma length_echo_msg [simp]: "length (echo_msg type code ck d) = length d + 4"
  by (simp add: echo_msg_def)

lemma lesum_echo_msg: "lesum (echo_msg type code ck d) = unat type + 256 * unat code + unat ck + lesum d"
  by (simp add: echo_msg_def lesum_append lesum_u16_bytes)

context chksum_routine
begin

lemma echo_reply_sum:
  assumes "length d + 4 < 65536" "inet_chksum LWIP_CHKSUM a (echo_msg ICMP_ECHO code ck d) = 0"
  shows "inet_chksum LWIP_CHKSUM a' (echo_msg ICMP_ER code (icmp_adjust_chksum ck) d) = 0"
proof -
  let ?S = "lesum (echo_msg ICMP_ECHO code ck d)" and ?T = "lesum (echo_msg ICMP_ER code (icmp_adjust_chksum ck) d)"
  have "65535 - oc ?S = 0" using assms unat_inet_chksum [of "echo_msg ICMP_ECHO code ck d" a] by simp
  then have oc: "oc ?S = 65535" using oc_le [of ?S] by simp
  have "?T = ?S \<or> ?S = ?T + 65535 \<and> 0 < ?T"
    using icmp_adjust [of ck] unfolding lesum_echo_msg by (auto simp: ICMP_ECHO_def ICMP_ER_def)
  then have "oc ?T = 65535" using oc oc_shift [of ?S ?T 1] by auto
  then have "unat (inet_chksum LWIP_CHKSUM a' (echo_msg ICMP_ER code (icmp_adjust_chksum ck) d)) = 0"
    using assms(1) by (simp add: unat_inet_chksum)
  then show ?thesis by (simp only: unsigned_eq_0_iff)
qed

end

section \<open>Stores to a received packet\<close>

definition put_at :: "nat \<Rightarrow> u8 list \<Rightarrow> u8 list \<Rightarrow> u8 list" where
  "put_at i bs d = take i d @ bs @ drop (i + length bs) d"

lemma mem_upd_at: "i + length bs \<le> n \<Longrightarrow> bytes_at (mem_upd bm (a + i) bs) a n = put_at i bs (bytes_at bm a n)"
  by (rule nth_equalityI) (auto simp: put_at_def mem_upd_def nth_append less_diff_conv2 not_less)

lemma rx_store:
  assumes r: "rx_packet m p xs d k" and i: "i + length bs \<le> k" and c: "clear_of (pbufs m) xs (payload (the (pbufs m p)) + i) (length bs)"
  shows "store_bytes (bytes m) (payload (the (pbufs m p)) + i) bs = Some (mem_upd (bytes m) (payload (the (pbufs m p)) + i) bs)"
    and "rx_packet (m\<lparr>bytes := mem_upd (bytes m) (payload (the (pbufs m p)) + i) bs\<rparr>) p xs (put_at i bs d) k"
proof -
  let ?pb = "the (pbufs m p)" and ?bm = "mem_upd (bytes m) (payload (the (pbufs m p)) + i) bs"
  have k: "i + length bs \<le> pb_len ?pb" using i rxD(7) [OF r] by simp
  have mp: "mapped (pbufs m) (bytes m) (p # xs)" and pk: "packet (pbufs m) p (p # xs)" using r by (simp_all only: rx_packet_def)
  have rm: "range_mapped (bytes m) (payload ?pb + i) (length bs)"
    using mp range_mapped_mono [of "bytes m" "payload ?pb" "pb_len ?pb" i "length bs"] k by simp
  then show "store_bytes (bytes m) (payload ?pb + i) bs = Some ?bm" by (simp add: mem_simps)
  have "mapped (pbufs m) ?bm (p # xs)" using mp rm by (simp add: mapped_def)
  moreover have "pdata (pbufs m) ?bm (p # xs) = put_at i bs d"
  proof -
    have "pdata (pbufs m) ?bm xs = pdata (pbufs m) (bytes m) xs" by (rule pdata_clear [OF c])
    then show ?thesis using r k mem_upd_at [OF k, of "bytes m" "payload ?pb"]
      by (auto simp: rx_packet_def put_at_def)
  qed
  ultimately show "rx_packet (m\<lparr>bytes := ?bm\<rparr>) p xs (put_at i bs d) k" using pk rxD(7) [OF r] by (simp add: rx_packet_def)
qed

text \<open>A header that was taken off is put back.\<close>

lemma strip_grow:
  assumes "rx_packet m p xs d k" "n \<le> k"
  shows "put_pbuf p (grow n (the (pbufs (strip n p m) p))) (strip n p m) = m"
proof -
  obtain pb where pb: "pbufs m p = Some pb" using rxD(3) [OF assms(1)] by blast
  then have "n \<le> pb_len pb" "pb_len pb \<le> tot_len pb" using rxD(4,6,7) [OF assms(1)] assms(2) by auto
  then have "grow n (pb\<lparr>payload := payload pb + n, pb_len := pb_len pb - n, tot_len := tot_len pb - n\<rparr>) = pb"
    by (simp add: grow_def)
  then show ?thesis using pb by (simp add: strip_def Let_def put_pbuf_def fun_upd_idem)
qed

text \<open>The headers that are taken off leave room for others.\<close>

definition head_room :: "pbuf_cfg \<Rightarrow> lwip_mem \<Rightarrow> addr \<Rightarrow> addr list \<Rightarrow> nat \<Rightarrow> nat \<Rightarrow> bool" where
  "head_room c m p xs j k \<longleftrightarrow>
     (let pb = the (pbufs m p) in
      type_internal pb AND PBUF_TYPE_FLAG_STRUCT_DATA_CONTIGUOUS \<noteq> 0 \<and> p + SIZEOF_STRUCT_PBUF c + j \<le> payload pb \<and>
      payload pb + k < 2 ^ 64 \<and> clear_of (pbufs m) xs (payload pb - j) (j + k) \<and> range_mapped (bytes m) (payload pb - j) j)"

lemma head_room_room:
  assumes "head_room c m p xs j k" "rx_packet m p xs d i" "length d + j < 65536"
  shows "room c m p xs j"
proof -
  obtain pb where pb: "pbufs m p = Some pb" using rxD(3) [OF assms(2)] by blast
  have "clear_of (pbufs m) xs (payload pb - j) j" using assms(1) pb unfolding head_room_def Let_def clear_of_def by fastforce
  then show ?thesis using assms pb rxD(4) [OF assms(2)] unfolding room_def head_room_def Let_def rx_packet_def by auto
qed

lemma head_room_strip:
  assumes h: "head_room c m p xs j k" and r: "rx_packet m p xs d i" and n: "n \<le> i" "n \<le> k"
  shows "head_room c (strip n p m) p xs (j + n) (k - n)"
proof -
  obtain pb where pb: "pbufs m p = Some pb" using rxD(3) [OF r] by blast
  have nx: "p \<notin> set xs" by (rule rxD(2) [OF r])
  have h': "type_internal pb AND PBUF_TYPE_FLAG_STRUCT_DATA_CONTIGUOUS \<noteq> 0" "p + SIZEOF_STRUCT_PBUF c + j \<le> payload pb"
    "payload pb + k < 2 ^ 64" "clear_of (pbufs m) xs (payload pb - j) (j + k)" "range_mapped (bytes m) (payload pb - j) j"
    using h pb by (simp_all add: head_room_def Let_def)
  have "range_mapped (bytes m) (payload pb) n"
    using r pb n rxD(7) [OF r] range_mapped_prefix [of "bytes m" "payload pb" "pb_len pb" n] by (auto simp: rx_packet_def)
  moreover have "payload pb - j + j = payload pb" using h'(2) by simp
  ultimately have "range_mapped (bytes m) (payload pb - j) (j + n)" using h'(5) by (simp add: range_mapped_add)
  moreover have "clear_of (pbufs (strip n p m)) xs (payload pb - j) (j + k)"
    using h'(4) nx pb unfolding clear_of_def by auto
  ultimately show ?thesis using h' n pb by (simp add: head_room_def Let_def)
qed

section \<open>The reply\<close>

lemma rx_bytes:
  assumes "rx_packet (m\<lparr>bytes := b\<rparr>) p xs d k" "i + length bs \<le> k" "k \<le> n" "clear_of (pbufs m) xs a n" "a = payload (the (pbufs m p))"
  shows "\<exists>b'. store_bytes b (a + i) bs = Some b' \<and> rx_packet (m\<lparr>bytes := b'\<rparr>) p xs (put_at i bs d) k"
proof -
  have "clear_of (pbufs m) xs (a + i) (length bs)" using assms(2-4) unfolding clear_of_def by fastforce
  then show ?thesis using rx_store [of "m\<lparr>bytes := b\<rparr>" p xs d k i bs] assms by simp
qed

text \<open>The stores of \<^verbatim>\<open>icmp_input\<close>, where the request follows the header at \<open>a\<close>.\<close>

definition reply_stores :: "(addr \<Rightarrow> u8 list \<Rightarrow> u16) \<Rightarrow> addr \<Rightarrow> ip4_addr \<Rightarrow> ip4_addr \<Rightarrow> byte_mem \<Rightarrow> byte_mem option" where
  "reply_stores f a src dest bm =
     do {
       bm \<leftarrow> store_bytes bm (a + 12) (ip4_bytes src);
       bm \<leftarrow> store_bytes bm (a + 16) (ip4_bytes dest);
       bm \<leftarrow> store_bytes bm (a + 20) [ICMP_ER];
       ch \<leftarrow> load_bytes bm (a + 22) 2;
       bm \<leftarrow> store_bytes bm (a + 22) (u16_bytes (icmp_adjust_chksum (load_u16 (ch ! 0) (ch ! 1))));
       bm \<leftarrow> store_bytes bm (a + 8) [ICMP_TTL];
       bm \<leftarrow> store_bytes bm (a + 10) (u16_bytes 0);
       hb \<leftarrow> load_bytes bm a 20;
       store_bytes bm (a + 10) (u16_bytes (inet_chksum f a hb))
     }"

lemma reply_stores_spec:
  assumes r: "rx_packet m p xs (ip4_hdr tos len ident off ttl proto hck src dest @ echo_msg type code ck d) 24"
    and a: "a = payload (the (pbufs m p))" and c: "clear_of (pbufs m) xs a 24"
  defines "h0 \<equiv> ip4_hdr tos len ident off ICMP_TTL proto 0 dest src"
  shows "\<exists>b. reply_stores f a dest src (bytes m) = Some b \<and>
    rx_packet (m\<lparr>bytes := b\<rparr>) p xs (ip4_hdr tos len ident off ICMP_TTL proto (inet_chksum f a h0) dest src @
      echo_msg ICMP_ER code (icmp_adjust_chksum ck) d) 24"
proof -
  note st = rx_bytes [OF _ _ order_refl c a]
  have r0: "rx_packet (m\<lparr>bytes := bytes m\<rparr>) p xs (ip4_hdr tos len ident off ttl proto hck src dest @ echo_msg type code ck d) 24"
    using r by simp
  obtain b1 where b1: "store_bytes (bytes m) (a + 12) (ip4_bytes dest) = Some b1"
    "rx_packet (m\<lparr>bytes := b1\<rparr>) p xs (ip4_hdr tos len ident off ttl proto hck dest dest @ echo_msg type code ck d) 24"
    using st [OF r0, of 12 "ip4_bytes dest"] by (auto simp: put_at_def ip4_hdr_def)
  obtain b2 where b2: "store_bytes b1 (a + 16) (ip4_bytes src) = Some b2"
    "rx_packet (m\<lparr>bytes := b2\<rparr>) p xs (ip4_hdr tos len ident off ttl proto hck dest src @ echo_msg type code ck d) 24"
    using st [OF b1(2), of 16 "ip4_bytes src"] by (auto simp: put_at_def ip4_hdr_def)
  obtain b3 where b3: "store_bytes b2 (a + 20) [ICMP_ER] = Some b3"
    "rx_packet (m\<lparr>bytes := b3\<rparr>) p xs (ip4_hdr tos len ident off ttl proto hck dest src @ echo_msg ICMP_ER code ck d) 24"
    using st [OF b2(2), of 20 "[ICMP_ER]"] by (auto simp: put_at_def echo_msg_def)
  have l3: "load_bytes b3 (a + 22) 2 = Some (u16_bytes ck)"
    using rx_load [OF b3(2), of 22 2] a by (simp add: echo_msg_def)
  obtain b4 where b4: "store_bytes b3 (a + 22) (u16_bytes (icmp_adjust_chksum ck)) = Some b4"
    "rx_packet (m\<lparr>bytes := b4\<rparr>) p xs (ip4_hdr tos len ident off ttl proto hck dest src @ echo_msg ICMP_ER code (icmp_adjust_chksum ck) d) 24"
    using st [OF b3(2), of 22 "u16_bytes (icmp_adjust_chksum ck)"] by (auto simp: put_at_def echo_msg_def)
  let ?e = "echo_msg ICMP_ER code (icmp_adjust_chksum ck) d"
  obtain b5 where b5: "store_bytes b4 (a + 8) [ICMP_TTL] = Some b5"
    "rx_packet (m\<lparr>bytes := b5\<rparr>) p xs (ip4_hdr tos len ident off ICMP_TTL proto hck dest src @ ?e) 24"
    using st [OF b4(2), of 8 "[ICMP_TTL]"] by (auto simp: put_at_def ip4_hdr_def)
  obtain b6 where b6: "store_bytes b5 (a + 10) (u16_bytes 0) = Some b6" "rx_packet (m\<lparr>bytes := b6\<rparr>) p xs (h0 @ ?e) 24"
    using st [OF b5(2), of 10 "u16_bytes 0"] by (auto simp: put_at_def ip4_hdr_def h0_def)
  have l6: "load_bytes b6 a 20 = Some h0" using rx_load [OF b6(2), of 0 20] a by (simp add: h0_def)
  obtain b7 where b7: "store_bytes b6 (a + 10) (u16_bytes (inet_chksum f a h0)) = Some b7"
    "rx_packet (m\<lparr>bytes := b7\<rparr>) p xs (ip4_hdr tos len ident off ICMP_TTL proto (inet_chksum f a h0) dest src @ ?e) 24"
    using st [OF b6(2), of 10 "u16_bytes (inet_chksum f a h0)"] unfolding h0_def by (auto simp: put_at_def ip4_hdr_def)
  show ?thesis
    using b1 b2 b3(1) l3 b4(1) b5(1) b6(1) l6 b7 load_u16_bytes [of ck] by (intro exI [of _ b7]) (simp add: reply_stores_def del: store_bytes.simps)
qed

text \<open>The frame of a reply.\<close>

definition echo_reply_headers :: "(addr \<Rightarrow> u8 list \<Rightarrow> u16) \<Rightarrow> u8 \<Rightarrow> u16 \<Rightarrow> u16 \<Rightarrow> ip4_addr \<Rightarrow> ip4_addr \<Rightarrow> u8 list" where
  "echo_reply_headers f tos len ident src dest =
     ip4_hdr tos len ident 0 ICMP_TTL IP_PROTO_ICMP (inet_chksum f 0 (ip4_hdr tos len ident 0 ICMP_TTL IP_PROTO_ICMP 0 dest src)) dest src"

lemma length_echo_reply_headers [simp]: "length (echo_reply_headers f tos len ident src dest) = 20"
  by (simp add: echo_reply_headers_def)

lemma hdrincl_output:
  assumes ok: "table_ok (acfg c) (arp s)" and r: "rx_packet (smem s) p xs (ip4_hdr tos len ident off ttl proto chk src dest @ d) k" "20 \<le> k"
    and rm: "room (spcfg c) (smem s) p xs 14" and rf: "pb_ref (the (pbufs (smem s) p)) = 1"
    and n: "ether_ready s nif n hw" and ld: "link_dest (acfg c) nif dest (arp s) dst" and fit: "mtu n = 0 \<or> length d + 20 \<le> mtu n"
    and fr: "fr = eth_header dst hw ETHTYPE_IP @ ip4_hdr tos len ident off ttl proto chk src dest @ d"
  shows "\<exists>i<ARP_TABLE_SIZE (acfg c). ip4_output_if c p a None ttl' tos' proto' nif s =
    Some (linkoutput (ncfg (acfg c)) nif fr, frame_out nif p (eth_header dst hw ETHTYPE_IP) fr i s)"
proof -
  obtain pb where pb: "pbufs (smem s) p = Some pb" using rxD(3) [OF r(1)] by blast
  have l: "tot_len pb = length d + 20" "20 \<le> pb_len pb" using rxD(4,7) [OF r(1)] r(2) pb by auto
  have "load_at 16 4 p s = Some (ip4_bytes dest)"
    using load_at_rx [OF r(1), of 16 4] r(2) by (simp add: ip4_hdr_def)
  then have put: "ip4_put_hdr c p a None ttl' tos' proto' s = Some (Inr dest, s)"
    using pb l by (simp add: ip4_put_hdr_def IP_HLEN_def)
  have nif: "netif_at (snet s) nif = Some n" using n by (simp add: ether_ready_def)
  have "ip4_output_if c p a None ttl' tos' proto' nif s = netif_output c nif p dest s"
    using put pb rf l fit nif by (auto simp: ip4_output_if_def ip4_output_if_src_def lwip_assert_def)
  moreover have "pdata (pbufs (smem s)) (bytes (smem s)) (p # xs) = ip4_hdr tos len ident off ttl proto chk src dest @ d"
    using r(1) by (simp add: rx_packet_def)
  ultimately show ?thesis using netif_output_spec [OF ok rm n ld] fr by simp
qed

lemma store_keeps: "store_bytes b a bs = Some b' \<Longrightarrow> range_mapped b x n \<Longrightarrow> range_mapped b' x n"
proof (induction bs arbitrary: b a)
  case (Cons y ys)
  then show ?case by (auto simp: range_mapped_def split: option.splits if_splits Option.bind_splits)
qed simp

lemma reply_stores_keeps:
  assumes "reply_stores f a src dest b = Some b'" "range_mapped b x n"
  shows "range_mapped b' x n"
  using assms unfolding reply_stores_def
  by (auto simp: bind_eq_Some_conv simp del: store_bytes.simps load_bytes.simps dest!: store_keeps [where x = x and n = n])

lemma room_bytes:
  assumes "room c m p xs k" "rx_packet (m\<lparr>bytes := b\<rparr>) p xs d i" "range_mapped b (payload (the (pbufs m p)) - k) k"
  shows "room c (m\<lparr>bytes := b\<rparr>) p xs k"
  using assms by (auto simp: room_def rx_packet_def)

lemma echo_reply_shape:
  assumes pb: "pbufs m p = Some pb" and m: "smem s = strip 20 p m"
    and add: "pbuf_add_header (spcfg c) p 20 (strip 20 p m) = Some (0, m)"
  shows "icmp_echo_reply c p inp 20 dest s =
    do {
      b \<leftarrow> reply_stores (LWIP_CHKSUM c) (payload pb) dest (current_iphdr_src (ip_data s)) (bytes m);
      (_, s) \<leftarrow> ip4_output_if c p (Some dest) None ICMP_TTL 0 IP_PROTO_ICMP inp (put_smem (m\<lparr>bytes := b\<rparr>) s);
      Some s
    }"
proof -
  have a: "payload pb + 20 + 2 = payload pb + 22" by simp
  obtain pb' where "pbufs (strip 20 p m) p = Some pb'" "payload pb' = payload pb + 20" using pb by auto
  then show ?thesis
    using pb add unfolding icmp_echo_reply_def m reply_stores_def
    by (simp only: bind.bind_lunit Let_def case_prod_conv simp_thms if_False bind_assoc a)
qed

lemma held_prepend:
  "held c descs out sz xs (prepend h p m) = held c descs out sz xs m" "given_back out sz xs (prepend h p m) = given_back out sz xs m"
proof -
  have f: "pb_ref (the (pbufs (prepend h p m) x)) = pb_ref (the (pbufs m x)) \<and> type_internal (the (pbufs (prepend h p m) x)) = type_internal (the (pbufs m x)) \<and>
      std_pbuf (the (pbufs (prepend h p m) x)) = std_pbuf (the (pbufs m x))" for x
    by (simp add: prepend_def Let_def grow_def std_pbuf_def)
  have h: "heap (prepend h p m) = heap m" "pools (prepend h p m) = pools m" by (simp_all add: prepend_def Let_def)
  show "held c descs out sz xs (prepend h p m) = held c descs out sz xs m" by (rule held_cong(1)) (use f h in auto)
  show "given_back out sz xs (prepend h p m) = given_back out sz xs m" by (rule held_cong(2)) (use f h in auto)
qed

text \<open>A request that can be answered: it comes with room for the link header, and the way back is known.\<close>

definition can_reply :: "stack_cfg \<Rightarrow> stack \<Rightarrow> lwip_mem \<Rightarrow> addr \<Rightarrow> addr list \<Rightarrow> addr \<Rightarrow> netif \<Rightarrow> eth_addr \<Rightarrow> ip4_addr \<Rightarrow> eth_addr \<Rightarrow> nat \<Rightarrow> bool" where
  "can_reply c s m p xs inp n hw src dst len \<longleftrightarrow>
     table_ok (acfg c) (arp s) \<and> pb_ref (the (pbufs m p)) = 1 \<and> head_room (spcfg c) m p xs 14 24 \<and> len + 14 < 65536 \<and>
     ether_ready s inp n hw \<and> link_dest (acfg c) inp src (arp s) dst \<and> (mtu n = 0 \<or> len \<le> mtu n)"

lemma reply_stored:
  assumes f: "chksum_routine g"
    and r: "rx_packet m p xs (ip4_hdr tos len ident 0 ttl IP_PROTO_ICMP hck src dest @ echo_msg ICMP_ECHO code ck d) 24"
    and hr: "head_room c m p xs 14 24" and l: "length d + 38 < 65536"
  shows "\<exists>b. reply_stores g (payload (the (pbufs m p))) dest src (bytes m) = Some b \<and> room c (m\<lparr>bytes := b\<rparr>) p xs 14 \<and>
    rx_packet (m\<lparr>bytes := b\<rparr>) p xs (echo_reply_headers g tos len ident src dest @ echo_msg ICMP_ER code (icmp_adjust_chksum ck) d) 24"
proof -
  let ?a = "payload (the (pbufs m p))"
  have "clear_of (pbufs m) xs (?a - 14) (14 + 24)" "14 \<le> ?a" using hr unfolding head_room_def Let_def by auto
  then have cl: "clear_of (pbufs m) xs ?a 24" unfolding clear_of_def by fastforce
  obtain b where b: "reply_stores g ?a dest src (bytes m) = Some b"
    "rx_packet (m\<lparr>bytes := b\<rparr>) p xs (ip4_hdr tos len ident 0 ICMP_TTL IP_PROTO_ICMP
       (inet_chksum g ?a (ip4_hdr tos len ident 0 ICMP_TTL IP_PROTO_ICMP 0 dest src)) dest src @
       echo_msg ICMP_ER code (icmp_adjust_chksum ck) d) 24"
    using reply_stores_spec [OF r refl cl] by blast
  have "inet_chksum g ?a (ip4_hdr tos len ident 0 ICMP_TTL IP_PROTO_ICMP 0 dest src) =
      inet_chksum g 0 (ip4_hdr tos len ident 0 ICMP_TTL IP_PROTO_ICMP 0 dest src)"
    using chksum_routine.chksum_any_address [OF f, of "ip4_hdr tos len ident 0 ICMP_TTL IP_PROTO_ICMP 0 dest src" ?a 0]
    by (simp add: inet_chksum_def)
  then have b2: "rx_packet (m\<lparr>bytes := b\<rparr>) p xs (echo_reply_headers g tos len ident src dest @ echo_msg ICMP_ER code (icmp_adjust_chksum ck) d) 24"
    using b(2) unfolding echo_reply_headers_def by simp
  have rm: "room c m p xs 14" by (rule head_room_room [OF hr r]) (use l in simp)
  have "range_mapped b (?a - 14) 14" by (rule reply_stores_keeps [OF b(1) roomD(7) [OF rm]])
  then show ?thesis using b(1) b2 room_bytes [OF rm b2] by blast
qed

lemma echo_reply_spec:
  assumes f: "chksum_routine (LWIP_CHKSUM c)" and m: "smem s = strip 20 p m"
    and r: "rx_packet m p xs (ip4_hdr tos len ident 0 ttl IP_PROTO_ICMP hck src dest @ echo_msg ICMP_ECHO code ck d) 24"
    and cr: "can_reply c s m p xs inp n hw src dst (length d + 24)" and ip: "current_iphdr_src (ip_data s) = src"
    and fr: "fr = eth_header dst hw ETHTYPE_IP @ echo_reply_headers (LWIP_CHKSUM c) tos len ident src dest @
      echo_msg ICMP_ER code (icmp_adjust_chksum ck) d"
  shows "\<exists>b i. icmp_echo_reply c p inp 20 dest s = Some (frame_out inp p (eth_header dst hw ETHTYPE_IP) fr i (put_smem (m\<lparr>bytes := b\<rparr>) s)) \<and>
    room (spcfg c) (m\<lparr>bytes := b\<rparr>) p xs 14"
proof -
  have k: "table_ok (acfg c) (arp s)" "pb_ref (the (pbufs m p)) = 1" "head_room (spcfg c) m p xs 14 24" "length d + 38 < 65536"
    "ether_ready s inp n hw" "link_dest (acfg c) inp src (arp s) dst" "mtu n = 0 \<or> length d + 24 \<le> mtu n"
    using cr by (simp_all add: can_reply_def)
  obtain pb where pb: "pbufs m p = Some pb" using rxD(3) [OF r] by blast
  have hr: "head_room (spcfg c) (strip 20 p m) p xs (14 + 20) (24 - 20)" by (rule head_room_strip [OF k(3) r]) simp_all
  have rs: "rx_packet (strip 20 p m) p xs (echo_msg ICMP_ECHO code ck d) 4" using rx_strip [OF r, of 20] by simp
  have "room (spcfg c) (strip 20 p m) p xs (14 + 20)" by (rule head_room_room [OF hr rs]) (use k(4) in simp)
  then have add: "pbuf_add_header (spcfg c) p 20 (strip 20 p m) = Some (0, m)"
    using room_add_header [of "spcfg c" "strip 20 p m" p xs 34 20] strip_grow [OF r, of 20] by simp
  obtain b where b: "reply_stores (LWIP_CHKSUM c) (payload pb) dest src (bytes m) = Some b" "room (spcfg c) (m\<lparr>bytes := b\<rparr>) p xs 14"
    "rx_packet (m\<lparr>bytes := b\<rparr>) p xs (echo_reply_headers (LWIP_CHKSUM c) tos len ident src dest @ echo_msg ICMP_ER code (icmp_adjust_chksum ck) d) 24"
    using reply_stored [OF f r k(3,4)] pb by auto
  let ?s = "put_smem (m\<lparr>bytes := b\<rparr>) s"
  have t: "table_ok (acfg c) (arp ?s)" using k(1) by (simp add: put_smem_def put_mem_def table_ok_def)
  have n: "ether_ready ?s inp n hw" using k(5) by (simp add: ether_ready_def)
  have ld: "link_dest (acfg c) inp src (arp ?s) dst" using k(6) link_dest_cong [of "arp ?s" "arp s"]
    by (simp add: put_smem_def put_mem_def netif_at_def)
  have b3: "rx_packet (smem ?s) p xs (echo_reply_headers (LWIP_CHKSUM c) tos len ident src dest @ echo_msg ICMP_ER code (icmp_adjust_chksum ck) d) 24"
    using b(3) by simp
  have o: "room (spcfg c) (smem ?s) p xs 14" "pb_ref (the (pbufs (smem ?s) p)) = 1"
    "mtu n = 0 \<or> length (echo_msg ICMP_ER code (icmp_adjust_chksum ck) d) + 20 \<le> mtu n" using b(2) k(2,7) by (simp_all add: add.commute)
  obtain i where "ip4_output_if c p (Some dest) None ICMP_TTL 0 IP_PROTO_ICMP inp ?s =
      Some (linkoutput (ncfg (acfg c)) inp fr, frame_out inp p (eth_header dst hw ETHTYPE_IP) fr i ?s)"
    using hdrincl_output [OF t b3 [unfolded echo_reply_headers_def] _ o(1,2) n ld o(3) fr [unfolded echo_reply_headers_def],
        where a = "Some dest" and ttl' = ICMP_TTL and tos' = 0 and proto' = IP_PROTO_ICMP] by auto
  then show ?thesis using echo_reply_shape [OF pb m add] b(1,2) ip by auto
qed

lemma room_remove_header:
  assumes r: "room c m p xs k" and n: "0 < n" "n \<le> k"
  shows "pbuf_remove_header p n (put_pbuf p (grow n (the (pbufs m p))) m) = Some (0, m)"
proof -
  obtain pb where pb: "pbufs m p = Some pb" using r by (auto simp: room_def)
  have b: "pb_len pb \<le> tot_len pb" "tot_len pb + k < 65536" "k \<le> payload pb" "p \<noteq> 0"
    using roomD(1,3,6,8) [OF r] pb by simp_all
  then have "u16_of n = n" "u16_sub (pb_len pb + n) n = pb_len pb" "u16_sub (tot_len pb + n) n = tot_len pb"
    using n by (simp_all add: u16_of_id u16_sub_id)
  then show ?thesis using pb b n by (simp add: pbuf_remove_header_def grow_def put_pbuf_def fun_upd_idem)
qed

lemma reply_in_place:
  assumes "room (spcfg c) m p xs k" "0 < hlen" "hlen + PBUF_LINK (spcfg c) \<le> k"
  shows "icmp_reply_pbuf c p iphdr_in hlen m = Some (Some p, m)"
  using room_add_header [OF assms(1), of "hlen + PBUF_LINK_HLEN (spcfg c) + PBUF_LINK_ENCAPSULATION_HLEN (spcfg c)"]
    room_remove_header [OF assms(1), of "hlen + PBUF_LINK_HLEN (spcfg c) + PBUF_LINK_ENCAPSULATION_HLEN (spcfg c)"] assms(2,3)
  by (simp add: icmp_reply_pbuf_def Let_def lwip_assert_def PBUF_LINK_def)

lemma icmp_input_spec:
  assumes f: "chksum_routine (LWIP_CHKSUM c)" and m: "smem s = strip 20 p m"
    and r: "rx_packet m p xs (ip4_hdr tos len ident 0 ttl IP_PROTO_ICMP hck src dest @ echo_msg ICMP_ECHO code ck d) 24"
    and cr: "can_reply c s m p xs inp n hw src dst (length d + 24)" and g: "ip_data s = in_progress nif inp (payload (the (pbufs m p))) src dest"
    and i: "netif_at (snet s) nif = Some i" "\<not> ip4_addr_isbroadcast_u32 dest i" "\<not> ip4_addr_ismulticast dest"
    and d: "4 \<le> length d" "inet_chksum (LWIP_CHKSUM c) 0 (echo_msg ICMP_ECHO code ck d) = 0" and lk: "PBUF_LINK (spcfg c) \<le> 14"
    and fr: "fr = eth_header dst hw ETHTYPE_IP @ echo_reply_headers (LWIP_CHKSUM c) tos len ident src dest @
      echo_msg ICMP_ER code (icmp_adjust_chksum ck) d"
  shows "\<exists>b j. icmp_input c p inp s = s_free c p (frame_out inp p (eth_header dst hw ETHTYPE_IP) fr j (put_smem (m\<lparr>bytes := b\<rparr>) s)) \<and>
    room (spcfg c) (m\<lparr>bytes := b\<rparr>) p xs 14"
proof -
  let ?ms = "strip 20 p m" and ?e = "echo_msg ICMP_ECHO code ck d"
  have k: "head_room (spcfg c) m p xs 14 24" "length d + 38 < 65536" using cr by (simp_all add: can_reply_def)
  have rs: "rx_packet (smem s) p xs ?e 4" unfolding m using rx_strip [OF r, of 20] by simp
  have hr: "head_room (spcfg c) ?ms p xs (14 + 20) (24 - 20)" by (rule head_room_strip [OF k(1) r]) simp_all
  have rm: "room (spcfg c) (smem s) p xs (14 + 20)" unfolding m by (rule head_room_room [OF hr rs [unfolded m]]) (use k(2) in simp)
  have pl: "icmp_reply_pbuf c p a 20 (smem s) = Some (Some p, smem s)" for a by (rule reply_in_place [OF rm]) (use lk in simp_all)
  obtain pb where pb: "pbufs (smem s) p = Some pb" using rxD(3) [OF rs] by blast
  have b: "4 \<le> pb_len pb" "tot_len pb = length d + 4" using rxD(4,7) [OF rs] pb by simp_all
  have "load_bytes (bytes (smem s)) (payload (the (pbufs m p))) 1 = Some [0x45]"
    using rx_load [OF r, of 0 1] by (simp add: m ip4_hdr_def)
  then have v: "bytes (smem s) (payload (the (pbufs m p))) = Some 0x45" by (auto split: Option.bind_splits)
  have t: "load_at 0 1 p s = Some [ICMP_ECHO]" using load_at_rx [OF rs, of 0 1] by (simp add: echo_msg_def)
  have chk: "inet_chksum_pbuf (LWIP_CHKSUM c) (pbufs (smem s)) (bytes (smem s)) p = Some 0"
    using chksum_routine.inet_chksum_pbuf_sum [OF f, of "pbufs (smem s)" p "p # xs" "bytes (smem s)" 0] rs d(2) k(2) by (simp add: rx_packet_def packet_def)
  obtain b j where bj: "icmp_echo_reply c p inp 20 dest s = Some (frame_out inp p (eth_header dst hw ETHTYPE_IP) fr j (put_smem (m\<lparr>bytes := b\<rparr>) s))"
    "room (spcfg c) (m\<lparr>bytes := b\<rparr>) p xs 14"
    using echo_reply_spec [OF f m r cr _ fr] g by (auto simp: in_progress_def)
  have "icmp_echo c p inp a 20 s = s_free c p (frame_out inp p (eth_header dst hw ETHTYPE_IP) fr j (put_smem (m\<lparr>bytes := b\<rparr>) s))" for a
    using pb b g i d(1) chk pl bj(1) unfolding icmp_echo_def
    by (simp add: in_progress_def Let_def SIZEOF_ICMP_ECHO_HDR_def)
  then have "icmp_input c p inp s = s_free c p (frame_out inp p (eth_header dst hw ETHTYPE_IP) fr j (put_smem (m\<lparr>bytes := b\<rparr>) s))"
    using pb b g v t vhl_fields unfolding icmp_input_def
    by (simp add: in_progress_def Let_def IP_HLEN_def)
  then show ?thesis using bj(2) by blast
qed

lemma echo_reply_headers_out:
  assumes "chksum_routine g"
  shows "echo_reply_headers g tos len ident src dest = ip4_out_hdr tos len ident ICMP_TTL IP_PROTO_ICMP dest src"
  using chksum_routine.inline_chksum [OF assms, of ICMP_TTL IP_PROTO_ICMP tos len ident dest src 0]
  by (simp add: echo_reply_headers_def ip4_out_hdr_def)

lemma head_room_moved:
  assumes h: "head_room c m p xs 0 (j + k)" and r: "rx_packet m p xs d j" and s: "same_but p m m'"
    and a: "payload (the (pbufs m' p)) = payload (the (pbufs m p)) + j"
  shows "head_room c m' p xs j k"
proof -
  have nx: "p \<notin> set xs" by (rule rxD(2) [OF r])
  have "pbufs m' x = pbufs m x" if "x \<in> set xs" for x using that nx s by (auto simp: same_but_def)
  then have "clear_of (pbufs m') xs a n = clear_of (pbufs m) xs a n" for a n unfolding clear_of_def by auto
  moreover have "range_mapped (bytes m) (payload (the (pbufs m p))) j"
    using r range_mapped_prefix [of "bytes m" "payload (the (pbufs m p))" "pb_len (the (pbufs m p))" j] rxD(7) [OF r]
    by (auto simp: rx_packet_def)
  ultimately show ?thesis using h s a by (simp add: head_room_def Let_def same_but_def)
qed

text \<open>A ping in an Ethernet frame, the answer to it, and a stack that can answer: the sender is a resolved neighbour, and the
  packet has been received with room for its headers.\<close>

definition ping_frame :: "eth_addr \<Rightarrow> eth_addr \<Rightarrow> u8 \<Rightarrow> u16 \<Rightarrow> u8 \<Rightarrow> u16 \<Rightarrow> ip4_addr \<Rightarrow> ip4_addr \<Rightarrow> u8 list \<Rightarrow> u8 list" where
  "ping_frame to from tos ident ttl ick src dest e =
     eth_header to from ETHTYPE_IP @ ip4_hdr tos (of_nat (length e + 20)) ident 0 ttl IP_PROTO_ICMP ick src dest @ e"

definition answers :: "stack_cfg \<Rightarrow> stack \<Rightarrow> addr \<Rightarrow> addr list \<Rightarrow> addr \<Rightarrow> netif \<Rightarrow> eth_addr \<Rightarrow> ip4_addr \<Rightarrow> eth_addr \<Rightarrow> nat \<Rightarrow> bool" where
  "answers c s p xs inp n hw src dst len \<longleftrightarrow>
     table_ok (acfg c) (arp s) \<and> pb_ref (the (pbufs (smem s) p)) = 1 \<and> head_room (spcfg c) (smem s) p xs 0 38 \<and> PBUF_LINK (spcfg c) \<le> 14 \<and>
     len + 34 < 65536 \<and> ether_ready s inp n hw \<and> link_dest (acfg c) inp src (arp s) dst \<and> (mtu n = 0 \<or> len + 20 \<le> mtu n)"

lemma frame_to_icmp:
  assumes f: "chksum_routine (LWIP_CHKSUM c)" and e: "e = echo_msg ICMP_ECHO code ck d"
    and r: "rx_packet (smem s) p xs (ping_frame to from tos ident ttl ick src dest e @ pad) 38" and mc: "may_cut (smem s) p xs pad"
    and l: "length e + 34 < 65536"
    and sum: "inet_chksum (LWIP_CHKSUM c) 0 (ip4_hdr tos (of_nat (length e + 20)) ident 0 ttl IP_PROTO_ICMP ick src dest) = 0"
    and t: "takes s inp src dest nif"
  shows "\<exists>m. ethernet_input c p inp s =
      do {
        s \<leftarrow> icmp_input c p inp ((put_smem (strip 20 p m) s)\<lparr>ip_data := in_progress nif inp (payload (the (pbufs m p))) src dest\<rparr>);
        Some (ERR_OK, s\<lparr>ip_data := no_packet\<rparr>)
      } \<and> rx_packet m p xs (ip4_hdr tos (of_nat (length e + 20)) ident 0 ttl IP_PROTO_ICMP ick src dest @ e) 24 \<and> same_but p (smem s) m \<and>
      payload (the (pbufs m p)) = payload (the (pbufs (smem s) p)) + 14"
proof -
  let ?h = "ip4_hdr tos (of_nat (length e + 20)) ident 0 ttl IP_PROTO_ICMP ick src dest"
  let ?g = "(ip_data s)\<lparr>current_iphdr_dest := dest, current_iphdr_src := src\<rparr>"
  have r': "rx_packet (smem s) p xs (eth_header to from ETHTYPE_IP @ (?h @ e) @ pad) 38" using r by (simp add: ping_frame_def)
  obtain m where m: "ethernet_input c p inp s = do {
      s \<leftarrow> ip4_deliver c p inp nif (payload (the (pbufs m p))) 20 ((put_smem m s)\<lparr>ip_data := ?g\<rparr>); Some (ERR_OK, s) }"
    "rx_packet m p xs (?h @ e) 24" "same_but p (smem s) m" "payload (the (pbufs m p)) = payload (the (pbufs (smem s) p)) + 14"
    using frame_to_deliver [OF f r' _ _ mc _ refl sum t] l e by auto
  let ?s2 = "(put_smem m s)\<lparr>ip_data := ?g\<rparr>" and ?a = "payload (the (pbufs m p))"
  have "takes_proto IP_PROTO_ICMP icmp_input" by (simp add: takes_proto_def)
  then have "ip4_deliver c p inp nif ?a 20 ?s2 = do {
      s \<leftarrow> icmp_input c p inp ((put_smem (strip 20 p m) s)\<lparr>ip_data := in_progress nif inp ?a src dest\<rparr>); Some (s\<lparr>ip_data := no_packet\<rparr>) }"
    using deliver_proto [of ?s2 p xs ?h e ?a, OF _ _ refl, of icmp_input c inp nif] rx_weaken [OF m(2), of 20]
    by (simp add: put_smem_def put_mem_def)
  then show ?thesis using m by (intro exI [of _ m]) (simp add: bind_assoc)
qed

lemma freed_after_frame:
  assumes r: "room (spcfg c) (m\<lparr>bytes := b\<rparr>) p xs 14" and sb: "same_but p m0 m" and hd: "held c descs out sz (p # xs) m0"
    and h: "length h = 14" and t: "t = frame_out inp p h fr j (put_smem (m\<lparr>bytes := b\<rparr>) s)"
  shows "\<exists>m'. s_free c p t = Some (put_smem m' t) \<and> mem_ok (spcfg c) descs m' (given_back out sz (p # xs) m0)"
proof -
  have st: "smem t = prepend h p (m\<lparr>bytes := b\<rparr>)" by (simp add: t frame_out_def)
  have "chain (pbufs (smem t)) p (p # xs)" unfolding st using roomD(9) [OF room_prepend [OF r, of h]] h by (simp add: packet_def)
  moreover have "held c descs out sz (p # xs) (smem t) = held c descs out sz (p # xs) m0"
    "given_back out sz (p # xs) (smem t) = given_back out sz (p # xs) m0"
    unfolding st held_prepend held_same_but [OF sb, symmetric] by (rule held_cong; simp)+
  ultimately show ?thesis using s_free_held [of c descs out sz p xs t] hd by auto
qed

lemma ping_spec:
  assumes f: "chksum_routine (LWIP_CHKSUM c)" and e: "e = echo_msg ICMP_ECHO code ck d" "4 \<le> length d"
    and r: "rx_packet (smem s) p xs (ping_frame to from tos ident ttl ick src dest e @ pad) 38" and mc: "may_cut (smem s) p xs pad"
    and sum: "inet_chksum (LWIP_CHKSUM c) 0 (ip4_hdr tos (of_nat (length e + 20)) ident 0 ttl IP_PROTO_ICMP ick src dest) = 0"
      "inet_chksum (LWIP_CHKSUM c) 0 e = 0"
    and t: "takes s inp src dest nif"
    and i: "netif_at (snet s) nif = Some i" "\<not> ip4_addr_isbroadcast_u32 dest i" "\<not> ip4_addr_ismulticast dest"
    and an: "answers c s p xs inp n hw src dst (length e)" and hd: "held c descs out sz (p # xs) (smem s)"
    and re: "e' = echo_msg ICMP_ER code (icmp_adjust_chksum ck) d"
    and fr: "fr = eth_header dst hw ETHTYPE_IP @ ip4_out_hdr tos (of_nat (length e + 20)) ident ICMP_TTL IP_PROTO_ICMP dest src @ e'"
  shows "\<exists>s'. ethernet_input c p inp s = Some (ERR_OK, s') \<and> sent (snet s') = sent (snet s) @ [(inp, fr)] \<and> udp s' = udp s \<and>
    ip_data s' = no_packet \<and> mem_ok (spcfg c) descs (smem s') (given_back out sz (p # xs) (smem s))"
    "inet_chksum (LWIP_CHKSUM c) 0 e' = 0"
proof -
  have k: "table_ok (acfg c) (arp s)" "pb_ref (the (pbufs (smem s) p)) = 1" "head_room (spcfg c) (smem s) p xs 0 (14 + 24)"
    "PBUF_LINK (spcfg c) \<le> 14" "length e + 34 < 65536" "ether_ready s inp n hw" "link_dest (acfg c) inp src (arp s) dst"
    "mtu n = 0 \<or> length d + 24 \<le> mtu n"
    using an e(1) by (auto simp: answers_def add.commute)
  obtain m where m: "ethernet_input c p inp s =
      do {
        s \<leftarrow> icmp_input c p inp ((put_smem (strip 20 p m) s)\<lparr>ip_data := in_progress nif inp (payload (the (pbufs m p))) src dest\<rparr>);
        Some (ERR_OK, s\<lparr>ip_data := no_packet\<rparr>)
      }" "rx_packet m p xs (ip4_hdr tos (of_nat (length e + 20)) ident 0 ttl IP_PROTO_ICMP ick src dest @ e) 24" "same_but p (smem s) m"
    "payload (the (pbufs m p)) = payload (the (pbufs (smem s) p)) + 14"
    using frame_to_icmp [OF f e(1) r mc k(5) sum(1) t] by blast
  let ?s = "(put_smem (strip 20 p m) s)\<lparr>ip_data := in_progress nif inp (payload (the (pbufs m p))) src dest\<rparr>" and ?h = "eth_header dst hw ETHTYPE_IP"
  have "head_room (spcfg c) m p xs 14 24" by (rule head_room_moved [OF k(3) rx_weaken [OF r] m(3,4)]) simp
  moreover have "table_ok (acfg c) (arp ?s)" using k(1) by (simp add: put_smem_def put_mem_def table_ok_def)
  moreover have "link_dest (acfg c) inp src (arp ?s) dst" using k(7) link_dest_cong [of "arp ?s" "arp s"]
    by (simp add: put_smem_def put_mem_def netif_at_def)
  moreover have "ether_ready ?s inp n hw" "pb_ref (the (pbufs m p)) = 1" using k(2,6) m(3) by (simp_all add: ether_ready_def same_but_def)
  ultimately have cr: "can_reply c ?s m p xs inp n hw src dst (length d + 24)" using k(5,8) e(1) by (simp add: can_reply_def)
  have s: "smem ?s = strip 20 p m" "ip_data ?s = in_progress nif inp (payload (the (pbufs m p))) src dest"
    "netif_at (snet ?s) nif = Some i" using i by simp_all
  have fr': "fr = ?h @ echo_reply_headers (LWIP_CHKSUM c) tos (of_nat (length e + 20)) ident src dest @ echo_msg ICMP_ER code (icmp_adjust_chksum ck) d"
    unfolding fr re echo_reply_headers_out [OF f] ..
  obtain b j where bj: "icmp_input c p inp ?s = s_free c p (frame_out inp p ?h fr j (put_smem (m\<lparr>bytes := b\<rparr>) ?s))"
    "room (spcfg c) (m\<lparr>bytes := b\<rparr>) p xs 14"
    using icmp_input_spec [OF f s(1) m(2) [unfolded e(1)] cr s(2,3) i(2,3) e(2) sum(2) [unfolded e(1)] k(4) fr' [unfolded e(1)]] by blast
  let ?t = "frame_out inp p ?h fr j (put_smem (m\<lparr>bytes := b\<rparr>) ?s)"
  obtain m' where "s_free c p ?t = Some (put_smem m' ?t)" "mem_ok (spcfg c) descs m' (given_back out sz (p # xs) (smem s))"
    using freed_after_frame [OF bj(2) m(3) hd, of ?h ?t inp fr j ?s] by auto
  then show "\<exists>s'. ethernet_input c p inp s = Some (ERR_OK, s') \<and> sent (snet s') = sent (snet s) @ [(inp, fr)] \<and> udp s' = udp s \<and>
    ip_data s' = no_packet \<and> mem_ok (spcfg c) descs (smem s') (given_back out sz (p # xs) (smem s))"
    using m(1) bj(1) by (simp add: frame_out_def put_smem_def put_mem_def)
  show "inet_chksum (LWIP_CHKSUM c) 0 e' = 0"
    unfolding re by (rule chksum_routine.echo_reply_sum [OF f, of d 0 code ck]) (use e k(5) sum(2) in auto)
qed

end
