(* ===== verification/Stack_Props.thy ===== *)
theory Stack_Props
  imports Icmp_Echo Etharp_Props
begin

text \<open>
  The properties of the IP, UDP and ICMP components, and two hosts on which they are applied: a sender with the address 192.168.0.1, and a
  receiver with the address 192.168.0.7 that listens on port 7400.
\<close>

section \<open>Two hosts\<close>

definition demo_scfg :: stack_cfg where
  "demo_scfg = \<lparr>acfg = demo_acfg, LWIP_CHKSUM = lwip_standard_chksum2, recv_fn = (\<lambda>f arg pcb p a port s. Some s)\<rparr>"

definition demo_pcb :: udp_pcb where
  "demo_pcb = zero_pcb\<lparr>local_port := 7400, udp_ttl := UDP_TTL, recv := 1\<rparr>"

definition demo_udp :: udp_state where
  "demo_udp = \<lparr>udp_pcb_at = [16 \<mapsto> demo_pcb], udp_pcbs = 16, udp_port = 0xc000\<rparr>"

definition demo_tx_mem :: lwip_mem where
  "demo_tx_mem = demo_mem\<lparr>bytes := mem_upd (\<lambda>_. Some 0) 80 [1, 2, 3, 4],
     pbufs := [8 \<mapsto> \<lparr>pb_next = 0, payload = 80, tot_len = 4, pb_len = 4, type_internal = 0x82, pb_flags = 0, pb_ref = 1, if_idx = 0\<rparr>]\<rparr>"

definition demo_tx :: stack where
  "demo_tx = \<lparr>arp = \<lparr>net = demo_net\<lparr>stack_mem := demo_tx_mem\<rparr>,
     arp_table = [(demo_entry demo_peer 5 ETHARP_STATE_STABLE)\<lparr>arp_eth := demo_peer_eth\<rparr>, empty_entry], etharp_cached_entry = 1\<rparr>,
     ip_id = 3, udp = demo_udp, ip_data = no_packet\<rparr>"

definition demo_frame :: "u8 list" where
  "demo_frame = udp_headers demo_scfg demo_pcb demo_peer_eth (Eth_Addr 2 0 0 0 0 1) 3 (IP4_ADDR 192 168 0 1) demo_peer 7400 [1, 2, 3, 4] @
     [1, 2, 3, 4]"

text \<open>The receiver has the frame in a buffer of the pool, padded to 60 bytes.\<close>

definition demo_pad :: "u8 list" where
  "demo_pad = replicate 14 0"

definition demo_rx_mem :: "u8 list \<Rightarrow> lwip_mem" where
  "demo_rx_mem fr = demo_mem\<lparr>bytes := mem_upd (\<lambda>_. Some 0) 8216 fr,
     pbufs := [8192 \<mapsto> \<lparr>pb_next = 0, payload = 8216, tot_len = length fr, pb_len = length fr, type_internal = 0x82, pb_flags = 0, pb_ref = 1,
       if_idx = 0\<rparr>]\<rparr>"

definition demo_rx_nif :: netif where
  "demo_rx_nif = demo_nif\<lparr>ip_addr := demo_peer, hwaddr := [2, 0, 0, 0, 0, 7]\<rparr>"

definition demo_rx :: "u8 list \<Rightarrow> stack" where
  "demo_rx fr = \<lparr>arp = \<lparr>net = demo_net\<lparr>stack_mem := demo_rx_mem fr, netifs := [100 \<mapsto> demo_rx_nif]\<rparr>,
     arp_table = [empty_entry, empty_entry], etharp_cached_entry = 0\<rparr>, ip_id = 0, udp = demo_udp, ip_data = no_packet\<rparr>"

lemma demo_routine: "chksum_routine (LWIP_CHKSUM demo_scfg)"
  by (simp add: demo_scfg_def v2.chksum_routine_axioms)

lemma demo_scfg_simps [simp]: "acfg demo_scfg = demo_acfg" "ncfg demo_acfg = \<lparr>pcfg = demo_pcfg, linkoutput = (\<lambda>_ _. ERR_OK)\<rparr>"
  "ARP_TABLE_SIZE demo_acfg = 2"
  by (simp_all add: demo_scfg_def demo_acfg_def)

lemma demo_tx_nets [simp]: "smem demo_tx = demo_tx_mem" "snet demo_tx = demo_net\<lparr>stack_mem := demo_tx_mem\<rparr>" "udp demo_tx = demo_udp"
  "ip_id demo_tx = 3" "netif_at (demo_net\<lparr>stack_mem := m\<rparr>) 100 = Some demo_nif"
  by (simp_all add: demo_tx_def netif_at_def demo_net_def)

lemma demo_table_ok: "table_ok demo_acfg (arp demo_tx)"
proof -
  have "entry_ok demo_acfg ((demo_entry demo_peer 5 ETHARP_STATE_STABLE)\<lparr>arp_eth := demo_peer_eth\<rparr>)"
    using demo_entry_ok [of ETHARP_STATE_STABLE 5 demo_peer] by (simp add: entry_ok_def)
  moreover have "entry_ok demo_acfg empty_entry" by (simp add: entry_ok_def empty_entry_def)
  ultimately have "\<forall>i<2. entry_ok demo_acfg (arp_table (arp demo_tx) ! i)" by (auto simp: less_2_cases_iff demo_tx_def)
  moreover have "distinct_keys (arp_table (arp demo_tx))" unfolding demo_tx_def
    by (simp, rule distinct_keys_two) (simp add: empty_entry_def)
  ultimately show ?thesis using demo_acfg_ok by (simp add: table_ok_def demo_tx_def demo_acfg_def)
qed

lemma demo_room: "room demo_pcfg demo_tx_mem 8 [] 42"
  by (simp add: room_def demo_tx_mem_def packet_def mapped_def range_mapped_def mem_upd_def demo_sizes PBUF_TYPE_FLAG_STRUCT_DATA_CONTIGUOUS_def)

lemma demo_link: "link_dest demo_acfg 100 demo_peer (arp demo_tx) demo_peer_eth"
proof -
  have "ip4_addr_netcmp demo_peer (ip_addr demo_nif) (netmask demo_nif)" by code_simp
  then have "next_hop demo_nif demo_peer = demo_peer" "\<not> outside_net demo_nif demo_peer" by (simp_all add: next_hop_def outside_net_def)
  then show ?thesis using demo_peer_unicast
    by (simp add: link_dest_def) (simp add: demo_tx_def stable_match_def fresh_entry_def demo_entry_def ARP_AGE_REREQUEST_USED_UNICAST_def demo_acfg_def)
qed

lemma demo_can_send: "can_send demo_scfg demo_tx 8 [] 100 demo_nif (Eth_Addr 2 0 0 0 0 1) demo_peer demo_peer_eth [1, 2, 3, 4]"
proof -
  have "pdata (pbufs demo_tx_mem) (bytes demo_tx_mem) [8] = [1, 2, 3, 4]"
    by (simp add: demo_tx_mem_def bytes_at_def mem_upd_def upt_rec)
  moreover have "pb_ref (the (pbufs demo_tx_mem 8)) = 1" by (simp add: demo_tx_mem_def)
  ultimately show ?thesis using demo_table_ok demo_room demo_link
    by (simp add: can_send_def ether_ready_def demo_nif_def)
qed

lemma demo_source: "source_addr demo_pcb demo_nif = IP4_ADDR 192 168 0 1"
  by (simp add: source_addr_def demo_pcb_def zero_pcb_def ip4_addr_isany_val_def IPADDR_ANY_def demo_nif_def)

lemma demo_route: "send_netif demo_pcb demo_peer (demo_net\<lparr>stack_mem := m\<rparr>) = Some 100"
proof -
  have "netif_is_up demo_nif" "netif_is_link_up demo_nif" "\<not> ip4_addr_isany_val (ip_addr demo_nif)"
    "ip4_addr_netcmp demo_peer (ip_addr demo_nif) (netmask demo_nif)" by code_simp+
  then show ?thesis by (simp add: send_netif_def demo_pcb_def zero_pcb_def NETIF_NO_INDEX_def ip4_route_def demo_net_def)
qed

lemma demo_rx_packet: "42 \<le> length fr \<Longrightarrow> length fr < 65536 \<Longrightarrow> rx_packet (smem (demo_rx fr)) 8192 [] fr 42"
  using bytes_at_mem_upd_same [of "\<lambda>_. Some 0" 8216 fr]
  by (simp add: demo_rx_def demo_rx_mem_def rx_packet_def packet_def mapped_def range_mapped_def mem_upd_def)

lemma length_demo_frame [simp]: "length demo_frame = 46"
  by (simp add: demo_frame_def udp_headers_def)

lemma demo_takes: "takes (demo_rx fr) 100 (IP4_ADDR 192 168 0 1) demo_peer 100"
proof -
  have "netif_flags demo_rx_nif AND NETIF_FLAG_ETHARP \<noteq> 0" "\<not> ip4_addr_isbroadcast_u32 (IP4_ADDR 192 168 0 1) demo_rx_nif"
    "\<not> ip4_addr_ismulticast (IP4_ADDR 192 168 0 1)" "ip4_input_accept demo_rx_nif demo_peer" by code_simp+
  then show ?thesis using demo_peer_unicast
    by (simp add: takes_def demo_rx_def netif_at_def ip4_input_netif_def)
qed

lemma demo_listens: "listens (demo_rx fr) (rx_key (demo_rx fr) 100 100 (IP4_ADDR 192 168 0 1) demo_peer 7400 7400) [16] 16"
proof -
  let ?k = "rx_key (demo_rx fr) 100 100 (IP4_ADDR 192 168 0 1) demo_peer 7400 7400"
  have "\<not> ip4_addr_isbroadcast_u32 demo_peer demo_rx_nif" by code_simp
  then have "uncon_match ?k demo_pcb" "\<not> full_match ?k demo_pcb" "\<not> all_hosts ?k"
    by (simp_all add: uncon_match_def full_match_def all_hosts_def local_match_def rx_key_def udp_input_local_match_def demo_pcb_def zero_pcb_def
      NETIF_NO_INDEX_def ip4_addr_isany_val_def IPADDR_ANY_def UDP_FLAGS_CONNECTED_def demo_rx_def netif_at_def)
  then have "udp_choice ?k (udp_pcb_at demo_udp) [16] = 16" by (simp add: udp_choice_def best_uncon_def demo_udp_def)
  moreover have "udp_next demo_pcb = 0" "recv demo_pcb = 1" by (simp_all add: demo_pcb_def zero_pcb_def)
  ultimately show ?thesis by (simp add: listens_def demo_rx_def) (simp add: demo_udp_def)
qed

lemma demo_held: "held demo_scfg demo_descs demo_out (\<lambda>_. 88) [8192] (smem (demo_rx fr))"
proof -
  have "mem_ok demo_pcfg demo_descs (demo_rx_mem fr) demo_out" using demo_mem_ok by (simp add: mem_ok_def mem_rep_def demo_rx_mem_def)
  moreover have "owned (pbufs (demo_rx_mem fr)) (\<lambda>_. 88) demo_out [8192]"
    using demo_owned by (simp add: owned_def demo_rx_mem_def demo_mem_def demo_pbuf1_def std_pbuf_def pbuf_get_allocsrc_def)
  ultimately show ?thesis by (simp add: held_def demo_rx_def)
qed

lemma demo_given: "given_back out (\<lambda>_. 88) [8192] (smem (demo_rx fr)) = out - {(2, 8192, 88)}"
  by (simp add: given_back_def demo_rx_def demo_rx_mem_def unshared_def area_def pbuf_get_allocsrc_def PBUF_TYPE_ALLOC_SRC_MASK_def)

lemma demo_rx_sent: "sent (snet (demo_rx fr)) = []"
  by (simp add: demo_rx_def demo_net_def)

section \<open>Datagrams\<close>

text \<open>
  C1: A datagram is delivered.  When the hardware address of the next hop is known, \<^verbatim>\<open>udp_sendto\<close> hands one frame to the driver.  A
  second stack that has this frame, possibly padded, in a packet received on an interface that takes it calls the receive function
  of the control block that listens: once, with the source address and port of the sender, and with the data as the payload.
\<close>

theorem udp_datagram_delivered:
  assumes cs: "can_send c s p xs nif n hw dest dst d" and chk: "chksum_routine (LWIP_CHKSUM c)" "chksum_routine (LWIP_CHKSUM c')"
    and b: "udp_pcb_at (udp s) pcb = Some b" "pcb \<noteq> 0" "local_port b \<noteq> 0"
    and src: "ip4_addr_isany_val (local_ip b) \<or> ip4_addr_ismulticast (local_ip b) \<or> local_ip b = ip_addr n"
    and nif: "send_netif b dest (snet s) = Some nif"
    and fr: "fr = udp_headers c b dst hw (ip_id s) (source_addr b n) dest dport d @ d"
    and rx: "rx_packet (smem s') q ys (fr @ pad) 42" "may_cut (smem s') q ys pad"
    and t: "takes s' inp (source_addr b n) dest nif'"
    and ls: "listens s' (rx_key s' inp nif' (source_addr b n) dest (local_port b) dport) ps pcb'"
  shows "(\<exists>err s1. udp_sendto c pcb p (Some dest) dport s = Some (err, s1) \<and> sent (snet s1) = sent (snet s) @ [(nif, fr)]) \<and>
    (\<exists>m u iphdr. ethernet_input c' q inp s' =
      do {
        s1 \<leftarrow> recv_fn c' (recv (pcb_of (udp_pcb_at (udp s')) pcb')) (recv_arg (pcb_of (udp_pcb_at (udp s')) pcb')) pcb' q
          (source_addr b n) (local_port b) (called_with m u (in_progress nif' inp iphdr (source_addr b n) dest) s');
        Some (ERR_OK, s1\<lparr>ip_data := no_packet\<rparr>)
      } \<and> rx_packet m q ys d 0 \<and> same_but q (smem s') m \<and> same_pcbs (udp s') u)"
proof -
  have l: "length d + 28 < 65536" using roomD(5,8) [of "spcfg c" "smem s" p xs 42] cs by (auto simp: can_send_def)
  obtain i where "udp_sendto c pcb p (Some dest) dport s =
      Some (linkoutput (ncfg (acfg c)) nif fr, datagram_out nif p (udp_headers c b dst hw (ip_id s) (source_addr b n) dest dport d) d i s)"
    using udp_sendto_spec [OF cs chk(1) b src nif refl, of dport] fr by auto
  then show ?thesis using frame_received_spec [OF chk l rx(1) [unfolded fr] rx(2) t ls] fr
    by (simp add: datagram_out_def frame_out_def)
qed

theorem udp_datagram_delivered_witness:
  "(\<exists>err s1. udp_sendto demo_scfg 16 8 (Some demo_peer) 7400 demo_tx = Some (err, s1) \<and>
      sent (snet s1) = sent (snet demo_tx) @ [(100, demo_frame)]) \<and>
   (\<exists>m u iphdr. ethernet_input demo_scfg 8192 100 (demo_rx (demo_frame @ demo_pad)) =
      do {
        s1 \<leftarrow> recv_fn demo_scfg 1 0 16 8192 (IP4_ADDR 192 168 0 1) 7400
          (called_with m u (in_progress 100 100 iphdr (IP4_ADDR 192 168 0 1) demo_peer) (demo_rx (demo_frame @ demo_pad)));
        Some (ERR_OK, s1\<lparr>ip_data := no_packet\<rparr>)
      } \<and> rx_packet m 8192 [] [1, 2, 3, 4] 0)"
proof -
  have b: "udp_pcb_at (udp demo_tx) 16 = Some demo_pcb" "local_port demo_pcb = 7400"
    "pcb_of (udp_pcb_at (udp (demo_rx fr))) 16 = demo_pcb" "recv demo_pcb = 1" "recv_arg demo_pcb = 0" "ip4_addr_isany_val (local_ip demo_pcb)" for fr
    by (simp_all add: demo_udp_def demo_rx_def demo_pcb_def zero_pcb_def ip4_addr_isany_val_def IPADDR_ANY_def)
  have mc: "may_cut (smem (demo_rx (demo_frame @ demo_pad))) 8192 [] demo_pad"
    by (simp add: may_cut_def demo_rx_def demo_rx_mem_def no_heap_pbuf_def pbuf_match_allocsrc_def pbuf_get_allocsrc_def
        PBUF_TYPE_ALLOC_SRC_MASK_STD_HEAP_def PBUF_TYPE_ALLOC_SRC_MASK_def)
  have rx: "rx_packet (smem (demo_rx (demo_frame @ demo_pad))) 8192 [] (demo_frame @ demo_pad) 42"
    by (rule demo_rx_packet) (simp_all add: demo_pad_def)
  show ?thesis
    using udp_datagram_delivered [where fr = demo_frame and s' = "demo_rx (demo_frame @ demo_pad)" and q = 8192 and ys = "[]" and pad = demo_pad
        and inp = 100 and nif' = 100 and ps = "[16]" and pcb' = 16 and dport = 7400, OF demo_can_send demo_routine demo_routine b(1)] b demo_source demo_route demo_takes demo_listens mc rx
    by (auto simp: demo_frame_def)
qed

text \<open>
  C2: Every datagram goes to the right control block.  \<^verbatim>\<open>udp_input\<close> finds the first one that is connected to the sender, or else the first
  unconnected one that is bound to the destination, where a datagram to all hosts prefers one that is bound to the address of the
  interface; and it finds none only if there is none.  The search returns, the list keeps its members, and no other field changes.
\<close>

theorem udp_demux_correct:
  assumes "plist (udp_pcb_at u) (udp_pcbs u) xs"
  shows "\<exists>u' ys. udp_find k u = Some (udp_choice k (udp_pcb_at u) xs, u') \<and> plist (udp_pcb_at u') (udp_pcbs u') ys \<and>
    set ys = set xs \<and> same_pcbs u u'"
  using assms by (rule udp_find_spec)

theorem udp_demux_correct_witness:
  "\<exists>u' ys. udp_find (rx_key (demo_rx []) 100 100 (IP4_ADDR 192 168 0 1) demo_peer 7400 7400) demo_udp = Some (16, u') \<and>
    plist (udp_pcb_at u') (udp_pcbs u') ys \<and> set ys = {16}"
proof -
  let ?k = "rx_key (demo_rx []) 100 100 (IP4_ADDR 192 168 0 1) demo_peer 7400 7400"
  have u: "udp (demo_rx []) = demo_udp" by (simp add: demo_rx_def)
  have "plist (udp_pcb_at demo_udp) (udp_pcbs demo_udp) [16]" "udp_choice ?k (udp_pcb_at demo_udp) [16] = 16"
    using demo_listens [of "[]"] unfolding listens_def u by auto
  then show ?thesis using udp_demux_correct [of demo_udp "[16]" ?k] by auto
qed

lemma u16_bytes_load: "u16_bytes (load_u16 x y) = [x, y]"
proof -
  have "ucast (load_u16 x y) = x" "ucast (drop_bit 8 (load_u16 x y)) = y"
    by (rule bit_word_eqI, auto simp: load_u16_def bit_simps dest: bit_imp_le_length)+
  then show ?thesis by (simp add: u16_bytes_def)
qed

text \<open>Any eight bytes are a header.\<close>

lemma udp_hdr_any:
  assumes "8 \<le> length bs"
  shows "\<exists>a b l d. bs = udp_hdr a b l (load_u16 (bs ! 6) (bs ! 7)) @ d"
proof -
  obtain x0 x1 x2 x3 x4 x5 x6 x7 d where bs: "bs = [x0, x1, x2, x3, x4, x5, x6, x7] @ d"
    using assms by (auto simp: numeral_eq_Suc Suc_le_length_iff)
  have "bs = udp_hdr (lwip_htons (load_u16 x0 x1)) (lwip_htons (load_u16 x2 x3)) (lwip_htons (load_u16 x4 x5)) (load_u16 (bs ! 6) (bs ! 7)) @ d"
    by (simp add: bs udp_hdr_def htons_involutive u16_bytes_load)
  then show ?thesis by blast
qed

lemma changed_sum_bad:
  assumes g: "chksum_routine g" and ok: "udp_sum_ok g src dest chk dg" "chk \<noteq> 0" "chk' \<noteq> 0"
    and i: "i < length dg" "x \<noteq> dg ! i" and l: "length dg + 12 < 65536"
  shows "\<not> udp_sum_ok g src dest chk' (dg[i := x])"
proof -
  let ?p = "pseudo_header src dest IP_PROTO_UDP (of_nat (length dg))"
  have "inet_chksum g 0 ((?p @ dg)[12 + i := x]) \<noteq> inet_chksum g 0 (?p @ dg)"
    by (rule chksum_routine.chksum_detects_byte [OF g]) (use i l in \<open>simp_all add: nth_append\<close>)
  moreover have "(?p @ dg)[12 + i := x] = ?p @ dg[i := x]" by (simp add: list_update_append)
  ultimately show ?thesis using ok by (simp add: udp_sum_ok_def)
qed

text \<open>A datagram whose checksum does not verify is dropped, whether or not there is a control block for it.\<close>

lemma udp_input_drops:
  assumes f: "chksum_routine (LWIP_CHKSUM c)" and r: "rx_packet (smem s) p xs dg 8" and l: "length dg + 12 < 65536"
    and g: "ip_data s = in_progress nif inp iphdr src dest"
    and n: "netif_at (snet s) inp = Some i" "netif_at (snet s) nif \<noteq> None"
    and bad: "\<not> udp_sum_ok (LWIP_CHKSUM c) src dest (load_u16 (dg ! 6) (dg ! 7)) dg"
    and ps: "plist (udp_pcb_at (udp s)) (udp_pcbs (udp s)) ps"
  shows "\<exists>u. udp_input c p inp s = s_free c p (s\<lparr>udp := u\<rparr>) \<and> same_pcbs (udp s) u"
proof -
  obtain a b len d where dg: "dg = udp_hdr a b len (load_u16 (dg ! 6) (dg ! 7)) @ d"
    using udp_hdr_any [of dg] rxD(8) [OF r] by blast
  define chk where "chk = load_u16 (dg ! 6) (dg ! 7)"
  note dg = dg [folded chk_def] and bad = bad [folded chk_def]
  have r': "rx_packet (smem s) p xs (udp_hdr a b len chk @ d) 8" using r dg by simp
  have l': "length d + 20 < 65536" using l arg_cong [OF dg, of length] by simp
  obtain pcb u where u: "udp_find (key_of s inp a b) (udp s) = Some (pcb, u)" "same_pcbs (udp s) u"
    using udp_find_spec [OF ps] by blast
  have nn: "netif_at (snet s) (current_netif (ip_data s)) \<noteq> None" "netif_at (snet s) (current_input_netif (ip_data s)) \<noteq> None"
    using n g by (simp_all add: in_progress_def)
  have "udp_input c p inp s = s_free c p (s\<lparr>udp := u\<rparr>)"
    using udp_input_steps [OF r' l' f nn n(1) u(1)] bad dg g by (simp add: in_progress_def)
  then show ?thesis using u(2) by blast
qed

lemma frame_dropped_spec:
  assumes f: "chksum_routine (LWIP_CHKSUM c)" and g: "chksum_routine (LWIP_CHKSUM c')" and fl: "udp_flags b AND UDP_FLAGS_NOCHKSUM = 0"
    and dg: "dg = udp_out_hdr c b src dest dport d @ d" and l: "length d + 28 < 65536"
    and i: "i < length dg" "x \<noteq> dg ! i" "load_u16 (dg[i := x] ! 6) (dg[i := x] ! 7) \<noteq> 0"
    and h: "h = ip4_out_hdr tos (of_nat (length d + 28)) ident ttl IP_PROTO_UDP src dest"
    and r: "rx_packet (smem s) q ys (eth_header dst hw ETHTYPE_IP @ (h @ dg[i := x]) @ pad) 42" and mc: "may_cut (smem s) q ys pad"
    and t: "takes s inp src dest nif" and ps: "plist (udp_pcb_at (udp s)) (udp_pcbs (udp s)) ps"
    and hd: "held c' descs out sz (q # ys) (smem s)"
  shows "\<exists>s'. ethernet_input c' q inp s = Some (ERR_OK, s') \<and> sent (snet s') = sent (snet s) \<and> same_pcbs (udp s) (udp s') \<and>
    ip_data s' = no_packet \<and> mem_ok (spcfg c') descs (smem s') (given_back out sz (q # ys) (smem s))"
proof -
  let ?k = "udp_chk (LWIP_CHKSUM c) src dest (local_port b) dport d"
  have ld: "length dg = length d + 8" using dg by simp
  have dg67: "dg ! 6 = u16_bytes ?k ! 0" "dg ! 7 = u16_bytes ?k ! 1" using dg fl by (simp_all add: udp_out_hdr_def udp_hdr_def nth_append)
  obtain ulen chk where ok: "udp_out_hdr c b src dest dport d = udp_hdr (local_port b) dport ulen chk"
    "udp_sum_ok (LWIP_CHKSUM c') src dest chk (udp_hdr (local_port b) dport ulen chk @ d)"
    using sent_sums_ok(2) [OF f g, of d b src dest dport] l by auto
  have chk: "chk = load_u16 (dg ! 6) (dg ! 7)" using dg ok(1) by (simp add: udp_hdr_def nth_append load_u16_bytes [simplified])
  also have "\<dots> = ?k" unfolding dg67 by (rule load_u16_bytes)
  finally have nz: "chk \<noteq> 0" using udp_chk_nonzero by simp
  have bad: "\<not> udp_sum_ok (LWIP_CHKSUM c') src dest (load_u16 (dg[i := x] ! 6) (dg[i := x] ! 7)) (dg[i := x])"
    using changed_sum_bad [OF g, of src dest chk dg _ i x] ok dg nz i l ld by simp
  have lg: "length (dg[i := x]) + 20 = length d + 28" using ld by simp
  have sum: "inet_chksum (LWIP_CHKSUM c') 0 h = 0" unfolding h by (rule chksum_routine.ip4_out_hdr_verifies [OF g])
  obtain m iphdr where m: "ethernet_input c' q inp s = do {
      s \<leftarrow> udp_input c' q inp ((put_smem m s)\<lparr>ip_data := in_progress nif inp iphdr src dest\<rparr>);
      Some (ERR_OK, s\<lparr>ip_data := no_packet\<rparr>) }" "rx_packet m q ys (dg[i := x]) 8" "same_but q (smem s) m"
    using frame_to_udp [OF g r _ _ mc _ h [unfolded ip4_out_hdr_def, folded lg] sum t] lg ld l by auto
  let ?s = "(put_smem m s)\<lparr>ip_data := in_progress nif inp iphdr src dest\<rparr>"
  obtain n where n: "netif_at (snet s) inp = Some n" using t by (auto simp: takes_def split: option.splits)
  have nn: "netif_at (snet s) nif \<noteq> None" using t input_netif_at by (auto simp: takes_def split: option.splits)
  obtain u where u: "udp_input c' q inp ?s = s_free c' q (?s\<lparr>udp := u\<rparr>)" "same_pcbs (udp s) u"
    using udp_input_drops [OF g, of ?s q ys "dg[i := x]" nif inp iphdr src dest n ps] m(2) bad n nn ps ld l by auto
  let ?t = "?s\<lparr>udp := u\<rparr>"
  have "chain (pbufs (smem ?t)) q (q # ys)" "held c' descs out sz (q # ys) (smem ?t)"
    using m(2) hd held_same_but(1) [OF m(3)] by (simp_all add: rx_packet_def packet_def)
  then obtain m' where "s_free c' q ?t = Some (put_smem m' ?t)" "mem_ok (spcfg c') descs m' (given_back out sz (q # ys) (smem s))"
    using s_free_held [of c' descs out sz q ys ?t] held_same_but(2) [OF m(3)] by auto
  then show ?thesis using m(1) u by (simp add: put_smem_def put_mem_def)
qed

text \<open>
  C3: Damage to a UDP datagram is noticed.  When a datagram was sent with a checksum (the control block does not have the flag
  \<^verbatim>\<open>UDP_FLAGS_NOCHKSUM\<close>) and one byte of its UDP header or data has changed on the way, the receiving stack drops it, unless the
  change made the checksum field 0, the value that says that there is no checksum.  The IP header and the Ethernet header arrive
  as they were sent.  \<^verbatim>\<open>ethernet_input\<close> returns whatever the receive functions would do, sends nothing, keeps the control blocks,
  and gives the memory of the packet back.
\<close>

theorem udp_damage_dropped:
  assumes f: "chksum_routine (LWIP_CHKSUM c)" and g: "chksum_routine (LWIP_CHKSUM c')" and fl: "udp_flags b AND UDP_FLAGS_NOCHKSUM = 0"
    and dg: "dg = udp_out_hdr c b src dest dport d @ d" and l: "length d + 28 < 65536"
    and i: "i < length dg" "x \<noteq> dg ! i" "load_u16 (dg[i := x] ! 6) (dg[i := x] ! 7) \<noteq> 0"
    and h: "h = ip4_out_hdr tos (of_nat (length d + 28)) ident ttl IP_PROTO_UDP src dest"
    and r: "rx_packet (smem s) q ys (eth_header dst hw ETHTYPE_IP @ (h @ dg[i := x]) @ pad) 42" and mc: "may_cut (smem s) q ys pad"
    and t: "takes s inp src dest nif" and ps: "plist (udp_pcb_at (udp s)) (udp_pcbs (udp s)) ps"
    and hd: "held c' descs out sz (q # ys) (smem s)"
  shows "\<exists>s'. ethernet_input c' q inp s = Some (ERR_OK, s') \<and> sent (snet s') = sent (snet s) \<and> same_pcbs (udp s) (udp s') \<and>
    ip_data s' = no_packet \<and> mem_ok (spcfg c') descs (smem s') (given_back out sz (q # ys) (smem s))"
  using assms by (rule frame_dropped_spec)

theorem udp_damage_dropped_witness:
  "\<exists>fr s'. length fr = 46 \<and> ethernet_input demo_scfg 8192 100 (demo_rx fr) = Some (ERR_OK, s') \<and>
     sent (snet s') = [] \<and> mem_ok demo_pcfg demo_descs (smem s') (demo_out - {(2, 8192, 88)})"
proof -
  let ?dg = "udp_out_hdr demo_scfg demo_pcb (IP4_ADDR 192 168 0 1) demo_peer 7400 [1, 2, 3, 4] @ [1, 2, 3, 4]"
  let ?h = "ip4_out_hdr 0 (of_nat (length [1, 2, 3, 4 :: u8] + 28)) 3 255 IP_PROTO_UDP (IP4_ADDR 192 168 0 1) demo_peer"
  let ?fr = "eth_header demo_peer_eth (Eth_Addr 2 0 0 0 0 1) ETHTYPE_IP @ (?h @ ?dg[8 := 9]) @ []"
  have fl: "udp_flags demo_pcb AND UDP_FLAGS_NOCHKSUM = 0" by (simp add: demo_pcb_def zero_pcb_def)
  have rx: "rx_packet (smem (demo_rx ?fr)) 8192 [] ?fr 42" by (rule demo_rx_packet) simp_all
  have mc: "may_cut (smem (demo_rx ?fr)) 8192 [] []" by (simp add: may_cut_def)
  have ps: "plist (udp_pcb_at (udp (demo_rx ?fr))) (udp_pcbs (udp (demo_rx ?fr))) [16]"
    using demo_listens [of ?fr] by (simp only: listens_def)
  have b: "8 < length ?dg" "9 \<noteq> ?dg ! 8" "length [1, 2, 3, 4 :: u8] + 28 < 65536" by (simp_all add: nth_append)
  have z: "load_u16 (?dg[8 := 9] ! 6) (?dg[8 := 9] ! 7) \<noteq> 0"
    using udp_chk_nonzero fl by (simp add: udp_out_hdr_def udp_hdr_def nth_append load_u16_bytes [simplified])
  show ?thesis
    using udp_damage_dropped [OF demo_routine demo_routine fl refl b(3,1,2) z refl rx mc demo_takes ps demo_held] demo_given demo_rx_sent
    by (intro exI [of _ ?fr]) auto
qed

section \<open>Pings\<close>

definition demo_ping_entry :: etharp_entry where
  "demo_ping_entry = (demo_entry (IP4_ADDR 192 168 0 1) 5 ETHARP_STATE_STABLE)\<lparr>arp_eth := Eth_Addr 2 0 0 0 0 1\<rparr>"

definition demo_echo :: "u8 list" where
  "demo_echo = echo_msg ICMP_ECHO 0 0xf7f7 [0, 1, 0, 7]"

definition demo_ping :: "u8 list" where
  "demo_ping = ping_frame demo_peer_eth (Eth_Addr 2 0 0 0 0 1) 0 3 64
     (ip4_inline_chksum 64 IP_PROTO_ICMP 0x45 0 (lwip_htons 28) (lwip_htons 3) (IP4_ADDR 192 168 0 1) demo_peer) (IP4_ADDR 192 168 0 1) demo_peer demo_echo"

text \<open>The receiver knows the hardware address of the sender.\<close>

definition demo_pinged :: stack where
  "demo_pinged = (demo_rx demo_ping)\<lparr>arp := (arp (demo_rx demo_ping))\<lparr>arp_table := [demo_ping_entry, empty_entry]\<rparr>\<rparr>"

lemma length_demo_ping [simp]: "length demo_ping = 42" "length demo_echo = 8"
  by (simp_all add: demo_ping_def ping_frame_def demo_echo_def)

lemma demo_pinged_simps [simp]: "smem (demo_rx fr) = demo_rx_mem fr" "snet demo_pinged = snet (demo_rx demo_ping)" "udp demo_pinged = demo_udp"
  by (simp_all add: demo_pinged_def demo_rx_def)

lemma demo_pinged_table: "table_ok demo_acfg (arp demo_pinged)"
proof -
  have "\<not> ip4_addr_isany_val (IP4_ADDR 192 168 0 1)" "\<not> ip4_addr_ismulticast (IP4_ADDR 192 168 0 1)" by code_simp+
  then have "entry_ok demo_acfg demo_ping_entry" by (simp add: entry_ok_def demo_ping_entry_def demo_entry_def demo_acfg_def)
  moreover have "entry_ok demo_acfg empty_entry" by (simp add: entry_ok_def empty_entry_def)
  ultimately have "\<forall>i<2. entry_ok demo_acfg (arp_table (arp demo_pinged) ! i)" by (auto simp: less_2_cases_iff demo_pinged_def)
  moreover have "distinct_keys (arp_table (arp demo_pinged))" unfolding demo_pinged_def
    by (simp, rule distinct_keys_two) (simp add: empty_entry_def)
  ultimately show ?thesis using demo_acfg_ok by (simp add: table_ok_def demo_pinged_def demo_rx_def demo_acfg_def)
qed

lemma demo_pinged_link: "link_dest demo_acfg 100 (IP4_ADDR 192 168 0 1) (arp demo_pinged) (Eth_Addr 2 0 0 0 0 1)"
proof -
  have "ip4_addr_netcmp (IP4_ADDR 192 168 0 1) (ip_addr demo_rx_nif) (netmask demo_rx_nif)" "\<not> ip4_addr_isbroadcast_u32 (IP4_ADDR 192 168 0 1) demo_rx_nif"
    "\<not> ip4_addr_ismulticast (IP4_ADDR 192 168 0 1)" "\<not> ip4_addr_isany_val (IP4_ADDR 192 168 0 1)" by code_simp+
  then show ?thesis
    by (simp add: link_dest_def next_hop_def outside_net_def demo_pinged_def demo_rx_def netif_at_def demo_ping_entry_def stable_match_def fresh_entry_def demo_entry_def
        ARP_AGE_REREQUEST_USED_UNICAST_def demo_acfg_def)
qed

lemma demo_pinged_answers: "answers demo_scfg demo_pinged 8192 [] 100 demo_rx_nif (Eth_Addr 2 0 0 0 0 7) (IP4_ADDR 192 168 0 1) (Eth_Addr 2 0 0 0 0 1) 8"
proof -
  have "head_room demo_pcfg (demo_rx_mem demo_ping) 8192 [] 0 38"
    by (simp add: head_room_def demo_rx_mem_def demo_sizes PBUF_TYPE_FLAG_STRUCT_DATA_CONTIGUOUS_def clear_of_def)
  moreover have "pb_ref (the (pbufs (demo_rx_mem demo_ping) 8192)) = 1" by (simp add: demo_rx_mem_def)
  moreover have "ether_ready demo_pinged 100 demo_rx_nif (Eth_Addr 2 0 0 0 0 7)"
    by (simp add: ether_ready_def demo_rx_def netif_at_def demo_rx_nif_def demo_nif_def)
  ultimately show ?thesis using demo_pinged_table demo_pinged_link
    by (simp add: answers_def PBUF_LINK_def demo_pcfg_def demo_rx_nif_def demo_nif_def)
qed

text \<open>
  C8: Pings are answered.  When an intact echo request for an address of the host arrives from a resolved neighbour, \<^verbatim>\<open>ethernet_input\<close>
  returns, exactly one frame has been sent, back to the sender: with the addresses exchanged, with the same data, and with two
  checksums that verify, although that of the message is only adjusted.  The memory of the request is given back.
\<close>

theorem ping_answered:
  assumes f: "chksum_routine (LWIP_CHKSUM c)" and e: "e = echo_msg ICMP_ECHO code ck d" "4 \<le> length d"
    and r: "rx_packet (smem s) p xs (ping_frame to from tos ident ttl ick src dest e @ pad) 38" and mc: "may_cut (smem s) p xs pad"
    and sum: "inet_chksum (LWIP_CHKSUM c) 0 (ip4_hdr tos (of_nat (length e + 20)) ident 0 ttl IP_PROTO_ICMP ick src dest) = 0"
      "inet_chksum (LWIP_CHKSUM c) 0 e = 0"
    and t: "takes s inp src dest nif"
    and i: "netif_at (snet s) nif = Some i" "\<not> ip4_addr_isbroadcast_u32 dest i" "\<not> ip4_addr_ismulticast dest"
    and an: "answers c s p xs inp n hw src dst (length e)" and hd: "held c descs out sz (p # xs) (smem s)"
    and re: "e' = echo_msg ICMP_ER code (icmp_adjust_chksum ck) d"
    and h: "h = ip4_out_hdr tos (of_nat (length e + 20)) ident ICMP_TTL IP_PROTO_ICMP dest src"
  shows "(\<exists>s'. ethernet_input c p inp s = Some (ERR_OK, s') \<and> udp s' = udp s \<and> ip_data s' = no_packet \<and>
      sent (snet s') = sent (snet s) @ [(inp, eth_header dst hw ETHTYPE_IP @ h @ e')] \<and>
      mem_ok (spcfg c) descs (smem s') (given_back out sz (p # xs) (smem s))) \<and>
    inet_chksum (LWIP_CHKSUM c) 0 e' = 0 \<and> inet_chksum (LWIP_CHKSUM c) 0 h = 0"
  using ping_spec [OF f e r mc sum t i an hd re refl] h chksum_routine.ip4_out_hdr_verifies [OF f] by auto

theorem ping_answered_witness:
  "\<exists>s'. ethernet_input demo_scfg 8192 100 demo_pinged = Some (ERR_OK, s') \<and>
     sent (snet s') = [(100, eth_header (Eth_Addr 2 0 0 0 0 1) (Eth_Addr 2 0 0 0 0 7) ETHTYPE_IP @
       ip4_out_hdr 0 28 3 255 IP_PROTO_ICMP demo_peer (IP4_ADDR 192 168 0 1) @ [0, 0, 0xff, 0xf7, 0, 1, 0, 7])] \<and>
     mem_ok demo_pcfg demo_descs (smem s') (demo_out - {(2, 8192, 88)})"
proof -
  have e: "demo_echo = echo_msg ICMP_ECHO 0 0xf7f7 [0, 1, 0, 7]" "4 \<le> length [0, 1, 0, 7 :: u8]" by (simp_all add: demo_echo_def)
  have sum: "inet_chksum (LWIP_CHKSUM demo_scfg) 0 demo_echo = 0" unfolding demo_scfg_def by code_simp
  have hs: "inet_chksum (LWIP_CHKSUM demo_scfg) 0 (ip4_hdr 0 (of_nat (length demo_echo + 20)) 3 0 64 IP_PROTO_ICMP
      (ip4_inline_chksum 64 IP_PROTO_ICMP 0x45 0 (lwip_htons 28) (lwip_htons 3) (IP4_ADDR 192 168 0 1) demo_peer) (IP4_ADDR 192 168 0 1) demo_peer) = 0"
    using chksum_routine.ip4_out_hdr_verifies [OF demo_routine, of 0 0 28 3 64 IP_PROTO_ICMP "IP4_ADDR 192 168 0 1" demo_peer]
    by (simp add: ip4_out_hdr_def)
  have rx: "rx_packet (smem demo_pinged) 8192 [] (demo_ping @ []) 38" using rx_weaken [OF demo_rx_packet [of demo_ping]] by simp
  have mc: "may_cut (smem demo_pinged) 8192 [] []" by (simp add: may_cut_def)
  have t: "takes demo_pinged 100 (IP4_ADDR 192 168 0 1) demo_peer 100" using demo_takes [of demo_ping] unfolding takes_def demo_pinged_simps(2) .
  have i: "netif_at (snet demo_pinged) 100 = Some demo_rx_nif" "\<not> ip4_addr_isbroadcast_u32 demo_peer demo_rx_nif" "\<not> ip4_addr_ismulticast demo_peer"
    using demo_peer_unicast by (simp add: demo_rx_def netif_at_def, code_simp, simp)
  have hd: "held demo_scfg demo_descs demo_out (\<lambda>_. 88) [8192] (smem demo_pinged)" using demo_held [of demo_ping] by simp
  have re: "echo_msg ICMP_ER 0 (icmp_adjust_chksum 0xf7f7) [0, 1, 0, 7] = [0, 0, 0xff, 0xf7, 0, 1, 0, 7]" by code_simp
  have an: "answers demo_scfg demo_pinged 8192 [] 100 demo_rx_nif (Eth_Addr 2 0 0 0 0 7) (IP4_ADDR 192 168 0 1) (Eth_Addr 2 0 0 0 0 1) (length demo_echo)"
    using demo_pinged_answers by simp
  show ?thesis
    using ping_answered [OF demo_routine e rx [unfolded demo_ping_def] mc hs sum t i an hd refl refl]
      demo_given [of demo_out demo_ping] demo_rx_sent [of demo_ping] re
    by (auto simp: ICMP_TTL_def)
qed

end
