(* ===== verification/Spec2Isabelle.thy ===== *)
theory Spec2Isabelle
  imports Lwip_Def Inet_Chksum_Pbuf Ip4_Addr Mem Memp Pbuf_Copy Timeouts Sys_Arch Etharp_Props Udp_Pcb Stack_Props
begin

text \<open>
  A model of the C sources of this repository: the lwIP TCP/IP stack under \<^verbatim>\<open>src/lwip/src\<close> and its Unix port under
  \<^verbatim>\<open>src/contrib/ports/unix\<close>.  The embeddedRTPS library itself and its configuration \<^verbatim>\<open>lwipopts.h\<close> are submodules that
  are not part of the tree; configuration is a parameter or has the default of \<^verbatim>\<open>lwip/src/include/lwip/opt.h\<close>, with these
  exceptions:
  \<^item> \<^verbatim>\<open>LWIP_NETIF_TX_SINGLE_PBUF\<close> is 1 and \<^verbatim>\<open>IP_REASSEMBLY\<close> is 0, which decide what \<^verbatim>\<open>ip4_frag\<close> and \<^verbatim>\<open>ip4_input\<close> do with fragments;
  \<^item> \<^verbatim>\<open>ETHARP_SUPPORT_STATIC_ENTRIES\<close> is 1, so that the ARP table has static entries;
  \<^item> \<^verbatim>\<open>LWIP_TCP\<close> is 0 in the protocol switch of \<^verbatim>\<open>ip4_input\<close>, where a TCP segment is an unknown protocol; the TCP timer of
    \<^verbatim>\<open>timeouts.c\<close> is modelled, with the functions of \<^verbatim>\<open>tcp.c\<close> that it calls as parameters;
  \<^item> the datatype of the pools names the pools of all IPv4 modules, whether or not the options enable them.

  \<^verbatim>\<open>SO_REUSE\<close> has its default 0: two control blocks can not be bound to the same address and port.  The file
  \<^verbatim>\<open>contrib/ports/unix/lib/lwipopts.h\<close>, which sets it to 1, is the configuration of a sample program of the port.

  \<^bold>\<open>The program.\<close>  RTPS sends and receives UDP datagrams through lwIP.  Every packet is a chain of packet buffers
  (\<^verbatim>\<open>pbuf.c\<close>), whose memory comes from the heap (\<^verbatim>\<open>mem.c\<close>) or from pools of fixed-size elements (\<^verbatim>\<open>memp.c\<close>).  The layers
  put headers in front of the data and protect them by the Internet checksum (\<^verbatim>\<open>inet_chksum.c\<close>): \<^verbatim>\<open>udp.c\<close> the ports, \<^verbatim>\<open>ip4.c\<close>
  the addresses, fragmenting what is too long (\<^verbatim>\<open>ip4_frag.c\<close>).  Routing chooses an
  interface (\<^verbatim>\<open>ip4.c\<close>, \<^verbatim>\<open>ip4_addr.c\<close>), ARP finds the hardware address of the next hop (\<^verbatim>\<open>etharp.c\<close>), and
  \<^verbatim>\<open>ethernet.c\<close> hands the frame to the driver.  A received frame takes the same way back; \<^verbatim>\<open>udp.c\<close> finds the control block that it
  is for and calls its receive function, and \<^verbatim>\<open>icmp.c\<close> answers pings and reports what could not be delivered.
  Timers (\<^verbatim>\<open>timeouts.c\<close>) age the tables.  The threads of the application reach the stack through the mailboxes of the port (\<^verbatim>\<open>sys_arch.c\<close>).

  \<^bold>\<open>Conventions.\<close>  A C function becomes a HOL function with the name of the C function.  State is passed explicitly in a
  record.  A result of type \<^typ>\<open>'a option\<close> is \<^term>\<open>None\<close> when the call does not return: an assertion fails, memory that
  does not exist is accessed, or a loop runs forever.  Error codes and \<^verbatim>\<open>NULL\<close>, which is 0, are ordinary results.  So a
  theorem of the form \<open>\<exists>s'. f s = Some s' \<and> \<dots>\<close> contains that the call returns, that its assertions hold and that it stays
  within its memory.  Loops over data of unknown shape, such as linked lists, are \<^theory_text>\<open>partial_function (option)\<close>: no
  fuel is chosen anywhere, and that the loops end is proved under the well-formedness of the data.  Lengths are natural
  numbers with the conversions of C to 8, 16 and 32 bits written out; values that are used bitwise are words.
  Addresses are natural numbers; bytes and C structs live in separate maps from addresses, so that a struct and the
  bytes it consists of are not both accessible.  The host is little-endian.

  \<^bold>\<open>Theories.\<close>
  \<^item> \<open>Lwip_Prelude\<close>: integer types, error codes of \<^verbatim>\<open>err.h\<close>, assertions, byte memory, C strings, and the lemmas on them
    that all other theories share.
  \<^item> \<open>Lwip_Def\<close>: \<^verbatim>\<open>def.c\<close>.  Byte order conversion is an involution, the string functions compute what their reference
    definitions say, \<^verbatim>\<open>lwip_itoa\<close> prints the decimal number or fails within the buffer.
  \<^item> \<open>Inet_Chksum\<close>, \<open>Inet_Chksum_Pbuf\<close>: \<^verbatim>\<open>inet_chksum.c\<close>.  The three versions of the summing routine implement the
    interface \<open>chksum_routine\<close>, the one's complement sum of the byte pairs; on top of it the checksum of a chain is shown
    to be that of the concatenated data, pseudo header included, however the data is cut into pbufs; an inserted
    checksum verifies, and a change of one byte is detected.
  \<^item> \<open>Ip4_Addr\<close>: \<^verbatim>\<open>ip4_addr.c\<close> with the address macros.  Printing and parsing an address are inverse, netmasks and
    broadcast addresses are characterised, printing stays in its buffer.
  \<^item> \<open>Mem\<close>: \<^verbatim>\<open>mem.c\<close>.  The heap is a list of blocks without two adjacent free ones; \<^verbatim>\<open>mem_malloc\<close>, \<^verbatim>\<open>mem_free\<close> and
    \<^verbatim>\<open>mem_trim\<close> preserve this, refine an abstract set of allocated areas (interface \<open>allocator\<close>), and a double free is
    detected.
  \<^item> \<open>Memp\<close>: \<^verbatim>\<open>memp.c\<close>.  A pool is its free list; it implements the same interface.
  \<^item> \<open>Pbuf\<close>, \<open>Pbuf_Alloc\<close>, \<open>Pbuf_Chain\<close>, \<open>Pbuf_Data\<close>, \<open>Pbuf_Copy\<close>: \<^verbatim>\<open>pbuf.c\<close>.  \<open>mem_ok\<close> relates the heap and the pools to the set
    of areas that are handed out.  Allocation takes from this set and freeing gives back to it, by reference counts;
    the operations on chains are shown to implement operations on byte lists.
  \<^item> \<open>Timeouts\<close>: \<^verbatim>\<open>timeouts.c\<close>.  The list stays ordered under times that wrap around; due timers run, in order, and no
    others; the timers that handlers set while they run are put in their place.  The handlers are a parameter of the
    definitions and may do anything to the timers; the theorem is about handlers that set at most one timer each.
  \<^item> \<open>Sys_Arch\<close>: semaphores, mailboxes and critical sections of \<^verbatim>\<open>sys_arch.c\<close>.  The mailbox is a bounded queue (interface
    \<open>bounded_queue\<close>) under every interleaving of the steps of its threads.  With a single fetching thread no wakeup is
    lost; with two, one can be, and the counters overflow in the end.
  \<^item> \<open>Ethernet\<close>: the list of interfaces, \<^verbatim>\<open>ip4_route\<close> and \<^verbatim>\<open>ethernet_output\<close>.  The frames given to the driver are
    recorded in the state; the driver is a parameter.
  \<^item> \<open>Etharp\<close>, \<open>Etharp_Table\<close>, \<open>Etharp_Steps\<close>, \<open>Etharp_Frames\<close>, \<open>Etharp_Props\<close>: \<^verbatim>\<open>etharp.c\<close>, all functions.  \<open>Etharp_Table\<close>
    treats the search and the choice of an entry to recycle, \<open>Etharp_Steps\<close> the transition system of all operations with
    its invariant, \<open>Etharp_Frames\<close> the packets on the wire and ageing, with the packets that wait for an address.  Allocation, header space, byte order, framing and
    freeing are composed here: that an ARP request is answered rests on the theorems about \<^verbatim>\<open>pbuf.c\<close> and \<^verbatim>\<open>mem.c\<close>.
  \<^item> \<open>Udp_Pcb\<close>: the control blocks of \<^verbatim>\<open>udp.c\<close>, their list and the ports.  Every legal sequence of calls returns and
    keeps the list free of cycles and of removed blocks; a bind is refused exactly when the address and port clash.
  \<^item> \<open>Ip4\<close>, \<open>Ip4_Output\<close>: sending by \<^verbatim>\<open>ip4.c\<close> and \<^verbatim>\<open>ip4_frag.c\<close>, and the state \<open>stack\<close> of all layers together.  The header is
    computed field by field as in the code; its checksum verifies, and a packet for a resolved neighbour leaves as one frame
    whose bytes are given.
  \<^item> \<open>Udp_Output\<close>: sending by \<^verbatim>\<open>udp.c\<close>, from \<^verbatim>\<open>udp_send\<close> down to IP.  The datagram on the wire is given byte by byte, and its
    checksum, which is never 0, verifies with the pseudo header.
  \<^item> \<open>Ip4_Input\<close>: \<^verbatim>\<open>ethernet_input\<close>, \<^verbatim>\<open>ip4_input\<close>, \<^verbatim>\<open>udp_input\<close> and \<^verbatim>\<open>icmp.c\<close>; the receive functions of the application are the
    parameter \<open>recv_fn\<close>.
  \<^item> \<open>Ip4_Receive\<close>: what the search for a control block chooses, and what becomes of a frame with an intact datagram.
  \<^item> \<open>Icmp_Echo\<close>: the stores that turn an echo request into the reply, its adjusted checksum, and the way of a ping from
    \<^verbatim>\<open>ethernet_input\<close> to the driver and of its memory back to the pool.
  \<^item> \<open>Stack_Props\<close>: what one stack sends with \<^verbatim>\<open>udp_sendto\<close> another receives with \<^verbatim>\<open>ethernet_input\<close>, whatever versions of the
    checksum routine they use; a datagram goes to the right control block, a damaged one is freed, and a ping is answered.

  \<^bold>\<open>Bounds.\<close>  Sizes are arbitrary within what the configuration checks of the stack require (\<open>mem_cfg_ok\<close>, \<open>pbuf_cfg_ok\<close>,
  \<open>arp_cfg_ok\<close>); the small configurations and memories named \<open>demo\<close> show that these conditions can be met.

  \<^bold>\<open>Not modelled.\<close>  Statistics, debug output and the SNMP counters have no effect on the results.  Options that are off in
  \<^verbatim>\<open>opt.h\<close> are left out: IPv6, PPP, DHCP, AutoIP, DNS, SLIP, 6LoWPAN, bridging, and the
  applications.  Of IP, reassembly, forwarding, options to
  send and group management are left out; a received fragment is dropped, as in a build without reassembly.  Of \<^verbatim>\<open>ip4_frag\<close>
  and the unreachable messages of ICMP only the definitions are given.  TCP is not used by RTPS.  The pthread library and the devices behind the drivers are
  outside of the sources.  Memory is modelled at the level of C objects: padding, and the reuse of one object as another type,
  are not visible.
\<close>

end
